(* ===== verification/Prelude.thy ===== *)
theory Prelude
  imports Main "HOL-Library.AList" "HOL-Library.Multiset"
begin

text \<open>
  Shared vocabulary of the development: the exceptions the modelled Python raises, the
  result type of code that may raise, insertion-ordered dictionaries as association lists
  (\<^const>\<open>AList.update\<close> overwrites in place and appends a new key, which is what a Python
  dictionary does), Python sets as lists without duplicates in some iteration order, and
  the lemmas on them that the component theories share.
\<close>

named_theorems pydict \<open>lookup after dictionary updates\<close>
named_theorems pyset \<open>membership in sets kept as duplicate-free lists\<close>
named_theorems result_simps \<open>the exception monad\<close>

subsection \<open>Exceptions\<close>

datatype py_error =
    KeyError | ValueError | AttributeError | IndexError | TypeError
  | VersionStringException | NotFoundError
  | RegexError | NoProvider string | NoRProvider string | MultipleRProvider string
  | OSError | Fatal
  | SelfReference string | ExpansionError "string list" | SyntaxError string | SkipRecipe | ParseError

type_synonym 'a result = "py_error + 'a"

definition bindE :: "'e + 'a \<Rightarrow> ('a \<Rightarrow> 'e + 'b) \<Rightarrow> 'e + 'b" where
  "bindE m f = (case m of Inl e \<Rightarrow> Inl e | Inr x \<Rightarrow> f x)"

lemma bindE_simps [simp, result_simps]:
  "bindE (Inl e) f = Inl e"
  "bindE (Inr x) f = f x"
  by (simp_all add: bindE_def)

lemma bindE_Inr_iff [result_simps]:
  "bindE m f = Inr y \<longleftrightarrow> (\<exists>x. m = Inr x \<and> f x = Inr y)"
  by (cases m) auto

lemma bindE_ex: "\<exists>x. m = Inr x \<Longrightarrow> (\<And>x. \<exists>y. f x = Inr y) \<Longrightarrow> \<exists>y. bindE m f = Inr y"
  by auto

lemma bindE_cong [fundef_cong]:
  "m = m' \<Longrightarrow> (\<And>x. m' = Inr x \<Longrightarrow> f x = g x) \<Longrightarrow> bindE m f = bindE m' g"
  by (cases m') auto

lemma not_isl: "\<not> isl r \<longleftrightarrow> (\<exists>x. r = Inr x)"
  by (cases r) auto

text \<open>A loop \<open>for x in xs\<close> whose body may raise: the first exception ends it.\<close>

fun foldE :: "('a \<Rightarrow> 's \<Rightarrow> 'e + 's) \<Rightarrow> 'a list \<Rightarrow> 's \<Rightarrow> 'e + 's" where
  "foldE f [] s = Inr s"
| "foldE f (x # xs) s = bindE (f x s) (foldE f xs)"

lemma foldE_append: "foldE f (xs @ ys) s = bindE (foldE f xs s) (foldE f ys)"
proof (induction xs arbitrary: s)
  case (Cons x xs)
  then show ?case by (cases "f x s") auto
qed simp

lemma foldE_invariant:
  assumes "foldE f xs s = Inr s'" and "P s"
    and "\<And>x a b. x \<in> set xs \<Longrightarrow> P a \<Longrightarrow> f x a = Inr b \<Longrightarrow> P b"
  shows "P s'"
  using assms
proof (induction xs arbitrary: s)
  case (Cons x xs)
  from Cons.prems(1) obtain b where b: "f x s = Inr b" "foldE f xs b = Inr s'"
    by (auto simp: bindE_Inr_iff)
  have "P b" by (rule Cons.prems(3) [OF _ Cons.prems(2) b(1)]) simp
  then show ?case by (rule Cons.IH [OF b(2)]) (rule Cons.prems(3), auto)
qed simp

lemma foldE_total:
  assumes "\<And>x s. x \<in> set xs \<Longrightarrow> f x s = Inr (g x s)"
  shows "foldE f xs s = Inr (fold g xs s)"
  using assms by (induction xs arbitrary: s) auto

lemma fold_concat_map: "fold f (concat (map h xs)) s = fold (\<lambda>x. fold f (h x)) xs s"
  by (induction xs arbitrary: s) auto

lemma fold_invariant':
  assumes "P s" and "\<And>x a. x \<in> set xs \<Longrightarrow> P a \<Longrightarrow> P (f x a)"
  shows "P (fold f xs s)"
  using assms by (induction xs arbitrary: s) auto

lemma concat_map_concat: "concat (map f (concat xss)) = concat (map (\<lambda>xs. concat (map f xs)) xss)"
  by (induction xss) auto

subsection \<open>Positions in lists\<close>

fun index_of :: "'a \<Rightarrow> 'a list \<Rightarrow> nat" where
  "index_of x [] = 0"
| "index_of x (y # ys) = (if y = x then 0 else Suc (index_of x ys))"

text \<open>\<open>xs.index(x)\<close>.\<close>

definition py_index :: "'a list \<Rightarrow> 'a \<Rightarrow> nat result" where
  "py_index xs x = (if x \<in> set xs then Inr (index_of x xs) else Inl ValueError)"

lemma index_of_less: "x \<in> set xs \<Longrightarrow> index_of x xs < length xs"
  by (induction xs) auto

lemma index_of_nth: "x \<in> set xs \<Longrightarrow> xs ! index_of x xs = x"
  by (induction xs) auto

lemma index_of_inj: "x \<in> set xs \<Longrightarrow> y \<in> set xs \<Longrightarrow> index_of x xs = index_of y xs \<longleftrightarrow> x = y"
  by (metis index_of_nth)

lemma index_of_append:
  "index_of x (xs @ ys) = (if x \<in> set xs then index_of x xs else length xs + index_of x ys)"
  by (induction xs) auto

lemma index_of_map_inj: "inj f \<Longrightarrow> index_of (f x) (map f xs) = index_of x xs"
  by (induction xs) (auto simp: inj_eq)

subsection \<open>Dictionaries\<close>

type_synonym ('k, 'v) dict = "('k \<times> 'v) list"

abbreviation dict_set :: "'k \<Rightarrow> 'v \<Rightarrow> ('k, 'v) dict \<Rightarrow> ('k, 'v) dict" where
  "dict_set \<equiv> AList.update"

abbreviation dict_del :: "'k \<Rightarrow> ('k, 'v) dict \<Rightarrow> ('k, 'v) dict" where
  "dict_del \<equiv> AList.delete"

abbreviation dict_keys :: "('k, 'v) dict \<Rightarrow> 'k list" where
  "dict_keys d \<equiv> map fst d"

definition dict_get :: "('k, 'v) dict \<Rightarrow> 'k \<Rightarrow> 'v result" where
  "dict_get d k = (case map_of d k of None \<Rightarrow> Inl KeyError | Some v \<Rightarrow> Inr v)"

definition dict_get_or :: "'v \<Rightarrow> ('k, 'v) dict \<Rightarrow> 'k \<Rightarrow> 'v" where
  "dict_get_or x d k = (case map_of d k of None \<Rightarrow> x | Some v \<Rightarrow> v)"

lemma map_of_dict_set [simp, pydict]:
  "map_of (dict_set k v d) k' = (if k' = k then Some v else map_of d k')"
  by (simp add: update_conv')

lemma map_of_dict_del [simp, pydict]:
  "map_of (dict_del k d) k' = (if k' = k then None else map_of d k')"
  by (simp add: delete_conv')

lemma map_of_map_values: "map_of (map (\<lambda>(k, v). (k, f k v)) d) k = map_option (f k) (map_of d k)"
  by (induction d) auto

lemma dict_get_Inr_iff [pydict]: "dict_get d k = Inr v \<longleftrightarrow> map_of d k = Some v"
  by (simp add: dict_get_def split: option.split)

lemma dict_get_or_set [simp, pydict]:
  "dict_get_or x (dict_set k v d) k' = (if k' = k then v else dict_get_or x d k')"
  by (simp add: dict_get_or_def)

lemma dict_keys_set [simp, pydict]: "set (dict_keys (dict_set k v d)) = insert k (set (dict_keys d))"
  by (metis Un_insert_right boolean_algebra.disj_zero_right dom_map_of_conv_image_fst dom_fun_upd
      image_set insert_is_Un option.discI update_conv')

definition set_add :: "'a \<Rightarrow> 'a list \<Rightarrow> 'a list" where
  "set_add x xs = (if x \<in> set xs then xs else xs @ [x])"

text \<open>\<open>d[k].append(x)\<close> on a \<open>defaultdict(list)\<close>, and the same unless \<open>x\<close> is already there.\<close>

definition dd_append :: "'k \<Rightarrow> 'a \<Rightarrow> ('k, 'a list) dict \<Rightarrow> ('k, 'a list) dict" where
  "dd_append k x d = dict_set k (dict_get_or [] d k @ [x]) d"

definition dd_add :: "'k \<Rightarrow> 'a \<Rightarrow> ('k, 'a list) dict \<Rightarrow> ('k, 'a list) dict" where
  "dd_add k x d = (if x \<in> set (dict_get_or [] d k) then d else dd_append k x d)"

lemma dict_get_or_dd_append [simp, pydict]:
  "dict_get_or [] (dd_append k x d) k' = (if k' = k then dict_get_or [] d k @ [x] else dict_get_or [] d k')"
  by (simp add: dd_append_def)

lemma dict_get_or_dd_add [simp, pydict]:
  "dict_get_or [] (dd_add k x d) k' = (if k' = k then set_add x (dict_get_or [] d k) else dict_get_or [] d k')"
  by (simp add: dd_add_def set_add_def)

lemma dict_set_same_keys: "k \<in> set (dict_keys d) \<Longrightarrow> dict_keys (dict_set k v d) = dict_keys d"
  by (induction d) auto

lemma dict_set_new_key: "k \<notin> set (dict_keys d) \<Longrightarrow> dict_set k v d = d @ [(k, v)]"
  by (induction d) auto

lemma distinct_dict_set [simp, pydict]:
  "distinct (dict_keys d) \<Longrightarrow> distinct (dict_keys (dict_set k v d))"
  by (rule distinct_update)

lemma map_of_in_keys: "map_of d k = Some v \<Longrightarrow> k \<in> set (dict_keys d)"
  by (metis domI dom_map_of_conv_image_fst image_set)

lemma map_of_None_iff: "map_of d k = None \<longleftrightarrow> k \<notin> set (dict_keys d)"
  by (simp add: map_of_eq_None_iff)

subsection \<open>Sets in iteration order\<close>

definition set_union :: "'a list \<Rightarrow> 'a list \<Rightarrow> 'a list" where
  "set_union xs ys = fold set_add ys xs"

definition set_diff :: "'a list \<Rightarrow> 'a list \<Rightarrow> 'a list" where
  "set_diff xs ys = filter (\<lambda>x. x \<notin> set ys) xs"

definition set_inter :: "'a list \<Rightarrow> 'a list \<Rightarrow> 'a list" where
  "set_inter xs ys = filter (\<lambda>x. x \<in> set ys) xs"

lemma set_set_add [simp, pyset]: "set (set_add x xs) = insert x (set xs)"
  by (auto simp: set_add_def)

lemma distinct_set_add [simp, pyset]: "distinct (set_add x xs) = distinct xs"
  by (auto simp: set_add_def)

lemma set_set_union [simp, pyset]: "set (set_union xs ys) = set xs \<union> set ys"
  unfolding set_union_def by (induction ys arbitrary: xs) auto

lemma distinct_set_union [simp, pyset]: "distinct (set_union xs ys) = distinct xs"
  unfolding set_union_def by (induction ys arbitrary: xs) auto

lemma set_set_diff [simp, pyset]: "set (set_diff xs ys) = set xs - set ys"
  by (auto simp: set_diff_def)

lemma set_set_inter [simp, pyset]: "set (set_inter xs ys) = set xs \<inter> set ys"
  by (auto simp: set_inter_def)

lemma distinct_set_diff [simp, pyset]: "distinct xs \<Longrightarrow> distinct (set_diff xs ys)"
  by (simp add: set_diff_def)

lemma distinct_set_inter [simp, pyset]: "distinct xs \<Longrightarrow> distinct (set_inter xs ys)"
  by (simp add: set_inter_def)

subsection \<open>Sorting into buckets\<close>

lemma concat_buckets_filter:
  assumes "distinct ws"
  shows "filter (\<lambda>x. f x = k) (concat (map (\<lambda>w. filter (\<lambda>x. f x = w) xs) ws)) =
    (if k \<in> set ws then filter (\<lambda>x. f x = k) xs else [])"
  using assms
proof (induction ws)
  case (Cons w ws)
  have "filter (\<lambda>x. f x = k) (filter (\<lambda>x. f x = w) xs) = (if k = w then filter (\<lambda>x. f x = k) xs else [])"
    by (induction xs) auto
  with Cons show ?case by auto
qed simp

lemma concat_buckets_mset:
  fixes f :: "'a \<Rightarrow> 'b"
  assumes "distinct ws" and "set ws = f ` set xs"
  shows "mset (concat (map (\<lambda>w. filter (\<lambda>x. f x = w) xs) ws)) = mset xs"
proof (rule multiset_eqI)
  fix x
  let ?ys = "concat (map (\<lambda>w. filter (\<lambda>x. f x = w) xs) ws)"
  have c: "count (mset zs) x = count (mset (filter (\<lambda>y. f y = f x) zs)) x" for zs :: "'a list"
    by (induction zs) auto
  have "filter (\<lambda>y. f y = f x) xs = []" if "f x \<notin> set ws"
    using assms(2) that by (simp add: filter_empty_conv) (metis imageI)
  then have "filter (\<lambda>y. f y = f x) ?ys = filter (\<lambda>y. f y = f x) xs"
    using concat_buckets_filter [OF assms(1), of f "f x" xs] by simp
  then show "count (mset ?ys) x = count (mset xs) x" by (metis c)
qed

lemma concat_buckets_sort:
  fixes f :: "'a \<Rightarrow> 'b :: linorder"
  assumes "distinct ws" and "sorted ws" and "set ws = f ` set xs"
  shows "concat (map (\<lambda>w. filter (\<lambda>x. f x = w) xs) ws) = sort_key f xs"
proof (rule properties_for_sort_key [symmetric])
  let ?ys = "concat (map (\<lambda>w. filter (\<lambda>x. f x = w) xs) ws)"
  have fil: "filter (\<lambda>x. f x = k) ?ys = filter (\<lambda>x. f x = k) xs" for k
  proof -
    have "filter (\<lambda>x. f x = k) xs = []" if "k \<notin> set ws"
      using assms(3) that by (auto simp: filter_empty_conv)
    then show ?thesis using concat_buckets_filter [OF assms(1), of f k xs] by simp
  qed
  show "mset ?ys = mset xs" using assms(1,3) by (rule concat_buckets_mset)
  show "filter (\<lambda>x. f k = f x) ?ys = filter (\<lambda>x. f k = f x) xs" if "k \<in> set ?ys" for k
    using fil [of "f k"] by (simp add: eq_commute)
  show "sorted (map f ?ys)"
    using assms(2)
  proof (induction ws)
    case (Cons w ws)
    have "map f (filter (\<lambda>x. f x = w) xs) = replicate (length (filter (\<lambda>x. f x = w) xs)) w"
      by (induction xs) auto
    with Cons show ?case by (auto simp: sorted_append)
  qed simp
qed

lemma fst_set_keys: "fst ` set (dict_set k v d) = insert k (fst ` set d)"
  using dict_keys_set [of k v d] by simp

lemma dict_get_or_missing: "k \<notin> fst ` set d \<Longrightarrow> dict_get_or x d k = x"
  using map_of_None_iff [of d k] by (simp add: dict_get_or_def)

lemma fold_dd_append:
  shows "distinct (dict_keys d) \<Longrightarrow> distinct (dict_keys (fold (\<lambda>x. dd_append (k x) x) xs d))"
    and "fst ` set (fold (\<lambda>x. dd_append (k x) x) xs d) = fst ` set d \<union> k ` set xs"
    and "dict_get_or [] (fold (\<lambda>x. dd_append (k x) x) xs d) q = dict_get_or [] d q @ filter (\<lambda>x. k x = q) xs"
  by (induction xs arbitrary: d) (simp_all add: dd_append_def fst_set_keys)

text \<open>Collecting by key and concatenating in key order is a stable sort.\<close>

lemma bucket_sort:
  fixes k :: "'a \<Rightarrow> 'b :: linorder"
  defines "d \<equiv> \<lambda>xs. fold (\<lambda>x. dd_append (k x) x) xs []"
  shows "concat (map (dict_get_or [] (d xs)) (sort (dict_keys (d xs)))) = sort_key k xs"
proof -
  have "dict_get_or [] (d xs) = (\<lambda>q. filter (\<lambda>x. k x = q) xs)"
    by (rule ext) (simp add: d_def fold_dd_append(3) dict_get_or_missing)
  moreover have "concat (map (\<lambda>q. filter (\<lambda>x. k x = q) xs) (sort (dict_keys (d xs)))) = sort_key k xs"
    using fold_dd_append(1) [of "[]" k xs] fold_dd_append(2) [of k xs "[]"]
    by (intro concat_buckets_sort) (auto simp: d_def)
  ultimately show ?thesis by simp
qed

end
