(* ===== verification/PyStr.thy ===== *)
theory PyStr
  imports Prelude "HOL-Library.Char_ord" "HOL-Library.List_Lexorder"
begin

text \<open>
  The methods of Python's \<open>str\<close> that the modelled code calls, on strings of code points
  below 256 (\<^typ>\<open>char\<close>), with the laws on splitting and joining the components rely on.
\<close>

named_theorems pystr \<open>splitting, joining and matching of strings\<close>

subsection \<open>Character classes\<close>

definition py_isspace :: "char \<Rightarrow> bool" where
  "py_isspace c \<longleftrightarrow>
     c \<in> set [CHR 0x09, CHR 0x0A, CHR 0x0B, CHR 0x0C, CHR 0x0D, CHR 0x1C, CHR 0x1D,
               CHR 0x1E, CHR 0x1F, CHR '' '', CHR 0x85, CHR 0xA0]"

definition is_digit :: "char \<Rightarrow> bool" where
  "is_digit c \<longleftrightarrow> 48 \<le> (of_char c :: nat) \<and> (of_char c :: nat) \<le> 57"

definition is_letter :: "char \<Rightarrow> bool" where
  "is_letter c \<longleftrightarrow> (65 \<le> (of_char c :: nat) \<and> (of_char c :: nat) \<le> 90)
     \<or> (97 \<le> (of_char c :: nat) \<and> (of_char c :: nat) \<le> 122)"

abbreviation newline :: char where
  "newline \<equiv> CHR 0x0A"

lemma letter_not_digit [simp]: "is_letter c \<Longrightarrow> \<not> is_digit c"
  by (auto simp: is_letter_def is_digit_def)

subsection \<open>Prefixes and suffixes\<close>

fun startswith :: "string \<Rightarrow> string \<Rightarrow> bool" where
  "startswith s [] = True"
| "startswith [] (p # ps) = False"
| "startswith (c # s) (p # ps) = (c = p \<and> startswith s ps)"

definition endswith :: "string \<Rightarrow> string \<Rightarrow> bool" where
  "endswith s p = startswith (rev s) (rev p)"

definition startswith_any :: "string \<Rightarrow> string list \<Rightarrow> bool" where
  "startswith_any s ps = list_ex (startswith s) ps"

lemma startswith_iff [pystr]: "startswith s p \<longleftrightarrow> (\<exists>t. s = p @ t)"
  by (induction s p rule: startswith.induct) auto

lemma endswith_iff [pystr]: "endswith s p \<longleftrightarrow> (\<exists>t. s = t @ p)"
  by (metis endswith_def rev_append rev_rev_ident startswith_iff)

lemma endswith_snoc [simp]: "endswith (s @ [c]) [d] \<longleftrightarrow> c = d"
  by (auto simp: endswith_iff)

lemma endswith_single [pystr]: "endswith s [c] \<longleftrightarrow> s \<noteq> [] \<and> last s = c"
  by (cases s rule: rev_cases) (auto simp: endswith_iff)

subsection \<open>Splitting and joining\<close>

text \<open>\<open>s.split(c)\<close> with a separator of one character.\<close>

fun split_on :: "char \<Rightarrow> string \<Rightarrow> string list" where
  "split_on c [] = [[]]"
| "split_on c (x # s) =
     (if x = c then [] # split_on c s
      else (case split_on c s of [] \<Rightarrow> [[x]] | w # ws \<Rightarrow> (x # w) # ws))"

text \<open>\<open>s.split()\<close>: the maximal runs of non-space characters.\<close>

fun split_ws_acc :: "string \<Rightarrow> string \<Rightarrow> string list" where
  "split_ws_acc w [] = (if w = [] then [] else [w])"
| "split_ws_acc w (c # s) =
     (if py_isspace c then (if w = [] then split_ws_acc [] s else w # split_ws_acc [] s)
      else split_ws_acc (w @ [c]) s)"

definition split_ws :: "string \<Rightarrow> string list" where
  "split_ws s = split_ws_acc [] s"

text \<open>\<open>s.rsplit(c, 1)\<close>.\<close>

definition rsplit1 :: "char \<Rightarrow> string \<Rightarrow> string list" where
  "rsplit1 c s =
     (case dropWhile (\<lambda>x. x \<noteq> c) (rev s) of
        [] \<Rightarrow> [s]
      | _ # b \<Rightarrow> [rev b, rev (takeWhile (\<lambda>x. x \<noteq> c) (rev s))])"

text \<open>\<open>s.strip(chars)\<close> and \<open>sep.join(xs)\<close>.\<close>

definition strip_chars :: "char list \<Rightarrow> string \<Rightarrow> string" where
  "strip_chars cs s =
     rev (dropWhile (\<lambda>c. c \<in> set cs) (rev (dropWhile (\<lambda>c. c \<in> set cs) s)))"

definition strip_ws :: "string \<Rightarrow> string" where
  "strip_ws s = rev (dropWhile py_isspace (rev (dropWhile py_isspace s)))"

definition rstrip_ws :: "string \<Rightarrow> string" where
  "rstrip_ws s = rev (dropWhile py_isspace (rev s))"

fun join :: "string \<Rightarrow> string list \<Rightarrow> string" where
  "join sep [] = []"
| "join sep [x] = x"
| "join sep (x # y # ys) = x @ sep @ join sep (y # ys)"

lemma split_on_not_Nil [simp]: "split_on c s \<noteq> []"
  by (cases s) (auto split: list.splits)

lemma split_on_no_sep [simp]: "c \<notin> set s \<Longrightarrow> split_on c s = [s]"
  by (induction s) auto

lemma split_on_sep [pystr]: "c \<notin> set w \<Longrightarrow> split_on c (w @ c # s) = w # split_on c s"
  by (induction w) auto

lemma split_on_parts: "w \<in> set (split_on c s) \<Longrightarrow> c \<notin> set w"
proof (induction s arbitrary: w)
  case (Cons x s)
  then show ?case
    by (cases "split_on c s") (auto split: if_splits)
qed simp

lemma join_Cons_char: "join sep ((x # w) # ws) = x # join sep (w # ws)"
  by (cases ws) auto

lemma join_split_on: "join [c] (split_on c s) = s"
proof (induction s)
  case (Cons x s)
  then show ?case
    using split_on_not_Nil [of c s]
    by (cases "split_on c s") (auto simp: neq_Nil_conv join_Cons_char split: list.splits)
qed simp

lemma split_on_join [pystr]:
  "ws \<noteq> [] \<Longrightarrow> \<forall>w \<in> set ws. c \<notin> set w \<Longrightarrow> split_on c (join [c] ws) = ws"
  by (induction "[c]" ws rule: join.induct) (auto simp: split_on_sep)

lemma length_split_on: "length (split_on c s) = Suc (count_list s c)"
  by (induction s) (auto split: list.splits)

lemma rsplit1_sep [pystr]: "c \<notin> set b \<Longrightarrow> rsplit1 c (a @ c # b) = [a, b]"
proof -
  assume c: "c \<notin> set b"
  then have t: "takeWhile (\<lambda>x. x \<noteq> c) (rev b @ c # rev a) = rev b"
    by (simp add: takeWhile_append)
  from c have "dropWhile (\<lambda>x. x \<noteq> c) (rev b @ c # rev a) = c # rev a"
    by (simp add: dropWhile_append)
  with t show ?thesis by (simp add: rsplit1_def)
qed

lemma rsplit1_no_sep [pystr]: "c \<notin> set s \<Longrightarrow> rsplit1 c s = [s]"
proof -
  assume "c \<notin> set s"
  then have "dropWhile (\<lambda>x. x \<noteq> c) (rev s) = []"
    by (auto simp: dropWhile_eq_Nil_conv)
  then show ?thesis unfolding rsplit1_def by (simp only: list.case)
qed

lemma rsplit1_two:
  assumes "c \<in> set s"
  obtains a b where "s = a @ c # b" and "c \<notin> set b" and "rsplit1 c s = [a, b]"
  using assms by (metis rsplit1_sep split_list_last)

subsection \<open>Words\<close>

text \<open>A word is what \<open>split()\<close> returns: not empty and free of white space.\<close>

definition is_word :: "string \<Rightarrow> bool" where
  "is_word w \<longleftrightarrow> w \<noteq> [] \<and> (\<forall>c \<in> set w. \<not> py_isspace c)"

lemma split_ws_acc_nospace:
  "\<forall>c \<in> set w. \<not> py_isspace c \<Longrightarrow> split_ws_acc v (w @ s) = split_ws_acc (v @ w) s"
  by (induction w arbitrary: v) auto

lemma split_ws_acc_words:
  "\<forall>c \<in> set v. \<not> py_isspace c \<Longrightarrow> w \<in> set (split_ws_acc v s) \<Longrightarrow> is_word w"
proof (induction v s rule: split_ws_acc.induct)
  case (1 v)
  then show ?case by (auto simp: is_word_def split: if_splits)
next
  case (2 v c s)
  show ?case
  proof (cases "py_isspace c")
    case True
    with 2 show ?thesis by (cases "v = []") (auto simp: is_word_def)
  next
    case False
    with 2 show ?thesis by (simp split: if_splits)
  qed
qed

lemma split_ws_words: "w \<in> set (split_ws s) \<Longrightarrow> is_word w"
  by (metis empty_iff list.set(1) split_ws_acc_words split_ws_def)

lemma split_ws_Nil [simp]: "split_ws [] = []"
  by (simp add: split_ws_def)

lemma split_ws_space [simp]: "py_isspace c \<Longrightarrow> split_ws (c # s) = split_ws s"
  by (simp add: split_ws_def)

lemma split_ws_word [pystr]: "is_word w \<Longrightarrow> split_ws w = [w]"
  using split_ws_acc_nospace [of w "[]" "[]"] by (simp add: is_word_def split_ws_def)

lemma split_ws_word_space [pystr]:
  "is_word w \<Longrightarrow> py_isspace c \<Longrightarrow> split_ws (w @ c # s) = w # split_ws s"
  using split_ws_acc_nospace [of w "[]" "c # s"] by (simp add: is_word_def split_ws_def)

lemma py_isspace_blank [simp]: "py_isspace CHR '' ''"
  by (simp add: py_isspace_def)

lemma split_ws_join [pystr]:
  "\<forall>w \<in> set ws. is_word w \<Longrightarrow> split_ws (join '' '' ws) = ws"
  by (induction "'' ''" ws rule: join.induct) (auto simp: split_ws_word split_ws_word_space)

subsection \<open>Numbers\<close>

fun digits_val :: "nat \<Rightarrow> string \<Rightarrow> nat" where
  "digits_val n [] = n"
| "digits_val n (c # s) = digits_val (10 * n + (of_char c - 48)) s"

text \<open>
  \<open>int(s)\<close> of a string: white space around an optional sign and decimal digits, which
  single underscores may separate. \<open>None\<close> is \<open>ValueError\<close>.
\<close>

fun digits_us :: "string \<Rightarrow> string option" where
  "digits_us [] = None"
| "digits_us [c] = (if is_digit c then Some [c] else None)"
| "digits_us (c # d # s) =
     (if \<not> is_digit c then None
      else if d = CHR ''_'' then map_option (Cons c) (digits_us s)
      else map_option (Cons c) (digits_us (d # s)))"

definition py_int :: "string \<Rightarrow> int option" where
  "py_int s =
     (case strip_ws s of
        [] \<Rightarrow> None
      | c # t \<Rightarrow>
          if c = CHR ''-'' then map_option (\<lambda>ds. - int (digits_val 0 ds)) (digits_us t)
          else if c = CHR ''+'' then map_option (\<lambda>ds. int (digits_val 0 ds)) (digits_us t)
          else map_option (\<lambda>ds. int (digits_val 0 ds)) (digits_us (c # t)))"

subsection \<open>Paths\<close>

definition slash :: char where
  "slash = CHR ''/''"

definition basename :: "string \<Rightarrow> string" where
  "basename p = rev (takeWhile (\<lambda>c. c \<noteq> slash) (rev p))"

end
