(* ===== verification/Versions.thy ===== *)
theory Versions
  imports PyStr "HOL-Library.Product_Lexorder"
begin

text \<open>
  Version strings: \<open>explode_version\<close>, \<open>split_version\<close>, \<open>vercmp_part\<close>, \<open>vercmp\<close>,
  \<open>vercmp_string\<close> and \<open>vercmp_string_op\<close> of \<open>bitbake/lib/bb/utils.py\<close>, the
  comparison every provider choice and package dependency check of BitBake rests on.
  The abstract specification is a key into a linear order, and the routine is proved to
  compute the comparison of keys; the locale \<open>comparator\<close> is the contract the clients
  of a comparison use.
\<close>

subsection \<open>Exploding a version\<close>

datatype vpart = VInt nat | VStr string

type_synonym vparts = "(int \<times> vpart) list"

text \<open>
  What the group \<open>(.*)$\<close> of the two regular expressions gives on the rest of the string:
  the dot does not match a newline, and \<open>$\<close> also matches before a final one. Without a
  match \<open>m.group\<close> raises \<open>AttributeError\<close>.
\<close>

definition re_rest :: "string \<Rightarrow> string result" where
  "re_rest s =
     (if newline \<notin> set s then Inr s
      else if last s = newline \<and> newline \<notin> set (butlast s) then Inr (butlast s)
      else Inl AttributeError)"

lemma re_rest_length: "re_rest s = Inr t \<Longrightarrow> length t \<le> length s"
  by (auto simp: re_rest_def split: if_splits)

text \<open>One turn of the loop: the part taken off the front and the rest of the string.\<close>

definition explode_step :: "char \<Rightarrow> string \<Rightarrow> ((int \<times> vpart) \<times> string) result" where
  "explode_step c s =
     (if is_digit c then
        bindE (re_rest (dropWhile is_digit (c # s))) (\<lambda>t.
          Inr ((0, VInt (digits_val 0 (takeWhile is_digit (c # s)))), t))
      else if is_letter c then
        bindE (re_rest (dropWhile is_letter (c # s))) (\<lambda>t.
          Inr ((1, VStr (takeWhile is_letter (c # s))), t))
      else if c = CHR ''~'' then Inr ((- 1, VStr [c]), s)
      else Inr ((2, VStr [c]), s))"

lemma explode_step_length: "explode_step c s = Inr (p, t) \<Longrightarrow> length t < length (c # s)"
  using re_rest_length [of "dropWhile is_digit s" t] re_rest_length [of "dropWhile is_letter s" t]
    length_dropWhile_le [of is_digit s] length_dropWhile_le [of is_letter s]
  by (auto simp: explode_step_def bindE_Inr_iff split: if_splits)

function explode_version :: "string \<Rightarrow> vparts result" where
  "explode_version [] = Inr []"
| "explode_version (c # s) =
     bindE (explode_step c s) (\<lambda>(p, t). bindE (explode_version t) (\<lambda>r. Inr (p # r)))"
  by pat_completeness auto
termination
  by (relation "measure length") (auto dest: explode_step_length)

text \<open>Every part has the rank of its kind, so two parts of one rank are comparable.\<close>

fun wf_part :: "int \<times> vpart \<Rightarrow> bool" where
  "wf_part (r, VInt n) = (r = 0)"
| "wf_part (r, VStr w) = (r = 1 \<or> r = 2 \<or> r = - 1)"

lemma explode_step_wf: "explode_step c s = Inr (p, t) \<Longrightarrow> wf_part p"
  by (auto simp: explode_step_def bindE_Inr_iff split: if_splits)

lemma explode_version_wf: "explode_version s = Inr ps \<Longrightarrow> \<forall>p \<in> set ps. wf_part p"
proof (induction s arbitrary: ps rule: explode_version.induct)
  case (2 c s)
  from "2.prems" obtain p t r where "explode_step c s = Inr (p, t)" "explode_version t = Inr r"
    and "ps = p # r"
    by (auto simp: bindE_Inr_iff)
  with "2.IH" show ?case by (auto dest: explode_step_wf)
qed simp

subsection \<open>Comparing parts\<close>

fun part_less :: "vpart \<Rightarrow> vpart \<Rightarrow> bool result" where
  "part_less (VInt a) (VInt b) = Inr (a < b)"
| "part_less (VStr a) (VStr b) = Inr (a < b)"
| "part_less _ _ = Inl TypeError"

text \<open>\<open>va.pop(0)\<close>, or the end marker \<open>(0, None)\<close> of an empty list.\<close>

fun pop_part :: "vparts \<Rightarrow> (int \<times> vpart option) \<times> vparts" where
  "pop_part [] = ((0, None), [])"
| "pop_part ((r, c) # ps) = ((r, Some c), ps)"

lemma pop_part_Some_length:
  "((r, Some c), va') = pop_part va \<Longrightarrow> length va' < length va"
  by (cases va rule: pop_part.cases) auto

function vercmp_loop :: "vparts \<Rightarrow> vparts \<Rightarrow> int result" where
  "vercmp_loop va vb =
     (case pop_part va of ((oa, ca), va') \<Rightarrow>
      case pop_part vb of ((ob, cb), vb') \<Rightarrow>
        if (oa, ca) = (0, None) \<and> (ob, cb) = (0, None) then Inr 0
        else if oa < ob then Inr (- 1)
        else if oa > ob then Inr 1
        else (case ca of None \<Rightarrow> Inr (- 1) | Some x \<Rightarrow>
              case cb of None \<Rightarrow> Inr 1 | Some y \<Rightarrow>
                bindE (part_less x y) (\<lambda>lt. if lt then Inr (- 1) else
                  bindE (part_less y x) (\<lambda>gt. if gt then Inr 1 else vercmp_loop va' vb'))))"
  by pat_completeness auto
termination
  by (relation "measure (\<lambda>(va, vb). length va)") (auto, (metis pop_part_Some_length)+)

declare vercmp_loop.simps [simp del]

definition vercmp_part :: "string \<Rightarrow> string \<Rightarrow> int result" where
  "vercmp_part a b =
     bindE (explode_version a) (\<lambda>va. bindE (explode_version b) (\<lambda>vb. vercmp_loop va vb))"


subsection \<open>The specification: keys in a linear order\<close>

text \<open>
  A part becomes a triple whose lexicographic order is the order of parts; the end of a
  version is a marker below every part of rank 0 and above the part of rank -1 that a tilde
  gives, so that \<open>1.0~rc1\<close> sorts before \<open>1.0\<close>.
\<close>

type_synonym part_key = "int \<times> nat \<times> nat \<times> string"

fun part_key :: "int \<times> vpart \<Rightarrow> part_key" where
  "part_key (r, VInt n) = (r, 1, n, [])"
| "part_key (r, VStr w) = (r, 1, 0, w)"

definition ver_key :: "vparts \<Rightarrow> part_key list" where
  "ver_key ps = map part_key ps @ [(0, 0, 0, [])]"

definition cmp_keys :: "'k::linorder \<Rightarrow> 'k \<Rightarrow> int" where
  "cmp_keys x y = (if x < y then - 1 else if x = y then 0 else 1)"

lemma cmp_keys_Cons:
  "cmp_keys (x # xs) (y # ys) = (if x = y then cmp_keys xs ys else cmp_keys x y)"
  by (auto simp: cmp_keys_def)

lemma ver_key_simps:
  "ver_key [] = [(0, 0, 0, [])]"
  "ver_key (p # ps) = part_key p # ver_key ps"
  by (simp_all add: ver_key_def)

lemma ver_key_not_Nil [simp]: "ver_key ps \<noteq> []"
  by (simp add: ver_key_def)

lemma part_key_inj: "wf_part p \<Longrightarrow> wf_part q \<Longrightarrow> part_key p = part_key q \<longleftrightarrow> p = q"
  by (cases p rule: wf_part.cases; cases q rule: wf_part.cases) auto

lemma part_key_not_end [simp]: "part_key p \<noteq> (0, 0, 0, [])" "(0, 0, 0, []) \<noteq> part_key p"
  by (cases p rule: wf_part.cases; simp)+

lemma ver_key_inj:
  "\<forall>p \<in> set xs. wf_part p \<Longrightarrow> \<forall>p \<in> set ys. wf_part p \<Longrightarrow> ver_key xs = ver_key ys \<longleftrightarrow> xs = ys"
proof (induction xs arbitrary: ys)
  case Nil
  then show ?case by (cases ys) (auto simp: ver_key_simps)
next
  case (Cons x xs)
  then show ?case by (cases ys) (auto simp: ver_key_simps part_key_inj)
qed

lemma vercmp_loop_step:
  assumes "wf_part p" and "wf_part q"
  shows "vercmp_loop (p # ps) (q # qs) =
    (if part_key p = part_key q then vercmp_loop ps qs else Inr (cmp_keys (part_key p) (part_key q)))"
  using assms
  by (cases p rule: wf_part.cases; cases q rule: wf_part.cases)
     (auto simp: vercmp_loop.simps [of "_ # _"] cmp_keys_def)

lemma vercmp_loop_key:
  "\<forall>p \<in> set xs. wf_part p \<Longrightarrow> \<forall>p \<in> set ys. wf_part p \<Longrightarrow>
   vercmp_loop xs ys = Inr (cmp_keys (ver_key xs) (ver_key ys))"
proof (induction xs arbitrary: ys)
  case Nil
  show ?case
  proof (cases ys)
    case (Cons q qs)
    with Nil.prems show ?thesis
      by (cases q rule: wf_part.cases)
         (auto simp: vercmp_loop.simps [of "[]"] ver_key_simps cmp_keys_def)
  qed (simp add: vercmp_loop.simps [of "[]"] cmp_keys_def)
next
  case (Cons p ps)
  show ?case
  proof (cases ys)
    case Nil
    with Cons.prems show ?thesis
      by (cases p rule: wf_part.cases)
         (auto simp: vercmp_loop.simps [of "_ # _"] ver_key_simps cmp_keys_def)
  next
    case (Cons q qs)
    with Cons.prems Cons.IH [of qs] show ?thesis
      by (simp add: vercmp_loop_step ver_key_simps cmp_keys_Cons)
  qed
qed

lemma vercmp_part_key:
  "explode_version a = Inr va \<Longrightarrow> explode_version b = Inr vb \<Longrightarrow>
   vercmp_part a b = Inr (cmp_keys (ver_key va) (ver_key vb))"
  by (simp add: vercmp_part_def vercmp_loop_key explode_version_wf)

subsection \<open>Whole versions: epoch, version, revision\<close>

text \<open>
  The epoch of a version tuple is an integer (\<open>split_version\<close>), a string (the tuples of
  the recipe cache) or missing; \<open>int(ea or 0)\<close> reads it.
\<close>

datatype epoch = EInt int | EStr string | ENone

fun epoch_int :: "epoch \<Rightarrow> int result" where
  "epoch_int (EInt n) = Inr n"
| "epoch_int (EStr s) =
     (if s = [] then Inr 0 else case py_int s of None \<Rightarrow> Inl ValueError | Some n \<Rightarrow> Inr n)"
| "epoch_int ENone = Inr 0"

type_synonym version = "epoch \<times> string \<times> string"

definition split_version :: "string \<Rightarrow> version result" where
  "split_version s0 =
     (let s = strip_chars '' <>='' s0 in
      bindE (if CHR '':'' \<in> set s
             then (case py_int (split_on CHR '':'' s ! 0) of
                     None \<Rightarrow> Inl ValueError
                   | Some e \<Rightarrow> Inr (e, split_on CHR '':'' s ! 1))
             else Inr (0, s)) (\<lambda>(e, s).
      if CHR ''-'' \<in> set s
      then Inr (EInt e, rsplit1 CHR ''-'' s ! 0, rsplit1 CHR ''-'' s ! 1)
      else Inr (EInt e, s, [])))"

fun vercmp :: "version \<Rightarrow> version \<Rightarrow> int result" where
  "vercmp (ea, va, ra) (eb, vb, rb) =
     bindE (epoch_int ea) (\<lambda>x. bindE (epoch_int eb) (\<lambda>y.
     bindE (if x - y = 0 then vercmp_part va vb else Inr (x - y)) (\<lambda>r.
     if r = 0 then vercmp_part ra rb else Inr r)))"

definition vercmp_string :: "string \<Rightarrow> string \<Rightarrow> int result" where
  "vercmp_string a b =
     bindE (split_version a) (\<lambda>ta. bindE (split_version b) (\<lambda>tb. vercmp ta tb))"

definition vercmp_string_op :: "string \<Rightarrow> string \<Rightarrow> string \<Rightarrow> bool result" where
  "vercmp_string_op a b opr =
     bindE (vercmp_string a b) (\<lambda>res.
       if opr \<in> set [''='', ''==''] then Inr (res = 0)
       else if opr = ''<='' then Inr (res \<le> 0)
       else if opr = ''>='' then Inr (res \<ge> 0)
       else if opr \<in> set [''>'', ''>>''] then Inr (res > 0)
       else if opr \<in> set [''<'', ''<<''] then Inr (res < 0)
       else if opr = ''!='' then Inr (res \<noteq> 0)
       else Inl VersionStringException)"

text \<open>A version is valid when its epoch reads as an integer and both parts explode.\<close>

fun version_key :: "version \<Rightarrow> (int \<times> part_key list \<times> part_key list) option" where
  "version_key (e, v, r) =
     (case (epoch_int e, explode_version v, explode_version r) of
        (Inr n, Inr vs, Inr rs) \<Rightarrow> Some (n, ver_key vs, ver_key rs)
      | _ \<Rightarrow> None)"

definition valid_version :: "version \<Rightarrow> bool" where
  "valid_version t \<longleftrightarrow> version_key t \<noteq> None"

lemma cmp_keys_Pair:
  "cmp_keys (x, x') (y, y') = (if x = y then cmp_keys x' y' else cmp_keys x y)"
  by (auto simp: cmp_keys_def)

lemma sgn_cmp_keys [simp]: "sgn (cmp_keys x y) = cmp_keys x y"
  by (simp add: cmp_keys_def)

lemma cmp_keys_0 [simp]: "cmp_keys x y = 0 \<longleftrightarrow> x = y"
  by (simp add: cmp_keys_def)

lemma sgn_diff_cmp_keys: "sgn (x - y :: int) = cmp_keys x y"
  by (simp add: cmp_keys_def sgn_if)

lemma vercmp_key:
  assumes "version_key a = Some ka" and "version_key b = Some kb"
  shows "\<exists>r. vercmp a b = Inr r \<and> sgn r = cmp_keys ka kb"
proof -
  obtain ea va ra eb vb rb where ab: "a = (ea, va, ra)" "b = (eb, vb, rb)"
    by (metis prod_cases3)
  with assms show ?thesis
    by (auto simp: vercmp_part_key cmp_keys_Pair sgn_diff_cmp_keys
             split: sum.splits option.splits)
qed

subsection \<open>The contract of a comparison\<close>

text \<open>
  What a client of a three-way comparison relies on: it returns on valid arguments, and its
  sign is a total preorder. \<open>latest\<close> is the loop that every such client writes.
\<close>

locale comparator =
  fixes cmp :: "'v \<Rightarrow> 'v \<Rightarrow> int result"
    and valid :: "'v \<Rightarrow> bool"
  assumes cmp_returns: "valid a \<Longrightarrow> valid b \<Longrightarrow> \<exists>r. cmp a b = Inr r"
    and cmp_antisym: "valid a \<Longrightarrow> valid b \<Longrightarrow> cmp a b = Inr r \<Longrightarrow> cmp b a = Inr s \<Longrightarrow> sgn s = - sgn r"
    and cmp_trans: "valid a \<Longrightarrow> valid b \<Longrightarrow> valid c \<Longrightarrow> cmp a b = Inr r \<Longrightarrow> cmp b c = Inr s \<Longrightarrow>
      cmp a c = Inr t \<Longrightarrow> r \<le> 0 \<Longrightarrow> s \<le> 0 \<Longrightarrow> t \<le> 0"
begin

definition le :: "'v \<Rightarrow> 'v \<Rightarrow> bool" where
  "le a b \<longleftrightarrow> (\<exists>r. cmp a b = Inr r \<and> r \<le> 0)"

lemma le_trans: "valid a \<Longrightarrow> valid b \<Longrightarrow> valid c \<Longrightarrow> le a b \<Longrightarrow> le b c \<Longrightarrow> le a c"
  using cmp_returns [of a c] cmp_trans [of a b c] by (auto simp: le_def)

lemma le_total: "valid a \<Longrightarrow> valid b \<Longrightarrow> le a b \<or> le b a"
proof -
  assume v: "valid a" "valid b"
  then obtain r s where rs: "cmp a b = Inr r" "cmp b a = Inr s"
    using cmp_returns by meson
  with v have "sgn s = - sgn r" by (rule cmp_antisym)
  with rs show ?thesis by (auto simp: le_def sgn_if split: if_splits)
qed

lemma le_refl: "valid a \<Longrightarrow> le a a"
  using le_total [of a a] by simp

lemma not_less_le:
  assumes "valid a" "valid b" "cmp a b = Inr r" "\<not> r < 0"
  shows "le b a"
proof -
  from assms(1,2) obtain s where s: "cmp b a = Inr s" using cmp_returns by meson
  from cmp_antisym [OF assms(1-3) s] assms(4) have "s \<le> 0"
    by (auto simp: sgn_if split: if_splits)
  with s show ?thesis by (simp add: le_def)
qed

end

interpretation ver: comparator vercmp valid_version
proof unfold_locales
  fix a b c :: version and r s t
  show "\<exists>r. vercmp a b = Inr r" if "valid_version a" "valid_version b"
    using that vercmp_key by (metis not_None_eq valid_version_def)
  show "sgn s = - sgn r"
    if "valid_version a" "valid_version b" "vercmp a b = Inr r" "vercmp b a = Inr s"
    using that vercmp_key [of a _ b] vercmp_key [of b _ a]
    by (fastforce simp: valid_version_def cmp_keys_def)
  show "t \<le> 0"
    if v: "valid_version a" "valid_version b" "valid_version c" and
      r: "vercmp a b = Inr r" "vercmp b c = Inr s" "vercmp a c = Inr t" "r \<le> 0" "s \<le> 0"
  proof -
    from v obtain ka kb kc where
      k: "version_key a = Some ka" "version_key b = Some kb" "version_key c = Some kc"
      by (auto simp: valid_version_def)
    have "sgn r = cmp_keys ka kb" "sgn s = cmp_keys kb kc" "sgn t = cmp_keys ka kc"
      using vercmp_key [OF k(1) k(2)] vercmp_key [OF k(2) k(3)] vercmp_key [OF k(1) k(3)] r
      by auto
    with r(4,5) show ?thesis
      by (auto simp: cmp_keys_def sgn_if split: if_splits)
  qed
qed

subsection \<open>Properties\<close>

text \<open>
  Property C24. Comparing two version parts is comparing their keys in a linear order, for
  all strings the two regular expressions can take apart.
\<close>

theorem vercmp_part_refines_order:
  assumes "explode_version a = Inr va" and "explode_version b = Inr vb"
  shows "vercmp_part a b = Inr (cmp_keys (ver_key va) (ver_key vb)) \<and>
    (vercmp_part a b = Inr 0 \<longleftrightarrow> va = vb)"
proof -
  have "vercmp_part a b = Inr (cmp_keys (ver_key va) (ver_key vb))"
    using assms by (rule vercmp_part_key)
  moreover have "ver_key va = ver_key vb \<longleftrightarrow> va = vb"
    using assms by (simp add: ver_key_inj explode_version_wf)
  ultimately show ?thesis by simp
qed

theorem vercmp_part_refines_order_witness:
  "vercmp_part ''1.0~rc1'' ''1.00'' = Inr (- 1)"
  using vercmp_part_refines_order [of "''1.0~rc1''" _ "''1.00''"]
  by (simp add: explode_step_def re_rest_def is_digit_def is_letter_def cmp_keys_def ver_key_def)


text \<open>
  On valid versions \<open>vercmp\<close> is a total preorder: it returns, the two
  argument orders agree up to sign, and \<open>at most\<close> is transitive.
\<close>

theorem vercmp_total_preorder:
  assumes "valid_version a" and "valid_version b" and "valid_version c"
  shows "\<exists>r s t. vercmp a b = Inr r \<and> vercmp b a = Inr s \<and> vercmp b c = Inr t \<and>
    sgn s = - sgn r \<and>
    (r \<le> 0 \<and> t \<le> 0 \<longrightarrow> (\<exists>u. vercmp a c = Inr u \<and> u \<le> 0))"
proof -
  obtain r s t where rst: "vercmp a b = Inr r" "vercmp b a = Inr s" "vercmp b c = Inr t"
    using assms ver.cmp_returns by meson
  moreover have "sgn s = - sgn r"
    using assms(1,2) rst(1,2) by (rule ver.cmp_antisym)
  moreover have "\<exists>u. vercmp a c = Inr u \<and> u \<le> 0" if "r \<le> 0 \<and> t \<le> 0"
    using that rst ver.le_trans [OF assms] by (auto simp: ver.le_def)
  ultimately show ?thesis by blast
qed

lemma re_rest_no_newline: "newline \<notin> set s \<Longrightarrow> re_rest s = Inr s"
  by (simp add: re_rest_def)

lemma not_in_dropWhile: "x \<notin> set s \<Longrightarrow> x \<notin> set (dropWhile P s)"
  by (induction s) auto

lemma explode_step_no_newline:
  "newline \<notin> set (c # s) \<Longrightarrow> \<exists>p t. explode_step c s = Inr (p, t) \<and> newline \<notin> set t"
  by (simp add: explode_step_def re_rest_no_newline not_in_dropWhile)

lemma explode_version_returns: "newline \<notin> set s \<Longrightarrow> \<exists>ps. explode_version s = Inr ps"
proof (induction s rule: explode_version.induct)
  case (2 c s)
  from explode_step_no_newline [OF "2.prems"] obtain p t
    where "explode_step c s = Inr (p, t)" "newline \<notin> set t" by blast
  with "2.IH" [OF this(1) refl this(2)] show ?case by auto
qed simp

text \<open>A tilde ends every run of digits or letters, so what precedes it explodes on its own.\<close>

lemma run_tilde:
  assumes "\<not> P CHR ''~''"
  shows "takeWhile P (s @ CHR ''~'' # u) = takeWhile P s"
    and "dropWhile P (s @ CHR ''~'' # u) = dropWhile P s @ CHR ''~'' # u"
  using assms by (induction s) auto

lemma tilde_class [simp]: "\<not> is_digit CHR ''~''" "\<not> is_letter CHR ''~''"
  by (simp_all add: is_digit_def is_letter_def)

lemma explode_step_tilde:
  assumes "newline \<notin> set (c # s)" and "newline \<notin> set u" and "explode_step c s = Inr (p, t)"
  shows "explode_step c (s @ CHR ''~'' # u) = Inr (p, t @ CHR ''~'' # u)"
  using assms not_in_dropWhile [of newline s is_digit] not_in_dropWhile [of newline s is_letter]
  by (cases "is_digit c"; cases "is_letter c"; cases "c = CHR ''~''")
     (auto simp: explode_step_def run_tilde re_rest_no_newline)

lemma explode_version_tilde:
  assumes "newline \<notin> set s" and "newline \<notin> set u"
    and "explode_version s = Inr ps" and "explode_version u = Inr us"
  shows "explode_version (s @ CHR ''~'' # u) = Inr (ps @ (- 1, VStr ''~'') # us)"
  using assms
proof (induction s arbitrary: ps rule: explode_version.induct)
  case 1
  then show ?case by (simp add: explode_step_def)
next
  case (2 c s)
  from explode_step_no_newline [OF "2.prems"(1)] obtain p t
    where pt: "explode_step c s = Inr (p, t)" and t: "newline \<notin> set t" by blast
  from "2.prems"(3) pt obtain r where r: "explode_version t = Inr r" "ps = p # r"
    by (auto simp: bindE_Inr_iff)
  from "2.IH" [OF pt refl t "2.prems"(2) r(1) "2.prems"(4)] r(2)
  show ?case
    by (simp add: explode_step_tilde [OF "2.prems"(1,2) pt])
qed

lemma ver_key_append_less:
  "x < (0, 0, 0, []) \<Longrightarrow> map part_key ps @ x # ks < ver_key ps"
  by (induction ps) (auto simp: ver_key_def)

text \<open>
  A tilde marks a pre-release: for every version \<open>v\<close> and suffix \<open>s\<close> without
  newlines, \<open>v~s\<close> sorts strictly before \<open>v\<close>.
\<close>

theorem tilde_sorts_before:
  assumes "newline \<notin> set v" and "newline \<notin> set s"
  shows "vercmp_part (v @ CHR ''~'' # s) v = Inr (- 1)"
proof -
  obtain vs us where e: "explode_version v = Inr vs" "explode_version s = Inr us"
    using assms explode_version_returns by meson
  have "ver_key (vs @ (- 1, VStr ''~'') # us) < ver_key vs"
    using ver_key_append_less [of "part_key (- 1, VStr ''~'')" vs "ver_key us"]
    by (simp add: ver_key_def)
  then show ?thesis
    using vercmp_part_key [OF explode_version_tilde [OF assms e] e(1)]
    by (simp add: cmp_keys_def)
qed

theorem tilde_sorts_before_witness: "vercmp_part ''2.4~rc1'' ''2.4'' = Inr (- 1)"
  using tilde_sorts_before [of "''2.4''" "''rc1''"] by simp

theorem vercmp_total_preorder_witness:
  "\<exists>r s. vercmp (EStr ''1'', ''2.0'', []) (ENone, ''3'', ''r1'') = Inr r \<and>
     vercmp (ENone, ''3'', ''r1'') (EStr ''1'', ''2.0'', []) = Inr s \<and> sgn s = - sgn r"
proof -
  have v: "valid_version (EStr ''1'', ''2.0'', [])" "valid_version (ENone, ''3'', ''r1'')"
    by (simp_all add: valid_version_def explode_step_def re_rest_def is_digit_def is_letter_def
        py_int_def strip_ws_def py_isspace_def)
  show ?thesis using vercmp_total_preorder [OF v v(1)] by blast
qed

end
