(* ===== verification/Deps.thy ===== *)
theory Deps
  imports PyStr
begin

text \<open>
  Dependency strings of \<open>bitbake/lib/bb/utils.py\<close>: \<open>explode_deps\<close>,
  \<open>explode_dep_versions2\<close>, \<open>explode_dep_versions\<close> and \<open>join_deps\<close>. The strings of
  the metadata (\<open>a (>= 1.0), b\<close>) are taken apart and put together; the round trip and
  the agreement of the two parsers are proved.
\<close>

subsection \<open>Names only: \<open>explode_deps\<close>\<close>

fun explode_deps_loop :: "bool \<Rightarrow> string list \<Rightarrow> string list" where
  "explode_deps_loop flag [] = []"
| "explode_deps_loop flag (i # l) =
     (let flag = (flag \<or> startswith i ''('')
      in (if \<not> flag then [i] else [])
         @ explode_deps_loop (if flag \<and> endswith i '')'' then False else flag) l)"

definition explode_deps :: "string \<Rightarrow> string list" where
  "explode_deps s = explode_deps_loop False (split_ws s)"

subsection \<open>Names and versions: \<open>explode_dep_versions2\<close>\<close>

text \<open>
  The local variables of the loop. \<open>lastdep\<close> starts as \<open>None\<close>, and a constraint with no
  name before it is stored under that key, so the keys are optional strings.
\<close>

record dep_state =
  dv_r :: "(string option, string list) dict"
  dv_lastdep :: "string option"
  dv_lastcmp :: string
  dv_lastver :: string
  dv_incmp :: bool
  dv_inversion :: bool

definition dep_init :: dep_state where
  "dep_init = \<lparr>dv_r = [], dv_lastdep = None, dv_lastcmp = [], dv_lastver = [],
     dv_incmp = False, dv_inversion = False\<rparr>"

definition cmp_ops2 :: "string list" where
  "cmp_ops2 = [''<='', ''=<'', ''<<'', ''=='', ''!='', ''>='', ''=>'', ''>>'']"

definition cmp_ops1 :: "string list" where
  "cmp_ops1 = [''<'', ''>'', ''='']"

text \<open>The part of the body under \<open>if inversion\<close>.\<close>

definition dep_version :: "string \<Rightarrow> dep_state \<Rightarrow> dep_state" where
  "dep_version i0 st0 =
     (let (i, st) =
        (if endswith i0 '')'' then
           (butlast i0,
            st0\<lparr>dv_inversion := False,
                dv_lastver := (if dv_lastver st0 \<noteq> [] \<and> butlast i0 \<noteq> []
                               then dv_lastver st0 @ '' '' else dv_lastver st0)\<rparr>)
         else (i0, st0))
      in if i = [] then st
         else let ver = dv_lastver st @ i;
                  vs = dict_get_or [] (dv_r st) (dv_lastdep st)
              in st\<lparr>dv_lastver := ver,
                    dv_r := dict_set (dv_lastdep st) (vs @ [dv_lastcmp st @ '' '' @ ver]) (dv_r st)\<rparr>)"

text \<open>The part of the body under \<open>if incmp\<close>: the operator, and what follows it.\<close>

definition dep_operator :: "string \<Rightarrow> (string \<times> string) result" where
  "dep_operator i =
     (if startswith_any i cmp_ops2 then Inr (take 2 i, drop 2 i)
      else if startswith_any i cmp_ops1 then Inr (take 1 i, drop 1 i)
      else Inl VersionStringException)"

definition dep_name :: "string \<Rightarrow> dep_state \<Rightarrow> dep_state" where
  "dep_name i st =
     st\<lparr>dv_lastdep := Some i, dv_lastver := [], dv_lastcmp := [],
        dv_r := (if dict_get_or [] (dv_r st) (Some i) \<noteq> [] then dv_r st
                 else dict_set (Some i) [] (dv_r st))\<rparr>"

definition dep_step :: "string \<Rightarrow> dep_state \<Rightarrow> dep_state result" where
  "dep_step i0 st0 =
     (let (i, st) = (if startswith i0 ''('' then (strip_ws (drop 1 i0), st0\<lparr>dv_incmp := True\<rparr>)
                     else (i0, st0))
      in if startswith i0 ''('' \<and> i = [] then Inr st
         else if dv_incmp st then
           bindE (dep_operator i) (\<lambda>(c, j).
             let st' = st\<lparr>dv_incmp := False, dv_inversion := True, dv_lastcmp := c\<rparr>
             in Inr (if j = [] then st' else dep_version j st'))
         else if dv_inversion st then Inr (dep_version i st)
         else Inr (dep_name i st))"

text \<open>
  \<open>sorted(r.items(), key=lambda x: x[0])\<close>: comparing \<open>None\<close> with a string raises.
\<close>

definition sort_items :: "(string option, 'v) dict \<Rightarrow> (string option, 'v) dict result" where
  "sort_items r =
     (if None \<in> set (dict_keys r) \<and> length r > 1 then Inl TypeError
      else Inr (sort_key (\<lambda>(k, _). case k of None \<Rightarrow> [] | Some s \<Rightarrow> s) r))"

definition explode_dep_versions2 :: "string \<Rightarrow> bool \<Rightarrow> (string option, string list) dict result" where
  "explode_dep_versions2 s srt =
     bindE (foldE dep_step (split_ws (filter (\<lambda>c. c \<noteq> CHR '','') s)) dep_init) (\<lambda>st.
       if srt then sort_items (dv_r st) else Inr (dv_r st))"

definition explode_dep_versions :: "string \<Rightarrow> (string option, string option) dict result" where
  "explode_dep_versions s =
     bindE (explode_dep_versions2 s True) (\<lambda>r.
       Inr (map (\<lambda>(d, vs). (d, case vs of [] \<Rightarrow> None | v # _ \<Rightarrow> Some v)) r))"

subsection \<open>Putting them together: \<open>join_deps\<close>\<close>

datatype dep_value = DNone | DStr string | DList "string list"

fun join_dep_items :: "string \<Rightarrow> dep_value \<Rightarrow> string list" where
  "join_dep_items dep DNone = [dep]"
| "join_dep_items dep (DStr v) = (if v = [] then [dep] else [dep @ '' ('' @ v @ '')''])"
| "join_dep_items dep (DList vs) =
     (if vs = [] then [dep] else map (\<lambda>v. dep @ '' ('' @ v @ '')'') vs)"

definition join_deps :: "(string, dep_value) dict \<Rightarrow> bool \<Rightarrow> string" where
  "join_deps deps commasep =
     join (if commasep then '', '' else '' '') (concat (map (\<lambda>(d, v). join_dep_items d v) deps))"

subsection \<open>Tokens of a joined string\<close>

text \<open>The names and constraints the metadata uses.\<close>

definition plain_word :: "string \<Rightarrow> bool" where
  "plain_word w \<longleftrightarrow> is_word w \<and> CHR '','' \<notin> set w \<and> \<not> startswith w ''(''"

definition plain_constraint :: "string \<Rightarrow> bool" where
  "plain_constraint v \<longleftrightarrow>
     (\<exists>c w. c \<in> set (cmp_ops2 @ cmp_ops1) \<and> plain_word w \<and> v = c @ '' '' @ w)"

lemma split_ws_acc_append:
  "py_isspace c \<Longrightarrow> split_ws_acc w (s @ c # t) = split_ws_acc w s @ split_ws t"
  by (induction w s rule: split_ws_acc.induct) (auto simp: split_ws_def)

lemma split_ws_append: "py_isspace c \<Longrightarrow> split_ws (s @ c # t) = split_ws s @ split_ws t"
  using split_ws_acc_append [of c "[]" s t] by (simp add: split_ws_def)

lemma split_ws_join_blank: "split_ws (join '' '' xs) = concat (map split_ws xs)"
  by (induction "'' ''" xs rule: join.induct) (auto simp: split_ws_append)

lemma filter_join:
  "filter P (join sep xs) = join (filter P sep) (map (filter P) xs)"
  by (induction sep xs rule: join.induct) auto

lemma op_word: "c \<in> set (cmp_ops2 @ cmp_ops1) \<Longrightarrow> is_word (CHR ''('' # c) \<and> CHR '','' \<notin> set c"
  by (auto simp: cmp_ops2_def cmp_ops1_def is_word_def py_isspace_def)

lemma constraint_tokens:
  assumes "plain_word d" and "c \<in> set (cmp_ops2 @ cmp_ops1)" and "plain_word w"
  shows "split_ws (d @ '' ('' @ c @ '' '' @ w @ '')'') = [d, CHR ''('' # c, w @ '')'']"
proof -
  have w: "is_word (w @ '')'')"
    using assms(3) by (auto simp: plain_word_def is_word_def py_isspace_def)
  have "split_ws (d @ '' ('' @ c @ '' '' @ w @ '')'') =
      split_ws d @ split_ws ((CHR ''('' # c) @ CHR '' '' # w @ '')'')"
    using split_ws_append [of "CHR '' ''" d] by simp
  also have "\<dots> = [d] @ (CHR ''('' # c) # split_ws (w @ '')'')"
    using assms op_word [of c] by (simp only: plain_word_def split_ws_word split_ws_word_space py_isspace_blank)
  finally show ?thesis using w by (simp add: split_ws_word)
qed

subsection \<open>The loop on the tokens of a joined string\<close>

lemma strip_ws_op: "c \<in> set (cmp_ops2 @ cmp_ops1) \<Longrightarrow> strip_ws c = c \<and> c \<noteq> []"
  by (auto simp: cmp_ops2_def cmp_ops1_def strip_ws_def py_isspace_def)

lemma dep_operator_op: "c \<in> set (cmp_ops2 @ cmp_ops1) \<Longrightarrow> dep_operator c = Inr (c, [])"
  by (auto simp: cmp_ops2_def cmp_ops1_def dep_operator_def startswith_any_def)

lemma dep_step_op:
  "c \<in> set (cmp_ops2 @ cmp_ops1) \<Longrightarrow>
   dep_step (CHR ''('' # c) st = Inr (st\<lparr>dv_incmp := False, dv_inversion := True, dv_lastcmp := c\<rparr>)"
  by (simp add: dep_step_def strip_ws_op dep_operator_op)

lemma not_paren_append: "\<not> startswith w ''('' \<Longrightarrow> w \<noteq> [] \<Longrightarrow> \<not> startswith (w @ u) ''(''"
  by (cases w) auto

lemma dep_step_version:
  assumes "plain_word w" and "\<not> dv_incmp st" and "dv_inversion st" and "dv_lastver st = []"
  shows "dep_step (w @ '')'') st =
    Inr (st\<lparr>dv_inversion := False, dv_lastver := w,
         dv_r := dict_set (dv_lastdep st)
           (dict_get_or [] (dv_r st) (dv_lastdep st) @ [dv_lastcmp st @ '' '' @ w]) (dv_r st)\<rparr>)"
  using assms not_paren_append [of w "'')''"]
  by (simp add: dep_step_def dep_version_def plain_word_def is_word_def Let_def)

lemma dep_step_name:
  "plain_word d \<Longrightarrow> \<not> dv_incmp st \<Longrightarrow> \<not> dv_inversion st \<Longrightarrow> dep_step d st = Inr (dep_name d st)"
  by (simp add: dep_step_def plain_word_def)

definition dep_clean :: "dep_state \<Rightarrow> bool" where
  "dep_clean st \<longleftrightarrow> \<not> dv_incmp st \<and> \<not> dv_inversion st"

lemma run_constraint:
  assumes "dep_clean st" and d: "plain_word d" and c: "plain_constraint v"
  shows "\<exists>st'. foldE dep_step (split_ws (d @ '' ('' @ v @ '')'')) st = Inr st' \<and> dep_clean st' \<and>
    dv_r st' = dict_set (Some d) (dict_get_or [] (dv_r st) (Some d) @ [v]) (dv_r (dep_name d st))"
proof -
  from c obtain op w where v: "op \<in> set (cmp_ops2 @ cmp_ops1)" "plain_word w" "v = op @ '' '' @ w"
    by (auto simp: plain_constraint_def)
  have t: "split_ws (d @ '' ('' @ v @ '')'') = [d, CHR ''('' # op, w @ '')'']"
    using constraint_tokens [OF d v(1,2)] v(3) by simp
  show ?thesis
    using assms(1) v(3) unfolding t
    by (simp add: dep_clean_def dep_step_name [OF d] dep_step_op [OF v(1)]
        dep_step_version [OF v(2)] dep_name_def dict_get_or_def)
qed

lemma dict_set_snoc: "k \<notin> set (dict_keys r) \<Longrightarrow> dict_set k v (r @ [(k, u)]) = r @ [(k, v)]"
  by (induction r) auto

lemma dict_get_or_snoc: "k \<notin> set (dict_keys r) \<Longrightarrow> dict_get_or x (r @ [(k, u)]) k = u"
  by (induction r) (auto simp: dict_get_or_def)

lemma dict_get_or_absent: "k \<notin> set (dict_keys r) \<Longrightarrow> dict_get_or x r k = x"
  by (simp add: dict_get_or_def map_of_None_iff [THEN iffD2] del: map_of_eq_None_iff)

lemma run_constraints:
  assumes "dep_clean st" and "plain_word d" and "\<forall>v \<in> set vs. plain_constraint v"
    and "Some d \<notin> set (dict_keys r)" and "us \<noteq> []" and "dv_r st = r @ [(Some d, us)]"
  shows "\<exists>st'. foldE dep_step (concat (map (\<lambda>v. split_ws (d @ '' ('' @ v @ '')'')) vs)) st = Inr st' \<and>
    dep_clean st' \<and> dv_r st' = r @ [(Some d, us @ vs)]"
  using assms
proof (induction vs arbitrary: st us)
  case (Cons v vs)
  have v: "plain_constraint v" and vs: "\<forall>v \<in> set vs. plain_constraint v"
    using Cons.prems(3) by auto
  obtain st1 where st1: "foldE dep_step (split_ws (d @ '' ('' @ v @ '')'')) st = Inr st1" "dep_clean st1"
    "dv_r st1 = dict_set (Some d) (us @ [v]) (dv_r (dep_name d st))"
    using run_constraint [OF Cons.prems(1,2) v] Cons.prems(4,6)
    by (auto simp: dict_get_or_snoc)
  have "dv_r st1 = r @ [(Some d, us @ [v])]"
    using st1(3) Cons.prems(4-6) by (simp add: dep_name_def dict_get_or_snoc dict_set_snoc)
  from Cons.IH [OF st1(2) Cons.prems(2) vs Cons.prems(4) _ this]
  show ?case using st1(1) by (simp add: foldE_append)
qed simp

lemma run_dep:
  assumes "dep_clean st" and d: "plain_word d" and "\<forall>v \<in> set vs. plain_constraint v"
    and "Some d \<notin> set (dict_keys (dv_r st))"
  shows "\<exists>st'. foldE dep_step (concat (map split_ws (join_dep_items d (DList vs)))) st = Inr st' \<and>
    dep_clean st' \<and> dv_r st' = dv_r st @ [(Some d, vs)]"
proof (cases vs)
  case Nil
  have "split_ws d = [d]" using d by (simp add: plain_word_def split_ws_word)
  then show ?thesis
    using assms Nil
    by (simp add: dep_clean_def dep_step_name dep_name_def dict_get_or_absent dict_set_new_key)
next
  case (Cons v ws)
  have v: "plain_constraint v" and ws: "\<forall>v \<in> set ws. plain_constraint v"
    using assms(3) Cons by auto
  obtain st1 where st1: "foldE dep_step (split_ws (d @ '' ('' @ v @ '')'')) st = Inr st1" "dep_clean st1"
    "dv_r st1 = dv_r st @ [(Some d, [v])]"
    using run_constraint [OF assms(1) d v] assms(4)
    by (auto simp: dep_name_def dict_get_or_absent dict_set_new_key dict_set_snoc)
  from run_constraints [OF st1(2) d ws assms(4) _ st1(3)] st1(1) Cons
  show ?thesis by (simp add: foldE_append o_def)
qed

lemma run_deps:
  assumes "dep_clean st" and "\<forall>(d, vs) \<in> set deps. plain_word d \<and> (\<forall>v \<in> set vs. plain_constraint v)"
    and "distinct (dict_keys deps)" and "\<forall>d \<in> set (dict_keys deps). Some d \<notin> set (dict_keys (dv_r st))"
  shows "\<exists>st'. foldE dep_step (concat (map (\<lambda>(d, vs). concat (map split_ws (join_dep_items d (DList vs)))) deps)) st
      = Inr st' \<and> dep_clean st' \<and> dv_r st' = dv_r st @ map (\<lambda>(d, vs). (Some d, vs)) deps"
  using assms
proof (induction deps arbitrary: st)
  case (Cons dv deps)
  obtain d vs where dv: "dv = (d, vs)" by force
  with Cons.prems have "plain_word d" "\<forall>v \<in> set vs. plain_constraint v"
    "Some d \<notin> set (dict_keys (dv_r st))" by auto
  from run_dep [OF Cons.prems(1) this] obtain st1 where
    st1: "foldE dep_step (concat (map split_ws (join_dep_items d (DList vs)))) st = Inr st1"
      "dep_clean st1" "dv_r st1 = dv_r st @ [(Some d, vs)]" by blast
  have "\<forall>e \<in> set (dict_keys deps). Some e \<notin> set (dict_keys (dv_r st1))"
    using Cons.prems(3,4) st1(3) dv by auto
  with Cons.IH [OF st1(2)] Cons.prems(2,3) dv st1(1,3)
  show ?case by (auto simp: foldE_append)
qed simp

lemma no_comma_constraint: "plain_constraint v \<Longrightarrow> CHR '','' \<notin> set v"
  using op_word by (fastforce simp: plain_constraint_def plain_word_def)

lemma filter_absent: "x \<notin> set s \<Longrightarrow> filter (\<lambda>c. c \<noteq> x) s = s"
  by (auto simp: filter_id_conv)

lemma no_comma_items:
  assumes "plain_word d" and "\<forall>v \<in> set vs. plain_constraint v"
  shows "map (filter (\<lambda>c. c \<noteq> CHR '','')) (join_dep_items d (DList vs)) = join_dep_items d (DList vs)"
proof -
  have "filter (\<lambda>c. c \<noteq> CHR '','') d = d" using assms(1) by (simp add: plain_word_def filter_absent)
  moreover have "filter (\<lambda>c. c \<noteq> CHR '','') v = v" if "v \<in> set vs" for v
    using that assms(2) by (simp add: no_comma_constraint filter_absent)
  ultimately show ?thesis by simp
qed

definition plain_deps :: "(string, string list) dict \<Rightarrow> bool" where
  "plain_deps deps \<longleftrightarrow> distinct (dict_keys deps) \<and>
     (\<forall>(d, vs) \<in> set deps. plain_word d \<and> (\<forall>v \<in> set vs. plain_constraint v))"

lemma join_deps_tokens:
  assumes "plain_deps deps"
  shows "split_ws (filter (\<lambda>c. c \<noteq> CHR '','') (join_deps (map (\<lambda>(d, vs). (d, DList vs)) deps) comma)) =
    concat (map (\<lambda>(d, vs). concat (map split_ws (join_dep_items d (DList vs)))) deps)"
proof -
  let ?items = "concat (map (\<lambda>(d, vs). join_dep_items d (DList vs)) deps)"
  have *: "map (filter (\<lambda>c. c \<noteq> CHR '','')) ?items = ?items"
    using assms unfolding map_concat plain_deps_def
    by (induction deps) (auto simp: no_comma_items simp del: join_dep_items.simps)
  have "filter (\<lambda>c. c \<noteq> CHR '','') (join_deps (map (\<lambda>(d, vs). (d, DList vs)) deps) comma) = join '' '' ?items"
    using * by (simp add: join_deps_def filter_join o_def case_prod_unfold)
  then show ?thesis
    by (simp add: split_ws_join_blank concat_map_concat o_def case_prod_unfold)
qed

subsection \<open>Properties\<close>

text \<open>
  Property C27. Joining a dictionary of dependencies and parsing the string gives the
  dictionary back, names in their order, whichever separator \<open>join_deps\<close> uses.
\<close>

theorem explode_join_deps:
  assumes "plain_deps deps"
  shows "explode_dep_versions2 (join_deps (map (\<lambda>(d, vs). (d, DList vs)) deps) comma) False =
    Inr (map (\<lambda>(d, vs). (Some d, vs)) deps)"
proof -
  have "dep_clean dep_init" "dv_r dep_init = []" by (simp_all add: dep_clean_def dep_init_def)
  with run_deps [of dep_init deps] assms show ?thesis
    by (auto simp: explode_dep_versions2_def join_deps_tokens plain_deps_def)
qed

theorem explode_join_deps_witness:
  "explode_dep_versions2 ''glibc (>= 2.35), zlib, perl (<< 6), perl (!= 5.1)'' False =
     Inr [(Some ''glibc'', [''>= 2.35'']), (Some ''zlib'', []), (Some ''perl'', [''<< 6'', ''!= 5.1''])]"
proof -
  let ?deps = "[(''glibc'', [''>= 2.35'']), (''zlib'', []), (''perl'', [''<< 6'', ''!= 5.1''])]"
  have c: "plain_constraint (c @ '' '' @ w)" if "c \<in> set (cmp_ops2 @ cmp_ops1)" "plain_word w" for c w
    using that by (auto simp: plain_constraint_def)
  have "plain_constraint ''>= 2.35''" "plain_constraint ''<< 6''" "plain_constraint ''!= 5.1''"
    using c [of "''>=''" "''2.35''"] c [of "''<<''" "''6''"] c [of "''!=''" "''5.1''"]
    by (simp_all add: cmp_ops2_def plain_word_def is_word_def py_isspace_def)
  then have "plain_deps ?deps"
    by (simp add: plain_deps_def plain_word_def is_word_def py_isspace_def)
  from explode_join_deps [OF this, of True] show ?thesis by (simp add: join_deps_def)
qed

lemma explode_deps_loop_append_name:
  "plain_word d \<Longrightarrow> explode_deps_loop False (d # l) = d # explode_deps_loop False l"
  by (simp add: plain_word_def)

lemma explode_deps_loop_constraint:
  assumes "plain_word d" and "plain_constraint v"
  shows "explode_deps_loop False (split_ws (d @ '' ('' @ v @ '')'') @ l) = d # explode_deps_loop False l"
proof -
  from assms(2) obtain op w where v: "op \<in> set (cmp_ops2 @ cmp_ops1)" "plain_word w" "v = op @ '' '' @ w"
    by (auto simp: plain_constraint_def)
  from v(1) have e: "\<not> endswith (CHR ''('' # op) '')''"
    by (auto simp: cmp_ops2_def cmp_ops1_def endswith_def)
  show ?thesis
    using constraint_tokens [OF assms(1) v(1,2)] v(3) e assms(1) by (simp add: plain_word_def)
qed

lemma explode_deps_loop_items:
  assumes "plain_word d" and "\<forall>v \<in> set vs. plain_constraint v"
  shows "explode_deps_loop False (concat (map (\<lambda>v. split_ws (d @ '' ('' @ v @ '')'')) vs) @ l) =
    replicate (length vs) d @ explode_deps_loop False l"
  using assms(2)
proof (induction vs)
  case (Cons v vs)
  then show ?case
    using explode_deps_loop_constraint [OF assms(1), of v
        "concat (map (\<lambda>v. split_ws (d @ '' ('' @ v @ '')'')) vs) @ l"]
    by simp
qed simp

text \<open>
  The two parsers agree: on a blank-separated string \<open>explode_deps\<close> returns
  each name once per constraint (once for a bare name), in order, and no version text.
\<close>

theorem explode_deps_names:
  assumes "plain_deps deps"
  shows "explode_deps (join_deps (map (\<lambda>(d, vs). (d, DList vs)) deps) False) =
    concat (map (\<lambda>(d, vs). replicate (max 1 (length vs)) d) deps)"
proof -
  let ?toks = "\<lambda>deps. concat (map (\<lambda>(d, vs). concat (map split_ws (join_dep_items d (DList vs)))) deps)"
  have "split_ws (join_deps (map (\<lambda>(d, vs). (d, DList vs)) deps) False) = ?toks deps"
    by (simp add: join_deps_def split_ws_join_blank concat_map_concat o_def case_prod_unfold)
  moreover have "explode_deps_loop False (?toks deps) = concat (map (\<lambda>(d, vs). replicate (max 1 (length vs)) d) deps)"
    using assms unfolding plain_deps_def
  proof (induction deps)
    case (Cons dv deps)
    obtain d vs where dv: "dv = (d, vs)" by force
    with Cons.prems have p: "plain_word d" "\<forall>v \<in> set vs. plain_constraint v" by auto
    have "split_ws d = [d]" using p(1) by (simp add: plain_word_def split_ws_word)
    then show ?case
      using Cons dv p explode_deps_loop_items [OF p]
      by (cases "vs = []") (auto simp: explode_deps_loop_append_name o_def max_def Suc_le_eq simp del: explode_deps_loop.simps)
  qed simp
  ultimately show ?thesis by (simp add: explode_deps_def)
qed

theorem explode_deps_names_witness:
  "explode_deps ''glibc (>= 2.35) glibc (<< 3) zlib'' = [''glibc'', ''glibc'', ''zlib'']"
proof -
  let ?deps = "[(''glibc'', [''>= 2.35'', ''<< 3'']), (''zlib'', [])]"
  have c: "plain_constraint (c @ '' '' @ w)" if "c \<in> set (cmp_ops2 @ cmp_ops1)" "plain_word w" for c w
    using that by (auto simp: plain_constraint_def)
  have "plain_constraint ''>= 2.35''" "plain_constraint ''<< 3''"
    using c [of "''>=''" "''2.35''"] c [of "''<<''" "''3''"]
    by (simp_all add: cmp_ops2_def plain_word_def is_word_def py_isspace_def)
  then have "plain_deps ?deps"
    by (simp add: plain_deps_def plain_word_def is_word_def py_isspace_def)
  from explode_deps_names [OF this] show ?thesis by (simp add: join_deps_def numeral_2_eq_2)
qed

end
