(* ===== verification/Stores.thy ===== *)
theory Stores
  imports Prelude
begin

text \<open>
  Servers that keep values for their clients: a session of requests, and the contracts such a
  server can have. The revision service and the hash equivalence server are interpretations.
\<close>

text \<open>A client session: the requests served one after the other, with their responses.\<close>

fun run_steps :: "('q \<Rightarrow> 's \<Rightarrow> 's \<times> 'r) \<Rightarrow> 'q list \<Rightarrow> 's \<Rightarrow> 's \<times> 'r list" where
  "run_steps step [] s = (s, [])"
| "run_steps step (q # qs) s =
     (case step q s of (s', r) \<Rightarrow> case run_steps step qs s' of (s'', rs) \<Rightarrow> (s'', r # rs))"

subsection \<open>The contracts of a store\<close>

text \<open>
  A server over a state \<open>'s\<close> with an invariant. In a rising store every group has a level,
  no request lowers one, and an answered value is the level after the request; in a sticky
  store a key once bound stays bound to the same value, and an answer is the binding. What a
  client sees over a whole session follows from that alone.
\<close>

locale store =
  fixes step :: "'q \<Rightarrow> 's \<Rightarrow> 's \<times> 'r"
    and inv :: "'s \<Rightarrow> bool"
  assumes step_inv: "inv s \<Longrightarrow> step q s = (s', r) \<Longrightarrow> inv s'"
begin

lemma run_inv: "inv s \<Longrightarrow> run_steps step qs s = (s', rs) \<Longrightarrow> inv s'"
  by (induction qs arbitrary: s rs) (auto split: prod.splits dest: step_inv)

lemma run_length: "run_steps step qs s = (s', rs) \<Longrightarrow> length rs = length qs"
  by (induction qs arbitrary: s rs) (auto split: prod.splits)

end

locale rising_store = store step inv
  for step :: "'q \<Rightarrow> 's \<Rightarrow> 's \<times> 'r" and inv +
  fixes answer :: "'q \<Rightarrow> 'r \<Rightarrow> ('g \<times> int) option"
    and level :: "'s \<Rightarrow> 'g \<Rightarrow> int option"
  assumes level_mono: "inv s \<Longrightarrow> step q s = (s', r) \<Longrightarrow> level s g = Some m \<Longrightarrow>
      \<exists>m'. level s' g = Some m' \<and> m \<le> m'"
    and answer_level: "inv s \<Longrightarrow> step q s = (s', r) \<Longrightarrow> answer q r = Some (g, x) \<Longrightarrow> level s' g = Some x"
begin

lemma answers_above_level:
  assumes "inv s" and "level s g = Some m" and "run_steps step qs s = (s', rs)"
    and "j < length qs" and "answer (qs ! j) (rs ! j) = Some (g, y)"
  shows "m \<le> y"
  using assms
proof (induction qs arbitrary: s m rs j)
  case (Cons q qs)
  obtain s1 r rs' where st: "step q s = (s1, r)" "run_steps step qs s1 = (s', rs')" "rs = r # rs'"
    using Cons.prems(3) by (auto split: prod.splits)
  obtain m1 where m1: "level s1 g = Some m1" "m \<le> m1"
    using level_mono [OF Cons.prems(1) st(1) Cons.prems(2)] by blast
  show ?case
  proof (cases j)
    case 0
    then show ?thesis
      using answer_level [OF Cons.prems(1) st(1)] Cons.prems(5) st(3) m1 by auto
  next
    case (Suc k)
    then show ?thesis
      using Cons.IH [OF step_inv [OF Cons.prems(1) st(1)] m1(1) st(2), of k] Cons.prems(4,5) st(3) m1(2)
      by auto
  qed
qed simp

lemma answers_never_decrease:
  assumes "inv s" and "run_steps step qs s = (s', rs)" and "i < j" and "j < length qs"
    and "answer (qs ! i) (rs ! i) = Some (g, x)" and "answer (qs ! j) (rs ! j) = Some (g, y)"
  shows "x \<le> y"
  using assms
proof (induction qs arbitrary: s rs i j)
  case (Cons q qs)
  obtain s1 r rs' where st: "step q s = (s1, r)" "run_steps step qs s1 = (s', rs')" "rs = r # rs'"
    using Cons.prems(2) by (auto split: prod.splits)
  have inv1: "inv s1" by (rule step_inv [OF Cons.prems(1) st(1)])
  obtain k where k: "j = Suc k" using Cons.prems(3) by (cases j) auto
  show ?case
  proof (cases i)
    case 0
    then have "level s1 g = Some x"
      using answer_level [OF Cons.prems(1) st(1)] Cons.prems(5) st(3) by auto
    from answers_above_level [OF inv1 this st(2), of k] show ?thesis
      using Cons.prems(4,6) st(3) k by auto
  next
    case (Suc i')
    then show ?thesis
      using Cons.IH [OF inv1 st(2), of i' k] Cons.prems(3-6) st(3) k by auto
  qed
qed simp

end

locale sticky_store = store step inv
  for step :: "'q \<Rightarrow> 's \<Rightarrow> 's \<times> 'r" and inv +
  fixes answer :: "'q \<Rightarrow> 'r \<Rightarrow> ('k \<times> 'v) option"
    and look :: "'s \<Rightarrow> 'k \<Rightarrow> 'v option"
  assumes look_sticky: "inv s \<Longrightarrow> step q s = (s', r) \<Longrightarrow> look s k = Some x \<Longrightarrow> look s' k = Some x"
    and answer_look: "inv s \<Longrightarrow> step q s = (s', r) \<Longrightarrow> answer q r = Some (k, x) \<Longrightarrow> look s' k = Some x"
begin

lemma run_sticky:
  "inv s \<Longrightarrow> run_steps step qs s = (s', rs) \<Longrightarrow> look s k = Some x \<Longrightarrow> look s' k = Some x"
  by (induction qs arbitrary: s rs) (auto split: prod.splits dest: step_inv look_sticky)

lemma run_answer_bound:
  assumes "inv s" and "run_steps step qs s = (s', rs)" and "j < length qs"
    and "answer (qs ! j) (rs ! j) = Some (k, x)"
  shows "look s' k = Some x"
  using assms
proof (induction qs arbitrary: s rs j)
  case (Cons q qs)
  obtain s1 r rs' where st: "step q s = (s1, r)" "run_steps step qs s1 = (s', rs')" "rs = r # rs'"
    using Cons.prems(2) by (auto split: prod.splits)
  note inv1 = step_inv [OF Cons.prems(1) st(1)]
  show ?case
  proof (cases j)
    case 0
    then show ?thesis
      using answer_look [OF Cons.prems(1) st(1)] Cons.prems(4) st(3) run_sticky [OF inv1 st(2)] by auto
  next
    case (Suc i)
    then show ?thesis using Cons.IH [OF inv1 st(2), of i] Cons.prems(3,4) st(3) by auto
  qed
qed simp

lemma answers_agree:
  assumes "inv s" and "run_steps step qs s = (s', rs)" and "i < length qs" and "j < length qs"
    and "answer (qs ! i) (rs ! i) = Some (k, x)" and "answer (qs ! j) (rs ! j) = Some (k, y)"
  shows "x = y"
  using run_answer_bound [OF assms(1,2,3,5)] run_answer_bound [OF assms(1,2,4,6)] by simp

end

end
