(* ===== verification/PRTable.thy ===== *)
theory PRTable
  imports PyStr Stores
begin

text \<open>
  The PR service: the table of \<open>bitbake/lib/prserv/db.py\<close> (\<open>PRTable\<close>, in history and in
  no-history mode) and the request handlers of \<open>bitbake/lib/prserv/serv.py\<close>. The SQL
  statements are functions on the list of rows, keyed by the primary key
  \<open>(version, pkgarch, checksum)\<close>; the committed rows are kept beside the working ones, so
  that \<open>commit\<close> and \<open>rollback\<close> are visible.
\<close>

subsection \<open>Rows and SQL\<close>

type_synonym pr_key = "string \<times> string \<times> string"
type_synonym pr_rows = "(pr_key \<times> int) list"

text \<open>\<open>SELECT max(value) FROM t WHERE version=? AND pkgarch=?\<close>; \<open>None\<close> is \<open>NULL\<close>.\<close>

definition group_values :: "pr_rows \<Rightarrow> string \<Rightarrow> string \<Rightarrow> int list" where
  "group_values t v p = map snd (filter (\<lambda>((v', p', _), _). v' = v \<and> p' = p) t)"

definition sql_max :: "pr_rows \<Rightarrow> string \<Rightarrow> string \<Rightarrow> int option" where
  "sql_max t v p = (case group_values t v p of [] \<Rightarrow> None | x # xs \<Rightarrow> Some (fold max xs x))"

text \<open>\<open>ifnull(max(value)+1, 0)\<close>.\<close>

definition next_value :: "pr_rows \<Rightarrow> string \<Rightarrow> string \<Rightarrow> int" where
  "next_value t v p = (case sql_max t v p of None \<Rightarrow> 0 | Some m \<Rightarrow> m + 1)"

text \<open>\<open>INSERT\<close> raises \<open>IntegrityError\<close> (here \<open>None\<close>) on a key that exists.\<close>

definition sql_insert :: "pr_key \<Rightarrow> int \<Rightarrow> pr_rows \<Rightarrow> pr_rows option" where
  "sql_insert k x t = (if map_of t k = None then Some (t @ [(k, x)]) else None)"

definition sql_insert_or_replace :: "pr_key \<Rightarrow> int \<Rightarrow> pr_rows \<Rightarrow> pr_rows" where
  "sql_insert_or_replace k x t = dict_del k t @ [(k, x)]"

text \<open>\<open>UPDATE t SET value=x WHERE key=k AND value<x\<close>.\<close>

definition sql_raise :: "pr_key \<Rightarrow> int \<Rightarrow> pr_rows \<Rightarrow> pr_rows" where
  "sql_raise k x t = map (\<lambda>(k', y). (k', if k' = k \<and> y < x then x else y)) t"

subsection \<open>The table\<close>

record prtable =
  pt_rows :: pr_rows
  pt_committed :: pr_rows
  pt_nohist :: bool
  pt_read_only :: bool
  pt_dirty :: bool

definition new_table :: "bool \<Rightarrow> bool \<Rightarrow> prtable" where
  "new_table nohist read_only =
     \<lparr>pt_rows = [], pt_committed = [], pt_nohist = nohist, pt_read_only = read_only, pt_dirty = False\<rparr>"

definition sync :: "prtable \<Rightarrow> prtable" where
  "sync t = (if \<not> pt_read_only t then t\<lparr>pt_committed := pt_rows t\<rparr> else t)"

definition sync_if_dirty :: "prtable \<Rightarrow> prtable" where
  "sync_if_dirty t = (if pt_dirty t then (sync t)\<lparr>pt_dirty := False\<rparr> else t)"

definition getValueHist :: "string \<Rightarrow> string \<Rightarrow> string \<Rightarrow> prtable \<Rightarrow> prtable \<times> int result" where
  "getValueHist v p c t =
     (case map_of (pt_rows t) (v, p, c) of
        Some x \<Rightarrow> (t, Inr x)
      | None \<Rightarrow>
          if pt_read_only t then (t, Inr (next_value (pt_rows t) v p))
          else
            let rows = (case sql_insert (v, p, c) (next_value (pt_rows t) v p) (pt_rows t) of
                          None \<Rightarrow> pt_rows t | Some rows \<Rightarrow> rows);
                t' = t\<lparr>pt_rows := rows, pt_dirty := True\<rparr>
            in (t', case map_of rows (v, p, c) of Some x \<Rightarrow> Inr x | None \<Rightarrow> Inl NotFoundError))"

text \<open>
  The row of the no-history query: the key's row, if its value reaches the group's maximum.
\<close>

definition nohist_row :: "pr_rows \<Rightarrow> string \<Rightarrow> string \<Rightarrow> string \<Rightarrow> int option" where
  "nohist_row t v p c =
     (case (map_of t (v, p, c), sql_max t v p) of
        (Some x, Some m) \<Rightarrow> if x \<ge> m then Some x else None
      | _ \<Rightarrow> None)"

definition getValueNohist :: "string \<Rightarrow> string \<Rightarrow> string \<Rightarrow> prtable \<Rightarrow> prtable \<times> int result" where
  "getValueNohist v p c t =
     (case nohist_row (pt_rows t) v p c of
        Some x \<Rightarrow> (t, Inr x)
      | None \<Rightarrow>
          if pt_read_only t then (t, Inr (next_value (pt_rows t) v p))
          else
            let rows = sql_insert_or_replace (v, p, c) (next_value (pt_rows t) v p) (pt_rows t);
                t' = t\<lparr>pt_rows := rows, pt_dirty := True\<rparr>
            in (t', case map_of rows (v, p, c) of Some x \<Rightarrow> Inr x | None \<Rightarrow> Inl NotFoundError))"

definition getValue :: "string \<Rightarrow> string \<Rightarrow> string \<Rightarrow> prtable \<Rightarrow> prtable \<times> int result" where
  "getValue v p c t = (if pt_nohist t then getValueNohist v p c t else getValueHist v p c t)"

definition importHist :: "string \<Rightarrow> string \<Rightarrow> string \<Rightarrow> int \<Rightarrow> prtable \<Rightarrow> prtable \<times> int option" where
  "importHist v p c x t =
     (if pt_read_only t then (t, None)
      else case map_of (pt_rows t) (v, p, c) of
        Some y \<Rightarrow> (t, Some y)
      | None \<Rightarrow>
          let rows = (case sql_insert (v, p, c) x (pt_rows t) of
                        None \<Rightarrow> pt_rows t | Some rows \<Rightarrow> rows)
          in (t\<lparr>pt_rows := rows, pt_dirty := True\<rparr>, map_of rows (v, p, c)))"

definition importNohist :: "string \<Rightarrow> string \<Rightarrow> string \<Rightarrow> int \<Rightarrow> prtable \<Rightarrow> prtable \<times> int option" where
  "importNohist v p c x t =
     (if pt_read_only t then (t, None)
      else
        let rows = (case sql_insert (v, p, c) x (pt_rows t) of
                      None \<Rightarrow> sql_raise (v, p, c) x (pt_rows t) | Some rows \<Rightarrow> rows)
        in (t\<lparr>pt_rows := rows, pt_dirty := True\<rparr>,
            case map_of rows (v, p, c) of
              Some y \<Rightarrow> if y \<ge> x then Some y else None
            | None \<Rightarrow> None))"

definition importone :: "string \<Rightarrow> string \<Rightarrow> string \<Rightarrow> int \<Rightarrow> prtable \<Rightarrow> prtable \<times> int option" where
  "importone v p c x t = (if pt_nohist t then importNohist v p c x t else importHist v p c x t)"

text \<open>
  \<open>export\<close>: the joined rows that carry their group's maximum (no history) or all rows
  (history), the optional \<open>where\<close> clauses (an empty argument adds none), and the test
  \<open>if row['version']\<close>.
\<close>

definition where_ok :: "string option \<Rightarrow> string \<Rightarrow> bool" where
  "where_ok a x = (case a of None \<Rightarrow> True | Some s \<Rightarrow> s = [] \<or> s = x)"

definition export_rows ::
  "string option \<Rightarrow> string option \<Rightarrow> string option \<Rightarrow> prtable \<Rightarrow> pr_rows" where
  "export_rows v p c t =
     filter (\<lambda>((v', p', c'), x).
        (pt_nohist t \<longrightarrow> sql_max (pt_rows t) v' p' = Some x) \<and>
        where_ok v v' \<and> where_ok p p' \<and> where_ok c c' \<and> v' \<noteq> []) (pt_rows t)"

subsection \<open>Requests\<close>

datatype pr_request =
    GetPR string string string
  | ImportOne string string string int
  | Export "string option" "string option" "string option"
  | IsReadonly

datatype pr_response = RValue int | RNone | RData pr_rows | RReadonly bool

fun handle_request :: "pr_request \<Rightarrow> prtable \<Rightarrow> prtable \<times> pr_response" where
  "handle_request (GetPR v p c) t =
     (case getValue v p c t of
        (t', Inr x) \<Rightarrow> (t', RValue x)
      | (t', Inl _) \<Rightarrow> (t', RNone))"
| "handle_request (ImportOne v p c x) t =
     (if \<not> pt_read_only t then
        (case importone v p c x t of
           (t', Some y) \<Rightarrow> (t', RValue y)
         | (t', None) \<Rightarrow> (t', RNone))
      else (t, RNone))"
| "handle_request (Export v p c) t = (t, RData (export_rows v p c t))"
| "handle_request IsReadonly t = (t, RReadonly (pt_read_only t))"

text \<open>\<open>dispatch_message\<close>: the handler, then \<open>sync_if_dirty\<close>.\<close>

definition dispatch_message :: "pr_request \<Rightarrow> prtable \<Rightarrow> prtable \<times> pr_response" where
  "dispatch_message r t = (case handle_request r t of (t', x) \<Rightarrow> (sync_if_dirty t', x))"

text \<open>A client session: the requests served one after the other, with their responses.\<close>

abbreviation serve :: "pr_request list \<Rightarrow> prtable \<Rightarrow> prtable \<times> pr_response list" where
  "serve \<equiv> run_steps dispatch_message"

subsection \<open>Maxima of a group\<close>

lemma set_group_values:
  "x \<in> set (group_values t v p) \<longleftrightarrow> (\<exists>c. ((v, p, c), x) \<in> set t)"
  by (force simp: group_values_def)

lemma fold_max: "fold max xs (x :: int) = Max (set (x # xs))"
  by (metis List.finite_set Max.set_eq_fold list.simps(15))

lemma sql_max_None: "sql_max t v p = None \<longleftrightarrow> group_values t v p = []"
  by (simp add: sql_max_def split: list.split)

lemma sql_max_Some:
  "sql_max t v p = Some m \<longleftrightarrow>
   (\<exists>c. ((v, p, c), m) \<in> set t) \<and> (\<forall>c x. ((v, p, c), x) \<in> set t \<longrightarrow> x \<le> m)"
proof -
  have "sql_max t v p = Some m \<longleftrightarrow>
      group_values t v p \<noteq> [] \<and> Max (set (group_values t v p)) = m"
    by (auto simp: sql_max_def fold_max split: list.split)
  also have "\<dots> \<longleftrightarrow> m \<in> set (group_values t v p) \<and> (\<forall>x \<in> set (group_values t v p). x \<le> m)"
    by (cases "group_values t v p = []") (auto simp: Max_eq_iff)
  finally show ?thesis by (auto simp: set_group_values)
qed

lemma sql_max_none_iff: "sql_max t v p = None \<longleftrightarrow> (\<forall>c x. ((v, p, c), x) \<notin> set t)"
  by (metis all_not_in_conv set_empty set_group_values sql_max_None)

subsection \<open>The no-history table is a rising store\<close>

abbreviation pk_ok :: "pr_rows \<Rightarrow> bool" where
  "pk_ok t \<equiv> distinct (dict_keys t)"

definition answer_of :: "pr_request \<Rightarrow> pr_response \<Rightarrow> ((string \<times> string) \<times> int) option" where
  "answer_of q r = (case (q, r) of (GetPR v p c, RValue x) \<Rightarrow> Some ((v, p), x) | _ \<Rightarrow> None)"

definition table_inv :: "prtable \<Rightarrow> bool" where
  "table_inv t \<longleftrightarrow> pk_ok (pt_rows t) \<and> pt_nohist t \<and> \<not> pt_read_only t"

definition table_level :: "prtable \<Rightarrow> string \<times> string \<Rightarrow> int option" where
  "table_level t = (\<lambda>(v, p). sql_max (pt_rows t) v p)"

text \<open>Rows that stay or rise keep the maximum from falling.\<close>

lemma sql_max_rises:
  assumes "sql_max t v p = Some m" and "\<And>c x. ((v, p, c), x) \<in> set t \<Longrightarrow> \<exists>c' y. ((v, p, c'), y) \<in> set t' \<and> x \<le> y"
  shows "\<exists>m'. sql_max t' v p = Some m' \<and> m \<le> m'"
proof -
  from assms obtain c' y where y: "((v, p, c'), y) \<in> set t'" "m \<le> y"
    unfolding sql_max_Some by blast
  then obtain m' where "sql_max t' v p = Some m'"
    by (cases "sql_max t' v p") (auto simp: sql_max_none_iff)
  with y show ?thesis unfolding sql_max_Some by (meson order_trans)
qed

lemma map_of_mem: "pk_ok t \<Longrightarrow> map_of t k = Some x \<longleftrightarrow> (k, x) \<in> set t"
  by (simp add: map_of_eq_Some_iff)

lemma replace_pk_ok: "pk_ok t \<Longrightarrow> pk_ok (sql_insert_or_replace k x t)"
  by (simp add: sql_insert_or_replace_def delete_keys distinct_removeAll)

lemma insert_pk_ok: "pk_ok t \<Longrightarrow> sql_insert k x t = Some t' \<Longrightarrow> pk_ok t'"
  by (auto simp: sql_insert_def map_of_eq_None_iff split: if_splits)

lemma raise_keys: "dict_keys (sql_raise k x t) = dict_keys t"
  by (induction t) (auto simp: sql_raise_def)

lemma set_replace: "set (sql_insert_or_replace k x t) = insert (k, x) {r \<in> set t. fst r \<noteq> k}"
  by (auto simp: sql_insert_or_replace_def AList.delete_eq)

lemma next_value_above: "((v, p, c), x) \<in> set t \<Longrightarrow> x < next_value t v p"
  using sql_max_none_iff [of t v p] sql_max_Some [of t v p]
  by (fastforce simp: next_value_def split: option.split)

lemma replace_level:
  "sql_max (sql_insert_or_replace (v, p, c) (next_value t v p) t) v p = Some (next_value t v p)"
  using next_value_above [of v p _ _ t] by (fastforce simp: sql_max_Some set_replace)

lemma replace_rises:
  assumes "sql_max t v' p' = Some m"
  shows "\<exists>m'. sql_max (sql_insert_or_replace (v, p, c) (next_value t v p) t) v' p' = Some m' \<and> m \<le> m'"
  using assms
proof (rule sql_max_rises)
  fix c' x assume x: "((v', p', c'), x) \<in> set t"
  show "\<exists>c'' y. ((v', p', c''), y) \<in> set (sql_insert_or_replace (v, p, c) (next_value t v p) t) \<and> x \<le> y"
  proof (cases "(v', p', c') = (v, p, c)")
    case True
    with next_value_above [of v p c' x t] x show ?thesis by (auto simp: set_replace intro: less_imp_le)
  next
    case False
    with x show ?thesis by (auto simp: set_replace)
  qed
qed

lemma nohist_row_max: "pk_ok t \<Longrightarrow> nohist_row t v p c = Some x \<Longrightarrow> sql_max t v p = Some x"
  by (auto simp: nohist_row_def sql_max_Some map_of_mem split: option.splits if_splits)
     (meson order_trans)

lemma sync_rows [simp]: "pt_rows (sync_if_dirty t) = pt_rows t" "pt_nohist (sync_if_dirty t) = pt_nohist t"
  "pt_read_only (sync_if_dirty t) = pt_read_only t"
  by (simp_all add: sync_if_dirty_def sync_def)

lemma getValueNohist_cases:
  assumes "table_inv t"
  obtains (found) x where "getValueNohist v p c t = (t, Inr x)" "sql_max (pt_rows t) v p = Some x"
  | (fresh) "getValueNohist v p c t =
      (t\<lparr>pt_rows := sql_insert_or_replace (v, p, c) (next_value (pt_rows t) v p) (pt_rows t), pt_dirty := True\<rparr>,
       Inr (next_value (pt_rows t) v p))"
proof (cases "nohist_row (pt_rows t) v p c")
  case None
  have "map_of (sql_insert_or_replace (v, p, c) (next_value (pt_rows t) v p) (pt_rows t)) (v, p, c) =
      Some (next_value (pt_rows t) v p)"
    by (simp add: sql_insert_or_replace_def map_add_Some_iff)
  with None assms show ?thesis
    by (intro fresh) (simp add: getValueNohist_def table_inv_def Let_def)
next
  case (Some x)
  with assms show ?thesis
    by (intro found [of x]) (auto simp: getValueNohist_def table_inv_def nohist_row_max)
qed

lemma import_rows:
  fixes k :: pr_key and x :: int and t :: pr_rows
  defines "t' \<equiv> (case sql_insert k x t of None \<Rightarrow> sql_raise k x t | Some rows \<Rightarrow> rows)"
  assumes "pk_ok t"
  shows "pk_ok t'" and "sql_max t v p = Some m \<Longrightarrow> \<exists>m'. sql_max t' v p = Some m' \<and> m \<le> m'"
proof -
  show "pk_ok t'"
    using assms(2) by (cases "sql_insert k x t") (auto simp: t'_def raise_keys insert_pk_ok)
  show "\<exists>m'. sql_max t' v p = Some m' \<and> m \<le> m'" if "sql_max t v p = Some m"
    using that
  proof (rule sql_max_rises)
    fix c y assume y: "((v, p, c), y) \<in> set t"
    show "\<exists>c' z. ((v, p, c'), z) \<in> set t' \<and> y \<le> z"
    proof (cases "sql_insert k x t")
      case None
      with y have "((v, p, c), if (v, p, c) = k \<and> y < x then x else y) \<in> set t'"
        by (force simp: t'_def sql_raise_def)
      then show ?thesis
        by (intro exI [of _ c] exI [of _ "if (v, p, c) = k \<and> y < x then x else y"]) simp
    next
      case (Some rows)
      with y have "((v, p, c), y) \<in> set t'"
        by (auto simp: t'_def sql_insert_def split: if_splits)
      then show ?thesis by blast
    qed
  qed
qed

lemma dispatch_nohist:
  assumes "table_inv t" and "dispatch_message q t = (t', r)"
  shows "table_inv t'"
    and "table_level t g = Some m \<Longrightarrow> \<exists>m'. table_level t' g = Some m' \<and> m \<le> m'"
    and "answer_of q r = Some (g, x) \<Longrightarrow> table_level t' g = Some x"
proof -
  have "table_inv t' \<and> (\<forall>g m. table_level t g = Some m \<longrightarrow> (\<exists>m'. table_level t' g = Some m' \<and> m \<le> m')) \<and>
    (\<forall>g x. answer_of q r = Some (g, x) \<longrightarrow> table_level t' g = Some x)"
  proof (cases q)
    case (GetPR v p c)
    consider (found) x where "getValueNohist v p c t = (t, Inr x)" "sql_max (pt_rows t) v p = Some x"
      | (fresh) "getValueNohist v p c t =
          (t\<lparr>pt_rows := sql_insert_or_replace (v, p, c) (next_value (pt_rows t) v p) (pt_rows t), pt_dirty := True\<rparr>,
           Inr (next_value (pt_rows t) v p))"
      using getValueNohist_cases [OF assms(1)] by metis
    then show ?thesis
    proof cases
      case (found x)
      with assms GetPR show ?thesis
        by (auto simp: dispatch_message_def getValue_def table_inv_def table_level_def answer_of_def)
    next
      case fresh
      with assms GetPR show ?thesis
        by (auto simp: dispatch_message_def getValue_def table_inv_def table_level_def answer_of_def
            replace_pk_ok replace_level intro: replace_rises)
    qed
  next
    case (ImportOne v p c x)
    with assms import_rows [where t = "pt_rows t" and k = "(v, p, c)" and x = x] show ?thesis
      by (auto simp: dispatch_message_def importone_def importNohist_def table_inv_def table_level_def
          answer_of_def Let_def split: prod.splits option.splits)
  qed (use assms in \<open>auto simp: dispatch_message_def table_inv_def table_level_def answer_of_def\<close>)
  then show "table_inv t'"
    and "table_level t g = Some m \<Longrightarrow> \<exists>m'. table_level t' g = Some m' \<and> m \<le> m'"
    and "answer_of q r = Some (g, x) \<Longrightarrow> table_level t' g = Some x"
    by blast+
qed

interpretation nohist: rising_store dispatch_message table_inv answer_of table_level
  by unfold_locales (fact dispatch_nohist)+

subsection \<open>The history table is a sticky store\<close>

definition hist_inv :: "prtable \<Rightarrow> bool" where
  "hist_inv t \<longleftrightarrow> pk_ok (pt_rows t) \<and> \<not> pt_nohist t \<and> \<not> pt_read_only t"

definition key_answer :: "pr_request \<Rightarrow> pr_response \<Rightarrow> (pr_key \<times> int) option" where
  "key_answer q r =
     (case (q, r) of
        (GetPR v p c, RValue x) \<Rightarrow> Some ((v, p, c), x)
      | (ImportOne v p c _, RValue x) \<Rightarrow> Some ((v, p, c), x)
      | _ \<Rightarrow> None)"

lemma getValueHist_simps:
  assumes "hist_inv t"
  shows "getValueHist v p c t =
    (case map_of (pt_rows t) (v, p, c) of
       Some x \<Rightarrow> (t, Inr x)
     | None \<Rightarrow> (t\<lparr>pt_rows := pt_rows t @ [((v, p, c), next_value (pt_rows t) v p)], pt_dirty := True\<rparr>,
                Inr (next_value (pt_rows t) v p)))"
  using assms
  by (auto simp: getValueHist_def hist_inv_def sql_insert_def Let_def map_add_Some_iff split: option.split)

lemma importHist_simps:
  assumes "hist_inv t"
  shows "importHist v p c x t =
    (case map_of (pt_rows t) (v, p, c) of
       Some y \<Rightarrow> (t, Some y)
     | None \<Rightarrow> (t\<lparr>pt_rows := pt_rows t @ [((v, p, c), x)], pt_dirty := True\<rparr>, Some x))"
  using assms
  by (auto simp: importHist_def hist_inv_def sql_insert_def Let_def map_add_Some_iff split: option.split)

lemma dispatch_hist:
  assumes "hist_inv t" and "dispatch_message q t = (t', r)"
  shows "hist_inv t'"
    and "map_of (pt_rows t) k = Some x \<Longrightarrow> map_of (pt_rows t') k = Some x"
    and "key_answer q r = Some (k, x) \<Longrightarrow> map_of (pt_rows t') k = Some x"
proof -
  have "hist_inv t' \<and> (\<forall>k x. map_of (pt_rows t) k = Some x \<longrightarrow> map_of (pt_rows t') k = Some x) \<and>
    (\<forall>k x. key_answer q r = Some (k, x) \<longrightarrow> map_of (pt_rows t') k = Some x)"
    using assms
    by (cases q)
       (auto simp: dispatch_message_def getValue_def importone_def getValueHist_simps importHist_simps
          hist_inv_def key_answer_def map_add_Some_iff map_of_eq_None_iff split: option.splits if_splits)
  then show "hist_inv t'"
    and "map_of (pt_rows t) k = Some x \<Longrightarrow> map_of (pt_rows t') k = Some x"
    and "key_answer q r = Some (k, x) \<Longrightarrow> map_of (pt_rows t') k = Some x"
    by blast+
qed

interpretation hist: sticky_store dispatch_message hist_inv key_answer "\<lambda>t. map_of (pt_rows t)"
  by unfold_locales (fact dispatch_hist)+

subsection \<open>Export and import\<close>

definition import_all :: "pr_rows \<Rightarrow> prtable \<Rightarrow> prtable" where
  "import_all rows t = fold (\<lambda>((v, p, c), x) t. fst (importone v p c x t)) rows t"

lemma importone_new:
  assumes "\<not> pt_read_only t" and "(v, p, c) \<notin> set (dict_keys (pt_rows t))"
  shows "fst (importone v p c x t) = t\<lparr>pt_rows := pt_rows t @ [((v, p, c), x)], pt_dirty := True\<rparr>"
proof -
  have "map_of (pt_rows t) (v, p, c) = None" using assms(2) by (simp add: map_of_eq_None_iff)
  with assms(1) show ?thesis
    by (simp add: importone_def importNohist_def importHist_def sql_insert_def Let_def)
qed

lemma import_all_append:
  assumes "\<not> pt_read_only t" and "pk_ok (pt_rows t @ rows)"
  shows "pt_rows (import_all rows t) = pt_rows t @ rows \<and> pt_nohist (import_all rows t) = pt_nohist t \<and>
    \<not> pt_read_only (import_all rows t)"
  using assms
proof (induction rows arbitrary: t)
  case (Cons r rows)
  obtain v p c x where r: "r = ((v, p, c), x)" by (metis prod_cases4 surj_pair)
  let ?t = "t\<lparr>pt_rows := pt_rows t @ [r], pt_dirty := True\<rparr>"
  have "fst (importone v p c x t) = ?t"
    using importone_new [of t v p c x] Cons.prems r by simp
  with Cons.IH [of ?t] Cons.prems r show ?case
    by (simp add: import_all_def)
qed (simp add: import_all_def)

lemma pk_ok_filter: "pk_ok t \<Longrightarrow> pk_ok (filter P t)"
  by (induction t) auto

lemma import_export_rows:
  assumes "pk_ok (pt_rows t)"
  shows "pt_rows (import_all (export_rows None None None t) (new_table nohist False)) =
    export_rows None None None t"
  using import_all_append [of "new_table nohist False" "export_rows None None None t"] assms
  by (simp add: new_table_def export_rows_def pk_ok_filter)

lemma export_nohist_max:
  assumes "pt_nohist t" and "v \<noteq> []"
  shows "sql_max (export_rows None None None t) v p = sql_max (pt_rows t) v p"
proof (cases "sql_max (pt_rows t) v p")
  case None
  then have "sql_max (export_rows None None None t) v p = None"
    unfolding sql_max_none_iff by (auto simp: export_rows_def)
  with None show ?thesis by simp
next
  case (Some m)
  have e: "((v, p, c), x) \<in> set (export_rows None None None t) \<longleftrightarrow>
      ((v, p, c), x) \<in> set (pt_rows t) \<and> x = m" for c x
    using assms Some by (auto simp: export_rows_def where_ok_def)
  have "sql_max (export_rows None None None t) v p = Some m"
    unfolding sql_max_Some [of "export_rows None None None t"] e
    using Some by (auto simp: sql_max_Some)
  with Some show ?thesis by simp
qed

lemma export_nohist_row:
  assumes "pt_nohist t" and "v \<noteq> []" and "pk_ok (pt_rows t)"
  shows "nohist_row (export_rows None None None t) v p c = nohist_row (pt_rows t) v p c"
proof -
  have "map_of (export_rows None None None t) (v, p, c) = Some x \<longleftrightarrow>
      map_of (pt_rows t) (v, p, c) = Some x \<and> sql_max (pt_rows t) v p = Some x" for x
    using assms by (auto simp: map_of_mem pk_ok_filter export_rows_def where_ok_def)
  note * = this
  show ?thesis
  proof (cases "nohist_row (pt_rows t) v p c")
    case (Some x)
    then have "map_of (pt_rows t) (v, p, c) = Some x" "sql_max (pt_rows t) v p = Some x"
      using nohist_row_max [OF assms(3) Some]
      by (auto simp: nohist_row_def split: option.splits if_splits)
    moreover from this * have "map_of (export_rows None None None t) (v, p, c) = Some x" by blast
    ultimately show ?thesis using Some by (simp add: nohist_row_def export_nohist_max [OF assms(1,2)])
  next
    case None
    with * [of "the (map_of (export_rows None None None t) (v, p, c))"] show ?thesis
      by (cases "map_of (export_rows None None None t) (v, p, c)")
         (auto simp: nohist_row_def export_nohist_max [OF assms(1,2)])
  qed
qed

subsection \<open>Durability\<close>

definition durable :: "prtable \<Rightarrow> bool" where
  "durable t \<longleftrightarrow> pt_committed t = pt_rows t \<and> \<not> pt_dirty t \<and> \<not> pt_read_only t"

lemma dispatch_durable: "durable t \<Longrightarrow> dispatch_message q t = (t', r) \<Longrightarrow> durable t'"
  by (cases q)
     (auto simp: durable_def dispatch_message_def sync_if_dirty_def sync_def getValue_def
        getValueHist_def getValueNohist_def importone_def importHist_def importNohist_def Let_def
        split: option.splits if_splits prod.splits)

interpretation durable: store dispatch_message durable
  by unfold_locales (fact dispatch_durable)

subsection \<open>Properties\<close>





text \<open>
  A tuple with no row gets a value above every value its version and
  architecture have, in either mode, and the writable table then holds it.
\<close>

theorem fresh_value_is_above:
  assumes "pk_ok (pt_rows t)" and "\<not> pt_read_only t" and "map_of (pt_rows t) (v, p, c) = None"
  shows "\<exists>t' x. getValue v p c t = (t', Inr x) \<and> map_of (pt_rows t') (v, p, c) = Some x \<and>
    (\<forall>c' y. map_of (pt_rows t) (v, p, c') = Some y \<longrightarrow> y < x)"
proof -
  have "y < next_value (pt_rows t) v p" if "map_of (pt_rows t) (v, p, c') = Some y" for c' y
    using that next_value_above map_of_SomeD by fast
  then show ?thesis
    using assms
    by (auto simp: getValue_def getValueNohist_def nohist_row_def getValueHist_def sql_insert_def
        sql_insert_or_replace_def Let_def map_add_def)
qed

theorem fresh_value_is_above_witness:
  "\<exists>t' x. getValue ''1.0'' ''arm'' ''b''
     (new_table False False\<lparr>pt_rows := [((''1.0'', ''arm'', ''a''), 7)]\<rparr>) = (t', Inr x) \<and> 7 < x"
  using fresh_value_is_above [of "new_table False False\<lparr>pt_rows := [((''1.0'', ''arm'', ''a''), 7)]\<rparr>"
      "''1.0''" "''arm''" "''b''"]
  by (force simp: new_table_def)

text \<open>
  Importing what a no-history table exports into an empty one loses nothing a
  client can see: every later query of a non-empty version gets the same answer.
\<close>

theorem nohist_export_import:
  assumes "table_inv t" and "v \<noteq> []"
  shows "snd (getValue v p c (import_all (export_rows None None None t) (new_table True False))) =
    snd (getValue v p c t)"
proof -
  let ?e = "export_rows None None None t" and ?t = "import_all (export_rows None None None t) (new_table True False)"
  have t: "pk_ok (pt_rows t)" "pt_nohist t" "\<not> pt_read_only t" using assms(1) by (simp_all add: table_inv_def)
  have rows: "pt_rows ?t = ?e" using import_export_rows [OF t(1)] .
  have mode: "pt_nohist ?t" "\<not> pt_read_only ?t"
    using import_all_append [of "new_table True False" ?e] t(1)
    by (simp_all add: new_table_def export_rows_def pk_ok_filter)
  show ?thesis
    using t mode
    by (simp add: getValue_def getValueNohist_def rows export_nohist_row [OF t(2) assms(2) t(1)]
        next_value_def export_nohist_max [OF t(2) assms(2)] Let_def sql_insert_or_replace_def
        map_add_Some_iff split: option.split)
qed

theorem nohist_export_import_witness:
  "snd (getValue ''1.0'' ''arm'' ''b''
     (import_all (export_rows None None None
        (new_table True False\<lparr>pt_rows := [((''1.0'', ''arm'', ''b''), 3), ((''1.0'', ''arm'', ''a''), 7)]\<rparr>))
        (new_table True False))) = Inr 8"
proof -
  let ?t = "new_table True False\<lparr>pt_rows := [((''1.0'', ''arm'', ''b''), 3), ((''1.0'', ''arm'', ''a''), 7)]\<rparr>"
  have "table_inv ?t" by (simp add: table_inv_def new_table_def)
  from nohist_export_import [OF this, of "''1.0''" "''arm''" "''b''"]
  have "snd (getValue ''1.0'' ''arm'' ''b'' (import_all (export_rows None None None ?t) (new_table True False))) =
    snd (getValue ''1.0'' ''arm'' ''b'' ?t)" by simp
  also have "\<dots> = Inr 8" by code_simp
  finally show ?thesis .
qed

text \<open>
  What has been answered is on disk: after every request of a session with a
  writable table, the committed rows are the working rows and nothing is dirty.
\<close>

theorem served_requests_are_committed:
  assumes "pt_committed t = pt_rows t" and "\<not> pt_dirty t" and "\<not> pt_read_only t"
    and "serve qs t = (t', rs)"
  shows "pt_committed t' = pt_rows t' \<and> \<not> pt_dirty t'"
  using durable.run_inv [of t qs t' rs] assms by (simp add: durable_def)

theorem served_requests_are_committed_witness:
  "pt_committed (fst (serve [GetPR ''1.0'' ''arm'' ''a''] (new_table True False))) =
     [((''1.0'', ''arm'', ''a''), 0)]"
proof -
  let ?t = "fst (serve [GetPR ''1.0'' ''arm'' ''a''] (new_table True False))"
  have "pt_committed ?t = pt_rows ?t \<and> \<not> pt_dirty ?t"
    by (rule served_requests_are_committed [OF _ _ _ prod.collapse [symmetric]]) (simp_all add: new_table_def)
  moreover have "pt_rows ?t = [((''1.0'', ''arm'', ''a''), 0)]" by code_simp
  ultimately show ?thesis by simp
qed

end
