(* ===== verification/RunQueueTid.thy ===== *)
theory RunQueueTid
  imports PyStr
begin

text \<open>
  Task identifiers of \<open>bitbake/lib/bb/runqueue.py\<close>: \<open>fn:taskname\<close> strings with an optional
  multiconfig prefix \<open>mc:name:\<close>, taken apart by \<open>split_tid_mcfn\<close> and its relatives and
  built by \<open>build_tid\<close>; and the entries the run queue keeps per task.
\<close>

type_synonym tid = string

abbreviation colon :: char where
  "colon \<equiv> CHR 0x3A"

definition is_mc :: "string \<Rightarrow> bool" where
  "is_mc s \<longleftrightarrow> startswith s ''mc:'' \<and> count_list s colon \<ge> 2"

definition fn_from_tid :: "tid \<Rightarrow> string" where
  "fn_from_tid tid = rsplit1 colon tid ! 0"

definition taskname_from_tid :: "tid \<Rightarrow> string result" where
  "taskname_from_tid tid =
     (case rsplit1 colon tid of [_, t] \<Rightarrow> Inr t | _ \<Rightarrow> Inl IndexError)"

definition mc_from_tid :: "tid \<Rightarrow> string" where
  "mc_from_tid tid = (if is_mc tid then split_on colon tid ! 1 else [])"

definition split_mc :: "string \<Rightarrow> string \<times> string" where
  "split_mc n =
     (if is_mc n then (split_on colon n ! 1, join [colon] (drop 2 (split_on colon n)))
      else ([], n))"

definition split_tid_mcfn :: "tid \<Rightarrow> (string \<times> string \<times> string \<times> string) result" where
  "split_tid_mcfn tid =
     (if is_mc tid then
        let elems = split_on colon tid;
            mc = elems ! 1;
            fn = join [colon] (butlast (drop 2 elems));
            taskname = last elems
        in Inr (mc, fn, taskname, ''mc:'' @ mc @ [colon] @ fn)
      else case rsplit1 colon tid of
        [fn, taskname] \<Rightarrow> Inr ([], fn, taskname, fn)
      | _ \<Rightarrow> Inl IndexError)"

definition split_tid :: "tid \<Rightarrow> (string \<times> string \<times> string) result" where
  "split_tid tid = bindE (split_tid_mcfn tid) (\<lambda>(mc, fn, taskname, _). Inr (mc, fn, taskname))"

definition build_tid :: "string \<Rightarrow> string \<Rightarrow> string \<Rightarrow> tid" where
  "build_tid mc fn taskname =
     (if mc \<noteq> [] then ''mc:'' @ mc @ [colon] @ fn @ [colon] @ taskname
      else fn @ [colon] @ taskname)"

lemma count_colon_append [simp]: "count_list (xs @ ys) c = count_list xs c + count_list ys c"
  by (induction xs) auto

lemma count_list_0: "c \<notin> set s \<Longrightarrow> count_list s c = 0"
  by (induction s) auto

lemma split_on_append_sep: "split_on c (s @ c # u) = split_on c s @ split_on c u"
proof (induction s)
  case (Cons x s)
  then show ?case
    using split_on_not_Nil [of c s] by (auto simp: neq_Nil_conv split: list.splits)
qed simp

lemma rsplit1_parts:
  "rsplit1 colon tid = [a, b] \<Longrightarrow> tid = a @ colon # b \<and> colon \<notin> set b"
proof -
  assume r: "rsplit1 colon tid = [a, b]"
  show ?thesis
  proof (cases "colon \<in> set tid")
    case True
    then obtain a' b' where "tid = a' @ colon # b'" "colon \<notin> set b'" "rsplit1 colon tid = [a', b']"
      by (rule rsplit1_two)
    with r show ?thesis by simp
  next
    case False
    with r show ?thesis by (simp add: rsplit1_no_sep)
  qed
qed

lemma is_mc_build: "mc \<noteq> [] \<Longrightarrow> is_mc (build_tid mc fn t)"
  by (simp add: is_mc_def build_tid_def)

lemma split_build_mc:
  assumes "mc \<noteq> []" and "colon \<notin> set mc" and "colon \<notin> set t"
  shows "split_tid_mcfn (build_tid mc fn t) = Inr (mc, fn, t, ''mc:'' @ mc @ [colon] @ fn)"
proof -
  have "split_on colon (build_tid mc fn t) = [''mc''] @ [mc] @ split_on colon fn @ [t]"
    using assms split_on_append_sep [of colon "''mc''"] split_on_append_sep [of colon mc]
      split_on_append_sep [of colon fn t]
    by (simp add: build_tid_def)
  then show ?thesis
    using is_mc_build [OF assms(1), of fn t]
    by (simp add: split_tid_mcfn_def butlast_append join_split_on Let_def)
qed

lemma split_build_plain:
  assumes "colon \<notin> set t" and "\<not> startswith fn ''mc:''"
  shows "split_tid_mcfn (build_tid [] fn t) = Inr ([], fn, t, fn)"
proof -
  have "\<not> is_mc (fn @ colon # t)"
  proof
    assume "is_mc (fn @ colon # t)"
    then have c: "count_list (fn @ colon # t) colon \<ge> 2" and "\<exists>u. fn @ colon # t = ''mc:'' @ u"
      unfolding is_mc_def startswith_iff by blast+
    then obtain u where u: "fn @ colon # t = ''mc:'' @ u" by blast
    from c have "colon \<in> set fn" using assms(1) count_list_0 [of colon fn] count_list_0 [of colon t] by fastforce
    moreover from u have "fn = ''mc'' \<or> (\<exists>v. fn = ''mc:'' @ v) \<or> fn = ''m'' \<or> fn = []"
      by (cases fn; cases "tl fn"; cases "tl (tl fn)") auto
    ultimately show False using assms(2) by (auto simp: startswith_iff)
  qed
  then show ?thesis
    using rsplit1_sep [OF assms(1), of fn] by (simp add: build_tid_def split_tid_mcfn_def)
qed

subsection \<open>Entries\<close>

record rte =
  rt_depends :: "tid list"
  rt_revdeps :: "tid list"
  rt_hash :: "string option"
  rt_unihash :: "string option"
  rt_weight :: int

definition new_rte :: rte where
  "new_rte = \<lparr>rt_depends = [], rt_revdeps = [], rt_hash = None, rt_unihash = None, rt_weight = 1\<rparr>"

type_synonym rtentries = "(tid, rte) dict"

definition deps_of :: "rtentries \<Rightarrow> tid \<Rightarrow> tid list" where
  "deps_of rt t = (case map_of rt t of None \<Rightarrow> [] | Some e \<Rightarrow> rt_depends e)"

definition revdeps_of :: "rtentries \<Rightarrow> tid \<Rightarrow> tid list" where
  "revdeps_of rt t = (case map_of rt t of None \<Rightarrow> [] | Some e \<Rightarrow> rt_revdeps e)"

text \<open>The set of tasks, kept opaque for the proofs.\<close>

definition tasks :: "rtentries \<Rightarrow> tid set" where
  "tasks rt = set (dict_keys rt)"

lemma finite_tasks [simp]: "finite (tasks rt)"
  by (simp add: tasks_def)

lemma tasks_map_of: "t \<in> tasks rt \<longleftrightarrow> (\<exists>e. map_of rt t = Some e)"
  unfolding tasks_def by (metis map_of_None_iff not_Some_eq)

lemma deps_of_mem: "map_of rt t = Some e \<Longrightarrow> deps_of rt t = rt_depends e"
  by (simp add: deps_of_def)

lemma deps_of_off_tasks: "t \<notin> tasks rt \<Longrightarrow> deps_of rt t = []"
  using tasks_map_of [of t rt] by (cases "map_of rt t") (auto simp: deps_of_def)

text \<open>\<open>(u, t)\<close>: task \<open>u\<close> depends on task \<open>t\<close>.\<close>

definition dep_rel :: "rtentries \<Rightarrow> (tid \<times> tid) set" where
  "dep_rel rt = {(u, t). t \<in> set (deps_of rt u)}"

subsection \<open>Statistics\<close>

record rq_stats =
  st_completed :: int
  st_skipped :: int
  st_failed :: int
  st_active :: int
  st_setscene_active :: int
  st_setscene_covered :: int
  st_setscene_notcovered :: int
  st_setscene_total :: int
  st_total :: int

definition new_stats :: "int \<Rightarrow> int \<Rightarrow> rq_stats" where
  "new_stats tot setscene_total =
     \<lparr>st_completed = 0, st_skipped = 0, st_failed = 0, st_active = 0, st_setscene_active = 0,
      st_setscene_covered = 0, st_setscene_notcovered = 0, st_setscene_total = setscene_total,
      st_total = tot\<rparr>"

definition taskFailed :: "rq_stats \<Rightarrow> rq_stats" where
  "taskFailed s = s\<lparr>st_active := st_active s - 1, st_failed := st_failed s + 1\<rparr>"

definition taskCompleted :: "rq_stats \<Rightarrow> rq_stats" where
  "taskCompleted s = s\<lparr>st_active := st_active s - 1, st_completed := st_completed s + 1\<rparr>"

definition taskSkipped :: "rq_stats \<Rightarrow> rq_stats" where
  "taskSkipped s = s\<lparr>st_active := st_active s + 1, st_skipped := st_skipped s + 1\<rparr>"

definition taskActive :: "rq_stats \<Rightarrow> rq_stats" where
  "taskActive s = s\<lparr>st_active := st_active s + 1\<rparr>"

definition updateCovered :: "int \<Rightarrow> int \<Rightarrow> rq_stats \<Rightarrow> rq_stats" where
  "updateCovered covered notcovered s =
     s\<lparr>st_setscene_covered := covered, st_setscene_notcovered := notcovered\<rparr>"

definition updateActiveSetscene :: "int \<Rightarrow> rq_stats \<Rightarrow> rq_stats" where
  "updateActiveSetscene active s = s\<lparr>st_setscene_active := active\<rparr>"

subsection \<open>Properties\<close>

text \<open>
  Splitting an identifier that was built from its parts gives the parts back:
  with a multiconfig name, and without one for files outside the \<open>mc:\<close> name space.
\<close>

theorem split_build_tid:
  assumes "colon \<notin> set t" and "colon \<notin> set mc" and "mc = [] \<Longrightarrow> \<not> startswith fn ''mc:''"
  shows "split_tid (build_tid mc fn t) = Inr (mc, fn, t)"
  using assms split_build_mc [of mc t fn] split_build_plain [of t fn]
  by (cases "mc = []") (simp_all add: split_tid_def)

theorem split_build_tid_witness:
  "split_tid (build_tid ''musl'' ''/a:b/zlib.bb'' ''do_compile'') = Inr (''musl'', ''/a:b/zlib.bb'', ''do_compile'')"
  by (rule split_build_tid) simp_all

end
