(* ===== verification/RunQueueWeights.thy ===== *)
theory RunQueueWeights
  imports RunQueueTid
begin

text \<open>
  \<open>RunQueueData.calculate_task_weights\<close> of \<open>bitbake/lib/bb/runqueue.py\<close>: the walk from the
  end points down the dependency graph that gives every task its scheduling weight and finds
  the tasks that can never run. It is proved to succeed exactly on acyclic task graphs.

  The three dictionaries of the routine hold every task of \<open>runtaskentries\<close> from the start
  and never change their keys, so they are total functions here, and \<open>KeyError\<close> is raised
  off the key set.
\<close>

subsection \<open>The routine\<close>

record wstate =
  ws_weight :: "tid \<Rightarrow> int"
  ws_left :: "tid \<Rightarrow> int"
  ws_done :: "tid \<Rightarrow> bool"

definition weights_init :: "rtentries \<Rightarrow> tid list \<Rightarrow> wstate" where
  "weights_init rt endpoints =
     \<lparr>ws_weight = (\<lambda>t. if t \<in> set endpoints then 10 else 1),
      ws_left = (\<lambda>t. int (length (revdeps_of rt t))),
      ws_done = (\<lambda>t. t \<in> set endpoints)\<rparr>"

text \<open>The body of the inner loop: task \<open>tid\<close> passes its weight on to \<open>revdep\<close>.\<close>

definition weights_edge :: "rtentries \<Rightarrow> tid \<Rightarrow> tid \<Rightarrow> wstate \<times> tid list \<Rightarrow> (wstate \<times> tid list) result" where
  "weights_edge rt tid revdep = (\<lambda>(st, next_points).
     if revdep \<notin> set (dict_keys rt) then Inl KeyError
     else
       let st = st\<lparr>ws_weight := (ws_weight st)(revdep := ws_weight st revdep + ws_weight st tid),
                   ws_left := (ws_left st)(revdep := ws_left st revdep - 1)\<rparr>
       in if ws_left st revdep = 0
          then Inr (st\<lparr>ws_done := (ws_done st)(revdep := True)\<rparr>, next_points @ [revdep])
          else Inr (st, next_points))"

definition weights_point :: "rtentries \<Rightarrow> tid \<Rightarrow> wstate \<times> tid list \<Rightarrow> (wstate \<times> tid list) result" where
  "weights_point rt tid s =
     (case map_of rt tid of
        None \<Rightarrow> Inl KeyError
      | Some e \<Rightarrow> foldE (weights_edge rt tid) (rt_depends e) s)"

text \<open>The outer loop; each unit of fuel is one pass over the current end points.\<close>

fun weights_loop :: "nat \<Rightarrow> rtentries \<Rightarrow> tid list \<Rightarrow> wstate \<Rightarrow> wstate result option" where
  "weights_loop 0 rt endpoints st = None"
| "weights_loop (Suc fuel) rt endpoints st =
     (case foldE (weights_point rt) endpoints (st, []) of
        Inl e \<Rightarrow> Some (Inl e)
      | Inr (st', next_points) \<Rightarrow>
          if next_points = [] then Some (Inr st') else weights_loop fuel rt next_points st')"

definition problem_tasks :: "rtentries \<Rightarrow> wstate \<Rightarrow> tid list" where
  "problem_tasks rt st = filter (\<lambda>t. \<not> ws_done st t \<or> ws_left st t \<noteq> 0) (dict_keys rt)"

definition store_weights :: "rtentries \<Rightarrow> wstate \<Rightarrow> rtentries" where
  "store_weights rt st = map (\<lambda>(t, e). (t, e\<lparr>rt_weight := ws_weight st t\<rparr>)) rt"

text \<open>
  The routine itself: the entries with their weights, or the fatal error. One pass per task
  and one more is fuel enough (\<open>weights_loop_total\<close>).
\<close>

definition calculate_task_weights :: "rtentries \<Rightarrow> tid list \<Rightarrow> rtentries result option" where
  "calculate_task_weights rt endpoints =
     (case weights_loop (Suc (length rt)) rt endpoints (weights_init rt endpoints) of
        None \<Rightarrow> None
      | Some (Inl e) \<Rightarrow> Some (Inl e)
      | Some (Inr st) \<Rightarrow>
          Some (if problem_tasks rt st \<noteq> [] then Inl Fatal else Inr (store_weights rt st)))"

subsection \<open>Well-formed task graphs\<close>

text \<open>
  What \<open>prepare\<close> has established when it calls the routine: \<open>depends\<close> and \<open>revdeps\<close> are
  sets of tasks of the graph, each the converse of the other.
\<close>

definition wf_graph :: "rtentries \<Rightarrow> bool" where
  "wf_graph rt \<longleftrightarrow> distinct (dict_keys rt) \<and>
     (\<forall>t \<in> tasks rt. distinct (deps_of rt t) \<and> set (deps_of rt t) \<subseteq> tasks rt \<and>
        distinct (revdeps_of rt t) \<and>
        set (revdeps_of rt t) = {u \<in> tasks rt. t \<in> set (deps_of rt u)})"

definition endpoints_of :: "rtentries \<Rightarrow> tid list" where
  "endpoints_of rt = filter (\<lambda>t. revdeps_of rt t = []) (dict_keys rt)"

lemma wf_graphD:
  assumes "wf_graph rt" and "t \<in> tasks rt"
  shows "distinct (deps_of rt t)" and "set (deps_of rt t) \<subseteq> tasks rt"
    and "distinct (revdeps_of rt t)" and "set (revdeps_of rt t) = {u \<in> tasks rt. t \<in> set (deps_of rt u)}"
  using assms unfolding wf_graph_def by blast+

lemma wf_graph_keys: "wf_graph rt \<Longrightarrow> distinct (dict_keys rt)"
  by (simp add: wf_graph_def)

lemma wf_graph_deps: "wf_graph rt \<Longrightarrow> t \<in> set (deps_of rt u) \<Longrightarrow> u \<in> tasks rt \<and> t \<in> tasks rt"
  by (metis deps_of_off_tasks empty_iff list.set(1) subsetD wf_graphD(2))

lemma endpoints_of: "wf_graph rt \<Longrightarrow> distinct (endpoints_of rt)" "set (endpoints_of rt) \<subseteq> tasks rt"
  "t \<in> set (endpoints_of rt) \<longleftrightarrow> t \<in> tasks rt \<and> revdeps_of rt t = []"
  by (auto simp: wf_graph_def endpoints_of_def tasks_def)

subsection \<open>One pass as a walk over edges\<close>

definition edges_from :: "rtentries \<Rightarrow> tid list \<Rightarrow> (tid \<times> tid) list" where
  "edges_from rt us = concat (map (\<lambda>u. map (Pair u) (deps_of rt u)) us)"

definition pass_edge :: "tid \<times> tid \<Rightarrow> wstate \<times> tid list \<Rightarrow> wstate \<times> tid list" where
  "pass_edge = (\<lambda>(u, t) (st, nx).
     let st = st\<lparr>ws_weight := (ws_weight st)(t := ws_weight st t + ws_weight st u),
                 ws_left := (ws_left st)(t := ws_left st t - 1)\<rparr>
     in if ws_left st t = 0 then (st\<lparr>ws_done := (ws_done st)(t := True)\<rparr>, nx @ [t]) else (st, nx))"

abbreviation pass_edges :: "(tid \<times> tid) list \<Rightarrow> wstate \<times> tid list \<Rightarrow> wstate \<times> tid list" where
  "pass_edges es \<equiv> fold pass_edge es"

lemma pass_edge_left: "ws_left (fst (pass_edge (u, t) s)) = (ws_left (fst s))(t := ws_left (fst s) t - 1)"
  and pass_edge_weight: "ws_weight (fst (pass_edge (u, t) s)) =
    (ws_weight (fst s))(t := ws_weight (fst s) t + ws_weight (fst s) u)"
  and pass_edge_done: "ws_done (fst (pass_edge (u, t) s)) =
    (if ws_left (fst s) t = 1 then (ws_done (fst s))(t := True) else ws_done (fst s))"
  and pass_edge_next: "snd (pass_edge (u, t) s) = (if ws_left (fst s) t = 1 then snd s @ [t] else snd s)"
  by (simp_all add: pass_edge_def Let_def case_prod_unfold)

lemmas pass_edge_simps = pass_edge_left pass_edge_weight pass_edge_done pass_edge_next

lemma foldE_edges:
  "set ts \<subseteq> tasks rt \<Longrightarrow> foldE (weights_edge rt u) ts s = Inr (pass_edges (map (Pair u) ts) s)"
proof (induction ts arbitrary: s)
  case (Cons t ts)
  then have "weights_edge rt u t s = Inr (pass_edge (u, t) s)"
    by (cases s) (simp add: weights_edge_def pass_edge_def Let_def tasks_def)
  with Cons show ?case by simp
qed simp

lemma wf_graph_entry:
  "wf_graph rt \<Longrightarrow> map_of rt u = Some e \<Longrightarrow> set (rt_depends e) \<subseteq> tasks rt"
  using deps_of_mem [of rt u e] tasks_map_of [of u rt] wf_graphD(2) by metis

lemma foldE_points:
  assumes "wf_graph rt" and "set us \<subseteq> tasks rt"
  shows "foldE (weights_point rt) us s = Inr (pass_edges (edges_from rt us) s)"
  using assms(2)
proof (induction us arbitrary: s)
  case (Cons u us)
  then obtain e where e: "map_of rt u = Some e" using tasks_map_of [of u rt] by auto
  with Cons wf_graph_entry [OF assms(1) e] show ?case
    by (simp add: weights_point_def foldE_edges edges_from_def deps_of_mem)
qed (simp add: edges_from_def)

text \<open>What a walk over edges leaves, when no edge leads to a source of an edge.\<close>

definition in_edges :: "(tid \<times> tid) list \<Rightarrow> tid \<Rightarrow> tid list" where
  "in_edges es t = map fst (filter (\<lambda>(u, t'). t' = t) es)"

lemma in_edges_simps [simp]:
  "in_edges [] t = []"
  "in_edges ((u, t') # es) t = (if t' = t then u # in_edges es t else in_edges es t)"
  by (simp_all add: in_edges_def)

lemma set_in_edges: "set (in_edges es t) = {u. (u, t) \<in> set es}"
  by (force simp: in_edges_def)

lemma pass_edges_left:
  "ws_left (fst (pass_edges es s)) t = ws_left (fst s) t - int (length (in_edges es t))"
  by (induction es arbitrary: s) (auto simp: pass_edge_simps)

lemma pass_edges_weight:
  assumes "fst ` set es \<inter> snd ` set es = {}"
  shows "ws_weight (fst (pass_edges es s)) t =
    ws_weight (fst s) t + sum_list (map (ws_weight (fst s)) (in_edges es t))"
  using assms
proof (induction es arbitrary: s)
  case (Cons e es)
  obtain u t' where e: "e = (u, t')" by force
  have d: "fst ` set es \<inter> snd ` set es = {}" and t': "t' \<notin> fst ` set es"
    using Cons.prems e by auto
  have "ws_weight (fst (pass_edge e s)) v = ws_weight (fst s) v" if "v \<in> set (in_edges es t)" for v
    using that t' e by (auto simp: pass_edge_simps set_in_edges image_iff)
  then have "map (ws_weight (fst (pass_edge e s))) (in_edges es t) = map (ws_weight (fst s)) (in_edges es t)"
    by simp
  with Cons.IH [OF d, of "pass_edge e s"]
  have "ws_weight (fst (pass_edges (e # es) s)) t =
      ws_weight (fst (pass_edge e s)) t + sum_list (map (ws_weight (fst s)) (in_edges es t))"
    by simp
  with e show ?case by (auto simp: pass_edge_simps)
qed simp

text \<open>The targets whose count of open dependents reaches zero during the walk.\<close>

definition hits :: "wstate \<Rightarrow> (tid \<times> tid) list \<Rightarrow> tid set" where
  "hits st es = {t \<in> snd ` set es. ws_left st t = int (length (in_edges es t))}"

definition bounded :: "wstate \<Rightarrow> (tid \<times> tid) list \<Rightarrow> bool" where
  "bounded st es \<longleftrightarrow> (\<forall>t \<in> snd ` set es. int (length (in_edges es t)) \<le> ws_left st t)"

lemma in_edges_Nil: "in_edges es t = [] \<longleftrightarrow> t \<notin> snd ` set es"
  by (force simp: set_in_edges simp flip: set_empty)

lemma bounded_Cons:
  assumes "bounded (fst s) ((u, t) # es)"
  shows "bounded (fst (pass_edge (u, t) s)) es"
    and "ws_left (fst s) t = 1 \<Longrightarrow> t \<notin> snd ` set es"
    and "hits (fst s) ((u, t) # es) =
      (if ws_left (fst s) t = 1 then {t} else {}) \<union> hits (fst (pass_edge (u, t) s)) es"
proof -
  have t: "int (Suc (length (in_edges es t))) \<le> ws_left (fst s) t"
    using assms by (simp add: bounded_def)
  show "bounded (fst (pass_edge (u, t) s)) es"
    using assms by (auto simp: bounded_def pass_edge_simps)
  show 1: "t \<notin> snd ` set es" if "ws_left (fst s) t = 1"
    using t that by (simp add: in_edges_Nil [symmetric])
  show "hits (fst s) ((u, t) # es) =
      (if ws_left (fst s) t = 1 then {t} else {}) \<union> hits (fst (pass_edge (u, t) s)) es"
  proof (cases "ws_left (fst s) t = 1")
    case True
    with 1 t show ?thesis
      by (auto simp: hits_def pass_edge_simps)
  next
    case False
    then show ?thesis
      using t in_edges_Nil [of es t] by (auto simp: hits_def pass_edge_simps)
  qed
qed

lemma pass_edges_done:
  assumes "bounded (fst s) es"
  shows "ws_done (fst (pass_edges es s)) t \<longleftrightarrow> ws_done (fst s) t \<or> t \<in> hits (fst s) es"
    and "set (snd (pass_edges es s)) = set (snd s) \<union> hits (fst s) es"
    and "distinct (snd s) \<Longrightarrow> set (snd s) \<inter> snd ` set es = {} \<Longrightarrow> distinct (snd (pass_edges es s))"
proof -
  have "(ws_done (fst (pass_edges es s)) t \<longleftrightarrow> ws_done (fst s) t \<or> t \<in> hits (fst s) es) \<and>
    set (snd (pass_edges es s)) = set (snd s) \<union> hits (fst s) es \<and>
    (distinct (snd s) \<longrightarrow> set (snd s) \<inter> snd ` set es = {} \<longrightarrow> distinct (snd (pass_edges es s)))"
    using assms
  proof (induction es arbitrary: s)
    case (Cons e es)
    obtain u t' where e: "e = (u, t')" by force
    note b = bounded_Cons [OF Cons.prems [unfolded e]]
    from Cons.IH [OF b(1)] b(2,3) e show ?case
      by (cases "ws_left (fst s) t' = 1") (auto simp: pass_edge_simps)
  qed (simp add: hits_def)
  then show "ws_done (fst (pass_edges es s)) t \<longleftrightarrow> ws_done (fst s) t \<or> t \<in> hits (fst s) es"
    and "set (snd (pass_edges es s)) = set (snd s) \<union> hits (fst s) es"
    and "distinct (snd s) \<Longrightarrow> set (snd s) \<inter> snd ` set es = {} \<Longrightarrow> distinct (snd (pass_edges es s))"
    by blast+
qed

subsection \<open>The invariant of the passes\<close>

text \<open>
  \<open>P\<close> are the tasks that have passed their weight on, \<open>E\<close> the current end points.
\<close>

definition base_weight :: "rtentries \<Rightarrow> tid \<Rightarrow> int" where
  "base_weight rt t = (if t \<in> set (endpoints_of rt) then 10 else 1)"

definition dependents :: "rtentries \<Rightarrow> tid set \<Rightarrow> tid \<Rightarrow> tid set" where
  "dependents rt A t = {u \<in> A. t \<in> set (deps_of rt u)}"

definition pass_inv :: "rtentries \<Rightarrow> tid set \<Rightarrow> tid list \<Rightarrow> wstate \<Rightarrow> bool" where
  "pass_inv rt P E st \<longleftrightarrow>
     (let T = tasks rt in
      P \<union> set E \<subseteq> T \<and> distinct E \<and> P \<inter> set E = {} \<and>
      (\<forall>t \<in> T. ws_left st t = int (card (dependents rt (T - P) t))) \<and>
      (\<forall>t \<in> T. ws_done st t \<longleftrightarrow> t \<in> P \<union> set E) \<and>
      (\<forall>t \<in> T. ws_left st t = 0 \<longleftrightarrow> t \<in> P \<union> set E) \<and>
      (\<forall>t \<in> T. ws_weight st t = base_weight rt t + sum (ws_weight st) (dependents rt P t)) \<and>
      (\<forall>t \<in> T. 0 < ws_weight st t))"

lemma finite_dependents [simp]: "finite A \<Longrightarrow> finite (dependents rt A t)"
  by (simp add: dependents_def)

lemma in_edges_from:
  assumes "wf_graph rt" and "distinct us" and "set us \<subseteq> tasks rt"
  shows "distinct (in_edges (edges_from rt us) t)" and "set (in_edges (edges_from rt us) t) = dependents rt (set us) t"
proof -
  have *: "in_edges (map (Pair u) ts) t = (if t \<in> set ts then [u] else [])" if "distinct ts" for u ts
    using that by (induction ts) auto
  have app: "in_edges (es @ fs) t = in_edges es t @ in_edges fs t" for es fs
    by (simp add: in_edges_def)
  have "distinct (in_edges (edges_from rt us) t) \<and> set (in_edges (edges_from rt us) t) = dependents rt (set us) t"
    using assms(2,3)
  proof (induction us)
    case (Cons u us)
    then have "distinct (deps_of rt u)" using wf_graphD(1) [OF assms(1)] by simp
    with Cons show ?case
      by (auto simp: edges_from_def app * dependents_def)
  qed (simp add: edges_from_def dependents_def)
  then show "distinct (in_edges (edges_from rt us) t)"
    and "set (in_edges (edges_from rt us) t) = dependents rt (set us) t" by blast+
qed

lemma snd_edges_from: "t \<in> snd ` set (edges_from rt us) \<longleftrightarrow> dependents rt (set us) t \<noteq> {}"
  by (force simp: edges_from_def dependents_def)

lemma fst_edges_from: "fst ` set (edges_from rt us) \<subseteq> set us"
  by (auto simp: edges_from_def)

lemma pass_inv_init:
  assumes "wf_graph rt"
  shows "pass_inv rt {} (endpoints_of rt) (weights_init rt (endpoints_of rt))"
proof -
  have "int (length (revdeps_of rt t)) = int (card (dependents rt (tasks rt) t))" if "t \<in> tasks rt" for t
    using distinct_card [OF wf_graphD(3) [OF assms that]] wf_graphD(4) [OF assms that]
    by (simp add: dependents_def)
  moreover have "dependents rt {} t = {}" for t by (simp add: dependents_def)
  ultimately show ?thesis
    using endpoints_of(1) [OF assms] endpoints_of(2) [of rt] endpoints_of(3) [where rt = rt]
    by (simp add: pass_inv_def weights_init_def base_weight_def Let_def)
qed

lemma pass_inv_step:
  assumes wf: "wf_graph rt" and inv: "pass_inv rt P E st"
    and r: "pass_edges (edges_from rt E) (st, []) = (st', nx)"
  shows "pass_inv rt (P \<union> set E) nx st'"
proof -
  let ?T = "tasks rt" and ?es = "edges_from rt E"
  have E: "distinct E" "set E \<subseteq> ?T" "P \<subseteq> ?T" "P \<inter> set E = {}"
    and left: "\<And>t. t \<in> ?T \<Longrightarrow> ws_left st t = int (card (dependents rt (?T - P) t))"
    and don: "\<And>t. t \<in> ?T \<Longrightarrow> ws_done st t \<longleftrightarrow> t \<in> P \<union> set E"
    and zero: "\<And>t. t \<in> ?T \<Longrightarrow> ws_left st t = 0 \<longleftrightarrow> t \<in> P \<union> set E"
    and wt: "\<And>t. t \<in> ?T \<Longrightarrow> ws_weight st t = base_weight rt t + sum (ws_weight st) (dependents rt P t)"
    and pos: "\<And>t. t \<in> ?T \<Longrightarrow> 0 < ws_weight st t"
    using inv unfolding pass_inv_def Let_def by blast+
  note ine = in_edges_from [OF wf E(1,2)]
  have cnt: "length (in_edges ?es t) = card (dependents rt (set E) t)" for t
    using distinct_card [OF ine(1)] ine(2) by metis
  have split: "dependents rt (?T - P) t = dependents rt (?T - (P \<union> set E)) t \<union> dependents rt (set E) t" for t
    using E by (auto simp: dependents_def)
  have split_card: "card (dependents rt (?T - P) t) =
      card (dependents rt (?T - (P \<union> set E)) t) + card (dependents rt (set E) t)" for t
    unfolding split by (rule card_Un_disjoint) (auto simp: dependents_def)
  have tgt: "t \<in> ?T \<and> t \<notin> P \<union> set E" if "dependents rt (set E) t \<noteq> {}" for t
  proof -
    from that have t: "t \<in> ?T" using wf_graph_deps [OF wf] by (auto simp: dependents_def)
    from that have "card (dependents rt (set E) t) \<noteq> 0" by simp
    then have "ws_left st t \<noteq> 0" using left [OF t] split_card [of t] by linarith
    with zero [OF t] t show ?thesis by blast
  qed
  have disj: "fst ` set ?es \<inter> snd ` set ?es = {}"
  proof (rule equals0I)
    fix t assume t: "t \<in> fst ` set ?es \<inter> snd ` set ?es"
    then have "t \<in> set E" using fst_edges_from [of rt E] by blast
    moreover from t have "dependents rt (set E) t \<noteq> {}" using snd_edges_from [of t rt E] by simp
    ultimately show False using tgt [of t] by blast
  qed
  have bnd: "bounded (fst (st, [])) ?es"
    unfolding bounded_def
  proof
    fix t assume "t \<in> snd ` set ?es"
    then have "t \<in> ?T" using tgt snd_edges_from by blast
    then show "int (length (in_edges ?es t)) \<le> ws_left (fst (st, [])) t"
      using left [of t] split_card [of t] by (simp add: cnt)
  qed
  note out = pass_edges_left [of ?es "(st, [])"] pass_edges_weight [OF disj, of "(st, [])"]
    pass_edges_done [OF bnd]
  have left': "ws_left st' t = int (card (dependents rt (?T - (P \<union> set E)) t))" if "t \<in> ?T" for t
    using out(1) [of t] left [OF that] split_card [of t] by (simp add: r cnt)
  have hits: "hits st ?es = {t \<in> ?T. ws_left st' t = 0 \<and> t \<notin> P \<union> set E}"
  proof (rule set_eqI)
    fix t
    show "t \<in> hits st ?es \<longleftrightarrow> t \<in> {t \<in> ?T. ws_left st' t = 0 \<and> t \<notin> P \<union> set E}"
    proof (cases "dependents rt (set E) t = {}")
      case True
      then have "ws_left st' t = ws_left st t" using out(1) [of t] by (simp add: r cnt)
      with True zero [of t] show ?thesis by (auto simp: hits_def snd_edges_from)
    next
      case False
      then show ?thesis
        using tgt [of t] out(1) [of t] by (auto simp: hits_def snd_edges_from r)
    qed
  qed
  have nx: "set nx = hits st ?es" "distinct nx" using out(4,5) by (auto simp: r)
  have wt': "ws_weight st' t = ws_weight st t + sum (ws_weight st) (dependents rt (set E) t)" for t
    using out(2) [of t] sum_list_distinct_conv_sum_set [OF ine(1), of "ws_weight st"] by (simp add: r ine(2))
  have keep: "ws_weight st' u = ws_weight st u" if "u \<in> P \<union> set E" for u
  proof -
    have "dependents rt (set E) u = {}" using tgt [of u] that by blast
    then show ?thesis using wt' [of u] by simp
  qed
  have weight: "ws_weight st' t = base_weight rt t + sum (ws_weight st') (dependents rt (P \<union> set E) t)"
    if "t \<in> ?T" for t
  proof -
    have "sum (ws_weight st') (dependents rt (P \<union> set E) t) = sum (ws_weight st) (dependents rt (P \<union> set E) t)"
      by (rule sum.cong) (auto simp: dependents_def keep)
    also have "\<dots> = sum (ws_weight st) (dependents rt P t \<union> dependents rt (set E) t)"
      by (rule arg_cong [where f = "sum (ws_weight st)"]) (auto simp: dependents_def)
    also have "\<dots> =
        sum (ws_weight st) (dependents rt P t) + sum (ws_weight st) (dependents rt (set E) t)"
      using E by (intro sum.union_disjoint) (auto simp: dependents_def intro: finite_subset)
    finally show ?thesis using wt [OF that] wt' [of t] by simp
  qed
  have pos': "0 < ws_weight st' t" if "t \<in> ?T" for t
    using wt' [of t] pos [OF that] E(2) by (auto simp: dependents_def intro!: add_pos_nonneg sum_nonneg less_imp_le [OF pos])
  have zero': "ws_left st' t = 0 \<longleftrightarrow> t \<in> (P \<union> set E) \<union> set nx" if t: "t \<in> ?T" for t
  proof (cases "t \<in> P \<union> set E")
    case True
    then have "dependents rt (set E) t = {}" using tgt [of t] by blast
    then have "ws_left st' t = ws_left st t" using out(1) [of t] by (simp add: r cnt)
    with True zero [OF t] show ?thesis by simp
  qed (use nx(1) hits t in blast)
  have done': "ws_done st' t \<longleftrightarrow> t \<in> (P \<union> set E) \<union> set nx" if "t \<in> ?T" for t
    using out(3) [of t] don [OF that] nx(1) by (simp add: r)
  have "P \<union> set E \<union> set nx \<subseteq> ?T" "(P \<union> set E) \<inter> set nx = {}"
    using E nx(1) hits by auto
  then show ?thesis
    unfolding pass_inv_def Let_def using nx(2) left' weight pos' zero' done' by blast
qed

subsection \<open>The loop\<close>

lemma weights_loop_total:
  assumes wf: "wf_graph rt"
  shows "pass_inv rt P E st \<Longrightarrow> card (tasks rt - P) < fuel \<Longrightarrow>
    \<exists>st' P'. weights_loop fuel rt E st = Some (Inr st') \<and> pass_inv rt P' [] st'"
proof (induction fuel arbitrary: P E st)
  case (Suc fuel)
  have E: "set E \<subseteq> tasks rt" "P \<inter> set E = {}" "P \<subseteq> tasks rt"
    using Suc.prems(1) by (auto simp: pass_inv_def Let_def)
  obtain st' nx where r: "pass_edges (edges_from rt E) (st, []) = (st', nx)" by force
  have inv: "pass_inv rt (P \<union> set E) nx st'" by (rule pass_inv_step [OF wf Suc.prems(1) r])
  show ?case
  proof (cases "nx = []")
    case True
    with inv r E show ?thesis by (auto simp: foldE_points [OF wf])
  next
    case False
    then have "E \<noteq> []" using r by (auto simp: edges_from_def)
    then obtain u where u: "u \<in> set E" by (cases E) auto
    have "tasks rt - (P \<union> set E) \<subset> tasks rt - P" using u E by auto
    then have "card (tasks rt - (P \<union> set E)) < card (tasks rt - P)"
      by (intro psubset_card_mono) simp_all
    with Suc.IH [OF inv] Suc.prems(2) False r E show ?thesis
      by (simp add: foldE_points [OF wf])
  qed
qed simp

lemma problem_tasks_iff:
  assumes "pass_inv rt P [] st"
  shows "problem_tasks rt st = [] \<longleftrightarrow> tasks rt \<subseteq> P"
proof -
  have "\<not> (\<not> ws_done st t \<or> ws_left st t \<noteq> 0) \<longleftrightarrow> t \<in> P" if "t \<in> tasks rt" for t
    using assms that by (auto simp: pass_inv_def Let_def)
  then show ?thesis by (auto simp: problem_tasks_def filter_empty_conv tasks_def)
qed

text \<open>When every task has passed its weight on, weights fall strictly along dependencies.\<close>

lemma pass_inv_weights:
  assumes wf: "wf_graph rt" and inv: "pass_inv rt P [] st" and P: "tasks rt \<subseteq> P" and d: "(u, t) \<in> dep_rel rt"
  shows "ws_weight st u < ws_weight st t"
proof -
  let ?D = "dependents rt P t"
  have ut: "u \<in> tasks rt" "t \<in> tasks rt" "t \<in> set (deps_of rt u)"
    using d wf_graph_deps [OF wf] by (auto simp: dep_rel_def)
  have wt: "ws_weight st t = base_weight rt t + sum (ws_weight st) ?D"
    and pos: "\<And>x. x \<in> tasks rt \<Longrightarrow> 0 < ws_weight st x" and PT: "P \<subseteq> tasks rt"
    using inv ut by (auto simp: pass_inv_def Let_def)
  have fin: "finite ?D" using finite_subset [OF PT finite_tasks] by (rule finite_dependents)
  have "ws_weight st u \<le> sum (ws_weight st) ?D"
  proof (rule member_le_sum [OF _ _ fin])
    show "u \<in> ?D" using ut P by (auto simp: dependents_def)
    show "0 \<le> ws_weight st x" if "x \<in> ?D - {u}" for x
      using that PT pos [of x] by (auto simp: dependents_def)
  qed
  then show ?thesis using wt by (simp add: base_weight_def)
qed

lemma stuck_set_cyclic:
  assumes wf: "wf_graph rt" and inv: "pass_inv rt P [] st" and "\<not> tasks rt \<subseteq> P"
  shows "\<not> acyclic (dep_rel rt)"
proof
  assume ac: "acyclic (dep_rel rt)"
  have "dep_rel rt \<subseteq> tasks rt \<times> tasks rt"
    using wf_graph_deps [OF wf] by (auto simp: dep_rel_def)
  then have "finite (dep_rel rt)" by (rule finite_subset) simp
  then have "wf (dep_rel rt)" using ac by (rule finite_acyclic_wf)
  moreover obtain x where "x \<in> tasks rt - P" using assms(3) by blast
  ultimately obtain t where t: "t \<in> tasks rt - P" and min: "\<And>u. (u, t) \<in> dep_rel rt \<Longrightarrow> u \<notin> tasks rt - P"
    by (rule wfE_min) blast
  have "dependents rt (tasks rt - P) t = {}"
    using min by (auto simp: dependents_def dep_rel_def)
  then have "ws_left st t = 0" "ws_left st t = 0 \<longleftrightarrow> t \<in> P"
    using inv t by (auto simp: pass_inv_def Let_def)
  with t show False by simp
qed

lemma acyclic_of_weights:
  assumes "\<And>u t. (u, t) \<in> r \<Longrightarrow> (f u :: int) < f t"
  shows "acyclic r"
proof -
  have "f u < f t" if "(u, t) \<in> r\<^sup>+" for u t
    using that by (induction) (auto dest: assms intro: less_trans)
  then show ?thesis by (auto simp: acyclic_def)
qed

lemma calculate_task_weights_result:
  assumes wf: "wf_graph rt"
  obtains st P where "calculate_task_weights rt (endpoints_of rt) =
      Some (if problem_tasks rt st \<noteq> [] then Inl Fatal else Inr (store_weights rt st))"
    and "pass_inv rt P [] st"
proof -
  have "card (tasks rt - {}) < Suc (length rt)"
    using card_length [of "dict_keys rt"] by (simp add: tasks_def less_Suc_eq_le)
  from weights_loop_total [OF wf pass_inv_init [OF wf] this] that
  show ?thesis by (auto simp: calculate_task_weights_def)
qed

lemma map_of_store_weights:
  "map_of (store_weights rt st) t = map_option (\<lambda>e. e\<lparr>rt_weight := ws_weight st t\<rparr>) (map_of rt t)"
  by (induction rt) (auto simp: store_weights_def)

definition weight_of :: "rtentries \<Rightarrow> tid \<Rightarrow> int" where
  "weight_of rt t = (case map_of rt t of None \<Rightarrow> 0 | Some e \<Rightarrow> rt_weight e)"

lemma weight_of_store: "t \<in> tasks rt \<Longrightarrow> weight_of (store_weights rt st) t = ws_weight st t"
  by (auto simp: weight_of_def map_of_store_weights tasks_map_of)

lemma heavier:
  assumes "wf_graph rt" and "calculate_task_weights rt (endpoints_of rt) = Some (Inr rt')"
    and "(u, t) \<in> dep_rel rt"
  shows "weight_of rt' u < weight_of rt' t"
proof -
  obtain st P where r: "calculate_task_weights rt (endpoints_of rt) =
      Some (if problem_tasks rt st \<noteq> [] then Inl Fatal else Inr (store_weights rt st))"
    and inv: "pass_inv rt P [] st"
    using calculate_task_weights_result [OF assms(1)] .
  with assms(2) have p: "problem_tasks rt st = []" and rt': "rt' = store_weights rt st"
    by (auto split: if_splits)
  have "u \<in> tasks rt" "t \<in> tasks rt" using assms(1,3) wf_graph_deps by (auto simp: dep_rel_def)
  with pass_inv_weights [OF assms(1) inv _ assms(3)] problem_tasks_iff [OF inv] p
  show ?thesis by (simp add: rt' weight_of_store)
qed

subsection \<open>Properties\<close>

text \<open>
  Property C10. The circularity check is exact: on a well-formed task graph the routine
  returns, with the weighted entries if no task depends on itself through any chain, and
  with the fatal error if some task does.
\<close>

theorem task_weights_iff_acyclic:
  assumes "wf_graph rt"
  shows "(\<exists>rt'. calculate_task_weights rt (endpoints_of rt) = Some (Inr rt')) = acyclic (dep_rel rt) \<and>
    (calculate_task_weights rt (endpoints_of rt) = Some (Inl Fatal)) = (\<not> acyclic (dep_rel rt))"
proof -
  obtain st P where r: "calculate_task_weights rt (endpoints_of rt) =
      Some (if problem_tasks rt st \<noteq> [] then Inl Fatal else Inr (store_weights rt st))"
    and inv: "pass_inv rt P [] st"
    using calculate_task_weights_result [OF assms] .
  have "problem_tasks rt st = [] \<longleftrightarrow> acyclic (dep_rel rt)"
    using problem_tasks_iff [OF inv] stuck_set_cyclic [OF assms inv]
      acyclic_of_weights [of "dep_rel rt" "ws_weight st"] pass_inv_weights [OF assms inv]
    by blast
  with r show ?thesis by auto
qed

text \<open>
  When the routine succeeds, a task weighs strictly more than every task that
  depends on it, so ordering tasks by falling weight puts dependencies first.
\<close>

theorem dependency_weighs_more:
  assumes "wf_graph rt" and "calculate_task_weights rt (endpoints_of rt) = Some (Inr rt')"
    and "(u, t) \<in> dep_rel rt"
  shows "weight_of rt' u < weight_of rt' t"
  using assms by (rule heavier)

text \<open>A small graph for the witnesses: a compile task between a fetch and a build task.\<close>

definition example_rt :: rtentries where
  "example_rt =
     [(''a.bb:do_build'', new_rte\<lparr>rt_depends := [''a.bb:do_compile'']\<rparr>),
      (''a.bb:do_compile'', new_rte\<lparr>rt_depends := [''a.bb:do_fetch''], rt_revdeps := [''a.bb:do_build'']\<rparr>),
      (''a.bb:do_fetch'', new_rte\<lparr>rt_revdeps := [''a.bb:do_compile'']\<rparr>)]"

lemma wf_example_rt: "wf_graph example_rt"
  by (auto simp: wf_graph_def tasks_def deps_of_def revdeps_of_def example_rt_def new_rte_def)

lemma example_weights:
  "map_option (map_sum id (map (\<lambda>(t, e). rt_weight e)))
     (calculate_task_weights example_rt (endpoints_of example_rt)) = Some (Inr [10, 11, 12])"
  by code_simp

lemma example_weights_result:
  "\<exists>rt'. calculate_task_weights example_rt (endpoints_of example_rt) = Some (Inr rt')"
  using example_weights
  by (cases "calculate_task_weights example_rt (endpoints_of example_rt)"; cases "the (calculate_task_weights example_rt (endpoints_of example_rt))") auto

theorem task_weights_iff_acyclic_witness: "acyclic (dep_rel example_rt)"
proof -
  obtain rt' where "calculate_task_weights example_rt (endpoints_of example_rt) = Some (Inr rt')"
    using example_weights_result by blast
  with task_weights_iff_acyclic [OF wf_example_rt] show ?thesis by blast
qed

theorem dependency_weighs_more_witness:
  "\<exists>rt'. calculate_task_weights example_rt (endpoints_of example_rt) = Some (Inr rt') \<and>
     weight_of rt' ''a.bb:do_build'' < weight_of rt' ''a.bb:do_compile''"
proof -
  obtain rt' where r: "calculate_task_weights example_rt (endpoints_of example_rt) = Some (Inr rt')"
    using example_weights_result by blast
  have "(''a.bb:do_build'', ''a.bb:do_compile'') \<in> dep_rel example_rt"
    by (simp add: dep_rel_def deps_of_def example_rt_def)
  from dependency_weighs_more [OF wf_example_rt r this] r show ?thesis by blast
qed

end
