(* ===== verification/RunQueueChains.thy ===== *)
theory RunQueueChains
  imports RunQueueTid "HOL-Library.Char_ord" "HOL-Library.List_Lexorder"
begin

text \<open>
  \<open>RunQueueData.circular_depchains_handler\<close> of \<open>bitbake/lib/bb/runqueue.py\<close>: the search
  for the dependency loops that are shown to the user when tasks cannot run. Every reported
  chain is proved to be a loop of the task graph, and the search to end. The message texts
  are kept in structured form (the number of the loop and its tasks).
\<close>

subsection \<open>The search\<close>

datatype chain_msg = LoopFound nat "tid list" | SearchHalted

record chain_state =
  cs_valid :: "tid list list"
  cs_explored :: "(tid, tid list) dict"
  cs_msgs :: "chain_msg list"

definition lowest_entry :: "tid list \<Rightarrow> nat" where
  "lowest_entry chain =
     fold (\<lambda>entry lowest. if chain ! entry < chain ! lowest then entry else lowest) [0..<length chain] 0"

definition chain_reorder :: "tid list \<Rightarrow> tid list" where
  "chain_reorder chain = drop (lowest_entry chain) chain @ take (lowest_entry chain) chain"

fun chain_compare_equal :: "tid list \<Rightarrow> tid list \<Rightarrow> bool" where
  "chain_compare_equal c1 c2 =
     (length c1 = length c2 \<and> (\<forall>index \<in> set [0..<length c1]. c1 ! index = c2 ! index))"

definition chain_array_contains :: "tid list \<Rightarrow> tid list list \<Rightarrow> bool" where
  "chain_array_contains chain chain_array = list_ex (\<lambda>ch. chain_compare_equal ch chain) chain_array"

text \<open>The branch that found \<open>revdep\<close> on the current chain; \<open>Inl\<close> is \<open>TooManyLoops\<close>.\<close>

definition record_chain :: "tid \<Rightarrow> tid list \<Rightarrow> chain_state \<Rightarrow> chain_state + chain_state" where
  "record_chain revdep chain st =
     (let new_chain = chain_reorder (drop (index_of revdep chain) chain);
          st = (if \<not> chain_array_contains new_chain (cs_valid st)
                then st\<lparr>cs_valid := cs_valid st @ [new_chain],
                        cs_msgs := cs_msgs st @ [LoopFound (Suc (length (cs_valid st))) new_chain]\<rparr>
                else st)
      in if length (cs_valid st) > 10 then Inl (st\<lparr>cs_msgs := cs_msgs st @ [SearchHalted]\<rparr>)
         else Inr st)"

definition needs_scan :: "tid \<Rightarrow> tid list \<Rightarrow> chain_state \<Rightarrow> bool" where
  "needs_scan revdep chain st =
     (case map_of (cs_explored st) revdep of
        None \<Rightarrow> True
      | Some ds \<Rightarrow> revdep \<in> set ds \<or> list_ex (\<lambda>dep. dep \<in> set ds) chain)"

definition merge_deps :: "tid list \<Rightarrow> tid list \<Rightarrow> tid list" where
  "merge_deps tot ds = fold (\<lambda>dep tot. if dep \<in> set tot then tot else tot @ [dep]) ds tot"

text \<open>
  \<open>find_chains\<close> and its loop over \<open>revdeps\<close>, called with tasks of the graph. The recursion
  depth is the fuel; a chain never repeats a task, so one more than the number of tasks is
  enough (\<open>find_chains_total\<close>).
\<close>

function find_chains :: "nat \<Rightarrow> rtentries \<Rightarrow> tid \<Rightarrow> tid list \<Rightarrow> chain_state \<Rightarrow>
    (chain_state + chain_state) option"
  and chain_loop :: "nat \<Rightarrow> rtentries \<Rightarrow> tid list \<Rightarrow> tid list \<Rightarrow> tid list \<Rightarrow> chain_state \<Rightarrow>
    (chain_state + tid list \<times> chain_state) option"
where
  "find_chains 0 rt tid prev_chain st = None"
| "find_chains (Suc n) rt tid prev_chain st =
     (case chain_loop n rt (revdeps_of rt tid) (prev_chain @ [tid]) (revdeps_of rt tid) st of
        None \<Rightarrow> None
      | Some (Inl st) \<Rightarrow> Some (Inl st)
      | Some (Inr (total_deps, st)) \<Rightarrow>
          Some (Inr (st\<lparr>cs_explored := dict_set tid total_deps (cs_explored st)\<rparr>)))"
| "chain_loop n rt [] chain total_deps st = Some (Inr (total_deps, st))"
| "chain_loop n rt (revdep # rs) chain total_deps st =
     (if revdep \<in> set chain then
        (case record_chain revdep chain st of
           Inl st \<Rightarrow> Some (Inl st)
         | Inr st \<Rightarrow> chain_loop n rt rs chain total_deps st)
      else
        (case (if needs_scan revdep chain st then find_chains n rt revdep chain st else Some (Inr st)) of
           None \<Rightarrow> None
         | Some (Inl st) \<Rightarrow> Some (Inl st)
         | Some (Inr st) \<Rightarrow>
             chain_loop n rt rs chain
               (merge_deps total_deps (dict_get_or [] (cs_explored st) revdep)) st))"
  by pat_completeness auto
termination
  by (relation "measures [\<lambda>x. case x of Inl (n, _) \<Rightarrow> 2 * n | Inr (n, _) \<Rightarrow> 2 * n + 1,
      \<lambda>x. case x of Inl _ \<Rightarrow> 0 | Inr (n, rt, rs, _) \<Rightarrow> length rs]") auto

fun search_tasks :: "nat \<Rightarrow> rtentries \<Rightarrow> tid list \<Rightarrow> chain_state \<Rightarrow> chain_state option" where
  "search_tasks n rt [] st = Some st"
| "search_tasks n rt (t # ts) st =
     (case find_chains n rt t [] st of
        None \<Rightarrow> None
      | Some (Inl st) \<Rightarrow> Some st
      | Some (Inr st) \<Rightarrow> search_tasks n rt ts st)"

definition circular_depchains_handler :: "rtentries \<Rightarrow> tid list \<Rightarrow> chain_state option" where
  "circular_depchains_handler rt ts =
     search_tasks (Suc (length rt)) rt ts \<lparr>cs_valid = [], cs_explored = [], cs_msgs = []\<rparr>"

subsection \<open>Loops of the task graph\<close>

definition is_loop :: "rtentries \<Rightarrow> tid list \<Rightarrow> bool" where
  "is_loop rt c \<longleftrightarrow> c \<noteq> [] \<and> distinct c \<and>
     (\<forall>i < length c. c ! (Suc i mod length c) \<in> set (revdeps_of rt (c ! i)))"

definition is_path :: "rtentries \<Rightarrow> tid list \<Rightarrow> bool" where
  "is_path rt c \<longleftrightarrow> distinct c \<and> (\<forall>i. Suc i < length c \<longrightarrow> c ! Suc i \<in> set (revdeps_of rt (c ! i)))"

lemma fold_lowest:
  "(\<forall>i \<in> set is. i < n) \<Longrightarrow> j < n \<Longrightarrow>
   fold (\<lambda>entry lowest. if c ! entry < c ! lowest then entry else lowest) is j < (n :: nat)"
  by (induction "is" arbitrary: j) auto

lemma lowest_entry_less: "c \<noteq> [] \<Longrightarrow> lowest_entry c < length c"
  unfolding lowest_entry_def by (rule fold_lowest) auto

lemma fold_lowest_le:
  "c ! fold (\<lambda>entry lowest. if c ! entry < c ! lowest then entry else lowest) is j \<le> (c ! j :: tid) \<and>
   (\<forall>i \<in> set is. c ! fold (\<lambda>entry lowest. if c ! entry < c ! lowest then entry else lowest) is j \<le> c ! i)"
proof (induction "is" arbitrary: j)
  case (Cons i "is")
  show ?case using Cons.IH [of i] Cons.IH [of j] by (cases "c ! i < c ! j") (auto intro: order_trans)
qed simp

lemma chain_reorder_rotate: "chain_reorder c = rotate (lowest_entry c) c"
proof (cases "c = []")
  case False
  then show ?thesis
    using lowest_entry_less [of c] by (simp add: chain_reorder_def rotate_drop_take)
qed (simp add: chain_reorder_def)

lemma chain_reorder_hd:
  assumes "c \<noteq> []" and "x \<in> set c"
  shows "hd (chain_reorder c) \<le> x"
proof -
  from assms(2) obtain i where i: "i < length c" "x = c ! i" by (auto simp: in_set_conv_nth)
  have "hd (chain_reorder c) = c ! lowest_entry c"
    using lowest_entry_less [OF assms(1)] by (simp add: chain_reorder_def hd_drop_conv_nth)
  with fold_lowest_le [of c "[0..<length c]" 0] i show ?thesis by (auto simp: lowest_entry_def)
qed

lemma is_loop_rotate:
  assumes "is_loop rt c"
  shows "is_loop rt (rotate m c)"
proof -
  have "rotate m c ! (Suc i mod length c) \<in> set (revdeps_of rt (rotate m c ! i))" if "i < length c" for i
  proof -
    let ?n = "length c"
    have n: "0 < ?n" using that by linarith
    have "rotate m c ! (Suc i mod ?n) = c ! (Suc ((m + i) mod ?n) mod ?n)"
      using n by (simp add: nth_rotate mod_Suc_eq mod_simps)
    then show ?thesis
      using assms that n by (simp add: nth_rotate is_loop_def)
  qed
  with assms show ?thesis by (simp add: is_loop_def)
qed

lemma closed_path_loop:
  assumes p: "is_path rt c" and x: "x \<in> set c" and last: "x \<in> set (revdeps_of rt (last c))"
  shows "is_loop rt (drop (index_of x c) c)"
proof -
  let ?k = "index_of x c" and ?d = "drop (index_of x c) c"
  have k: "?k < length c" "c ! ?k = x" using index_of_less [OF x] index_of_nth [OF x] by auto
  have "?d ! (Suc i mod length ?d) \<in> set (revdeps_of rt (?d ! i))" if i: "i < length ?d" for i
  proof (cases "Suc i = length ?d")
    case True
    then have "i = length ?d - 1" and ne: "?d \<noteq> []" using i by auto
    then have "?d ! i = last ?d" using last_conv_nth [OF ne] by (simp only:)
    then have "?d ! i = last c" using k by simp
    with True last k show ?thesis by simp
  next
    case False
    with i have "Suc (?k + i) < length c" by simp
    with p False i show ?thesis by (simp add: is_path_def)
  qed
  with p k show ?thesis by (auto simp: is_loop_def is_path_def)
qed

subsection \<open>Everything that is recorded is a loop\<close>

definition chains_ok :: "rtentries \<Rightarrow> chain_state \<Rightarrow> bool" where
  "chains_ok rt st \<longleftrightarrow>
     (\<forall>c \<in> set (cs_valid st). is_loop rt c \<and> (\<forall>x \<in> set c. hd c \<le> x)) \<and> distinct (cs_valid st) \<and>
     length (cs_valid st) \<le> 11"

definition running :: "rtentries \<Rightarrow> chain_state \<Rightarrow> bool" where
  "running rt st \<longleftrightarrow> chains_ok rt st \<and> length (cs_valid st) \<le> 10"

lemma chain_array_contains_iff: "chain_array_contains c cs \<longleftrightarrow> c \<in> set cs"
proof -
  have "chain_compare_equal ch c \<longleftrightarrow> ch = c" for ch
    by (auto intro: nth_equalityI)
  then show ?thesis by (auto simp: chain_array_contains_def list_ex_iff)
qed

lemma set_chain_reorder [simp]: "set (chain_reorder c) = set c"
  by (simp add: chain_reorder_rotate)

lemma record_chain_ok:
  assumes st: "running rt st" and p: "is_path rt chain" and x: "x \<in> set chain"
    and last: "x \<in> set (revdeps_of rt (last chain))"
  shows "case record_chain x chain st of Inl st' \<Rightarrow> chains_ok rt st' | Inr st' \<Rightarrow> running rt st'"
proof -
  let ?c = "chain_reorder (drop (index_of x chain) chain)"
  have loop: "is_loop rt (drop (index_of x chain) chain)" by (rule closed_path_loop [OF p x last])
  then have "is_loop rt ?c" by (simp add: chain_reorder_rotate is_loop_rotate)
  moreover have "\<forall>y \<in> set ?c. hd ?c \<le> y"
    using loop by (auto simp: is_loop_def intro: chain_reorder_hd)
  ultimately show ?thesis
    using st by (auto simp: record_chain_def Let_def running_def chains_ok_def chain_array_contains_iff)
qed

lemma is_path_snoc:
  assumes p: "is_path rt chain" and "x \<notin> set chain"
    and last: "chain \<noteq> [] \<Longrightarrow> x \<in> set (revdeps_of rt (last chain))"
  shows "is_path rt (chain @ [x])"
  unfolding is_path_def
proof (intro conjI allI impI)
  show "distinct (chain @ [x])" using assms(1,2) by (simp add: is_path_def)
  fix i assume i: "Suc i < length (chain @ [x])"
  show "(chain @ [x]) ! Suc i \<in> set (revdeps_of rt ((chain @ [x]) ! i))"
  proof (cases "Suc i = length chain")
    case True
    then have ne: "chain \<noteq> []" and "i = length chain - 1" by auto
    then have "chain ! i = last chain" using last_conv_nth [OF ne] by (simp only:)
    with True last [OF ne] show ?thesis by (simp add: nth_append)
  next
    case False
    with i have "Suc i < length chain" by simp
    with p show ?thesis by (simp add: is_path_def nth_append)
  qed
qed

definition out_ok :: "rtentries \<Rightarrow> chain_state + 'a \<times> chain_state \<Rightarrow> bool" where
  "out_ok rt r \<longleftrightarrow> (case r of Inl st \<Rightarrow> chains_ok rt st | Inr (_, st) \<Rightarrow> running rt st)"

lemma chains_ok_explored [simp]:
  "chains_ok rt (st\<lparr>cs_explored := d\<rparr>) = chains_ok rt st" "running rt (st\<lparr>cs_explored := d\<rparr>) = running rt st"
  by (simp_all add: chains_ok_def running_def)

lemma find_chains_ok:
  "running rt st \<Longrightarrow> is_path rt (prev_chain @ [tid]) \<Longrightarrow>
     find_chains n rt tid prev_chain st = Some r \<Longrightarrow>
     (case r of Inl st' \<Rightarrow> chains_ok rt st' | Inr st' \<Rightarrow> running rt st')"
  "running rt st \<Longrightarrow> is_path rt chain \<Longrightarrow> chain \<noteq> [] \<Longrightarrow> set rs \<subseteq> set (revdeps_of rt (last chain)) \<Longrightarrow>
     chain_loop n rt rs chain total_deps st = Some q \<Longrightarrow> out_ok rt q"
proof (induction n rt tid prev_chain st and n rt rs chain total_deps st arbitrary: r and q
    rule: find_chains_chain_loop.induct)
  case (2 n rt tid prev_chain st)
  obtain q where q: "chain_loop n rt (revdeps_of rt tid) (prev_chain @ [tid]) (revdeps_of rt tid) st = Some q"
    using "2.prems"(3) by (auto split: option.splits)
  have "out_ok rt q" using "2.IH" [OF "2.prems"(1,2) _ _ q] by simp
  with "2.prems"(3) q show ?case
    by (auto simp: out_ok_def split: sum.splits prod.splits)
next
  case (4 n rt revdep rs chain total_deps st)
  show ?case
  proof (cases "revdep \<in> set chain")
    case True
    have ok: "case record_chain revdep chain st of Inl st' \<Rightarrow> chains_ok rt st' | Inr st' \<Rightarrow> running rt st'"
      using "4.prems" True by (intro record_chain_ok) auto
    show ?thesis
    proof (cases "record_chain revdep chain st")
      case (Inl st')
      with ok True "4.prems"(5) show ?thesis by (auto simp: out_ok_def)
    next
      case (Inr st')
      with ok have "running rt st'" by simp
      from "4.IH"(1) [OF True Inr this "4.prems"(2,3)] "4.prems"(4,5) True Inr show ?thesis by simp
    qed
  next
    case False
    have p: "is_path rt (chain @ [revdep])"
      using "4.prems" False by (intro is_path_snoc) auto
    let ?f = "if needs_scan revdep chain st then find_chains n rt revdep chain st else Some (Inr st)"
    obtain r where r: "?f = Some r" using "4.prems"(5) False by (auto split: option.splits)
    have ok: "case r of Inl st' \<Rightarrow> chains_ok rt st' | Inr st' \<Rightarrow> running rt st'"
      using "4.IH"(2) [OF False _ "4.prems"(1) p] r "4.prems"(1) by (cases "needs_scan revdep chain st") auto
    show ?thesis
    proof (cases r)
      case (Inl st')
      with ok r False "4.prems"(5) show ?thesis by (auto simp: out_ok_def)
    next
      case (Inr st')
      with ok have "running rt st'" by simp
      from "4.IH"(3) [OF False r Inr this "4.prems"(2,3)] "4.prems"(4,5) False r Inr show ?thesis by simp
    qed
  qed
qed (auto simp: out_ok_def)

subsection \<open>The fuel is enough\<close>

definition revdeps_closed :: "rtentries \<Rightarrow> bool" where
  "revdeps_closed rt \<longleftrightarrow> (\<forall>t \<in> tasks rt. set (revdeps_of rt t) \<subseteq> tasks rt)"

definition chain_in :: "rtentries \<Rightarrow> tid list \<Rightarrow> bool" where
  "chain_in rt c \<longleftrightarrow> distinct c \<and> set c \<subseteq> tasks rt"

lemma chain_in_length: "chain_in rt c \<Longrightarrow> length c \<le> card (tasks rt)"
  unfolding chain_in_def by (metis card_mono distinct_card finite_tasks)

lemma find_chains_total:
  "revdeps_closed rt \<Longrightarrow> chain_in rt (prev_chain @ [tid]) \<Longrightarrow> card (tasks rt) < n + length prev_chain \<Longrightarrow>
     find_chains n rt tid prev_chain st \<noteq> None"
  "revdeps_closed rt \<Longrightarrow> chain_in rt chain \<Longrightarrow> set rs \<subseteq> tasks rt \<Longrightarrow> card (tasks rt) < n + length chain \<Longrightarrow>
     chain_loop n rt rs chain total_deps st \<noteq> None"
proof (induction n rt tid prev_chain st and n rt rs chain total_deps st
    rule: find_chains_chain_loop.induct)
  case (1 rt tid prev_chain st)
  then show ?case using chain_in_length [OF "1.prems"(2)] by simp
next
  case (2 n rt tid prev_chain st)
  have "set (revdeps_of rt tid) \<subseteq> tasks rt"
    using "2.prems"(1,2) by (auto simp: revdeps_closed_def chain_in_def)
  with 2 show ?case by (auto split: sum.splits)
next
  case (4 n rt revdep rs chain total_deps st)
  show ?case
  proof (cases "revdep \<in> set chain")
    case True
    with 4 show ?thesis by (cases "record_chain revdep chain st") auto
  next
    case False
    have c: "chain_in rt (chain @ [revdep])"
      using "4.prems"(2,3) False by (simp add: chain_in_def)
    let ?f = "if needs_scan revdep chain st then find_chains n rt revdep chain st else Some (Inr st)"
    have "?f \<noteq> None" using "4.IH"(2) [OF False _ "4.prems"(1) c "4.prems"(4)] by simp
    then obtain r where r: "?f = Some r" by blast
    show ?thesis
    proof (cases r)
      case (Inr st')
      have "set rs \<subseteq> tasks rt" using "4.prems"(3) by simp
      from "4.IH"(3) [OF False r Inr "4.prems"(1,2) this "4.prems"(4)] False r Inr show ?thesis by simp
    qed (use False r in simp)
  qed
qed simp

lemma search_tasks_ok:
  assumes "revdeps_closed rt" and "set ts \<subseteq> tasks rt" and "running rt st" and "card (tasks rt) < n"
  shows "\<exists>st'. search_tasks n rt ts st = Some st' \<and> chains_ok rt st'"
  using assms(2,3)
proof (induction ts arbitrary: st)
  case (Cons t ts)
  have c: "chain_in rt ([] @ [t])" using Cons.prems(1) by (simp add: chain_in_def)
  obtain r where r: "find_chains n rt t [] st = Some r"
    using find_chains_total(1) [OF assms(1) c, of n st] assms(4) by auto
  have "case r of Inl st' \<Rightarrow> chains_ok rt st' | Inr st' \<Rightarrow> running rt st'"
    by (rule find_chains_ok(1) [OF Cons.prems(2) _ r]) (simp add: is_path_def)
  with Cons r show ?case by (cases r) auto
qed (simp add: running_def)

subsection \<open>Properties\<close>

text \<open>
  Property C29. The search for dependency loops ends, and each of the at most eleven chains
  it reports is a real loop of the graph: every task is a dependent of the one before it and
  the first of the last, no task repeats, the smallest identifier comes first, and no loop
  is reported twice.
\<close>

theorem reported_chains_are_loops:
  assumes "revdeps_closed rt" and "set ts \<subseteq> tasks rt"
  shows "\<exists>st. circular_depchains_handler rt ts = Some st \<and>
    (\<forall>c \<in> set (cs_valid st). is_loop rt c \<and> (\<forall>x \<in> set c. hd c \<le> x)) \<and>
    distinct (cs_valid st) \<and> length (cs_valid st) \<le> 11"
proof -
  have n: "card (tasks rt) < Suc (length rt)"
    using card_length [of "dict_keys rt"] by (simp add: tasks_def less_Suc_eq_le)
  have "running rt \<lparr>cs_valid = [], cs_explored = [], cs_msgs = []\<rparr>"
    by (simp add: running_def chains_ok_def)
  from search_tasks_ok [OF assms this n] show ?thesis
    by (auto simp: circular_depchains_handler_def chains_ok_def)
qed

definition loop_rt :: rtentries where
  "loop_rt = [(''b:x'', new_rte\<lparr>rt_depends := [''a:x''], rt_revdeps := [''a:x'']\<rparr>),
              (''a:x'', new_rte\<lparr>rt_depends := [''b:x''], rt_revdeps := [''b:x'']\<rparr>)]"

theorem reported_chains_are_loops_witness:
  "\<exists>st. circular_depchains_handler loop_rt [''b:x'', ''a:x''] = Some st \<and>
     cs_valid st = [[''a:x'', ''b:x'']] \<and> is_loop loop_rt [''a:x'', ''b:x'']"
proof -
  have wf: "revdeps_closed loop_rt" "set [''b:x'', ''a:x''] \<subseteq> tasks loop_rt"
    by (auto simp: revdeps_closed_def tasks_def revdeps_of_def loop_rt_def)
  have run: "map_option cs_valid (circular_depchains_handler loop_rt [''b:x'', ''a:x'']) = Some [[''a:x'', ''b:x'']]"
    by code_simp
  from reported_chains_are_loops [OF wf] obtain st where
    st: "circular_depchains_handler loop_rt [''b:x'', ''a:x''] = Some st"
    and loops: "\<forall>c \<in> set (cs_valid st). is_loop loop_rt c" by blast
  from st run have "cs_valid st = [[''a:x'', ''b:x'']]" by simp
  with st loops show ?thesis by simp
qed

end
