(* ===== verification/RunQueueState.thy ===== *)
theory RunQueueState
  imports Complex_Main RunQueueTid
begin

text \<open>
  The state of a build as \<open>bitbake/lib/bb/runqueue.py\<close> keeps it: the fields of
  \<open>RunQueueData\<close> that execution reads, of \<open>RunQueueExecute\<close>, of its scheduler and of its
  \<open>SQData\<close>. The sets of the code are duplicate-free lists.
\<close>

datatype phase = QPrepare | QSceneInit | QRunning | QFailed | QCleanUp | QComplete

record rqdata =
  runtaskentries :: rtentries
  runq_setscene_tids :: "tid list"
  target_tids :: "tid list"

text \<open>
  A priority map holds tasks, except in the base class, whose map is a list with the key
  view of the task dictionary as its only element.
\<close>

datatype prio_entry = Task tid | KeysView "tid list"

record scheduler =
  prio_map :: "prio_entry list"
  buildable :: "tid list"
  skip_maxthread :: "(string, string option) dict"
  sched_stamps :: "(tid, string) dict"
  rev_prio_map :: "(tid, nat) dict option"

record sqdata =
  sq_deps :: "(tid, tid list) dict"
  sq_revdeps :: "(tid, tid list) dict"
  sq_harddeps :: "(tid, tid list) dict"
  sq_stamps :: "(tid, string) dict"
  unskippable :: "tid list"
  outrightfail :: "tid list"
  sq_covered_tasks :: "(tid, tid list) dict"
  multiconfigs :: "string list"
  sq_noexec :: "tid list"
  stamppresent :: "tid list"
  sq_valid :: "tid list"
  sq_hashes :: "(string, tid) dict"

text \<open>
  What a worker process is sent: the worker is named by its multiconfig and whether it runs
  under fakeroot. \<open>RunTask worker task taskname file hash unihash setscene taskdepdata dry_run\<close>
  is a \<open><runtask>\<close> message (without the list of appends), \<open>NewTaskHashes\<close> a
  \<open><newtaskhashes>\<close> message.
\<close>

type_synonym dep_info =
  "string \<times> string \<times> string \<times> tid list \<times> string list \<times> string option \<times> string option"

datatype message =
    RunTask "string \<times> bool" tid string string "string option" "string option" bool "(tid, dep_info) dict" bool
  | NewTaskHashes "string \<times> bool"

text \<open>
  What the workers write: exit statuses, and events, of which only the change of a unihash
  matters here.
\<close>

datatype report = ExitCode tid int | UniHashUpdate tid string

text \<open>
  The fields of \<open>RunQueueExecute\<close>, with \<open>rqdata\<close>, the state of the run queue that owns it
  (\<open>rqstate\<close>, \<open>fakeworkers\<close>), and its history with the outside: the messages sent to the
  workers, the reports read from them and the stamp files made, oldest first.
\<close>

record rqexec =
  number_tasks :: int
  sq_buildable :: "tid list"
  sq_running :: "tid list"
  sq_live :: "tid list"
  updated_taskhash_queue :: "(tid \<times> string) list"
  pending_migrations :: "tid list"
  runq_buildable :: "tid list"
  runq_running :: "tid list"
  runq_complete :: "tid list"
  runq_tasksrun :: "tid list"
  build_stamps :: "(tid, string) dict"
  build_stamps2 :: "string list"
  failed_tids :: "tid list"
  sq_deferred :: "(tid, tid) dict"
  holdoff_tasks :: "tid list"
  holdoff_need_update :: bool
  sqdone :: bool
  stats :: rq_stats
  scenequeue_covered :: "tid list"
  tasks_covered :: "tid list"
  tasks_scenequeue_done :: "tid list"
  scenequeue_notcovered :: "tid list"
  tasks_notcovered :: "tid list"
  scenequeue_notneeded :: "tid list"
  cantskip :: "tid list"
  sched :: scheduler
  sqd :: sqdata
  rqstate :: phase
  rqd :: rqdata
  stampcache :: "(tid, bool) dict"
  fakeworkers :: "string list"
  worker_in :: "message list"
  worker_out :: "report list"
  stamps_made :: "string list"

definition dict_values :: "('k, 'v) dict \<Rightarrow> 'v list" where
  "dict_values d = map snd d"

definition new_sqdata :: sqdata where
  "new_sqdata =
     \<lparr>sq_deps = [], sq_revdeps = [], sq_harddeps = [], sq_stamps = [], unskippable = [],
      outrightfail = [], sq_covered_tasks = [], multiconfigs = [], sq_noexec = [],
      stamppresent = [], sq_valid = [], sq_hashes = []\<rparr>"

text \<open>
  \<open>RunQueueExecute.__init__\<close> up to the scene queue data. \<open>limits\<close> are the pressure limits that
  are set: a limit below one is fatal, as a thread count of zero or less is. \<open>sc\<close> is the
  scheduler that was asked for, if there is one. \<open>cantskip\<close> are the targets among the tasks
  that are not setscene tasks.
\<close>

definition new_rqexec :: "rqdata \<Rightarrow> int \<Rightarrow> rat list \<Rightarrow> scheduler option \<Rightarrow> rqexec result" where
  "new_rqexec rq ntasks limits sc =
     (if ntasks \<le> 0 then Inl Fatal
      else if list_ex (\<lambda>limit. limit < 1) limits then Inl Fatal
      else case sc of None \<Rightarrow> Inl Fatal | Some sc \<Rightarrow> Inr
        \<lparr>number_tasks = ntasks, sq_buildable = [], sq_running = [], sq_live = [],
         updated_taskhash_queue = [], pending_migrations = [],
         runq_buildable = [], runq_running = [], runq_complete = [], runq_tasksrun = [],
         build_stamps = [], build_stamps2 = [], failed_tids = [], sq_deferred = [],
         holdoff_tasks = [], holdoff_need_update = True, sqdone = False,
         stats = new_stats (int (length (runtaskentries rq))) (int (length (runq_setscene_tids rq))),
         scenequeue_covered = [], tasks_covered = [], tasks_scenequeue_done = [],
         scenequeue_notcovered = [], tasks_notcovered = [], scenequeue_notneeded = [],
         cantskip =
           set_inter (set_diff (target_tids rq) (runq_setscene_tids rq)) (dict_keys (runtaskentries rq)),
         sched = sc, sqd = new_sqdata, rqstate = QRunning, rqd = rq,
         stampcache = [], fakeworkers = [], worker_in = [], worker_out = [], stamps_made = []\<rparr>)"

end
