(* ===== verification/Scheduler.thy ===== *)
theory Scheduler
  imports RunQueueState RunQueueWeights
begin

text \<open>
  The schedulers of \<open>bitbake/lib/bb/runqueue.py\<close>: the priority maps the \<open>basic\<close>, \<open>speed\<close> and
  \<open>completion\<close> schedulers build, and the choice of the next task. Reading
  \<open>/proc/pressure\<close> is a boolean parameter; the \<open>number_threads\<close> flag of a task name is a
  function \<open>nthreads\<close>, as \<open>getVarFlag\<close> is.
\<close>

subsection \<open>Priority maps\<close>

text \<open>
  \<open>RunQueueScheduler.__init__\<close>. Its \<open>buildable\<close> is a set, on which \<open>append\<close> is an error.
\<close>

definition basic_init :: "(tid \<Rightarrow> string result) \<Rightarrow> rtentries \<Rightarrow> tid list \<Rightarrow> scheduler result" where
  "basic_init stampfile rt buildable0 =
     foldE (\<lambda>tid sc. bindE (split_tid_mcfn tid) (\<lambda>_. bindE (stampfile tid) (\<lambda>stamp.
         let sc = sc\<lparr>sched_stamps := dict_set tid stamp (sched_stamps sc)\<rparr>
         in if tid \<in> set buildable0 then Inl AttributeError else Inr sc)))
       (dict_keys rt)
       \<lparr>prio_map = [KeysView (dict_keys rt)], buildable = [], skip_maxthread = [],
        sched_stamps = [], rev_prio_map = None\<rparr>"

definition add_bucket :: "tid \<times> rte \<Rightarrow> (int, tid list) dict \<Rightarrow> (int, tid list) dict" where
  "add_bucket = (\<lambda>(tid, e) weights.
     let weight = rt_weight e;
         weights = (if weight \<in> set (dict_keys weights) then weights else dict_set weight [] weights)
     in dict_set weight (dict_get_or [] weights weight @ [tid]) weights)"

definition weight_buckets :: "rtentries \<Rightarrow> (int, tid list) dict" where
  "weight_buckets rt = fold add_bucket rt []"

definition speed_prio_map :: "rtentries \<Rightarrow> tid list" where
  "speed_prio_map rt =
     (let weights = weight_buckets rt
      in rev (concat (map (dict_get_or [] weights) (sort (dict_keys weights)))))"

definition speed_init :: "(tid \<Rightarrow> string result) \<Rightarrow> rtentries \<Rightarrow> tid list \<Rightarrow> scheduler result" where
  "speed_init stampfile rt buildable0 =
     bindE (basic_init stampfile rt buildable0)
       (\<lambda>sc. Inr (sc\<lparr>prio_map := map Task (speed_prio_map rt)\<rparr>))"

text \<open>The task names of every recipe, in the order of the priority map.\<close>

definition task_lists :: "tid list \<Rightarrow> (string, string list) dict result" where
  "task_lists prio =
     foldE (\<lambda>taskid byfn. case rsplit1 colon taskid of
         [fn, taskname] \<Rightarrow> Inr (dict_set fn (dict_get_or [] byfn fn @ [taskname]) byfn)
       | _ \<Rightarrow> Inl ValueError) prio []"

definition nth_or_none :: "nat \<Rightarrow> 'a list \<Rightarrow> 'a option" where
  "nth_or_none i xs = (if i < length xs then Some (xs ! i) else None)"

definition insert_at :: "nat \<Rightarrow> 'a \<Rightarrow> 'a list \<Rightarrow> 'a list" where
  "insert_at i x xs = take i xs @ x # drop i xs"

text \<open>One task name against the merged list: state \<open>(all_tasks, index, old_task)\<close>.\<close>

definition merge_task :: "string \<Rightarrow> string list \<times> nat \<times> string option \<Rightarrow> string list \<times> nat \<times> string option" where
  "merge_task new_task = (\<lambda>(all_tasks, index, old_task).
     if old_task = Some new_task then
       (all_tasks, Suc index, nth_or_none (Suc index) all_tasks)
     else case py_index all_tasks new_task of
       Inr i \<Rightarrow> (all_tasks, Suc i, nth_or_none (Suc i) all_tasks)
     | Inl _ \<Rightarrow> (insert_at index new_task all_tasks, Suc index, old_task))"

definition merge_recipe :: "string list \<Rightarrow> string list \<Rightarrow> string list" where
  "merge_recipe new_tasks all_tasks =
     fst (fold merge_task new_tasks (all_tasks, 0, nth_or_none 0 all_tasks))"

definition merged_tasks :: "(string, string list) dict \<Rightarrow> string list" where
  "merged_tasks byfn = rev (fold merge_recipe (dict_values byfn) [])"

text \<open>The reordering for one kind of task: state \<open>(prio_map, task_index)\<close>.\<close>

definition pull_step :: "string \<Rightarrow> nat \<Rightarrow> tid list \<times> nat \<Rightarrow> (tid list \<times> nat) result" where
  "pull_step task index = (\<lambda>(prio, task_index).
     if index < length prio then
       bindE (taskname_from_tid (prio ! index)) (\<lambda>taskname.
         if taskname = task
         then Inr (insert_at task_index (prio ! index) (take index prio @ drop (Suc index) prio), Suc task_index)
         else Inr (prio, task_index))
     else Inl IndexError)"

definition pull_kind :: "nat \<Rightarrow> string \<Rightarrow> tid list \<times> nat \<Rightarrow> (tid list \<times> nat) result" where
  "pull_kind numTasks task s = foldE (pull_step task) [snd s..<numTasks] s"

definition completion_prio_map :: "rtentries \<Rightarrow> tid list result" where
  "completion_prio_map rt =
     (let prio = speed_prio_map rt in
      bindE (task_lists prio) (\<lambda>byfn.
      bindE (foldE (pull_kind (length rt)) (merged_tasks byfn) (prio, 0)) (\<lambda>s. Inr (fst s))))"

definition completion_init :: "(tid \<Rightarrow> string result) \<Rightarrow> rtentries \<Rightarrow> tid list \<Rightarrow> scheduler result" where
  "completion_init stampfile rt buildable0 =
     bindE (speed_init stampfile rt buildable0) (\<lambda>sc.
     bindE (completion_prio_map rt) (\<lambda>prio. Inr (sc\<lparr>prio_map := map Task prio\<rparr>)))"

subsection \<open>The next task\<close>

definition count_running :: "(string \<Rightarrow> string option) \<Rightarrow> tid \<Rightarrow>
    (string, string option) dict \<times> (string, int) dict \<Rightarrow>
    ((string, string option) dict \<times> (string, int) dict) result" where
  "count_running nthreads run = (\<lambda>(maxthread, skip_buildable).
     bindE (taskname_from_tid run) (\<lambda>rtaskname.
       let maxthread = (if rtaskname \<in> set (dict_keys maxthread) then maxthread
                        else dict_set rtaskname (nthreads rtaskname) maxthread)
       in case map_of maxthread rtaskname of
            Some (Some (c # cs)) \<Rightarrow>
              Inr (maxthread, dict_set rtaskname (dict_get_or 0 skip_buildable rtaskname + 1) skip_buildable)
          | _ \<Rightarrow> Inr (maxthread, skip_buildable)))"

definition thread_limited :: "(string, string option) dict \<Rightarrow> (string, int) dict \<Rightarrow> string \<Rightarrow> bool result" where
  "thread_limited maxthread skip_buildable taskname =
     (case map_of skip_buildable taskname of
        None \<Rightarrow> Inr False
      | Some n \<Rightarrow> bindE (dict_get maxthread taskname) (\<lambda>limd.
          case limd of None \<Rightarrow> Inl TypeError
          | Some l \<Rightarrow> (case py_int l of None \<Rightarrow> Inl ValueError | Some k \<Rightarrow> Inr (n \<ge> k))))"

definition build_rev_prio_map :: "rtentries \<Rightarrow> prio_entry list \<Rightarrow> (tid, nat) dict result" where
  "build_rev_prio_map rt prio =
     foldE (\<lambda>tid m. bindE (py_index prio (Task tid)) (\<lambda>i. Inr (dict_set tid i m))) (dict_keys rt) []"

definition ensure_rev_prio_map :: "rtentries \<Rightarrow> scheduler \<Rightarrow> scheduler result" where
  "ensure_rev_prio_map rt sc =
     (case rev_prio_map sc of
        Some (x # xs) \<Rightarrow> Inr sc
      | _ \<Rightarrow> bindE (build_rev_prio_map rt (prio_map sc)) (\<lambda>m. Inr (sc\<lparr>rev_prio_map := Some m\<rparr>)))"

definition pick_task :: "scheduler \<Rightarrow> (string, int) dict \<Rightarrow> string list \<Rightarrow> tid \<Rightarrow>
    (tid \<times> nat) option \<Rightarrow> (tid \<times> nat) option result" where
  "pick_task sc skip_buildable used_stamps tid best =
     bindE (taskname_from_tid tid) (\<lambda>taskname.
     bindE (thread_limited (skip_maxthread sc) skip_buildable taskname) (\<lambda>limited.
     if limited then Inr best
     else case rev_prio_map sc of
       None \<Rightarrow> Inl TypeError
     | Some m \<Rightarrow> bindE (dict_get m tid) (\<lambda>prio.
         if (case best of None \<Rightarrow> True | Some (_, bestprio) \<Rightarrow> bestprio > prio) then
           bindE (dict_get (sched_stamps sc) tid) (\<lambda>stamp.
             if stamp \<in> set used_stamps then Inr best else Inr (Some (tid, prio)))
         else Inr best)))"

text \<open>The candidates: buildable, not running, not held off, and processed by the setscene queue.\<close>

definition sched_candidates :: "rqexec \<Rightarrow> tid list" where
  "sched_candidates s =
     set_inter (set_diff (set_diff (buildable (sched s)) (runq_running s)) (holdoff_tasks s))
       (set_union (tasks_covered s) (tasks_notcovered s))"

definition pick_best :: "rtentries \<Rightarrow> rqexec \<Rightarrow> scheduler \<Rightarrow> (string, int) dict \<Rightarrow> tid list \<Rightarrow>
    (tid option \<times> rqexec) result" where
  "pick_best rt s sc skip_buildable cands =
     bindE (ensure_rev_prio_map rt sc) (\<lambda>sc.
     bindE (foldE (pick_task sc skip_buildable (dict_values (build_stamps s))) cands None) (\<lambda>best.
       Inr (map_option fst best, s\<lparr>sched := sc\<rparr>)))"

text \<open>The shortcut for a single candidate, which is popped off the set.\<close>

definition pick_single :: "rtentries \<Rightarrow> rqexec \<Rightarrow> scheduler \<Rightarrow> (string, int) dict \<Rightarrow> tid \<Rightarrow>
    (tid option \<times> rqexec) result" where
  "pick_single rt s sc skip_buildable tid =
     bindE (taskname_from_tid tid) (\<lambda>taskname.
     bindE (thread_limited (skip_maxthread sc) skip_buildable taskname) (\<lambda>limited.
     if limited then Inr (None, s)
     else bindE (dict_get (sched_stamps sc) tid) (\<lambda>stamp.
       if stamp \<notin> set (dict_values (build_stamps s)) then Inr (Some tid, s)
       else pick_best rt s sc skip_buildable [])))"

definition next_buildable_task :: "(string \<Rightarrow> string option) \<Rightarrow> bool \<Rightarrow> rtentries \<Rightarrow> rqexec \<Rightarrow>
    (tid option \<times> rqexec) result" where
  "next_buildable_task nthreads pressure rt s =
     (let cands = sched_candidates s;
          sc = (sched s)\<lparr>buildable := set_diff (buildable (sched s)) (runq_running s)\<rparr>;
          s = s\<lparr>sched := sc\<rparr>
      in if cands = [] then Inr (None, s)
         else if st_active (stats s) \<noteq> 0 \<and> pressure then Inr (None, s)
         else
           bindE (foldE (count_running nthreads) (set_diff (runq_running s) (runq_complete s))
                    (skip_maxthread sc, [])) (\<lambda>(maxthread, skip_buildable).
             let sc = sc\<lparr>skip_maxthread := maxthread\<rparr>; s = s\<lparr>sched := sc\<rparr>
             in case cands of
                  [tid] \<Rightarrow> pick_single rt s sc skip_buildable tid
                | _ \<Rightarrow> pick_best rt s sc skip_buildable cands))"

text \<open>\<open>RunQueueExecute.can_start_task\<close> and the scheduler's \<open>next\<close>.\<close>

definition can_start_task :: "rqexec \<Rightarrow> bool" where
  "can_start_task s \<longleftrightarrow> st_active (stats s) + int (length (sq_live s)) < number_tasks s"

definition sched_next :: "(string \<Rightarrow> string option) \<Rightarrow> bool \<Rightarrow> rtentries \<Rightarrow> rqexec \<Rightarrow>
    (tid option \<times> rqexec) result" where
  "sched_next nthreads pressure rt s =
     (if can_start_task s then next_buildable_task nthreads pressure rt s else Inr (None, s))"

definition newbuildable :: "tid \<Rightarrow> scheduler \<Rightarrow> scheduler" where
  "newbuildable task sc = sc\<lparr>buildable := set_add task (buildable sc)\<rparr>"

definition removebuildable :: "tid \<Rightarrow> scheduler \<Rightarrow> scheduler result" where
  "removebuildable task sc =
     (if task \<in> set (buildable sc) then Inr (sc\<lparr>buildable := remove1 task (buildable sc)\<rparr>)
      else Inl KeyError)"

subsection \<open>The speed scheduler sorts by weight\<close>

lemma add_bucket:
  shows "distinct (dict_keys ws) \<Longrightarrow> distinct (dict_keys (add_bucket x ws))"
    and "fst ` set (add_bucket x ws) = insert (rt_weight (snd x)) (fst ` set ws)"
    and "dict_get_or [] (add_bucket x ws) w =
      dict_get_or [] ws w @ (if rt_weight (snd x) = w then [fst x] else [])"
proof -
  let ?w = "rt_weight (snd x)"
  let ?ws = "if ?w \<in> fst ` set ws then ws else dict_set ?w [] ws"
  have e: "add_bucket x ws = dict_set ?w (dict_get_or [] ?ws ?w @ [fst x]) ?ws"
    by (simp add: add_bucket_def Let_def split: prod.split)
  have g: "dict_get_or [] ?ws v = dict_get_or [] ws v" for v
    by (cases "?w \<in> fst ` set ws") (auto simp: dict_get_or_missing)
  show "distinct (dict_keys (add_bucket x ws))" if "distinct (dict_keys ws)"
    unfolding e using that by (intro distinct_dict_set) (cases "?w \<in> fst ` set ws"; simp)
  show "fst ` set (add_bucket x ws) = insert ?w (fst ` set ws)"
    unfolding e fst_set_keys by (cases "?w \<in> fst ` set ws") (auto simp: fst_set_keys)
  show "dict_get_or [] (add_bucket x ws) w = dict_get_or [] ws w @ (if ?w = w then [fst x] else [])"
    unfolding e dict_get_or_set g by simp
qed

lemma fold_add_bucket:
  "distinct (dict_keys ws) \<Longrightarrow> distinct (dict_keys (fold add_bucket rt ws))"
  "fst ` set (fold add_bucket rt ws) = (\<lambda>x. rt_weight (snd x)) ` set rt \<union> fst ` set ws"
  "dict_get_or [] (fold add_bucket rt ws) w =
     dict_get_or [] ws w @ map fst (filter (\<lambda>x. rt_weight (snd x) = w) rt)"
  by (induction rt arbitrary: ws) (simp_all add: add_bucket)

lemma speed_prio_map_sort: "speed_prio_map rt = rev (map fst (sort_key (\<lambda>x. rt_weight (snd x)) rt))"
proof -
  let ?ws = "sort (dict_keys (weight_buckets rt))"
  have "dict_get_or [] (weight_buckets rt) = (\<lambda>w. map fst (filter (\<lambda>x. rt_weight (snd x) = w) rt))"
    by (rule ext) (simp add: weight_buckets_def fold_add_bucket(3) dict_get_or_missing)
  then have "concat (map (dict_get_or [] (weight_buckets rt)) ?ws) =
    map fst (concat (map (\<lambda>w. filter (\<lambda>x. rt_weight (snd x) = w) rt) ?ws))"
    by (simp add: map_concat comp_def)
  also have "concat (map (\<lambda>w. filter (\<lambda>x. rt_weight (snd x) = w) rt) ?ws) =
    sort_key (\<lambda>x. rt_weight (snd x)) rt"
    using fold_add_bucket(1) [of "[]" rt] fold_add_bucket(2) [of rt "[]"]
    by (intro concat_buckets_sort) (auto simp: weight_buckets_def)
  finally show ?thesis by (simp add: speed_prio_map_def)
qed

lemma speed_prio_map_set: "set (speed_prio_map rt) = tasks rt"
  by (simp add: speed_prio_map_sort tasks_def)

lemma speed_prio_map_distinct: "distinct (dict_keys rt) \<Longrightarrow> distinct (speed_prio_map rt)"
  by (simp add: speed_prio_map_sort distinct_map)

lemma speed_prio_map_length [simp]: "length (speed_prio_map rt) = length rt"
  by (simp add: speed_prio_map_sort)

lemma speed_prio_map_heavy_first:
  assumes "distinct (dict_keys rt)"
  shows "sorted_wrt (\<lambda>t u. weight_of rt t \<ge> weight_of rt u) (speed_prio_map rt)"
proof -
  let ?xs = "sort_key (\<lambda>x. rt_weight (snd x)) rt"
  have w: "weight_of rt (fst x) = rt_weight (snd x)" if "x \<in> set rt" for x
    using assms that by (cases x) (simp add: weight_of_def)
  have "sorted_wrt (\<lambda>x y. rt_weight (snd x) \<le> rt_weight (snd y)) ?xs"
    using sorted_sort_key [of "\<lambda>x. rt_weight (snd x)" rt] by (simp add: sorted_wrt_map)
  then have "sorted_wrt (\<lambda>x y. weight_of rt (fst x) \<le> weight_of rt (fst y)) ?xs"
    by (rule sorted_wrt_mono_rel [rotated]) (simp add: w)
  then show ?thesis by (simp add: speed_prio_map_sort sorted_wrt_rev sorted_wrt_map)
qed

lemma sorted_wrt_index_of:
  assumes "sorted_wrt R xs" and "x \<in> set xs" and "y \<in> set xs" and "x \<noteq> y" and "\<not> R y x"
  shows "index_of x xs < index_of y xs"
proof (rule ccontr)
  assume "\<not> ?thesis"
  moreover have "index_of x xs \<noteq> index_of y xs" using assms index_of_inj by metis
  ultimately have "index_of y xs < index_of x xs" by simp
  with sorted_wrt_nth_less [OF assms(1) this index_of_less [OF assms(2)]] assms
  show False by (simp add: index_of_nth)
qed

subsection \<open>The completion scheduler groups kinds of tasks\<close>

definition kind_of :: "tid \<Rightarrow> string" where
  "kind_of t = (case taskname_from_tid t of Inr n \<Rightarrow> n | Inl _ \<Rightarrow> [])"

lemma tid_with_colon:
  assumes "colon \<in> set t"
  shows "rsplit1 colon t = [fn_from_tid t, kind_of t]" and "taskname_from_tid t = Inr (kind_of t)"
proof -
  obtain a b where "t = a @ colon # b" "colon \<notin> set b" "rsplit1 colon t = [a, b]"
    using assms by (rule rsplit1_two)
  then show "rsplit1 colon t = [fn_from_tid t, kind_of t]" "taskname_from_tid t = Inr (kind_of t)"
    by (simp_all add: fn_from_tid_def kind_of_def taskname_from_tid_def)
qed

definition merge_ok :: "string list \<times> nat \<times> string option \<Rightarrow> bool" where
  "merge_ok = (\<lambda>(all_tasks, index, old_task). distinct all_tasks \<and> old_task = nth_or_none index all_tasks)"

lemma insert_at_set [simp]: "set (insert_at i x xs) = insert x (set xs)"
  using append_take_drop_id [of i xs] unfolding insert_at_def by (metis Un_insert_right list.simps(15) set_append)

lemma distinct_insert_at: "distinct xs \<Longrightarrow> x \<notin> set xs \<Longrightarrow> distinct (insert_at i x xs)"
  unfolding insert_at_def by (auto dest: in_set_takeD in_set_dropD simp: set_take_disj_set_drop_if_distinct)

lemma merge_task_ok:
  assumes "merge_ok s"
  shows "merge_ok (merge_task t s)" and "set (fst (merge_task t s)) = insert t (set (fst s))"
proof -
  obtain ts i old where s: "s = (ts, i, old)" by (cases s)
  have ins: "nth_or_none (Suc i) (insert_at i t ts) = old"
    using assms by (auto simp: s merge_ok_def nth_or_none_def insert_at_def nth_append)
  show "merge_ok (merge_task t s)"
    using assms ins by (auto simp: s merge_ok_def merge_task_def py_index_def distinct_insert_at)
  show "set (fst (merge_task t s)) = insert t (set (fst s))"
    using assms by (auto simp: s merge_ok_def merge_task_def py_index_def nth_or_none_def split: if_splits)
qed

lemma merge_recipe:
  assumes "distinct ts"
  shows "distinct (merge_recipe new ts)" and "set (merge_recipe new ts) = set new \<union> set ts"
proof -
  have "merge_ok s \<Longrightarrow> merge_ok (fold merge_task new s) \<and>
      set (fst (fold merge_task new s)) = set new \<union> set (fst s)" for s
    by (induction new arbitrary: s) (auto simp: merge_task_ok)
  from this [of "(ts, 0, nth_or_none 0 ts)"] assms
  show "distinct (merge_recipe new ts)" "set (merge_recipe new ts) = set new \<union> set ts"
    by (auto simp: merge_recipe_def merge_ok_def split: prod.splits)
qed

lemma merged_tasks:
  shows "distinct (merged_tasks byfn)" and "set (merged_tasks byfn) = \<Union> (set ` snd ` set byfn)"
proof -
  have "distinct ts \<Longrightarrow> distinct (fold merge_recipe ls ts) \<and>
      set (fold merge_recipe ls ts) = \<Union> (set ` set ls) \<union> set ts" for ls ts
    by (induction ls arbitrary: ts) (auto simp: merge_recipe)
  from this [of "[]" "dict_values byfn"]
  show "distinct (merged_tasks byfn)" "set (merged_tasks byfn) = \<Union> (set ` snd ` set byfn)"
    by (auto simp: merged_tasks_def dict_values_def)
qed

definition names_in :: "(string, string list) dict \<Rightarrow> string set" where
  "names_in d = {x. \<exists>k. x \<in> set (dict_get_or [] d k)}"

lemma names_in_add: "names_in (dict_set k (dict_get_or [] d k @ [x]) d) = insert x (names_in d)"
  by (auto simp: names_in_def)

lemma names_in_set:
  assumes "distinct (dict_keys d)"
  shows "names_in d = \<Union> (set ` snd ` set d)"
proof -
  have "x \<in> set (dict_get_or [] d k) \<longleftrightarrow> (\<exists>v. (k, v) \<in> set d \<and> x \<in> set v)" for x k
    using assms map_of_eq_Some_iff [OF assms, of k] by (auto simp: dict_get_or_def split: option.split dest: map_of_SomeD)
  then show ?thesis by (force simp: names_in_def)
qed

lemma task_lists:
  assumes "\<forall>t \<in> set prio. colon \<in> set t"
  obtains byfn where "task_lists prio = Inr byfn" and "\<Union> (set ` snd ` set byfn) = kind_of ` set prio"
proof -
  let ?f = "\<lambda>taskid byfn. case rsplit1 colon taskid of
         [fn, taskname] \<Rightarrow> Inr (dict_set fn (dict_get_or [] byfn fn @ [taskname]) byfn)
       | _ \<Rightarrow> Inl ValueError"
  have "\<exists>d'. foldE ?f prio d = Inr d' \<and> distinct (dict_keys d') \<and>
      names_in d' = kind_of ` set prio \<union> names_in d"
    if "distinct (dict_keys d)" for d :: "(string, string list) dict"
    using assms that
  proof (induction prio arbitrary: d)
    case (Cons t prio)
    let ?d = "dict_set (fn_from_tid t) (dict_get_or [] d (fn_from_tid t) @ [kind_of t]) d"
    have "distinct (dict_keys ?d)" using Cons.prems(2) by (rule distinct_dict_set)
    from Cons.IH [OF _ this] Cons.prems(1)
    obtain d' where "foldE ?f prio ?d = Inr d'" "distinct (dict_keys d')"
      "names_in d' = kind_of ` set prio \<union> names_in ?d" by auto
    with tid_with_colon(1) [of t] Cons.prems(1) show ?case by (auto simp: names_in_add)
  qed simp
  from this [of "[]"] obtain d' where "foldE ?f prio [] = Inr d'" "distinct (dict_keys d')"
    "names_in d' = kind_of ` set prio" by (auto simp: names_in_def dict_get_or_def)
  with that [of d'] show ?thesis unfolding task_lists_def by (metis names_in_set)
qed

lemma pull_steps:
  assumes "\<forall>t \<in> set d. colon \<in> set t"
  shows "foldE (pull_step k) [length (a @ b @ c)..<length (a @ b @ c @ d)] (a @ b @ c @ d, length (a @ b)) =
    Inr (a @ b @ filter (\<lambda>t. kind_of t = k) d @ c @ filter (\<lambda>t. kind_of t \<noteq> k) d,
         length (a @ b @ filter (\<lambda>t. kind_of t = k) d))"
  using assms
proof (induction d arbitrary: b c)
  case (Cons t d)
  let ?p = "a @ b @ c @ t # d"
  have u: "[length (a @ b @ c)..<length ?p] = length (a @ b @ c) # [Suc (length (a @ b @ c))..<length ?p]"
    by (rule upt_conv_Cons) simp
  have n: "?p ! length (a @ b @ c) = t" by (simp add: nth_append)
  show ?case
  proof (cases "kind_of t = k")
    case True
    have "pull_step k (length (a @ b @ c)) (?p, length (a @ b)) = Inr (a @ (b @ [t]) @ c @ d, length (a @ b @ [t]))"
      using True Cons.prems n tid_with_colon(2) [of t] by (simp add: pull_step_def insert_at_def)
    with Cons.IH [of "b @ [t]" c] Cons.prems True u show ?thesis by simp
  next
    case False
    have "pull_step k (length (a @ b @ c)) (?p, length (a @ b)) = Inr (a @ b @ (c @ [t]) @ d, length (a @ b))"
      using False Cons.prems n tid_with_colon(2) [of t] by (simp add: pull_step_def)
    with Cons.IH [of b "c @ [t]"] Cons.prems False u show ?thesis by simp
  qed
qed simp

lemma pull_kinds:
  assumes "\<forall>t \<in> set r. colon \<in> set t" and "distinct ks" and "n = length (a @ r)"
  shows "\<exists>i. foldE (pull_kind n) ks (a @ r, length a) =
    Inr (a @ concat (map (\<lambda>k. filter (\<lambda>t. kind_of t = k) r) ks) @ filter (\<lambda>t. kind_of t \<notin> set ks) r, i)"
  using assms
proof (induction ks arbitrary: a r)
  case (Cons k ks)
  let ?y = "filter (\<lambda>t. kind_of t = k) r" and ?n = "filter (\<lambda>t. kind_of t \<noteq> k) r"
  have "pull_kind n k (a @ r, length a) = Inr ((a @ ?y) @ ?n, length (a @ ?y))"
    using pull_steps [of r k a "[]" "[]"] Cons.prems by (simp add: pull_kind_def)
  moreover have "length ((a @ ?y) @ ?n) = n"
    using Cons.prems(3) sum_length_filter_compl [of "\<lambda>t. kind_of t = k" r] by simp
  then obtain i where "foldE (pull_kind n) ks ((a @ ?y) @ ?n, length (a @ ?y)) =
     Inr ((a @ ?y) @ concat (map (\<lambda>k. filter (\<lambda>t. kind_of t = k) ?n) ks) @ filter (\<lambda>t. kind_of t \<notin> set ks) ?n, i)"
    using Cons.IH [of ?n "a @ ?y"] Cons.prems by auto
  moreover have "concat (map (\<lambda>k'. filter (\<lambda>x. kind_of x \<noteq> k \<and> kind_of x = k') r) ks) =
      concat (map (\<lambda>k'. filter (\<lambda>t. kind_of t = k') r) ks)"
    using Cons.prems(2) by (intro arg_cong [where f = concat] map_cong) (auto intro: filter_cong)
  moreover have "filter (\<lambda>t. kind_of t \<notin> set ks) ?n = filter (\<lambda>t. kind_of t \<notin> set (k # ks)) r"
    by (auto intro: filter_cong)
  ultimately show ?case by (intro exI [of _ i]) simp
qed simp

subsection \<open>The choice of the next task\<close>

text \<open>How many unfinished tasks of a name are running, and whether that reaches its limit.\<close>

definition running_count :: "rqexec \<Rightarrow> string \<Rightarrow> int" where
  "running_count s n = int (length (filter (\<lambda>t. kind_of t = n) (set_diff (runq_running s) (runq_complete s))))"

definition name_limited :: "(string \<Rightarrow> string option) \<Rightarrow> rqexec \<Rightarrow> string \<Rightarrow> bool" where
  "name_limited nthreads s n \<longleftrightarrow> running_count s n > 0 \<and>
     (case nthreads n of None \<Rightarrow> False | Some l \<Rightarrow>
        l \<noteq> [] \<and> (case py_int l of None \<Rightarrow> False | Some k \<Rightarrow> running_count s n \<ge> k))"

text \<open>The tasks the scheduler may start.\<close>

definition startable :: "(string \<Rightarrow> string option) \<Rightarrow> rqexec \<Rightarrow> tid \<Rightarrow> bool" where
  "startable nthreads s t \<longleftrightarrow>
     t \<in> set (buildable (sched s)) \<and> t \<notin> set (runq_running s) \<and> t \<notin> set (holdoff_tasks s) \<and>
     (t \<in> set (tasks_covered s) \<or> t \<in> set (tasks_notcovered s)) \<and>
     \<not> name_limited nthreads s (kind_of t) \<and>
     (\<forall>stamp. map_of (sched_stamps (sched s)) t = Some stamp \<longrightarrow> stamp \<notin> set (dict_values (build_stamps s)))"

text \<open>
  What holds of a scheduler in use: its map \<open>P\<close> ranks every task once, the caches agree
  with what they cache, and the sets hold tasks.
\<close>

definition sched_ok :: "(string \<Rightarrow> string option) \<Rightarrow> rtentries \<Rightarrow> tid list \<Rightarrow> rqexec \<Rightarrow> bool" where
  "sched_ok nthreads rt P s \<longleftrightarrow>
     prio_map (sched s) = map Task P \<and> distinct P \<and> set P = tasks rt \<and>
     (\<forall>t \<in> tasks rt. colon \<in> set t) \<and>
     set (buildable (sched s)) \<subseteq> tasks rt \<and> set (runq_running s) \<subseteq> tasks rt \<and>
     (\<forall>t \<in> tasks rt. \<exists>stamp. map_of (sched_stamps (sched s)) t = Some stamp) \<and>
     (\<forall>m. rev_prio_map (sched s) = Some m \<longrightarrow> m = [] \<or> (\<forall>t \<in> tasks rt. map_of m t = Some (index_of t P))) \<and>
     (\<forall>n v. map_of (skip_maxthread (sched s)) n = Some v \<longrightarrow> v = nthreads n) \<and>
     (\<forall>n l. nthreads n = Some l \<longrightarrow> l = [] \<or> py_int l \<noteq> None)"

definition cache_ok :: "(string \<Rightarrow> string option) \<Rightarrow> (string, string option) dict \<Rightarrow> bool" where
  "cache_ok nthreads mx \<longleftrightarrow> (\<forall>n v. map_of mx n = Some v \<longrightarrow> v = nthreads n)"

definition counts_ok :: "(string \<Rightarrow> string option) \<Rightarrow> (string, string option) dict \<Rightarrow> (string, int) dict \<Rightarrow> tid list \<Rightarrow> bool" where
  "counts_ok nthreads mx sb ts \<longleftrightarrow> (\<forall>n. map_of sb n =
     (if (\<exists>l. nthreads n = Some l \<and> l \<noteq> []) \<and> filter (\<lambda>t. kind_of t = n) ts \<noteq> []
      then Some (int (length (filter (\<lambda>t. kind_of t = n) ts))) else None) \<and>
     (map_of sb n \<noteq> None \<longrightarrow> map_of mx n \<noteq> None))"

lemma count_running_step:
  assumes "colon \<in> set t" and c: "cache_ok nthreads mx" and k: "counts_ok nthreads mx sb ts"
  shows "\<exists>mx' sb'. count_running nthreads t (mx, sb) = Inr (mx', sb') \<and> cache_ok nthreads mx' \<and>
    counts_ok nthreads mx' sb' (ts @ [t])"
proof -
  let ?n = "kind_of t"
  let ?mx = "if ?n \<in> set (dict_keys mx) then mx else dict_set ?n (nthreads ?n) mx"
  have m: "map_of ?mx ?n = Some (nthreads ?n)"
    using c map_of_None_iff [of mx ?n] by (cases "map_of mx ?n") (auto simp: cache_ok_def)
  have c': "cache_ok nthreads ?mx" using c by (auto simp: cache_ok_def)
  have keep: "map_of mx n \<noteq> None \<Longrightarrow> map_of ?mx n \<noteq> None" for n by auto
  have kn: "map_of sb n = (if (\<exists>l. nthreads n = Some l \<and> l \<noteq> []) \<and> filter (\<lambda>t. kind_of t = n) ts \<noteq> []
      then Some (int (length (filter (\<lambda>t. kind_of t = n) ts))) else None)"
    "map_of sb n \<noteq> None \<Longrightarrow> map_of mx n \<noteq> None" for n
    using k unfolding counts_ok_def by blast+
  have g: "(\<exists>l. nthreads ?n = Some l \<and> l \<noteq> []) \<Longrightarrow>
      dict_get_or 0 sb ?n = int (length (filter (\<lambda>t. kind_of t = ?n) ts))"
    using kn(1) [of ?n] by (auto simp: dict_get_or_def)
  show ?thesis
  proof (cases "\<exists>l. nthreads ?n = Some l \<and> l \<noteq> []")
    case True
    then obtain x xs where l: "nthreads ?n = Some (x # xs)" by (auto simp: neq_Nil_conv)
    let ?sb = "dict_set ?n (dict_get_or 0 sb ?n + 1) sb"
    have "count_running nthreads t (mx, sb) = Inr (?mx, ?sb)"
      using m l tid_with_colon(2) [OF assms(1)] by (simp add: count_running_def Let_def)
    moreover have "counts_ok nthreads ?mx ?sb (ts @ [t])"
      unfolding counts_ok_def using kn keep g True m by (intro allI) (auto simp del: map_of_eq_None_iff split: if_splits)
    ultimately show ?thesis using c' by blast
  next
    case False
    have "count_running nthreads t (mx, sb) = Inr (?mx, sb)"
      using m False tid_with_colon(2) [OF assms(1)]
      by (auto simp: count_running_def Let_def split: option.split list.split)
    moreover have "counts_ok nthreads ?mx sb (ts @ [t])"
      unfolding counts_ok_def using kn keep False by (intro allI) (auto simp del: map_of_eq_None_iff split: if_splits)
    ultimately show ?thesis using c' by blast
  qed
qed

lemma count_running_all:
  assumes "\<forall>t \<in> set ts. colon \<in> set t" and "cache_ok nthreads mx"
  obtains mx' sb where "foldE (count_running nthreads) ts (mx, []) = Inr (mx', sb)"
    and "cache_ok nthreads mx'" and "counts_ok nthreads mx' sb ts"
proof -
  have "\<exists>mx' sb'. foldE (count_running nthreads) ts (mx, sb) = Inr (mx', sb') \<and> cache_ok nthreads mx' \<and>
      counts_ok nthreads mx' sb' (us @ ts)"
    if "cache_ok nthreads mx" "counts_ok nthreads mx sb us" for mx sb us
    using assms(1) that
  proof (induction ts arbitrary: mx sb us)
    case (Cons t ts)
    obtain mx1 sb1 where 1: "count_running nthreads t (mx, sb) = Inr (mx1, sb1)" "cache_ok nthreads mx1"
      "counts_ok nthreads mx1 sb1 (us @ [t])"
      using count_running_step [OF _ Cons.prems(2,3), of t] Cons.prems(1) by auto
    from Cons.IH [OF _ 1(2,3)] Cons.prems(1) 1(1) show ?case by simp
  qed auto
  from this [of mx "[]" "[]"] assms(2) that show ?thesis by (auto simp: counts_ok_def)
qed

lemma thread_limited:
  assumes c: "cache_ok nthreads mx" and k: "counts_ok nthreads mx sb (set_diff (runq_running s) (runq_complete s))"
    and v: "\<forall>n l. nthreads n = Some l \<longrightarrow> l = [] \<or> py_int l \<noteq> None"
  shows "thread_limited mx sb n = Inr (name_limited nthreads s n)"
proof (cases "map_of sb n")
  case None
  have "\<not> name_limited nthreads s n"
  proof
    assume l: "name_limited nthreads s n"
    then have "\<exists>l. nthreads n = Some l \<and> l \<noteq> []" by (auto simp: name_limited_def split: option.splits)
    moreover from l have "filter (\<lambda>t. kind_of t = n) (set_diff (runq_running s) (runq_complete s)) \<noteq> []"
      by (auto simp: name_limited_def running_count_def)
    ultimately show False using k None unfolding counts_ok_def by (metis option.distinct(1))
  qed
  with None show ?thesis by (simp add: thread_limited_def)
next
  case (Some i)
  with k have m: "map_of mx n \<noteq> None" and n: "\<exists>l. nthreads n = Some l \<and> l \<noteq> []"
      "filter (\<lambda>t. kind_of t = n) (set_diff (runq_running s) (runq_complete s)) \<noteq> []"
    and i: "i = running_count s n"
    unfolding counts_ok_def running_count_def by (metis option.distinct(1) option.inject)+
  from m c have "dict_get mx n = Inr (nthreads n)" by (auto simp: cache_ok_def dict_get_def)
  moreover obtain l x where "nthreads n = Some l" "l \<noteq> []" "py_int l = Some x"
    using n(1) v by blast
  moreover have "running_count s n > 0" using n(2) by (simp add: running_count_def)
  ultimately show ?thesis using Some i by (simp add: thread_limited_def name_limited_def)
qed

lemma build_rev_prio_map:
  assumes "set (dict_keys rt) \<subseteq> set P"
  obtains m where "build_rev_prio_map rt (map Task P) = Inr m"
    and "\<forall>t \<in> set (dict_keys rt). map_of m t = Some (index_of t P)"
proof -
  have i: "py_index (map Task P) (Task t) = Inr (index_of t P)" if "t \<in> set P" for t
    using that index_of_map_inj [of Task t P] by (auto simp: py_index_def inj_def)
  have "\<exists>m'. foldE (\<lambda>tid m. bindE (py_index (map Task P) (Task tid)) (\<lambda>i. Inr (dict_set tid i m))) ts m = Inr m' \<and>
     (\<forall>t. map_of m' t = (if t \<in> set ts then Some (index_of t P) else map_of m t))"
    if "set ts \<subseteq> set P" for ts m
    using that
  proof (induction ts arbitrary: m)
    case (Cons t ts)
    from Cons.IH [of "dict_set t (index_of t P) m"] Cons.prems show ?case by (auto simp: i)
  qed auto
  from this [OF assms, of "[]"] that show ?thesis unfolding build_rev_prio_map_def by auto
qed

lemma ensure_rev_prio_map:
  assumes "prio_map sc = map Task P" and "set P = tasks rt"
    and "\<forall>m. rev_prio_map sc = Some m \<longrightarrow> m = [] \<or> (\<forall>t \<in> tasks rt. map_of m t = Some (index_of t P))"
  obtains m where "ensure_rev_prio_map rt sc = Inr (sc\<lparr>rev_prio_map := Some m\<rparr>)"
    and "\<forall>t \<in> tasks rt. map_of m t = Some (index_of t P)"
proof (cases "\<exists>x xs. rev_prio_map sc = Some (x # xs)")
  case True
  then obtain x xs where r: "rev_prio_map sc = Some (x # xs)" by blast
  then have "ensure_rev_prio_map rt sc = Inr (sc\<lparr>rev_prio_map := Some (x # xs)\<rparr>)"
    by (simp add: ensure_rev_prio_map_def)
  with assms(3) r that show ?thesis by blast
next
  case False
  obtain m where m: "build_rev_prio_map rt (prio_map sc) = Inr m" "\<forall>t \<in> tasks rt. map_of m t = Some (index_of t P)"
    using build_rev_prio_map [of rt P] assms(1,2) unfolding tasks_def by (metis subset_refl)
  then have "ensure_rev_prio_map rt sc = Inr (sc\<lparr>rev_prio_map := Some m\<rparr>)"
    using False by (auto simp: ensure_rev_prio_map_def split: option.split list.split)
  with m(2) that show ?thesis by blast
qed

definition free_stamp :: "rqexec \<Rightarrow> tid \<Rightarrow> bool" where
  "free_stamp s t \<longleftrightarrow>
     (\<forall>stamp. map_of (sched_stamps (sched s)) t = Some stamp \<longrightarrow> stamp \<notin> set (dict_values (build_stamps s)))"

definition best_of :: "(tid \<Rightarrow> nat) \<Rightarrow> (tid \<Rightarrow> bool) \<Rightarrow> tid set \<Rightarrow> (tid \<times> nat) option \<Rightarrow> bool" where
  "best_of rank Q T best = (case best of
     None \<Rightarrow> \<forall>t \<in> T. \<not> Q t
   | Some (b, p) \<Rightarrow> b \<in> T \<and> Q b \<and> p = rank b \<and> (\<forall>t \<in> T. Q t \<longrightarrow> rank b \<le> rank t))"

lemma pick_task:
  assumes "colon \<in> set t" and "thread_limited (skip_maxthread sc) sb (kind_of t) = Inr limd"
    and "rev_prio_map sc = Some m" and "map_of m t = Some (rank t)"
    and "map_of (sched_stamps sc) t = Some stamp" and "Q t \<longleftrightarrow> \<not> limd \<and> stamp \<notin> set used"
    and "best_of rank Q T best"
  shows "\<exists>best'. pick_task sc sb used t best = Inr best' \<and> best_of rank Q (insert t T) best'"
  using assms tid_with_colon(2) [OF assms(1)]
  by (cases best; cases limd; cases "stamp \<in> set used")
     (auto simp: pick_task_def dict_get_def best_of_def not_less)

lemma pick_tasks:
  assumes "\<forall>t \<in> set ts. colon \<in> set t \<and> thread_limited (skip_maxthread sc) sb (kind_of t) = Inr (limd t) \<and>
      map_of m t = Some (rank t) \<and> (\<exists>stamp. map_of (sched_stamps sc) t = Some stamp \<and>
        (Q t \<longleftrightarrow> \<not> limd t \<and> stamp \<notin> set used))"
    and "rev_prio_map sc = Some m"
  shows "\<exists>best. foldE (pick_task sc sb used) ts None = Inr best \<and> best_of rank Q (set ts) best"
proof -
  have "\<exists>best'. foldE (pick_task sc sb used) ts best = Inr best' \<and> best_of rank Q (set ts \<union> T) best'"
    if "best_of rank Q T best" for T best
    using assms(1) that
  proof (induction ts arbitrary: T best)
    case (Cons t ts)
    obtain best1 where 1: "pick_task sc sb used t best = Inr best1" "best_of rank Q (insert t T) best1"
      using pick_task [of t sc sb "limd t" m rank _ Q used T best] Cons.prems assms(2) by auto
    from Cons.IH [OF _ 1(2)] Cons.prems(1) 1(1) show ?case by simp
  qed simp
  from this [of "{}" None] show ?thesis by (simp add: best_of_def)
qed

lemma pick_best_result:
  assumes ok: "sched_ok nthreads rt P s" and sc: "sc = (sched s)\<lparr>buildable := b, skip_maxthread := mx\<rparr>"
    and b: "set b \<subseteq> tasks rt"
    and c: "cache_ok nthreads mx" and k: "counts_ok nthreads mx sb (set_diff (runq_running s) (runq_complete s))"
    and ts: "set ts \<subseteq> tasks rt" and s0: "build_stamps s0 = build_stamps s"
  shows "\<exists>r m. pick_best rt s0 sc sb ts = Inr (r, s0\<lparr>sched := sc\<lparr>rev_prio_map := Some m\<rparr>\<rparr>) \<and>
    sched_ok nthreads rt P (s\<lparr>sched := sc\<lparr>rev_prio_map := Some m\<rparr>\<rparr>) \<and>
    best_of (\<lambda>t. index_of t P) (\<lambda>t. \<not> name_limited nthreads s (kind_of t) \<and> free_stamp s t) (set ts)
      (map_option (\<lambda>t. (t, index_of t P)) r)"
proof -
  have 1: "prio_map sc = map Task P" "set P = tasks rt"
    "\<forall>m. rev_prio_map sc = Some m \<longrightarrow> m = [] \<or> (\<forall>t \<in> tasks rt. map_of m t = Some (index_of t P))"
    using ok by (simp_all add: sched_ok_def sc)
  obtain m where m: "ensure_rev_prio_map rt sc = Inr (sc\<lparr>rev_prio_map := Some m\<rparr>)"
      "\<forall>t \<in> tasks rt. map_of m t = Some (index_of t P)"
    using 1 by (rule ensure_rev_prio_map)
  let ?sc = "sc\<lparr>rev_prio_map := Some m\<rparr>" and ?limd = "\<lambda>t. name_limited nthreads s (kind_of t)"
  have l: "thread_limited mx sb n = Inr (name_limited nthreads s n)" for n
    using ok by (intro thread_limited [OF c k]) (simp add: sched_ok_def)
  have "\<exists>best. foldE (pick_task ?sc sb (dict_values (build_stamps s))) ts None = Inr best \<and>
      best_of (\<lambda>t. index_of t P) (\<lambda>t. \<not> ?limd t \<and> free_stamp s t) (set ts) best"
  proof (rule pick_tasks [where m = m and limd = ?limd], intro ballI conjI)
    fix t assume "t \<in> set ts"
    then have t: "t \<in> tasks rt" using ts by blast
    show "colon \<in> set t" using ok t by (simp add: sched_ok_def)
    show "thread_limited (skip_maxthread ?sc) sb (kind_of t) = Inr (?limd t)" by (simp add: sc l)
    show "map_of m t = Some (index_of t P)" using m(2) t by blast
    obtain stamp where "map_of (sched_stamps (sched s)) t = Some stamp"
      using ok t unfolding sched_ok_def by blast
    then show "\<exists>stamp. map_of (sched_stamps ?sc) t = Some stamp \<and>
       ((\<not> ?limd t \<and> free_stamp s t) = (\<not> ?limd t \<and> stamp \<notin> set (dict_values (build_stamps s))))"
      by (simp add: sc free_stamp_def)
  qed simp
  then obtain best where best: "foldE (pick_task ?sc sb (dict_values (build_stamps s))) ts None = Inr best"
      "best_of (\<lambda>t. index_of t P) (\<lambda>t. \<not> ?limd t \<and> free_stamp s t) (set ts) best" by blast
  have "map_option (\<lambda>t. (t, index_of t P)) (map_option fst best) = best"
    using best(2) by (cases best) (auto simp: best_of_def)
  moreover have "sched_ok nthreads rt P (s\<lparr>sched := ?sc\<rparr>)"
    using ok m(2) b c by (simp add: sched_ok_def sc cache_ok_def)
  ultimately show ?thesis using m(1) best s0
    by (intro exI [of _ "map_option fst best"] exI [of _ m]) (simp add: pick_best_def)
qed

lemma startable_iff:
  "startable nthreads s t \<longleftrightarrow> t \<in> set (sched_candidates s) \<and> \<not> name_limited nthreads s (kind_of t) \<and> free_stamp s t"
  unfolding startable_def sched_candidates_def free_stamp_def by auto

definition next_ok :: "(string \<Rightarrow> string option) \<Rightarrow> bool \<Rightarrow> tid list \<Rightarrow> rqexec \<Rightarrow> tid option \<Rightarrow> bool" where
  "next_ok nthreads pressure P s r = (case r of
     None \<Rightarrow> (st_active (stats s) \<noteq> 0 \<and> pressure) \<or> (\<forall>t. \<not> startable nthreads s t)
   | Some t \<Rightarrow> startable nthreads s t \<and> (\<forall>u. startable nthreads s u \<longrightarrow> index_of t P \<le> index_of u P))"

lemma next_ok_best:
  assumes "best_of (\<lambda>t. index_of t P) (\<lambda>t. \<not> name_limited nthreads s (kind_of t) \<and> free_stamp s t)
      (set (sched_candidates s)) (map_option (\<lambda>t. (t, index_of t P)) r)"
  shows "next_ok nthreads pressure P s r"
  using assms by (cases r) (auto simp: next_ok_def best_of_def startable_iff)

definition best_result :: "(string \<Rightarrow> string option) \<Rightarrow> bool \<Rightarrow> rtentries \<Rightarrow> tid list \<Rightarrow> rqexec \<Rightarrow>
    (tid option \<times> rqexec) result \<Rightarrow> bool" where
  "best_result nthreads pressure rt P s res \<longleftrightarrow> (\<exists>r sc. res = Inr (r, s\<lparr>sched := sc\<rparr>) \<and>
     sched_ok nthreads rt P (s\<lparr>sched := sc\<rparr>) \<and> next_ok nthreads pressure P s r)"

lemma best_resultI:
  "sched_ok nthreads rt P (s\<lparr>sched := sc\<rparr>) \<Longrightarrow> next_ok nthreads pressure P s r \<Longrightarrow>
   best_result nthreads pressure rt P s (Inr (r, s\<lparr>sched := sc\<rparr>))"
  unfolding best_result_def by blast

lemma next_single:
  assumes cands: "sched_candidates s = [t]" and ok: "sched_ok nthreads rt P s"
    and sc: "sc = (sched s)\<lparr>buildable := b, skip_maxthread := mx\<rparr>" and b: "set b \<subseteq> tasks rt" and t: "t \<in> tasks rt"
    and c: "cache_ok nthreads mx" and k: "counts_ok nthreads mx sb (set_diff (runq_running s) (runq_complete s))"
  shows "best_result nthreads pressure rt P s (pick_single rt (s\<lparr>sched := sc\<rparr>) sc sb t)"
proof -
  have ok2: "sched_ok nthreads rt P (s\<lparr>sched := sc\<rparr>)"
    using ok b c by (simp add: sched_ok_def sc cache_ok_def)
  have l: "thread_limited (skip_maxthread sc) sb n = Inr (name_limited nthreads s n)" for n
    using ok thread_limited [OF c k] by (simp add: sched_ok_def sc)
  obtain stamp where st: "map_of (sched_stamps (sched s)) t = Some stamp"
    using ok t unfolding sched_ok_def by blast
  then have get: "dict_get (sched_stamps sc) t = Inr stamp" by (simp add: sc dict_get_def)
  have kt: "taskname_from_tid t = Inr (kind_of t)"
    using ok t by (intro tid_with_colon(2)) (simp add: sched_ok_def)
  consider (limited) "name_limited nthreads s (kind_of t)"
    | (free) "\<not> name_limited nthreads s (kind_of t)" "stamp \<notin> set (dict_values (build_stamps s))"
    | (used) "\<not> name_limited nthreads s (kind_of t)" "stamp \<in> set (dict_values (build_stamps s))" by blast
  then show ?thesis
  proof cases
    case limited
    then have "next_ok nthreads pressure P s None" using cands by (simp add: next_ok_def startable_iff)
    with ok2 limited kt l show ?thesis by (simp add: pick_single_def best_resultI)
  next
    case free
    then have "next_ok nthreads pressure P s (Some t)"
      using cands st by (simp add: next_ok_def startable_iff free_stamp_def)
    with ok2 free kt l get show ?thesis by (simp add: pick_single_def best_resultI)
  next
    case used
    then have "next_ok nthreads pressure P s None"
      using cands st by (simp add: next_ok_def startable_iff free_stamp_def)
    moreover obtain r m where "pick_best rt (s\<lparr>sched := sc\<rparr>) sc sb [] = Inr (r, s\<lparr>sched := sc\<lparr>rev_prio_map := Some m\<rparr>\<rparr>)"
        "sched_ok nthreads rt P (s\<lparr>sched := sc\<lparr>rev_prio_map := Some m\<rparr>\<rparr>)"
        "best_of (\<lambda>t. index_of t P) (\<lambda>t. \<not> name_limited nthreads s (kind_of t) \<and> free_stamp s t) (set [])
           (map_option (\<lambda>t. (t, index_of t P)) r)"
      using pick_best_result [OF ok sc b c k, of "[]" "s\<lparr>sched := sc\<rparr>"] by auto
    moreover from this(3) have "r = None" by (cases r) (simp_all add: best_of_def)
    ultimately show ?thesis using used kt l get by (simp add: pick_single_def best_resultI)
  qed
qed

lemma next_with_candidates:
  assumes ok: "sched_ok nthreads rt P s" and go: "sched_candidates s \<noteq> []" "\<not> (st_active (stats s) \<noteq> 0 \<and> pressure)"
  shows "best_result nthreads pressure rt P s (next_buildable_task nthreads pressure rt s)"
proof -
  let ?cands = "sched_candidates s" and ?b = "set_diff (buildable (sched s)) (runq_running s)"
  have b: "set ?b \<subseteq> tasks rt" using ok by (auto simp: sched_ok_def)
  then have ts: "set ?cands \<subseteq> tasks rt" by (auto simp: sched_candidates_def)
  obtain mx sb where cnt: "foldE (count_running nthreads) (set_diff (runq_running s) (runq_complete s))
      (skip_maxthread (sched s), []) = Inr (mx, sb)"
    and c: "cache_ok nthreads mx" and k: "counts_ok nthreads mx sb (set_diff (runq_running s) (runq_complete s))"
    using ok by (rule_tac count_running_all [of "set_diff (runq_running s) (runq_complete s)" nthreads "skip_maxthread (sched s)"])
      (auto simp: sched_ok_def cache_ok_def)
  define sc where "sc = (sched s)\<lparr>buildable := ?b, skip_maxthread := mx\<rparr>"
  show ?thesis
  proof (cases "\<exists>t. ?cands = [t]")
    case False
    then have n: "next_buildable_task nthreads pressure rt s = pick_best rt (s\<lparr>sched := sc\<rparr>) sc sb ?cands"
      using go cnt by (auto simp: next_buildable_task_def Let_def sc_def split: list.split)
    obtain r m where "pick_best rt (s\<lparr>sched := sc\<rparr>) sc sb ?cands = Inr (r, s\<lparr>sched := sc\<lparr>rev_prio_map := Some m\<rparr>\<rparr>)"
      "sched_ok nthreads rt P (s\<lparr>sched := sc\<lparr>rev_prio_map := Some m\<rparr>\<rparr>)"
      "best_of (\<lambda>t. index_of t P) (\<lambda>t. \<not> name_limited nthreads s (kind_of t) \<and> free_stamp s t) (set ?cands)
         (map_option (\<lambda>t. (t, index_of t P)) r)"
      using pick_best_result [OF ok sc_def b c k ts, of "s\<lparr>sched := sc\<rparr>"] by auto
    then show ?thesis unfolding n using next_ok_best [of P nthreads s r pressure] by (simp add: best_resultI)
  next
    case True
    then obtain t where t: "?cands = [t]" by blast
    with ts have "t \<in> tasks rt" by simp
    from next_single [OF t ok sc_def b this c k, of pressure]
    have "best_result nthreads pressure rt P s (pick_single rt (s\<lparr>sched := sc\<rparr>) sc sb t)" .
    moreover have "next_buildable_task nthreads pressure rt s = pick_single rt (s\<lparr>sched := sc\<rparr>) sc sb t"
      using go cnt t by (auto simp: next_buildable_task_def Let_def sc_def)
    ultimately show ?thesis by simp
  qed
qed

lemma next_buildable_task:
  assumes ok: "sched_ok nthreads rt P s"
  shows "best_result nthreads pressure rt P s (next_buildable_task nthreads pressure rt s)"
proof (cases "sched_candidates s \<noteq> [] \<and> \<not> (st_active (stats s) \<noteq> 0 \<and> pressure)")
  case True
  with ok show ?thesis by (blast intro: next_with_candidates)
next
  case False
  let ?sc = "(sched s)\<lparr>buildable := set_diff (buildable (sched s)) (runq_running s)\<rparr>"
  have "set (buildable ?sc) \<subseteq> tasks rt" using ok by (auto simp: sched_ok_def)
  then have "sched_ok nthreads rt P (s\<lparr>sched := ?sc\<rparr>)" using ok by (simp add: sched_ok_def)
  moreover have "next_ok nthreads pressure P s None" using False by (auto simp: next_ok_def startable_iff)
  moreover have "next_buildable_task nthreads pressure rt s = Inr (None, s\<lparr>sched := ?sc\<rparr>)"
    using False by (auto simp: next_buildable_task_def Let_def)
  ultimately show ?thesis by (simp add: best_resultI)
qed

subsection \<open>Properties\<close>

lemma calculate_task_weights_store:
  assumes "calculate_task_weights rt eps = Some (Inr rt')"
  obtains st where "rt' = store_weights rt st"
  using assms by (auto simp: calculate_task_weights_def split: option.splits sum.splits if_splits)

lemma store_weights_keys: "dict_keys (store_weights rt st) = dict_keys rt"
  by (auto simp: store_weights_def)

lemma completion_prio_map:
  assumes "\<forall>t \<in> tasks rt. colon \<in> set t"
  obtains kinds where "distinct kinds" and "set kinds = kind_of ` tasks rt"
    and "completion_prio_map rt = Inr (concat (map (\<lambda>k. filter (\<lambda>t. kind_of t = k) (speed_prio_map rt)) kinds))"
proof -
  let ?P = "speed_prio_map rt"
  have c: "\<forall>t \<in> set ?P. colon \<in> set t" using assms by (simp add: speed_prio_map_set)
  then obtain byfn where b: "task_lists ?P = Inr byfn" "\<Union> (set ` snd ` set byfn) = kind_of ` set ?P"
    by (rule task_lists)
  have k: "set (merged_tasks byfn) = kind_of ` set ?P" using merged_tasks(2) b(2) by simp
  obtain i where "foldE (pull_kind (length rt)) (merged_tasks byfn) (?P, 0) =
      Inr (concat (map (\<lambda>k. filter (\<lambda>t. kind_of t = k) ?P) (merged_tasks byfn)) @
           filter (\<lambda>t. kind_of t \<notin> set (merged_tasks byfn)) ?P, i)"
    using pull_kinds [OF c merged_tasks(1) [of byfn], of "length rt" "[]"] by auto
  moreover have "filter (\<lambda>t. kind_of t \<notin> set (merged_tasks byfn)) ?P = []"
    using k by (auto simp: filter_empty_conv)
  ultimately have "completion_prio_map rt =
      Inr (concat (map (\<lambda>k. filter (\<lambda>t. kind_of t = k) ?P) (merged_tasks byfn)))"
    by (simp add: completion_prio_map_def b(1))
  with that [OF merged_tasks(1)] k show ?thesis by (simp add: speed_prio_map_set)
qed

text \<open>
  The speed scheduler ranks dependencies first: in the priority map built from
  computed weights every task stands, once, before all tasks that depend on it.
\<close>

theorem speed_ranks_dependencies_first:
  assumes "wf_graph rt" and "calculate_task_weights rt (endpoints_of rt) = Some (Inr rt')"
  shows "distinct (speed_prio_map rt') \<and> set (speed_prio_map rt') = tasks rt \<and>
    (\<forall>(u, t) \<in> dep_rel rt. index_of t (speed_prio_map rt') < index_of u (speed_prio_map rt'))"
proof -
  obtain st where rt': "rt' = store_weights rt st" using assms(2) by (rule calculate_task_weights_store)
  have d: "distinct (dict_keys rt')" and ts: "tasks rt' = tasks rt"
    using wf_graph_keys [OF assms(1)] unfolding tasks_def rt' store_weights_keys by simp_all
  have "index_of t (speed_prio_map rt') < index_of u (speed_prio_map rt')" if "(u, t) \<in> dep_rel rt" for u t
  proof (rule sorted_wrt_index_of [OF speed_prio_map_heavy_first [OF d]])
    show "t \<in> set (speed_prio_map rt')" "u \<in> set (speed_prio_map rt')"
      using that wf_graph_deps [OF assms(1)] by (auto simp: speed_prio_map_set ts dep_rel_def)
    show "t \<noteq> u" "\<not> weight_of rt' u \<ge> weight_of rt' t"
      using heavier [OF assms that] by auto
  qed
  then show ?thesis using d ts by (auto simp: speed_prio_map_set speed_prio_map_distinct)
qed

theorem speed_ranks_dependencies_first_witness:
  "\<exists>rt'. calculate_task_weights example_rt (endpoints_of example_rt) = Some (Inr rt') \<and>
     set (speed_prio_map rt') = tasks example_rt \<and> distinct (speed_prio_map rt')"
  using example_weights_result speed_ranks_dependencies_first [OF wf_example_rt] by blast

text \<open>
  The completion scheduler keeps the speed scheduler's order within each kind of
  task and puts all tasks of one kind before all tasks of the next: its map is the
  concatenation, over the distinct task names, of the tasks of that name.
\<close>

theorem completion_groups_kinds:
  assumes "\<forall>t \<in> tasks rt. colon \<in> set t"
  shows "\<exists>kinds P. completion_prio_map rt = Inr P \<and> mset P = mset (speed_prio_map rt) \<and>
    distinct kinds \<and> set kinds = kind_of ` tasks rt \<and>
    P = concat (map (\<lambda>k. filter (\<lambda>t. kind_of t = k) (speed_prio_map rt)) kinds)"
proof -
  let ?P = "\<lambda>kinds. concat (map (\<lambda>k. filter (\<lambda>t. kind_of t = k) (speed_prio_map rt)) kinds)"
  obtain kinds where k: "distinct kinds" "set kinds = kind_of ` tasks rt" "completion_prio_map rt = Inr (?P kinds)"
    using completion_prio_map [OF assms] .
  have "mset (?P kinds) = mset (speed_prio_map rt)"
    using k(1,2) by (intro concat_buckets_mset) (simp_all add: speed_prio_map_set)
  with k show ?thesis by blast
qed

theorem completion_groups_kinds_witness:
  "\<exists>P. completion_prio_map example_rt = Inr P \<and> mset P = mset (speed_prio_map example_rt)"
  using completion_groups_kinds [of example_rt] by (auto simp: tasks_def example_rt_def)

text \<open>
  Property C30. The scheduler returns a task exactly when one may start (or pressure stops it
  while others run), and it is the startable task that stands first in the priority map.
\<close>

theorem next_task_is_best_startable:
  assumes "sched_ok nthreads rt P s"
  shows "\<exists>r sc. next_buildable_task nthreads pressure rt s = Inr (r, s\<lparr>sched := sc\<rparr>) \<and>
    sched_ok nthreads rt P (s\<lparr>sched := sc\<rparr>) \<and>
    (case r of
       None \<Rightarrow> (st_active (stats s) \<noteq> 0 \<and> pressure) \<or> (\<forall>t. \<not> startable nthreads s t)
     | Some t \<Rightarrow> startable nthreads s t \<and> (\<forall>u. startable nthreads s u \<longrightarrow> index_of t P \<le> index_of u P))"
  using next_buildable_task [OF assms, of pressure] by (simp add: next_ok_def best_result_def)

text \<open>
  The basic scheduler cannot choose between tasks: its priority map holds the
  key view and no task, so with several candidates and no limits the lookup raises.
\<close>

theorem basic_scheduler_raises:
  assumes "basic_init stampfile rt [] = Inr sc" and "sched s = sc\<lparr>buildable := b\<rparr>"
    and "runq_running s = []" and "st_active (stats s) = 0" and "rt \<noteq> []"
    and "length (sched_candidates s) \<ge> 2"
  shows "next_buildable_task nthreads pressure rt s = Inl ValueError"
proof -
  obtain t e rt1 where rt: "rt = (t, e) # rt1" using assms(5) by (cases rt) auto
  have "prio_map sc = [KeysView (dict_keys rt)] \<and> rev_prio_map sc = None"
    using assms(1) unfolding basic_init_def
    by (rule foldE_invariant) (auto simp: bindE_Inr_iff Let_def split: if_splits)
  then have "ensure_rev_prio_map rt (sc\<lparr>buildable := b'\<rparr>) = Inl ValueError" for b'
    by (simp add: ensure_rev_prio_map_def build_rev_prio_map_def py_index_def rt)
  moreover obtain x y zs where "sched_candidates s = x # y # zs"
    using assms(6) by (cases "sched_candidates s"; cases "tl (sched_candidates s)") auto
  ultimately show ?thesis using assms
    by (simp add: next_buildable_task_def Let_def pick_best_def set_diff_def)
qed

text \<open>A state with two candidates, for the witnesses.\<close>

definition two_rt :: rtentries where
  "two_rt = [(''a.bb:do_fetch'', new_rte), (''b.bb:do_fetch'', new_rte)]"

definition two_candidates :: "scheduler result \<Rightarrow> rqexec" where
  "two_candidates init = (case init of
     Inl _ \<Rightarrow> undefined
   | Inr sc \<Rightarrow>
       (case new_rqexec \<lparr>runtaskentries = two_rt, runq_setscene_tids = [], target_tids = []\<rparr> 4 []
               (Some (sc\<lparr>buildable := dict_keys two_rt\<rparr>)) of
          Inl _ \<Rightarrow> undefined
        | Inr s \<Rightarrow> s\<lparr>tasks_notcovered := dict_keys two_rt\<rparr>))"

lemma two_speed: "speed_init Inr two_rt [] = Inr \<lparr>prio_map = map Task [''b.bb:do_fetch'', ''a.bb:do_fetch''],
    buildable = [], skip_maxthread = [],
    sched_stamps = [(''a.bb:do_fetch'', ''a.bb:do_fetch''), (''b.bb:do_fetch'', ''b.bb:do_fetch'')],
    rev_prio_map = None\<rparr>"
  by code_simp

definition two_state :: rqexec where
  "two_state = two_candidates (speed_init Inr two_rt [])"

lemma two_state_ok: "sched_ok (\<lambda>_. None) two_rt [''b.bb:do_fetch'', ''a.bb:do_fetch''] two_state"
  unfolding two_state_def two_speed
  by (auto simp: sched_ok_def two_candidates_def new_rqexec_def two_rt_def tasks_def)

lemma two_state_startable: "startable (\<lambda>_. None) two_state ''b.bb:do_fetch''"
  unfolding two_state_def two_speed
  by (simp add: startable_def two_candidates_def new_rqexec_def two_rt_def name_limited_def
      running_count_def set_diff_def dict_values_def)

theorem next_task_is_best_startable_witness:
  "\<exists>t sc. next_buildable_task (\<lambda>_. None) False two_rt two_state = Inr (Some t, two_state\<lparr>sched := sc\<rparr>)"
proof -
  let ?P = "[''b.bb:do_fetch'', ''a.bb:do_fetch'']"
  obtain r sc where r: "next_buildable_task (\<lambda>_. None) False two_rt two_state = Inr (r, two_state\<lparr>sched := sc\<rparr>)"
    and c: "case r of None \<Rightarrow> (st_active (stats two_state) \<noteq> 0 \<and> False) \<or> (\<forall>t. \<not> startable (\<lambda>_. None) two_state t)
      | Some t \<Rightarrow> startable (\<lambda>_. None) two_state t \<and>
          (\<forall>u. startable (\<lambda>_. None) two_state u \<longrightarrow> index_of t ?P \<le> index_of u ?P)"
    using next_task_is_best_startable [OF two_state_ok, of False] by (elim exE conjE)
  show ?thesis
  proof (cases r)
    case None
    with c have "\<not> startable (\<lambda>_. None) two_state ''b.bb:do_fetch''"
      by (simp only: option.case) simp
    with two_state_startable show ?thesis by contradiction
  next
    case (Some t)
    with r show ?thesis by blast
  qed
qed

theorem basic_scheduler_raises_witness:
  "next_buildable_task (\<lambda>_. None) False two_rt (two_candidates (basic_init Inr two_rt [])) = Inl ValueError"
proof (rule basic_scheduler_raises)
  show "basic_init Inr two_rt [] = Inr \<lparr>prio_map = [KeysView (dict_keys two_rt)],
    buildable = [], skip_maxthread = [],
    sched_stamps = [(''a.bb:do_fetch'', ''a.bb:do_fetch''), (''b.bb:do_fetch'', ''b.bb:do_fetch'')],
    rev_prio_map = None\<rparr>" by code_simp
qed code_simp+

end
