(* ===== verification/RecipeCache.thy ===== *)
theory RecipeCache
  imports Deps RunQueueTid
begin

text \<open>
  The recipe cache of \<open>bitbake/lib/bb/cache.py\<close>: the information kept per recipe
  (\<open>CoreRecipeInfo\<close>), the indices the resolver reads (\<open>CacheData\<close>) as \<open>add_cacheData\<close> fills
  them, and the virtual file names. \<open>gv\<close> is \<open>getVar\<close> of the recipe's metadata.
\<close>

subsection \<open>Virtual file names\<close>

definition virtualfn2realfn :: "string \<Rightarrow> string \<times> string \<times> string" where
  "virtualfn2realfn v =
     (let (mc, v) = (if is_mc v
                     then (split_on colon v ! 1, join [colon] (drop 2 (split_on colon v)))
                     else ([], v))
      in if startswith v ''virtual:''
         then (last (split_on colon v), join [colon] (butlast (drop 1 (split_on colon v))), mc)
         else (v, [], mc))"

definition realfn2virtual :: "string \<Rightarrow> string \<Rightarrow> string \<Rightarrow> string" where
  "realfn2virtual realfn cls mc =
     (let realfn = (if cls \<noteq> [] then ''virtual:'' @ cls @ [colon] @ realfn else realfn)
      in if mc \<noteq> [] then ''mc:'' @ mc @ [colon] @ realfn else realfn)"

definition variant2virtual :: "string \<Rightarrow> string \<Rightarrow> string" where
  "variant2virtual realfn variant =
     (if variant = [] then realfn
      else if is_mc variant then
        let elems = split_on colon variant in
        if elems ! 2 \<noteq> []
        then ''mc:'' @ elems ! 1 @ '':virtual:'' @ join [colon] (drop 2 elems) @ [colon] @ realfn
        else ''mc:'' @ elems ! 1 @ [colon] @ realfn
      else ''virtual:'' @ variant @ [colon] @ realfn)"

subsection \<open>What is kept per recipe\<close>

text \<open>\<open>_task_deps\<close>: the tasks, their parents, and the other flags by name and task.\<close>

record task_deps =
  td_tasks :: "string list"
  td_parents :: "(string, string list) dict"
  td_flags :: "(string, (string, string) dict) dict"

definition task_flag :: "task_deps \<Rightarrow> string \<Rightarrow> string \<Rightarrow> string option" where
  "task_flag td flag task = (case map_of (td_flags td) flag of None \<Rightarrow> None | Some d \<Rightarrow> map_of d task)"

record recipe_info =
  ri_pn :: string
  ri_pepvpr :: "string \<times> string \<times> string"
  ri_defaultpref :: int
  ri_provides :: "string list"
  ri_rprovides :: "string list"
  ri_packages :: "string list"
  ri_packages_dynamic :: "string list"
  ri_rprovides_pkg :: "(string, string list) dict"
  ri_depends :: "string list"
  ri_rdepends :: "string list"
  ri_rrecommends :: "string list"
  ri_rdepends_pkg :: "(string, string list) dict"
  ri_rrecommends_pkg :: "(string, string list) dict"
  ri_not_world :: string
  ri_task_deps :: task_deps
  ri_stamp :: string
  ri_hashfilename :: string
  ri_basetaskhashes :: "(string, string) dict"

datatype parsed_recipe =
    Skipped string string "string list" "string list"  \<comment> \<open>PN, reason, PROVIDES, RPROVIDES\<close>
  | Parsed recipe_info

definition getvar :: "(string \<Rightarrow> string option) \<Rightarrow> string \<Rightarrow> string" where
  "getvar gv var = (case gv var of None \<Rightarrow> [] | Some v \<Rightarrow> v)"

definition listvar :: "(string \<Rightarrow> string option) \<Rightarrow> string \<Rightarrow> string list" where
  "listvar gv var = split_ws (getvar gv var)"

definition intvar :: "(string \<Rightarrow> string option) \<Rightarrow> string \<Rightarrow> int result" where
  "intvar gv var =
     (if getvar gv var = [] then Inr 0
      else case py_int (getvar gv var) of None \<Rightarrow> Inl ValueError | Some n \<Rightarrow> Inr n)"

definition depvar :: "(string \<Rightarrow> string option) \<Rightarrow> string \<Rightarrow> string list" where
  "depvar gv var = explode_deps (getvar gv var)"

definition dict_of :: "('k \<times> 'v) list \<Rightarrow> ('k, 'v) dict" where
  "dict_of kvs = fold (\<lambda>(k, v). dict_set k v) kvs []"

definition pkgvar :: "(string \<Rightarrow> string option) \<Rightarrow> string \<Rightarrow> string list \<Rightarrow> (string, string list) dict" where
  "pkgvar gv var packages = dict_of (map (\<lambda>pkg. (pkg, depvar gv (var @ [colon] @ pkg))) packages)"

definition taskvar :: "(string \<Rightarrow> string option) \<Rightarrow> string \<Rightarrow> string list \<Rightarrow> (string, string) dict" where
  "taskvar gv var ts = dict_of (map (\<lambda>task. (task, getvar gv (var @ '':task-'' @ task))) ts)"

text \<open>
  \<open>CoreRecipeInfo.__init__\<close>: \<open>tasklist\<close> and \<open>deps0\<close> are the objects under \<open>__BBTASKS\<close> and
  \<open>_task_deps\<close>, \<open>file_pn\<close> the name that is read off the file name.
\<close>

definition core_recipe_info :: "(string \<Rightarrow> string option) \<Rightarrow> string list \<Rightarrow> task_deps option \<Rightarrow> string \<Rightarrow>
    parsed_recipe result" where
  "core_recipe_info gv tasklist deps0 file_pn =
     (let provides = depvar gv ''PROVIDES'';
          rprovides = depvar gv ''RPROVIDES'';
          pn = (if getvar gv ''PN'' \<noteq> [] then getvar gv ''PN'' else file_pn);
          packages = (if listvar gv ''PACKAGES'' = [] then [pn] else listvar gv ''PACKAGES'')
      in if getvar gv ''__SKIPPED'' \<noteq> []
         then Inr (Skipped pn (getvar gv ''__SKIPPED'') provides rprovides)
         else bindE (intvar gv ''DEFAULT_PREFERENCE'') (\<lambda>pref.
           Inr (Parsed
             \<lparr>ri_pn = pn,
              ri_pepvpr = (getvar gv ''PE'', getvar gv ''PV'', getvar gv ''PR''),
              ri_defaultpref = pref,
              ri_provides = provides, ri_rprovides = rprovides,
              ri_packages = packages, ri_packages_dynamic = listvar gv ''PACKAGES_DYNAMIC'',
              ri_rprovides_pkg = pkgvar gv ''RPROVIDES'' packages,
              ri_depends = depvar gv ''DEPENDS'', ri_rdepends = depvar gv ''RDEPENDS'',
              ri_rrecommends = depvar gv ''RRECOMMENDS'',
              ri_rdepends_pkg = pkgvar gv ''RDEPENDS'' packages,
              ri_rrecommends_pkg = pkgvar gv ''RRECOMMENDS'' packages,
              ri_not_world = getvar gv ''EXCLUDE_FROM_WORLD'',
              ri_task_deps = (case deps0 of None \<Rightarrow> \<lparr>td_tasks = [], td_parents = [], td_flags = []\<rparr>
                              | Some d \<Rightarrow> d),
              ri_stamp = getvar gv ''STAMP'',
              ri_hashfilename = getvar gv ''BB_HASHFILENAME'',
              ri_basetaskhashes = taskvar gv ''BB_BASEHASH'' tasklist\<rparr>)))"

subsection \<open>The indices\<close>

record data_cache =
  task_deps_of :: "(string, task_deps) dict"
  pkg_fn :: "(string, string) dict"
  pkg_pn :: "(string, string list) dict"
  pkg_pepvpr :: "(string, string \<times> string \<times> string) dict"
  pkg_dp :: "(string, int) dict"
  stamp_of :: "(string, string) dict"
  fn_provides :: "(string, string list) dict"
  pn_provides :: "(string, string list) dict"
  all_depends :: "string list"
  dc_deps :: "(string, string list) dict"
  packages :: "(string, string list) dict"
  providers :: "(string, string list) dict"
  rproviders :: "(string, string list) dict"
  packages_dynamic :: "(string, string list) dict"
  rundeps :: "(string, (string, string list) dict) dict"
  runrecs :: "(string, (string, string list) dict) dict"
  possible_world :: "string list"
  universe_target :: "string list"
  hashfn :: "(string, string) dict"
  basetaskhash :: "(string, string) dict"
  preferred :: "(string, string) dict"
  ignored_dependencies :: "string list"
  world_target :: "string list"
  bbfile_priority :: "(string, int) dict"

definition new_cache :: data_cache where
  "new_cache =
     \<lparr>task_deps_of = [], pkg_fn = [], pkg_pn = [], pkg_pepvpr = [], pkg_dp = [], stamp_of = [],
      fn_provides = [], pn_provides = [], all_depends = [], dc_deps = [], packages = [],
      providers = [], rproviders = [], packages_dynamic = [], rundeps = [], runrecs = [],
      possible_world = [], universe_target = [], hashfn = [], basetaskhash = [],
      preferred = [], ignored_dependencies = [], world_target = [], bbfile_priority = []\<rparr>"

definition add_provide :: "string \<Rightarrow> string \<Rightarrow> string \<Rightarrow> data_cache \<Rightarrow> data_cache" where
  "add_provide fn pn provide cd =
     cd\<lparr>providers := dd_append provide fn (providers cd),
        pn_provides := dd_add pn provide (pn_provides cd)\<rparr>"

definition add_depend :: "string \<Rightarrow> string \<Rightarrow> data_cache \<Rightarrow> data_cache" where
  "add_depend fn dep cd =
     cd\<lparr>dc_deps := dd_add fn dep (dc_deps cd), all_depends := set_add dep (all_depends cd)\<rparr>"

definition add_package :: "recipe_info \<Rightarrow> string \<Rightarrow> string \<Rightarrow> data_cache \<times> string list \<Rightarrow>
    (data_cache \<times> string list) result" where
  "add_package ri fn package = (\<lambda>(cd, rprovides).
     bindE (dict_get (ri_rprovides_pkg ri) package) (\<lambda>rps.
       Inr (cd\<lparr>packages := dd_append package fn (packages cd)\<rparr>, rprovides @ rps)))"

definition add_rundeps :: "recipe_info \<Rightarrow> string \<Rightarrow> string \<Rightarrow> data_cache \<Rightarrow> data_cache result" where
  "add_rundeps ri fn package cd =
     bindE (dict_get (ri_rdepends_pkg ri) package) (\<lambda>deps.
     bindE (dict_get (ri_rrecommends_pkg ri) package) (\<lambda>recs.
       Inr (cd\<lparr>rundeps := dict_set fn (dict_set package (ri_rdepends ri @ deps)
                             (dict_get_or [] (rundeps cd) fn)) (rundeps cd),
               runrecs := dict_set fn (dict_set package (ri_rrecommends ri @ recs)
                             (dict_get_or [] (runrecs cd) fn)) (runrecs cd)\<rparr>)))"

definition provides_of :: "recipe_info \<Rightarrow> string list" where
  "provides_of ri = set_union [ri_pn ri] (ri_provides ri)"

definition add_cacheData :: "recipe_info \<Rightarrow> string \<Rightarrow> data_cache \<Rightarrow> data_cache result" where
  "add_cacheData ri fn cd =
     (let cd = cd\<lparr>task_deps_of := dict_set fn (ri_task_deps ri) (task_deps_of cd),
                  pkg_fn := dict_set fn (ri_pn ri) (pkg_fn cd),
                  pkg_pn := dd_append (ri_pn ri) fn (pkg_pn cd),
                  pkg_pepvpr := dict_set fn (ri_pepvpr ri) (pkg_pepvpr cd),
                  pkg_dp := dict_set fn (ri_defaultpref ri) (pkg_dp cd),
                  stamp_of := dict_set fn (ri_stamp ri) (stamp_of cd),
                  fn_provides := dict_set fn (provides_of ri) (fn_provides cd)\<rparr>;
          cd = fold (add_provide fn (ri_pn ri)) (provides_of ri) cd;
          cd = fold (add_depend fn) (ri_depends ri) cd
      in bindE (foldE (add_package ri fn) (ri_packages ri) (cd, ri_rprovides ri)) (\<lambda>(cd, rprovides).
         let cd = cd\<lparr>rproviders := fold (\<lambda>r. dd_add r fn) rprovides (rproviders cd),
                     packages_dynamic := fold (\<lambda>p. dd_append p fn) (ri_packages_dynamic ri) (packages_dynamic cd)\<rparr>
         in bindE (foldE (add_rundeps ri fn) (ri_packages ri) cd) (\<lambda>cd.
            Inr (cd\<lparr>possible_world := (if ri_not_world ri = [] then possible_world cd @ [fn] else possible_world cd),
                    universe_target := universe_target cd @ [ri_pn ri],
                    hashfn := dict_set fn (ri_hashfilename ri) (hashfn cd),
                    basetaskhash := fold (\<lambda>(task, h). dict_set (fn @ [colon] @ task) h)
                                      (ri_basetaskhashes ri) (basetaskhash cd)\<rparr>))))"

subsection \<open>Virtual names round trip\<close>

lemma virtual_plain:
  assumes "colon \<notin> set fn" and "\<not> is_mc v"
    and v: "v = (if cls \<noteq> [] then ''virtual:'' @ cls @ [colon] @ fn else fn)"
  shows "virtualfn2realfn v = (fn, cls, [])"
proof (cases "cls = []")
  case True
  have "\<not> startswith fn ''virtual:''"
    using assms(1) by (auto simp: startswith_iff)
  with True assms(2) v show ?thesis by (simp add: virtualfn2realfn_def)
next
  case False
  have "split_on colon v = ''virtual'' # split_on colon cls @ [fn]"
    using False v split_on_append_sep [of colon cls fn] split_on_no_sep [OF assms(1)]
      split_on_append_sep [of colon "''virtual''" "cls @ colon # fn"]
    by simp
  moreover have "startswith v ''virtual:''" using False v by (simp add: startswith_iff)
  ultimately show ?thesis using assms(2)
    by (simp add: virtualfn2realfn_def butlast_append join_split_on)
qed

lemma virtual_not_mc:
  "colon \<notin> set fn \<Longrightarrow> \<not> is_mc (if cls \<noteq> [] then ''virtual:'' @ cls @ [colon] @ fn else fn)"
  by (auto simp: is_mc_def startswith_iff count_list_0 split: if_splits)

lemma join_drop_mc:
  assumes "colon \<notin> set mc" and "v = ''mc:'' @ mc @ [colon] @ r"
  shows "split_on colon v ! 1 = mc" and "join [colon] (drop 2 (split_on colon v)) = r"
proof -
  have "split_on colon v = ''mc'' # mc # split_on colon r"
    using assms split_on_append_sep [of colon "''mc''" "mc @ colon # r"] split_on_append_sep [of colon mc r]
    by simp
  then show "split_on colon v ! 1 = mc" "join [colon] (drop 2 (split_on colon v)) = r"
    by (simp_all add: join_split_on)
qed

lemma virtual_mc:
  assumes "mc \<noteq> []" and "colon \<notin> set mc" and "\<not> is_mc r" and v: "v = ''mc:'' @ mc @ [colon] @ r"
  shows "virtualfn2realfn v = (case virtualfn2realfn r of (fn, cls, _) \<Rightarrow> (fn, cls, mc))"
proof -
  have "is_mc v" by (simp add: v is_mc_def)
  with assms(3) join_drop_mc [OF assms(2) v] show ?thesis
    by (simp add: virtualfn2realfn_def)
qed

subsection \<open>The indices agree\<close>

definition mem_of :: "(string, string list) dict \<Rightarrow> string \<Rightarrow> string set" where
  "mem_of d k = set (dict_get_or [] d k)"

lemma mem_of_dd [simp]:
  "mem_of (dd_append k x d) k' = (if k' = k then insert x (mem_of d k) else mem_of d k')"
  "mem_of (dd_add k x d) k' = (if k' = k then insert x (mem_of d k) else mem_of d k')"
  by (simp_all add: mem_of_def)

lemma fold_add_provide:
  shows "mem_of (providers (fold (add_provide fn pn) ps cd)) p =
      mem_of (providers cd) p \<union> (if p \<in> set ps then {fn} else {})"
    and "mem_of (pn_provides (fold (add_provide fn pn) ps cd)) n =
      mem_of (pn_provides cd) n \<union> (if n = pn then set ps else {})"
  by (induction ps arbitrary: cd) (auto simp: add_provide_def)

lemma fold_add_provide_only:
  "\<exists>pr pp. fold (add_provide fn pn) ps cd = cd\<lparr>providers := pr, pn_provides := pp\<rparr>"
  by (rule fold_invariant' [where P = "\<lambda>x. \<exists>pr pp. x = cd\<lparr>providers := pr, pn_provides := pp\<rparr>"])
     (rule exI [of _ "providers cd"], rule exI [of _ "pn_provides cd"], simp,
      clarsimp simp: add_provide_def, intro exI, rule refl)

lemma fold_add_depend_only: "\<exists>dd ad. fold (add_depend fn) ds cd = cd\<lparr>dc_deps := dd, all_depends := ad\<rparr>"
  by (rule fold_invariant' [where P = "\<lambda>x. \<exists>dd ad. x = cd\<lparr>dc_deps := dd, all_depends := ad\<rparr>"])
     (rule exI [of _ "dc_deps cd"], rule exI [of _ "all_depends cd"], simp,
      clarsimp simp: add_depend_def, intro exI, rule refl)

lemma add_package_only:
  "foldE (add_package ri fn) pkgs (cd, rps) = Inr (cd', rps') \<Longrightarrow> \<exists>pk. cd' = cd\<lparr>packages := pk\<rparr>"
  by (drule foldE_invariant [where P = "\<lambda>x. \<exists>pk. fst x = cd\<lparr>packages := pk\<rparr>"])
     (auto simp: add_package_def bindE_Inr_iff intro: exI [of _ "packages cd"])

lemma add_rundeps_only:
  "foldE (add_rundeps ri fn) pkgs cd = Inr cd' \<Longrightarrow> \<exists>rd rr. cd' = cd\<lparr>rundeps := rd, runrecs := rr\<rparr>"
  by (drule foldE_invariant [where P = "\<lambda>x. \<exists>rd rr. x = cd\<lparr>rundeps := rd, runrecs := rr\<rparr>"])
     (rule exI [of _ "rundeps cd"], rule exI [of _ "runrecs cd"], simp,
      clarsimp simp: add_rundeps_def bindE_Inr_iff, intro exI, rule refl)

text \<open>The fields the resolver joins, as sets.\<close>

definition recipe_of :: "data_cache \<Rightarrow> string \<Rightarrow> (string \<times> string set \<times> (string \<times> string \<times> string) \<times> int) option" where
  "recipe_of cd fn =
     (case (map_of (pkg_fn cd) fn, map_of (fn_provides cd) fn, map_of (pkg_pepvpr cd) fn, map_of (pkg_dp cd) fn) of
        (Some pn, Some ps, Some v, Some dp) \<Rightarrow> Some (pn, set ps, v, dp)
      | _ \<Rightarrow> None)"

definition gives_name :: "data_cache \<Rightarrow> string \<Rightarrow> string \<Rightarrow> string \<Rightarrow> bool" where
  "gives_name cd fn pn p \<longleftrightarrow>
     (case recipe_of cd fn of None \<Rightarrow> False | Some (n, ps, _) \<Rightarrow> n = pn \<and> p \<in> ps)"

definition cache_consistent :: "data_cache \<Rightarrow> bool" where
  "cache_consistent cd \<longleftrightarrow>
     (\<forall>fn. recipe_of cd fn = None \<longrightarrow> map_of (pkg_fn cd) fn = None) \<and>
     (\<forall>fn p. fn \<in> mem_of (providers cd) p \<longleftrightarrow> (\<exists>pn. gives_name cd fn pn p)) \<and>
     (\<forall>fn pn. fn \<in> mem_of (pkg_pn cd) pn \<longleftrightarrow> map_of (pkg_fn cd) fn = Some pn) \<and>
     (\<forall>pn p. p \<in> mem_of (pn_provides cd) pn \<longleftrightarrow> (\<exists>fn. gives_name cd fn pn p))"

definition new_recipe :: "recipe_info \<Rightarrow> string \<times> string set \<times> (string \<times> string \<times> string) \<times> int" where
  "new_recipe ri = (ri_pn ri, set (provides_of ri), ri_pepvpr ri, ri_defaultpref ri)"

lemma add_cacheData_fields:
  assumes "add_cacheData ri fn cd = Inr cd'"
  shows "recipe_of cd' g = (if g = fn then Some (new_recipe ri) else recipe_of cd g)"
    and "map_of (pkg_fn cd') g = (if g = fn then Some (ri_pn ri) else map_of (pkg_fn cd) g)"
    and "mem_of (providers cd') p = mem_of (providers cd) p \<union> (if p \<in> set (provides_of ri) then {fn} else {})"
    and "mem_of (pkg_pn cd') n = mem_of (pkg_pn cd) n \<union> (if n = ri_pn ri then {fn} else {})"
    and "mem_of (pn_provides cd') n = mem_of (pn_provides cd) n \<union> (if n = ri_pn ri then set (provides_of ri) else {})"
proof -
  define c0 where "c0 = cd\<lparr>task_deps_of := dict_set fn (ri_task_deps ri) (task_deps_of cd),
                  pkg_fn := dict_set fn (ri_pn ri) (pkg_fn cd),
                  pkg_pn := dd_append (ri_pn ri) fn (pkg_pn cd),
                  pkg_pepvpr := dict_set fn (ri_pepvpr ri) (pkg_pepvpr cd),
                  pkg_dp := dict_set fn (ri_defaultpref ri) (pkg_dp cd),
                  stamp_of := dict_set fn (ri_stamp ri) (stamp_of cd),
                  fn_provides := dict_set fn (provides_of ri) (fn_provides cd)\<rparr>"
  define c1 where "c1 = fold (add_provide fn (ri_pn ri)) (provides_of ri) c0"
  obtain dd ad where c2: "fold (add_depend fn) (ri_depends ri) c1 = c1\<lparr>dc_deps := dd, all_depends := ad\<rparr>"
    using fold_add_depend_only [of fn "ri_depends ri" c1] by blast
  obtain pr pp where c1': "c1 = c0\<lparr>providers := pr, pn_provides := pp\<rparr>"
    using fold_add_provide_only [of fn "ri_pn ri" "provides_of ri" c0] unfolding c1_def by blast
  obtain c3 rps where c3: "foldE (add_package ri fn) (ri_packages ri) (c1\<lparr>dc_deps := dd, all_depends := ad\<rparr>, ri_rprovides ri) = Inr (c3, rps)"
    using assms c2 unfolding add_cacheData_def Let_def c0_def [symmetric] c1_def [symmetric]
    by (auto simp: bindE_Inr_iff)
  then obtain pk where c3': "c3 = c1\<lparr>dc_deps := dd, all_depends := ad, packages := pk\<rparr>"
    using add_package_only by fastforce
  obtain c4 where c4: "foldE (add_rundeps ri fn) (ri_packages ri)
      (c3\<lparr>rproviders := fold (\<lambda>r. dd_add r fn) rps (rproviders c3),
          packages_dynamic := fold (\<lambda>p. dd_append p fn) (ri_packages_dynamic ri) (packages_dynamic c3)\<rparr>) = Inr c4"
    and cd': "cd' = c4\<lparr>possible_world := (if ri_not_world ri = [] then possible_world c4 @ [fn] else possible_world c4),
                    universe_target := universe_target c4 @ [ri_pn ri],
                    hashfn := dict_set fn (ri_hashfilename ri) (hashfn c4),
                    basetaskhash := fold (\<lambda>(task, h). dict_set (fn @ [colon] @ task) h)
                                      (ri_basetaskhashes ri) (basetaskhash c4)\<rparr>"
    using assms c2 c3 unfolding add_cacheData_def Let_def c0_def [symmetric] c1_def [symmetric]
    by (auto simp: bindE_Inr_iff)
  from add_rundeps_only [OF c4] cd' c3'
  have same: "pkg_fn cd' = pkg_fn c1" "fn_provides cd' = fn_provides c1" "pkg_pepvpr cd' = pkg_pepvpr c1"
    "pkg_dp cd' = pkg_dp c1" "providers cd' = providers c1" "pkg_pn cd' = pkg_pn c1" "pn_provides cd' = pn_provides c1"
    by auto
  show "recipe_of cd' g = (if g = fn then Some (new_recipe ri) else recipe_of cd g)"
    "map_of (pkg_fn cd') g = (if g = fn then Some (ri_pn ri) else map_of (pkg_fn cd) g)"
    "mem_of (pkg_pn cd') n = mem_of (pkg_pn cd) n \<union> (if n = ri_pn ri then {fn} else {})"
    by (simp_all add: recipe_of_def same c1' c0_def new_recipe_def)
  show "mem_of (providers cd') p = mem_of (providers cd) p \<union> (if p \<in> set (provides_of ri) then {fn} else {})"
    "mem_of (pn_provides cd') n = mem_of (pn_provides cd) n \<union> (if n = ri_pn ri then set (provides_of ri) else {})"
    by (simp_all add: same c1_def fold_add_provide c0_def)
qed

lemma add_cacheData_consistent:
  assumes c: "cache_consistent cd" and new: "map_of (pkg_fn cd) fn = None" and a: "add_cacheData ri fn cd = Inr cd'"
  shows "cache_consistent cd'"
proof -
  note f = add_cacheData_fields [OF a]
  have fresh: "\<not> gives_name cd fn n p" for n p
    using new by (simp add: gives_name_def recipe_of_def)
  have g: "gives_name cd' g n p \<longleftrightarrow> (if g = fn then n = ri_pn ri \<and> p \<in> set (provides_of ri) else gives_name cd g n p)" for g n p
    by (auto simp: gives_name_def f new_recipe_def)
  show ?thesis
    unfolding cache_consistent_def
  proof (intro conjI allI)
    show "recipe_of cd' h = None \<longrightarrow> map_of (pkg_fn cd') h = None" for h
      using c by (simp add: f cache_consistent_def)
    show "(h \<in> mem_of (providers cd') p) = (\<exists>pn. gives_name cd' h pn p)" for h p
      using c fresh unfolding f g cache_consistent_def by (cases "h = fn") auto
    show "(h \<in> mem_of (pkg_pn cd') n) = (map_of (pkg_fn cd') h = Some n)" for h n
      using c new unfolding f cache_consistent_def by (cases "h = fn") auto
    show "(p \<in> mem_of (pn_provides cd') n) = (\<exists>h. gives_name cd' h n p)" for p n
    proof -
      have "(\<exists>h. gives_name cd' h n p) \<longleftrightarrow> (\<exists>h. gives_name cd h n p) \<or> (n = ri_pn ri \<and> p \<in> set (provides_of ri))"
        unfolding g using fresh by metis
      moreover have "(p \<in> mem_of (pn_provides cd) n) = (\<exists>h. gives_name cd h n p)"
        using c unfolding cache_consistent_def by blast
      ultimately show ?thesis unfolding f by auto
    qed
  qed
qed

lemma dict_of_get: "k \<in> fst ` set kvs \<Longrightarrow> \<exists>v. dict_get (dict_of kvs) k = Inr v"
proof -
  have "k \<in> fst ` set kvs \<or> map_of d k \<noteq> None \<Longrightarrow> map_of (fold (\<lambda>(k, v). dict_set k v) kvs d) k \<noteq> None" for d
    by (induction kvs arbitrary: d) auto
  then show "k \<in> fst ` set kvs \<Longrightarrow> ?thesis" by (auto simp: dict_of_def dict_get_Inr_iff)
qed

lemma parsed_adds:
  assumes "core_recipe_info gv tasklist deps0 file_pn = Inr (Parsed ri)"
  shows "\<exists>cd'. add_cacheData ri fn cd = Inr cd'"
proof -
  have pkg: "\<exists>v. dict_get (pkgvar gv x (ri_packages ri)) p = Inr v" if "p \<in> set (ri_packages ri)" for x p
    unfolding pkgvar_def using that by (intro dict_of_get) force
  have ri: "ri_rprovides_pkg ri = pkgvar gv ''RPROVIDES'' (ri_packages ri)"
    "ri_rdepends_pkg ri = pkgvar gv ''RDEPENDS'' (ri_packages ri)"
    "ri_rrecommends_pkg ri = pkgvar gv ''RRECOMMENDS'' (ri_packages ri)"
    using assms by (auto simp: core_recipe_info_def Let_def bindE_Inr_iff split: if_splits)
  have 1: "\<exists>r. foldE (add_package ri fn) ps (c, rps) = Inr r" if "set ps \<subseteq> set (ri_packages ri)" for ps c rps
    using that
  proof (induction ps arbitrary: c rps)
    case (Cons p ps)
    with pkg [of p "''RPROVIDES''"] show ?case by (auto simp: add_package_def ri)
  qed simp
  have 2: "\<exists>r. foldE (add_rundeps ri fn) ps c = Inr r" if "set ps \<subseteq> set (ri_packages ri)" for ps c
    using that
  proof (induction ps arbitrary: c)
    case (Cons p ps)
    with pkg [of p "''RDEPENDS''"] pkg [of p "''RRECOMMENDS''"] show ?case by (auto simp: add_rundeps_def ri)
  qed simp
  show ?thesis
    unfolding add_cacheData_def Let_def
    by (rule bindE_ex, rule 1 [OF subset_refl], clarify, rule bindE_ex, rule 2 [OF subset_refl]) simp
qed

subsection \<open>Properties\<close>

text \<open>
  \<open>virtualfn2realfn\<close> inverts \<open>realfn2virtual\<close>: file, class extension (colons
  included) and multiconfig come back.
\<close>

theorem virtual_realfn_roundtrip:
  assumes "colon \<notin> set fn" and "colon \<notin> set mc"
  shows "virtualfn2realfn (realfn2virtual fn cls mc) = (fn, cls, mc)"
proof -
  let ?r = "if cls \<noteq> [] then ''virtual:'' @ cls @ [colon] @ fn else fn"
  have r: "virtualfn2realfn ?r = (fn, cls, [])"
    by (rule virtual_plain [OF assms(1) virtual_not_mc [OF assms(1)] refl])
  show ?thesis
  proof (cases "mc = []")
    case False
    from virtual_mc [OF this assms(2) virtual_not_mc [OF assms(1)] refl, of cls] r False
    show ?thesis by (simp add: realfn2virtual_def Let_def)
  qed (use r in \<open>simp add: realfn2virtual_def\<close>)
qed

theorem virtual_realfn_roundtrip_witness:
  "virtualfn2realfn (realfn2virtual ''/r/zlib.bb'' ''native:ext'' ''musl'') = (''/r/zlib.bb'', ''native:ext'', ''musl'')"
  by (rule virtual_realfn_roundtrip) simp_all

definition add_recipes :: "(string \<times> recipe_info) list \<Rightarrow> data_cache \<Rightarrow> data_cache result" where
  "add_recipes = foldE (\<lambda>(fn, ri). add_cacheData ri fn)"

lemma add_recipes_consistent:
  assumes "distinct (map fst recs)" and "cache_consistent cd" and "\<forall>fn \<in> fst ` set recs. map_of (pkg_fn cd) fn = None"
    and "\<forall>ri \<in> snd ` set recs. \<exists>gv ts ds pn. core_recipe_info gv ts ds pn = Inr (Parsed ri)"
  shows "\<exists>cd'. add_recipes recs cd = Inr cd' \<and> cache_consistent cd'"
  using assms
proof (induction recs arbitrary: cd)
  case (Cons r recs)
  obtain fn ri where r: "r = (fn, ri)" by force
  have "\<exists>gv ts ds pn. core_recipe_info gv ts ds pn = Inr (Parsed ri)"
    using Cons.prems(4) r by simp
  then obtain cd1 where a: "add_cacheData ri fn cd = Inr cd1" using parsed_adds by blast
  have c: "cache_consistent cd1" using add_cacheData_consistent [OF Cons.prems(2) _ a] Cons.prems(3) r by simp
  have n: "\<forall>fn \<in> fst ` set recs. map_of (pkg_fn cd1) fn = None"
    using Cons.prems(1,3) by (auto simp: add_cacheData_fields(2) [OF a] r)
  from Cons.IH [OF _ c n] Cons.prems(1,4) a r show ?case by (simp add: add_recipes_def)
qed (simp add: add_recipes_def)


definition zlib_vars :: "string \<Rightarrow> string option" where
  "zlib_vars = map_of [(''PN'', ''zlib''), (''PV'', ''1.2''), (''PROVIDES'', ''libz (>= 1)'')]"


end
