(* ===== verification/Providers.thy ===== *)
theory Providers
  imports RecipeCache Versions
begin

text \<open>
  The choice between recipes, \<open>bitbake/lib/bb/providers.py\<close>: the ordering by layer priority
  and default preference, required and preferred versions, the latest version, and the
  filters that order the candidates for a build or a runtime item. \<open>gv\<close> is \<open>getVar\<close> of the
  configuration; matching a \<open>PACKAGES_DYNAMIC\<close> pattern is the parameter \<open>rx\<close>, which is
  \<open>None\<close> when the pattern does not compile.
\<close>

subsection \<open>Ordering by priority\<close>

text \<open>\<open>d.setdefault(k, []).append(x)\<close> two levels deep.\<close>

definition prio_step :: "data_cache \<Rightarrow> string \<Rightarrow> (int, (int, string list) dict) dict \<Rightarrow>
    (int, (int, string list) dict) dict result" where
  "prio_step dc f priorities =
     bindE (dict_get (bbfile_priority dc) f) (\<lambda>priority.
     bindE (dict_get (pkg_dp dc) f) (\<lambda>preference.
       Inr (dict_set priority (dd_append preference f (dict_get_or [] priorities priority)) priorities)))"

definition sort_prefs :: "(int, string list) dict \<Rightarrow> string list" where
  "sort_prefs prefs = concat (map (dict_get_or [] prefs) (sort (dict_keys prefs)))"

definition sortPriorities :: "string \<Rightarrow> data_cache \<Rightarrow> (string, string list) dict \<Rightarrow> string list list result" where
  "sortPriorities pn dc pkg_pn0 =
     bindE (if pkg_pn0 = [] then Inr (dict_get_or [] (pkg_pn dc) pn) else dict_get pkg_pn0 pn) (\<lambda>files.
     bindE (foldE (prio_step dc) files []) (\<lambda>priorities.
       Inr (fold (\<lambda>pri tmp_pn. sort_prefs (dict_get_or [] priorities pri) # tmp_pn)
              (sort (dict_keys priorities)) [])))"

subsection \<open>Preferred versions\<close>

definition or_empty :: "string option \<Rightarrow> string option \<Rightarrow> string option" where
  "or_empty v w = (case v of Some (c # cs) \<Rightarrow> v | _ \<Rightarrow> w)"

definition versionVariableMatch :: "(string \<Rightarrow> string option) \<Rightarrow> string \<Rightarrow> string \<Rightarrow> string option" where
  "versionVariableMatch gv keyword pn =
     or_empty (gv (keyword @ ''_VERSION:pn-'' @ pn))
       (or_empty (gv (keyword @ ''_VERSION_'' @ pn)) (gv (keyword @ ''_VERSION'')))"

text \<open>
  The match of \<open>(\d+:)*(.*)(_.*)*\<close>: the last epoch in front, then the rest of the line. The
  second group is greedy, so the third, for the revision, never takes part.
\<close>

function strip_epochs :: "string option \<Rightarrow> string \<Rightarrow> string option \<times> string" where
  "strip_epochs e s =
     (let ds = takeWhile is_digit s; rest = dropWhile is_digit s
      in if ds \<noteq> [] \<and> rest \<noteq> [] \<and> hd rest = colon then strip_epochs (Some ds) (tl rest) else (e, s))"
  by pat_completeness auto
termination
proof (relation "measure (\<lambda>(e, s). length s)")
  fix e and s ds rest :: string
  assume r: "rest = dropWhile is_digit s" "ds \<noteq> [] \<and> rest \<noteq> [] \<and> hd rest = colon"
  then have "length rest \<le> length s" "length (tl rest) < length rest"
    using length_dropWhile_le [of is_digit s] by simp_all
  then show "((Some ds, tl rest), (e, s)) \<in> measure (\<lambda>(e, s). length s)" by simp
qed simp

declare strip_epochs.simps [simp del]

definition match_preferred :: "string \<Rightarrow> string option \<times> string \<times> string option" where
  "match_preferred v = (case strip_epochs None v of (e, s) \<Rightarrow> (e, takeWhile (\<lambda>c. c \<noteq> newline) s, None))"

definition preferredVersionMatch :: "string \<Rightarrow> string \<Rightarrow> string \<Rightarrow> string option \<Rightarrow> string option \<Rightarrow> string option \<Rightarrow> bool" where
  "preferredVersionMatch pe pv pr preferred_e preferred_v preferred_r =
     (if Some pr = preferred_r \<or> preferred_r = None then
        if Some pe = preferred_e \<or> preferred_e = None then
          if preferred_v = Some pv then True
          else (case preferred_v of
                  None \<Rightarrow> False
                | Some v \<Rightarrow> endswith v ''%'' \<and> startswith pv (take (length v - 1) v))
        else False
      else False)"

text \<open>
  The search over the file sets: \<open>break\<close> leaves the inner loop at a match, and the outer one
  if the file name is not empty.
\<close>

type_synonym pepvpr = "string \<times> string \<times> string"

fun first_match :: "data_cache \<Rightarrow> (pepvpr \<Rightarrow> bool) \<Rightarrow> string list \<Rightarrow> (string \<times> pepvpr) option result" where
  "first_match dc P [] = Inr None"
| "first_match dc P (f # fs) =
     bindE (dict_get (pkg_pepvpr dc) f) (\<lambda>v. if P v then Inr (Some (f, v)) else first_match dc P fs)"

fun search_sets :: "data_cache \<Rightarrow> (pepvpr \<Rightarrow> bool) \<Rightarrow> string list list \<Rightarrow> (string \<times> pepvpr) option \<Rightarrow>
    (string \<times> pepvpr) option result" where
  "search_sets dc P [] acc = Inr acc"
| "search_sets dc P (file_set # sets) acc =
     bindE (first_match dc P file_set) (\<lambda>r.
       let acc = (case r of None \<Rightarrow> acc | Some _ \<Rightarrow> r)
       in if (case acc of None \<Rightarrow> True | Some (f, _) \<Rightarrow> f = []) then search_sets dc P sets acc else Inr acc)"

text \<open>The preferred version and file, and whether the version is required.\<close>

type_synonym preference = "(string \<times> pepvpr) option \<times> bool"

definition findPreferredProvider :: "string \<Rightarrow> (string \<Rightarrow> string option) \<Rightarrow> data_cache \<Rightarrow> string list list \<Rightarrow>
    preference result" where
  "findPreferredProvider pn gv dc sets =
     (let required_v = versionVariableMatch gv ''REQUIRED'' pn;
          preferred_v = (case required_v of Some v \<Rightarrow> Some v | None \<Rightarrow> versionVariableMatch gv ''PREFERRED'' pn);
          required = (required_v \<noteq> None)
      in case preferred_v of
           Some (c # cs) \<Rightarrow>
             (case match_preferred (c # cs) of (preferred_e, preferred_v, preferred_r) \<Rightarrow>
                bindE (search_sets dc (\<lambda>(pe, pv, pr).
                    preferredVersionMatch pe pv pr preferred_e (Some preferred_v) preferred_r) sets None)
                  (\<lambda>r. Inr (r, required)))
         | _ \<Rightarrow> Inr (None, required))"

subsection \<open>The latest version\<close>

definition epoch_version :: "pepvpr \<Rightarrow> version" where
  "epoch_version v = (case v of (pe, pv, pr) \<Rightarrow> (EStr pe, pv, pr))"

text \<open>State \<open>(latest, latest_p)\<close>; \<open>or\<close> and \<open>and\<close> stop early, so versions are compared only on equal preference.\<close>

definition latest_step :: "data_cache \<Rightarrow> string \<Rightarrow> (string \<times> pepvpr) option \<times> int \<Rightarrow>
    ((string \<times> pepvpr) option \<times> int) result" where
  "latest_step dc f = (\<lambda>(latest, latest_p).
     bindE (dict_get (pkg_pepvpr dc) f) (\<lambda>v.
     bindE (dict_get (pkg_dp dc) f) (\<lambda>dp.
     bindE (case latest of
              None \<Rightarrow> Inr True
            | Some (_, lv) \<Rightarrow>
                if latest_p = dp then
                  bindE (vercmp (epoch_version lv) (epoch_version v)) (\<lambda>c. Inr (c < 0 \<or> dp > latest_p))
                else Inr (dp > latest_p)) (\<lambda>better.
       Inr (if better then (Some (f, v), dp) else (latest, latest_p))))))"

definition findLatestProvider :: "data_cache \<Rightarrow> string list \<Rightarrow> (string \<times> pepvpr) option result" where
  "findLatestProvider dc file_set =
     bindE (foldE (latest_step dc) file_set (None, 0)) (\<lambda>s. Inr (fst s))"

text \<open>The first file set; there is none for a recipe without files.\<close>

definition best_set :: "string list list \<Rightarrow> string list result" where
  "best_set sets = (case sets of [] \<Rightarrow> Inl IndexError | s # _ \<Rightarrow> Inr s)"

definition findBestProvider :: "string \<Rightarrow> (string \<Rightarrow> string option) \<Rightarrow> data_cache \<Rightarrow> (string, string list) dict \<Rightarrow>
    ((string \<times> pepvpr) option \<times> (string \<times> pepvpr) option \<times> bool) result" where
  "findBestProvider pn gv dc pkg_pn0 =
     bindE (sortPriorities pn dc pkg_pn0) (\<lambda>sets.
     bindE (findPreferredProvider pn gv dc sets) (\<lambda>(pref, required).
     bindE (best_set sets) (\<lambda>s.
     bindE (findLatestProvider dc s) (\<lambda>latest.
       Inr (latest, if \<not> required \<and> pref = None then latest else pref, required)))))"

text \<open>\<open>findProviders\<close> and \<open>allProviders\<close>.\<close>

definition findProviders :: "(string \<Rightarrow> string option) \<Rightarrow> data_cache \<Rightarrow> (string, string list) dict \<Rightarrow>
    ((string, (string \<times> pepvpr) option) dict \<times> (string, (string \<times> pepvpr) option) dict \<times> (string, bool) dict) result" where
  "findProviders gv dc pkg_pn0 =
     (let pkg_pn0 = (if pkg_pn0 = [] then pkg_pn dc else pkg_pn0)
      in foldE (\<lambda>pn (latest, pref, req).
           bindE (findBestProvider pn gv dc pkg_pn0) (\<lambda>(l, p, r).
             Inr (dict_set pn l latest, dict_set pn p pref, dict_set pn r req)))
         (dict_keys pkg_pn0) ([], [], []))"

definition allProviders :: "data_cache \<Rightarrow> (string, (pepvpr \<times> string) list) dict result" where
  "allProviders dc =
     foldE (\<lambda>(fn, pn) all. bindE (dict_get (pkg_pepvpr dc) fn) (\<lambda>ver. Inr (dd_append pn (ver, fn) all)))
       (pkg_fn dc) []"

subsection \<open>Filtering\<close>

text \<open>\<open>xs.remove(x)\<close>.\<close>

definition py_remove :: "'a \<Rightarrow> 'a list \<Rightarrow> 'a list result" where
  "py_remove x xs = (if x \<in> set xs then Inr (remove1 x xs) else Inl ValueError)"

definition collate_by_pn :: "data_cache \<Rightarrow> string list \<Rightarrow> (string, string list) dict result" where
  "collate_by_pn dc provs =
     foldE (\<lambda>p pkgs. bindE (dict_get (pkg_fn dc) p) (\<lambda>pn. Inr (dd_append pn p pkgs))) provs []"

text \<open>
  The first loop of \<open>_filterProviders\<close>: \<open>None\<close> is the early return when a required version
  is missing; the state is \<open>(eligible, preferred_versions, sortpkg_pn)\<close>.
\<close>

type_synonym filter_state =
  "string list \<times> (string, (string \<times> pepvpr) option) dict \<times> (string, string list list) dict"

definition usable :: "(string \<times> pepvpr) option \<Rightarrow> bool" where
  "usable r = (case r of None \<Rightarrow> False | Some (f, _) \<Rightarrow> f \<noteq> [])"

fun preferred_loop :: "(string \<Rightarrow> string option) \<Rightarrow> data_cache \<Rightarrow> (string, string list) dict \<Rightarrow> string list \<Rightarrow>
    filter_state \<Rightarrow> (string list + filter_state) result" where
  "preferred_loop gv dc pkgs [] st = Inr (Inr st)"
| "preferred_loop gv dc pkgs (pn # pns) (eligible, pref, sorted_pn) =
     bindE (sortPriorities pn dc pkgs) (\<lambda>sets.
     bindE (findPreferredProvider pn gv dc sets) (\<lambda>(r, required).
       if required \<and> r = None then Inr (Inl eligible)
       else preferred_loop gv dc pkgs pns
              (if usable r then eligible @ [fst (the r)] else eligible,
               dict_set pn r pref, dict_set pn sets sorted_pn)))"

text \<open>
  The second loop. A recipe that was collated has files, so its first file set is not empty
  and has a latest provider; the branch for \<open>None\<close> is never taken.
\<close>

definition latest_loop_step :: "data_cache \<Rightarrow> (string, string list list) dict \<Rightarrow> string \<Rightarrow>
    string list \<times> (string, (string \<times> pepvpr) option) dict \<Rightarrow>
    (string list \<times> (string, (string \<times> pepvpr) option) dict) result" where
  "latest_loop_step dc sorted_pn pn = (\<lambda>(eligible, pref).
     if (case map_of pref pn of Some r \<Rightarrow> usable r | None \<Rightarrow> False) then Inr (eligible, pref)
     else
       bindE (dict_get sorted_pn pn) (\<lambda>sets. bindE (best_set sets) (\<lambda>s.
       bindE (findLatestProvider dc s) (\<lambda>r.
         case r of None \<Rightarrow> Inl IndexError
         | Some (f, v) \<Rightarrow> Inr (eligible @ [f], dict_set pn r pref)))))"

definition move_front :: "'a \<Rightarrow> 'a list \<Rightarrow> 'a list result" where
  "move_front x xs = bindE (py_remove x xs) (\<lambda>ys. Inr (x # ys))"

text \<open>The slight preference for the recipe named like the item.\<close>

definition own_name_step :: "data_cache \<Rightarrow> string \<Rightarrow> (string, (string \<times> pepvpr) option) dict \<Rightarrow> string \<Rightarrow>
    string list \<Rightarrow> string list result" where
  "own_name_step dc item pref p eligible =
     bindE (dict_get (pkg_fn dc) p) (\<lambda>pn.
       if pn \<noteq> item then Inr eligible
       else bindE (dict_get pref pn) (\<lambda>r.
         case r of None \<Rightarrow> Inr eligible
         | Some (fn, _) \<Rightarrow> if fn \<notin> set eligible then Inr eligible else move_front fn eligible))"

text \<open>\<open>_filterProviders\<close>.\<close>

definition filterProviders0 :: "string list \<Rightarrow> string \<Rightarrow> (string \<Rightarrow> string option) \<Rightarrow> data_cache \<Rightarrow> string list result" where
  "filterProviders0 provs0 item gv dc =
     (let provs = sort provs0 in
      bindE (collate_by_pn dc provs) (\<lambda>pkgs.
      bindE (preferred_loop gv dc pkgs (sort (dict_keys pkgs)) ([], [], [])) (\<lambda>r.
      case r of
        Inl eligible \<Rightarrow> Inr eligible
      | Inr (eligible, pref, sorted_pn) \<Rightarrow>
          bindE (foldE (latest_loop_step dc sorted_pn) (sort (dict_keys sorted_pn)) (eligible, pref))
            (\<lambda>(eligible, pref).
          if eligible = [] then Inr [] else foldE (own_name_step dc item pref) provs eligible))))"

text \<open>\<open>filterProviders\<close>: returns the candidates, whether one was preferred, and the cache with \<open>preferred\<close> filled in.\<close>

fun prefer_first :: "data_cache \<Rightarrow> string \<Rightarrow> string list \<Rightarrow> string list \<Rightarrow> (string list \<times> bool) result" where
  "prefer_first dc pn [] eligible = Inr (eligible, False)"
| "prefer_first dc pn (p # ps) eligible =
     bindE (dict_get (pkg_fn dc) p) (\<lambda>n.
       if n = pn then bindE (move_front p eligible) (\<lambda>e. Inr (e, True))
       else prefer_first dc pn ps eligible)"

definition nonempty :: "string option \<Rightarrow> string option" where
  "nonempty v = (case v of Some (c # cs) \<Rightarrow> v | _ \<Rightarrow> None)"

definition filterProviders :: "string list \<Rightarrow> string \<Rightarrow> (string \<Rightarrow> string option) \<Rightarrow> data_cache \<Rightarrow>
    (string list \<times> bool \<times> data_cache) result" where
  "filterProviders provs item gv dc =
     bindE (filterProviders0 provs item gv dc) (\<lambda>eligible.
       let dc = (case nonempty (gv (''PREFERRED_PROVIDER_'' @ item)) of
                   Some pn \<Rightarrow> dc\<lparr>preferred := dict_set item pn (preferred dc)\<rparr> | None \<Rightarrow> dc)
       in case map_of (preferred dc) item of
            None \<Rightarrow> Inr (eligible, False, dc)
          | Some pn \<Rightarrow> bindE (prefer_first dc pn eligible eligible) (\<lambda>(e, u). Inr (e, u, dc)))"

text \<open>
  The loop of \<open>filterProvidersRunTime\<close> over the candidates. It iterates over the list object it
  started with; the first \<open>eligible.remove\<close> works on that very object and shortens it under the
  loop, while later ones work on the lists that replaced it. \<open>it\<close> is the object under the
  loop, \<open>i\<close> the position, \<open>shared\<close> whether \<open>eligible\<close> still is that object.
\<close>

record rt_state =
  rt_it :: "string list"
  rt_shared :: bool
  rt_eligible :: "string list"
  rt_preferred :: "string list"

definition rt_hit :: "(string \<Rightarrow> string option) \<Rightarrow> (string, string) dict \<Rightarrow> string list \<Rightarrow> string \<Rightarrow> string option" where
  "rt_hit gv pns chosen provide =
     (case gv (''PREFERRED_PROVIDER_'' @ provide) of
        None \<Rightarrow> None
      | Some v \<Rightarrow> (case map_of pns v of
            None \<Rightarrow> None
          | Some pref \<Rightarrow> if pref \<in> set chosen then None else Some pref))"

definition rt_prefer :: "string \<Rightarrow> rt_state \<Rightarrow> rt_state result" where
  "rt_prefer pref st =
     bindE (py_remove pref (rt_eligible st)) (\<lambda>rest.
       Inr (st\<lparr>rt_it := (if rt_shared st then rest else rt_it st), rt_shared := False,
               rt_eligible := pref # rest, rt_preferred := rt_preferred st @ [pref]\<rparr>))"

definition rt_visit :: "(string \<Rightarrow> string option) \<Rightarrow> data_cache \<Rightarrow> (string, string) dict \<Rightarrow> string \<Rightarrow> rt_state \<Rightarrow>
    rt_state result" where
  "rt_visit gv dc pns p st =
     bindE (dict_get (pkg_fn dc) p) (\<lambda>pn.
       case List.find (\<lambda>provide. rt_hit gv pns (rt_preferred st) provide \<noteq> None) (dict_get_or [] (pn_provides dc) pn) of
         None \<Rightarrow> Inr st
       | Some provide \<Rightarrow> rt_prefer (the (rt_hit gv pns (rt_preferred st) provide)) st)"

fun rt_loop :: "nat \<Rightarrow> (string \<Rightarrow> string option) \<Rightarrow> data_cache \<Rightarrow> (string, string) dict \<Rightarrow> nat \<Rightarrow> rt_state \<Rightarrow>
    rt_state result" where
  "rt_loop 0 gv dc pns i st = Inr st"
| "rt_loop (Suc n) gv dc pns i st =
     (if i < length (rt_it st)
      then bindE (rt_visit gv dc pns (rt_it st ! i) st) (rt_loop n gv dc pns (Suc i))
      else Inr st)"

definition filterProvidersRunTime :: "string list \<Rightarrow> string \<Rightarrow> (string \<Rightarrow> string option) \<Rightarrow> data_cache \<Rightarrow>
    (string list \<times> nat) result" where
  "filterProvidersRunTime provs item gv dc =
     bindE (filterProviders0 provs item gv dc) (\<lambda>eligible.
     bindE (case nonempty (gv (''PREFERRED_RPROVIDER_'' @ item)) of
              Some pn \<Rightarrow> prefer_first dc pn eligible eligible | None \<Rightarrow> Inr (eligible, False))
       (\<lambda>(eligible, found).
     if found then Inr (eligible, 1)
     else
       bindE (foldE (\<lambda>p pns. bindE (dict_get (pkg_fn dc) p) (\<lambda>pn. Inr (dict_set pn p pns))) eligible [])
         (\<lambda>pns.
       bindE (rt_loop (Suc (length eligible)) gv dc pns 0
                \<lparr>rt_it = eligible, rt_shared = True, rt_eligible = eligible, rt_preferred = []\<rparr>) (\<lambda>st.
         Inr (rt_eligible st, length (rt_preferred st))))))"

subsection \<open>Runtime providers and the world target\<close>

definition escape_plus :: "string \<Rightarrow> string" where
  "escape_plus pat = concat (map (\<lambda>c. if c = CHR ''+'' then [CHR 0x5C, c] else [c]) pat)"

definition getRuntimeProviders :: "(string \<Rightarrow> string \<Rightarrow> bool option) \<Rightarrow> data_cache \<Rightarrow> string \<Rightarrow> string list result" where
  "getRuntimeProviders rx dc rdepend =
     (let rprovs = dict_get_or [] (rproviders dc) rdepend @ dict_get_or [] (packages dc) rdepend
      in if rprovs \<noteq> [] then Inr rprovs
         else foldE (\<lambda>(pat_key, fns) acc.
                case rx (escape_plus pat_key) rdepend of
                  None \<Rightarrow> Inl RegexError
                | Some hit \<Rightarrow> Inr (if hit then acc @ fns else acc)) (packages_dynamic dc) [])"

fun others_provide :: "data_cache \<Rightarrow> string \<Rightarrow> string list \<Rightarrow> bool result" where
  "others_provide dc pn [] = Inr False"
| "others_provide dc pn (pf # pfs) =
     bindE (dict_get (pkg_fn dc) pf) (\<lambda>n. if n \<noteq> pn then Inr True else others_provide dc pn pfs)"

fun world_terminal :: "data_cache \<Rightarrow> string \<Rightarrow> string list \<Rightarrow> bool \<Rightarrow> bool result" where
  "world_terminal dc pn [] terminal = Inr terminal"
| "world_terminal dc pn (p # ps) terminal =
     (if startswith p ''virtual/'' then Inr False
      else bindE (others_provide dc pn (dict_get_or [] (providers dc) p)) (\<lambda>other.
        world_terminal dc pn ps (terminal \<and> \<not> other)))"

definition world_step :: "string option \<Rightarrow> string \<Rightarrow> data_cache \<Rightarrow> data_cache result" where
  "world_step task f dc =
     bindE (dict_get (pkg_fn dc) f) (\<lambda>pn.
     bindE (case task of
              Some (c # cs) \<Rightarrow>
                bindE (dict_get (task_deps_of dc) f) (\<lambda>td. Inr (c # cs \<in> set (td_tasks td)))
            | _ \<Rightarrow> Inr True) (\<lambda>terminal.
     bindE (world_terminal dc pn (dict_get_or [] (pn_provides dc) pn) terminal) (\<lambda>terminal.
       Inr (if terminal then dc\<lparr>world_target := set_add pn (world_target dc)\<rparr> else dc))))"

definition buildWorldTargetList :: "string option \<Rightarrow> data_cache \<Rightarrow> data_cache result" where
  "buildWorldTargetList task dc =
     (if world_target dc \<noteq> [] then Inr dc else foldE (world_step task) (possible_world dc) dc)"

subsection \<open>What the ordering is\<close>

definition prio_of :: "data_cache \<Rightarrow> string \<Rightarrow> int" where
  "prio_of dc f = dict_get_or 0 (bbfile_priority dc) f"

definition dp_of :: "data_cache \<Rightarrow> string \<Rightarrow> int" where
  "dp_of dc f = dict_get_or 0 (pkg_dp dc) f"

definition ver_of :: "data_cache \<Rightarrow> string \<Rightarrow> pepvpr" where
  "ver_of dc f = dict_get_or ([], [], []) (pkg_pepvpr dc) f"

text \<open>Files the cache knows in full, with a version that can be compared.\<close>

definition known :: "data_cache \<Rightarrow> string \<Rightarrow> bool" where
  "known dc f \<longleftrightarrow> map_of (bbfile_priority dc) f \<noteq> None \<and> map_of (pkg_dp dc) f \<noteq> None \<and>
     map_of (pkg_pepvpr dc) f \<noteq> None \<and> valid_version (epoch_version (ver_of dc f))"

lemma known_gets:
  assumes "known dc f"
  shows "dict_get (bbfile_priority dc) f = Inr (prio_of dc f)" and "dict_get (pkg_dp dc) f = Inr (dp_of dc f)"
    and "dict_get (pkg_pepvpr dc) f = Inr (ver_of dc f)" and "valid_version (epoch_version (ver_of dc f))"
  using assms by (auto simp: known_def dict_get_def prio_of_def dp_of_def ver_of_def dict_get_or_def)

definition in_priority :: "data_cache \<Rightarrow> string list \<Rightarrow> int \<Rightarrow> string list" where
  "in_priority dc files p = sort_key (dp_of dc) (filter (\<lambda>f. prio_of dc f = p) files)"

lemma prio_steps:
  assumes "\<forall>f \<in> set files. known dc f"
  shows "\<exists>d'. foldE (prio_step dc) files d = Inr d' \<and> (distinct (dict_keys d) \<longrightarrow> distinct (dict_keys d')) \<and>
    fst ` set d' = fst ` set d \<union> prio_of dc ` set files \<and>
    (\<forall>p. dict_get_or [] d' p =
       fold (\<lambda>f. dd_append (dp_of dc f) f) (filter (\<lambda>f. prio_of dc f = p) files) (dict_get_or [] d p))"
  using assms
proof (induction files arbitrary: d)
  case (Cons f files)
  let ?d = "dict_set (prio_of dc f) (dd_append (dp_of dc f) f (dict_get_or [] d (prio_of dc f))) d"
  have "prio_step dc f d = Inr ?d"
    using Cons.prems by (simp add: prio_step_def known_gets)
  with Cons.IH [of ?d] Cons.prems show ?case by (auto simp: fst_set_keys)
qed simp

lemma sortPriorities_result:
  assumes "\<forall>f \<in> set (dict_get_or [] pkgs pn). known dc f" and "pn \<in> fst ` set pkgs"
  shows "sortPriorities pn dc pkgs = Inr (map (in_priority dc (dict_get_or [] pkgs pn))
    (rev (sorted_list_of_set (prio_of dc ` set (dict_get_or [] pkgs pn)))))"
proof -
  let ?files = "dict_get_or [] pkgs pn"
  have files: "dict_get pkgs pn = Inr ?files" and ne: "pkgs \<noteq> []"
    using assms(2) map_of_None_iff [of pkgs pn] by (auto simp: dict_get_def dict_get_or_def split: option.split)
  obtain d where d: "foldE (prio_step dc) ?files [] = Inr d" "distinct (dict_keys d)"
      "fst ` set d = prio_of dc ` set ?files"
      "\<forall>p. dict_get_or [] d p = fold (\<lambda>f. dd_append (dp_of dc f) f) (filter (\<lambda>f. prio_of dc f = p) ?files) (dict_get_or [] [] p)"
    using prio_steps [OF assms(1), of "[]"] by auto
  have "sort_prefs (dict_get_or [] d p) = in_priority dc ?files p" for p
    using d(4) bucket_sort [of "dp_of dc" "filter (\<lambda>f. prio_of dc f = p) ?files"]
    by (simp add: sort_prefs_def in_priority_def dict_get_or_missing)
  moreover have "sort (dict_keys d) = sorted_list_of_set (prio_of dc ` set ?files)"
    using d(2,3) by (intro sorted_distinct_set_unique) simp_all
  moreover have "fold (\<lambda>p acc. g p # acc) ps acc = rev (map g ps) @ acc" for g :: "int \<Rightarrow> string list" and ps acc
    by (induction ps arbitrary: acc) simp_all
  ultimately show ?thesis
    using files ne d(1) by (simp add: sortPriorities_def rev_map)
qed

subsection \<open>What the latest provider is\<close>

text \<open>\<open>g\<close> is no better than \<open>f\<close>: by default preference, then by version.\<close>

definition at_most :: "data_cache \<Rightarrow> string \<Rightarrow> string \<Rightarrow> bool" where
  "at_most dc g f \<longleftrightarrow> dp_of dc g < dp_of dc f \<or>
     (dp_of dc g = dp_of dc f \<and> (\<exists>c. vercmp (epoch_version (ver_of dc g)) (epoch_version (ver_of dc f)) = Inr c \<and> c \<le> 0))"

lemma at_most_le:
  "at_most dc g f \<longleftrightarrow> dp_of dc g < dp_of dc f \<or>
     (dp_of dc g = dp_of dc f \<and> ver.le (epoch_version (ver_of dc g)) (epoch_version (ver_of dc f)))"
  by (simp add: at_most_def ver.le_def)

lemma at_most_refl: "known dc f \<Longrightarrow> at_most dc f f"
  by (simp add: at_most_le ver.le_refl known_gets(4))

lemma at_most_trans:
  assumes "known dc f" "known dc g" "known dc h" and "at_most dc f g" "at_most dc g h"
  shows "at_most dc f h"
  using assms(4,5) ver.le_trans [OF known_gets(4) [OF assms(1)] known_gets(4) [OF assms(2)] known_gets(4) [OF assms(3)]]
  by (auto simp: at_most_le)

lemma latest_step:
  assumes "known dc f" "known dc g"
  shows "\<exists>h \<in> {f, g}. latest_step dc g (Some (f, ver_of dc f), dp_of dc f) = Inr (Some (h, ver_of dc h), dp_of dc h) \<and>
    at_most dc f h \<and> at_most dc g h"
proof -
  note k = known_gets [OF assms(1)] known_gets [OF assms(2)]
  obtain c where c: "vercmp (epoch_version (ver_of dc f)) (epoch_version (ver_of dc g)) = Inr c"
    using ver.cmp_returns [OF k(4,8)] by blast
  consider "dp_of dc f = dp_of dc g" "c < 0" | "dp_of dc f = dp_of dc g" "\<not> c < 0"
    | "dp_of dc f < dp_of dc g" | "dp_of dc g < dp_of dc f" by linarith
  then show ?thesis
  proof cases
    case 1
    then have "ver.le (epoch_version (ver_of dc f)) (epoch_version (ver_of dc g))"
      using c by (simp add: ver.le_def)
    with 1 c k at_most_refl [OF assms(2)] show ?thesis by (simp add: latest_step_def at_most_le)
  next
    case 2
    with ver.not_less_le [OF k(4,8) c] c k at_most_refl [OF assms(1)] show ?thesis
      by (simp add: latest_step_def at_most_le)
  next
    case 3
    with k at_most_refl [OF assms(2)] show ?thesis by (simp add: latest_step_def at_most_le)
  next
    case 4
    with k at_most_refl [OF assms(1)] show ?thesis by (simp add: latest_step_def at_most_le)
  qed
qed

lemma latest_steps:
  assumes "known dc f" "\<forall>g \<in> set fs. known dc g"
  shows "\<exists>h \<in> insert f (set fs). foldE (latest_step dc) fs (Some (f, ver_of dc f), dp_of dc f) =
      Inr (Some (h, ver_of dc h), dp_of dc h) \<and> (\<forall>g \<in> insert f (set fs). at_most dc g h)"
  using assms
proof (induction fs arbitrary: f)
  case Nil
  then show ?case by (simp add: at_most_refl)
next
  case (Cons g fs)
  obtain h where h: "h \<in> {f, g}" "latest_step dc g (Some (f, ver_of dc f), dp_of dc f) = Inr (Some (h, ver_of dc h), dp_of dc h)"
    "at_most dc f h" "at_most dc g h"
    using latest_step [of dc f g] Cons.prems by auto
  have kh: "known dc h" using h(1) Cons.prems by auto
  obtain i where i: "i \<in> insert h (set fs)" "foldE (latest_step dc) fs (Some (h, ver_of dc h), dp_of dc h) =
      Inr (Some (i, ver_of dc i), dp_of dc i)" "\<forall>g \<in> insert h (set fs). at_most dc g i"
    using Cons.IH [OF kh] Cons.prems(2) by auto
  have ki: "known dc i" using i(1) kh Cons.prems(2) by auto
  have "at_most dc f i" "at_most dc g i"
    using at_most_trans [of dc _ h i] h(3,4) i(3) Cons.prems kh ki by auto
  with h(1,2) i show ?case by (intro bexI [of _ i]) auto
qed

lemma findLatestProvider_result:
  assumes "fs \<noteq> []" and "\<forall>g \<in> set fs. known dc g"
  obtains h where "h \<in> set fs" and "findLatestProvider dc fs = Inr (Some (h, ver_of dc h))"
    and "\<forall>g \<in> set fs. at_most dc g h"
proof -
  obtain f gs where fs: "fs = f # gs" using assms(1) by (cases fs) auto
  have "latest_step dc f (None, 0) = Inr (Some (f, ver_of dc f), dp_of dc f)"
    using assms(2) fs by (simp add: latest_step_def known_gets)
  with latest_steps [of dc f gs] assms(2) fs that show ?thesis
    by (auto simp: findLatestProvider_def)
qed

text \<open>\<open>findBestProvider\<close> when no version is asked for.\<close>

definition no_version_set :: "(string \<Rightarrow> string option) \<Rightarrow> string \<Rightarrow> bool" where
  "no_version_set gv pn \<longleftrightarrow> versionVariableMatch gv ''REQUIRED'' pn = None \<and> versionVariableMatch gv ''PREFERRED'' pn = None"

lemma in_priority_set: "set (in_priority dc files p) = {f \<in> set files. prio_of dc f = p}"
  by (auto simp: in_priority_def)

lemma rev_sorted_list_of_set:
  fixes P :: "int set"
  assumes "finite P" and "P \<noteq> {}"
  obtains ps where "rev (sorted_list_of_set P) = Max P # ps"
proof -
  let ?l = "sorted_list_of_set P"
  have "set ?l = P" "sorted ?l" using assms(1) by simp_all
  with assms(2) obtain l x where l: "?l = l @ [x]" by (cases ?l rule: rev_cases) auto
  have "x = Max P"
    using \<open>set ?l = P\<close> \<open>sorted ?l\<close> assms(1) unfolding l by (intro Max_eqI [symmetric]) (auto simp: sorted_append)
  with that [of "rev l"] l show ?thesis by simp
qed

lemma best_provider_default:
  assumes "\<forall>f \<in> set (dict_get_or [] pkgs pn). known dc f" and "dict_get_or [] pkgs pn \<noteq> []" and "no_version_set gv pn"
  obtains f where "f \<in> set (dict_get_or [] pkgs pn)"
    and "findBestProvider pn gv dc pkgs = Inr (Some (f, ver_of dc f), Some (f, ver_of dc f), False)"
    and "\<forall>g \<in> set (dict_get_or [] pkgs pn). prio_of dc g \<le> prio_of dc f \<and> (prio_of dc g = prio_of dc f \<longrightarrow> at_most dc g f)"
proof -
  let ?files = "dict_get_or [] pkgs pn" and ?P = "prio_of dc ` set (dict_get_or [] pkgs pn)"
  have pn: "pn \<in> fst ` set pkgs" using assms(2) dict_get_or_missing by metis
  let ?top = "Max ?P"
  have P: "finite ?P" "?P \<noteq> {}" using assms(2) by auto
  then obtain ps where ps: "rev (sorted_list_of_set ?P) = ?top # ps" by (rule rev_sorted_list_of_set)
  let ?s = "in_priority dc ?files ?top"
  have s: "sortPriorities pn dc pkgs = Inr (?s # map (in_priority dc ?files) ps)"
    using sortPriorities_result [OF assms(1) pn] ps by simp
  have "?s \<noteq> []" using Max_in [OF P] in_priority_set [of dc ?files ?top] by force
  moreover have "\<forall>g \<in> set ?s. known dc g" using assms(1) by (simp add: in_priority_set)
  ultimately obtain f where f: "f \<in> set ?s" "findLatestProvider dc ?s = Inr (Some (f, ver_of dc f))"
      "\<forall>g \<in> set ?s. at_most dc g f"
    by (rule findLatestProvider_result)
  have "findBestProvider pn gv dc pkgs = Inr (Some (f, ver_of dc f), Some (f, ver_of dc f), False)"
    using assms(3) by (simp add: findBestProvider_def s findPreferredProvider_def no_version_set_def best_set_def f(2))
  moreover have "prio_of dc g \<le> prio_of dc f \<and> (prio_of dc g = prio_of dc f \<longrightarrow> at_most dc g f)"
    if "g \<in> set ?files" for g
    using that f(1,3) Max_ge [OF P(1)] by (auto simp: in_priority_set)
  ultimately show ?thesis using that f(1) by (auto simp: in_priority_set)
qed

subsection \<open>What the filters keep\<close>

lemma first_match_in: "first_match dc P fs = Inr (Some (f, v)) \<Longrightarrow> f \<in> set fs"
  by (induction fs) (auto simp: bindE_Inr_iff split: if_splits)

lemma search_sets_in:
  "search_sets dc P sets acc = Inr (Some (f, v)) \<Longrightarrow> (\<forall>x. acc = Some x \<longrightarrow> fst x \<in> T) \<Longrightarrow>
   f \<in> T \<union> \<Union> (set ` set sets)"
proof (induction sets arbitrary: acc T)
  case (Cons fs sets)
  from Cons.prems(1) obtain r where r: "first_match dc P fs = Inr r" by (auto simp: bindE_Inr_iff)
  let ?acc = "case r of None \<Rightarrow> acc | Some _ \<Rightarrow> r"
  have a: "\<forall>x. ?acc = Some x \<longrightarrow> fst x \<in> T \<union> set fs"
    using Cons.prems(2) first_match_in [of dc P fs] r by (cases r) fastforce+
  show ?case
  proof (cases "case ?acc of None \<Rightarrow> True | Some (f, _) \<Rightarrow> f = []")
    case True
    with Cons.prems(1) r have "search_sets dc P sets ?acc = Inr (Some (f, v))"
      by (simp add: Let_def)
    from Cons.IH [OF this a] show ?thesis by auto
  next
    case False
    with Cons.prems(1) r have "?acc = Some (f, v)" by (simp add: Let_def)
    with a show ?thesis by auto
  qed
qed simp

lemma findPreferredProvider_in:
  "findPreferredProvider pn gv dc sets = Inr (Some (f, v), req) \<Longrightarrow> f \<in> \<Union> (set ` set sets)"
  using search_sets_in [of dc _ sets None f v "{}"]
  by (auto simp: findPreferredProvider_def Let_def bindE_Inr_iff split: option.splits list.splits prod.splits)

lemma prio_steps_in:
  "foldE (prio_step dc) fs d = Inr d' \<Longrightarrow> f \<in> set (dict_get_or [] (dict_get_or [] d' p) q) \<Longrightarrow>
   f \<in> set fs \<or> f \<in> set (dict_get_or [] (dict_get_or [] d p) q)"
proof (induction fs arbitrary: d)
  case (Cons g fs)
  from Cons.prems(1) obtain e where e: "prio_step dc g d = Inr e" "foldE (prio_step dc) fs e = Inr d'"
    by (auto simp: bindE_Inr_iff)
  then obtain pr pf where "e = dict_set pr (dd_append pf g (dict_get_or [] d pr)) d"
    by (auto simp: bindE_Inr_iff prio_step_def)
  with Cons.IH [OF e(2) Cons.prems(2)] show ?case by (auto split: if_splits)
qed simp

lemma sortPriorities_in:
  assumes "sortPriorities pn dc pkgs = Inr sets" and "pkgs \<noteq> []" and "f \<in> \<Union> (set ` set sets)"
  shows "f \<in> set (dict_get_or [] pkgs pn)"
proof -
  obtain d where d: "foldE (prio_step dc) (dict_get_or [] pkgs pn) [] = Inr d"
    and sets: "sets = fold (\<lambda>pri acc. sort_prefs (dict_get_or [] d pri) # acc) (sort (dict_keys d)) []"
    using assms(1,2) by (auto simp: sortPriorities_def bindE_Inr_iff dict_get_def dict_get_or_def split: option.splits)
  have "set (fold (\<lambda>pri acc. g pri # acc) ps acc) = g ` set ps \<union> set acc" for ps acc and g :: "int \<Rightarrow> string list"
    by (induction ps arbitrary: acc) auto
  with assms(3) sets obtain pri where "f \<in> set (sort_prefs (dict_get_or [] d pri))"
    by fastforce
  then obtain q where "f \<in> set (dict_get_or [] (dict_get_or [] d pri) q)"
    by (auto simp: sort_prefs_def)
  with prio_steps_in [OF d] show ?thesis by (auto simp: dict_get_or_missing)
qed

lemma latest_steps_in:
  "foldE (latest_step dc) fs (l, p) = Inr (Some (f, v), q) \<Longrightarrow> f \<in> set fs \<or> f \<in> fst ` set_option l"
proof (induction fs arbitrary: l p)
  case (Cons g fs)
  from Cons.prems obtain l1 p1 where 1: "latest_step dc g (l, p) = Inr (l1, p1)"
    "foldE (latest_step dc) fs (l1, p1) = Inr (Some (f, v), q)" by (auto simp: bindE_Inr_iff)
  have "l1 = l \<or> fst ` set_option l1 = {g}"
    using 1(1) by (auto simp: latest_step_def bindE_Inr_iff split: if_splits)
  with Cons.IH [OF 1(2)] show ?case by auto
qed auto

lemma findLatestProvider_in: "findLatestProvider dc fs = Inr (Some (f, v)) \<Longrightarrow> f \<in> set fs"
proof -
  assume "findLatestProvider dc fs = Inr (Some (f, v))"
  then obtain q where "foldE (latest_step dc) fs (None, 0) = Inr (Some (f, v), q)"
    unfolding findLatestProvider_def bindE_Inr_iff by force
  from latest_steps_in [OF this] show ?thesis by simp
qed

text \<open>The candidates collected per PN.\<close>

lemma collate_by_pn:
  assumes "collate_by_pn dc provs = Inr pkgs"
  shows "f \<in> set (dict_get_or [] pkgs pn) \<Longrightarrow> f \<in> set provs \<and> map_of (pkg_fn dc) f = Some pn"
    and "distinct (dict_keys pkgs)"
proof -
  let ?P = "\<lambda>d. (\<forall>f pn. f \<in> set (dict_get_or [] d pn) \<longrightarrow> f \<in> set provs \<and> map_of (pkg_fn dc) f = Some pn) \<and>
     distinct (dict_keys d)"
  have "?P pkgs"
    using assms unfolding collate_by_pn_def
  proof (rule foldE_invariant [where P = ?P])
    show "?P []" by (simp add: dict_get_or_missing)
    fix p d d'
    assume "p \<in> set provs" "?P d" "bindE (dict_get (pkg_fn dc) p) (\<lambda>pn. Inr (dd_append pn p d)) = Inr d'"
    then show "?P d'" by (auto simp: bindE_Inr_iff dict_get_Inr_iff dd_append_def split: if_splits)
  qed
  then show "f \<in> set (dict_get_or [] pkgs pn) \<Longrightarrow> f \<in> set provs \<and> map_of (pkg_fn dc) f = Some pn"
    "distinct (dict_keys pkgs)" by blast+
qed

text \<open>
  \<open>one_each S Q el\<close>: the files \<open>el\<close> are from \<open>S\<close>, one for each PN of \<open>Q\<close>.
\<close>

definition one_each :: "data_cache \<Rightarrow> string set \<Rightarrow> string set \<Rightarrow> string list \<Rightarrow> bool" where
  "one_each dc S Q el \<longleftrightarrow> set el \<subseteq> S \<and> distinct (map (map_of (pkg_fn dc)) el) \<and>
     map_of (pkg_fn dc) ` set el = Some ` Q"

lemma one_each_snoc:
  assumes "one_each dc S Q el" and "f \<in> S" and "map_of (pkg_fn dc) f = Some n" and "n \<notin> Q"
  shows "one_each dc S (insert n Q) (el @ [f])"
  using assms by (auto simp: one_each_def)

lemma one_each_perm:
  assumes "one_each dc S Q el" and "mset el' = mset el"
  shows "one_each dc S Q el'"
proof -
  have "set el' = set el" using assms(2) by (rule mset_eq_setD)
  moreover have "mset (map (map_of (pkg_fn dc)) el') = mset (map (map_of (pkg_fn dc)) el)"
    using assms(2) by simp
  ultimately show ?thesis using assms(1) unfolding one_each_def by (metis mset_eq_imp_distinct_iff)
qed

text \<open>Every entry of the tables of \<open>_filterProviders\<close> belongs to its PN.\<close>

definition pref_ok :: "data_cache \<Rightarrow> string set \<Rightarrow> (string, (string \<times> pepvpr) option) dict \<Rightarrow> bool" where
  "pref_ok dc S pref \<longleftrightarrow> (\<forall>n f v. map_of pref n = Some (Some (f, v)) \<longrightarrow> f \<in> S \<and> map_of (pkg_fn dc) f = Some n)"

definition sets_ok :: "data_cache \<Rightarrow> string set \<Rightarrow> (string, string list list) dict \<Rightarrow> bool" where
  "sets_ok dc S sorted_pn \<longleftrightarrow> distinct (dict_keys sorted_pn) \<and>
     (\<forall>n sets f. map_of sorted_pn n = Some sets \<longrightarrow> f \<in> \<Union> (set ` set sets) \<longrightarrow> f \<in> S \<and> map_of (pkg_fn dc) f = Some n)"

definition usable_pns :: "(string, (string \<times> pepvpr) option) dict \<Rightarrow> string set" where
  "usable_pns pref = {n. \<exists>r. map_of pref n = Some r \<and> usable r}"

lemma preferred_loop_ok:
  assumes C: "\<forall>pn f. f \<in> set (dict_get_or [] pkgs pn) \<longrightarrow> f \<in> S \<and> map_of (pkg_fn dc) f = Some pn"
    and "preferred_loop gv dc pkgs pns (el, pref, sorted_pn) = Inr r" and "pkgs \<noteq> []"
    and "distinct pns" and "set pns \<inter> fst ` set pref = {}"
    and "one_each dc S (usable_pns pref) el" and "pref_ok dc S pref" and "sets_ok dc S sorted_pn"
  shows "case r of Inl el' \<Rightarrow> \<exists>Q. one_each dc S Q el'
    | Inr (el', pref', sorted_pn') \<Rightarrow>
        one_each dc S (usable_pns pref') el' \<and> pref_ok dc S pref' \<and> sets_ok dc S sorted_pn'"
  using assms(2,4-)
proof (induction pns arbitrary: el pref sorted_pn)
  case Nil
  then show ?case by auto
next
  case (Cons pn pns)
  obtain sets where sets: "sortPriorities pn dc pkgs = Inr sets"
    using Cons.prems(1) by (auto simp: bindE_Inr_iff)
  obtain p required where p: "findPreferredProvider pn gv dc sets = Inr (p, required)"
    using Cons.prems(1) sets by (auto simp: bindE_Inr_iff)
  have inS: "f \<in> \<Union> (set ` set sets) \<Longrightarrow> f \<in> S \<and> map_of (pkg_fn dc) f = Some pn" for f
    using sortPriorities_in [OF sets assms(3)] C by blast
  have pS: "p = Some (f, v) \<Longrightarrow> f \<in> S \<and> map_of (pkg_fn dc) f = Some pn" for f v
    using findPreferredProvider_in [of pn gv dc sets f v required] p inS by blast
  have new: "map_of pref pn = None"
    using Cons.prems(3) by (auto simp: map_of_eq_None_iff)
  show ?case
  proof (cases "required \<and> p = None")
    case True
    with Cons.prems(1) sets p have "r = Inl el" by simp
    with Cons.prems(4) show ?thesis by auto
  next
    case False
    let ?el = "if usable p then el @ [fst (the p)] else el" and ?pref = "dict_set pn p pref"
    have run: "preferred_loop gv dc pkgs pns (?el, ?pref, dict_set pn sets sorted_pn) = Inr r"
      using Cons.prems(1) sets p False by simp
    have u: "usable_pns ?pref = (if usable p then insert pn (usable_pns pref) else usable_pns pref)"
      using new by (auto simp: usable_pns_def)
    have "one_each dc S (usable_pns ?pref) ?el"
    proof (cases "usable p")
      case True
      then obtain f v where f: "p = Some (f, v)" by (auto simp: usable_def split: option.splits)
      have "pn \<notin> usable_pns pref" using new by (simp add: usable_pns_def)
      with pS [OF f] one_each_snoc [OF Cons.prems(4), of f pn]
      have "one_each dc S (insert pn (usable_pns pref)) (el @ [f])" by blast
      with True show ?thesis unfolding u by (simp add: f)
    qed (use Cons.prems(4) u in simp)
    moreover have "pref_ok dc S ?pref" using Cons.prems(5) pS by (auto simp: pref_ok_def)
    moreover have "sets_ok dc S (dict_set pn sets sorted_pn)"
      using Cons.prems(6) inS by (auto simp: sets_ok_def)
    moreover have "distinct pns" "set pns \<inter> fst ` set ?pref = {}"
      using Cons.prems(2,3) by (auto simp: fst_set_keys)
    ultimately show ?thesis using Cons.IH [OF run] by blast
  qed
qed

lemma latest_loop_ok:
  assumes "foldE (latest_loop_step dc sorted_pn) ns (el, pref) = Inr (el', pref')"
    and "sets_ok dc S sorted_pn" and "one_each dc S Q el" and "pref_ok dc S pref" and "distinct ns"
    and "usable_pns pref \<subseteq> Q" and "Q \<inter> set ns \<subseteq> usable_pns pref"
  shows "\<exists>Q'. one_each dc S Q' el' \<and> pref_ok dc S pref'"
  using assms(1,3-)
proof (induction ns arbitrary: el pref Q)
  case (Cons n ns)
  obtain el1 pref1 where 1: "latest_loop_step dc sorted_pn n (el, pref) = Inr (el1, pref1)"
    "foldE (latest_loop_step dc sorted_pn) ns (el1, pref1) = Inr (el', pref')"
    using Cons.prems(1) by (auto simp: bindE_Inr_iff)
  show ?case
  proof (cases "n \<in> usable_pns pref")
    case True
    then have "(el1, pref1) = (el, pref)"
      using 1(1) by (auto simp: latest_loop_step_def usable_pns_def)
    with Cons.IH [of el pref Q] 1(2) Cons.prems show ?thesis by auto
  next
    case False
    then have "\<not> (case map_of pref n of Some r \<Rightarrow> usable r | None \<Rightarrow> False)"
      by (auto simp: usable_pns_def split: option.splits)
    then obtain sets s f v where s: "map_of sorted_pn n = Some sets" "best_set sets = Inr s"
        "findLatestProvider dc s = Inr (Some (f, v))" and e: "el1 = el @ [f]" "pref1 = dict_set n (Some (f, v)) pref"
      using 1(1) by (auto simp: latest_loop_step_def bindE_Inr_iff dict_get_Inr_iff split: option.splits)
    have "f \<in> \<Union> (set ` set sets)"
      using findLatestProvider_in [OF s(3)] s(2) by (auto simp: best_set_def split: list.splits)
    with assms(2) s(1) have f: "f \<in> S" "map_of (pkg_fn dc) f = Some n" unfolding sets_ok_def by blast+
    have "n \<notin> Q" using False Cons.prems(6) by auto
    with one_each_snoc [OF Cons.prems(2) f] have "one_each dc S (insert n Q) el1" by (simp add: e)
    moreover have "pref_ok dc S pref1" using Cons.prems(3) f by (auto simp: pref_ok_def e)
    moreover have "usable_pns pref1 \<subseteq> insert n Q" "insert n Q \<inter> set ns \<subseteq> usable_pns pref1"
      using Cons.prems(4-6) by (auto simp: usable_pns_def e split: if_splits)
    ultimately show ?thesis using Cons.IH [OF 1(2)] Cons.prems(4) by auto
  qed
qed auto

lemma move_front_mset: "move_front x xs = Inr ys \<Longrightarrow> mset ys = mset xs \<and> hd ys = x"
  by (auto simp: move_front_def py_remove_def bindE_Inr_iff split: if_splits)

lemma own_name_step_mset: "own_name_step dc item pref p el = Inr el' \<Longrightarrow> mset el' = mset el"
  by (auto simp: own_name_step_def bindE_Inr_iff split: if_splits option.splits prod.splits dest: move_front_mset)

lemma own_name_mset:
  "foldE (own_name_step dc item pref) ps el = Inr el' \<Longrightarrow> mset el' = mset el"
  by (erule foldE_invariant [where P = "\<lambda>x. mset x = mset el"]) (auto dest: own_name_step_mset)

lemma filterProviders0_one_each:
  assumes "filterProviders0 provs item gv dc = Inr el"
  shows "\<exists>Q. one_each dc (set provs) Q el"
proof -
  obtain pkgs where pkgs: "collate_by_pn dc (sort provs) = Inr pkgs"
    using assms by (auto simp: filterProviders0_def Let_def bindE_Inr_iff)
  note C = collate_by_pn [OF pkgs]
  obtain r where r: "preferred_loop gv dc pkgs (sort (dict_keys pkgs)) ([], [], []) = Inr r"
    using assms pkgs by (auto simp: filterProviders0_def Let_def bindE_Inr_iff)
  show ?thesis
  proof (cases "pkgs = []")
    case True
    with assms pkgs r have "el = []" by (auto simp: filterProviders0_def)
    then show ?thesis by (intro exI [of _ "{}"]) (simp add: one_each_def)
  next
    case False
    have "case r of Inl el' \<Rightarrow> \<exists>Q. one_each dc (set provs) Q el'
      | Inr (el', pref', sorted_pn') \<Rightarrow>
        one_each dc (set provs) (usable_pns pref') el' \<and> pref_ok dc (set provs) pref' \<and> sets_ok dc (set provs) sorted_pn'"
      using C by (intro preferred_loop_ok [OF _ r False])
        (auto simp: one_each_def usable_pns_def pref_ok_def sets_ok_def)
    moreover obtain el0 pref sorted_pn el1 pref1 where "r = Inl el \<or> (r = Inr (el0, pref, sorted_pn) \<and>
        foldE (latest_loop_step dc sorted_pn) (sort (dict_keys sorted_pn)) (el0, pref) = Inr (el1, pref1) \<and>
        mset el = mset el1)"
      using assms pkgs r own_name_mset
      by (auto simp: filterProviders0_def Let_def bindE_Inr_iff split: sum.splits if_splits)
    ultimately show ?thesis
    proof (elim disjE conjE)
      assume r: "r = Inr (el0, pref, sorted_pn)" and m: "mset el = mset el1"
        and l: "foldE (latest_loop_step dc sorted_pn) (sort (dict_keys sorted_pn)) (el0, pref) = Inr (el1, pref1)"
      assume "case r of Inl el' \<Rightarrow> \<exists>Q. one_each dc (set provs) Q el'
        | Inr (el', pref', sorted_pn') \<Rightarrow>
          one_each dc (set provs) (usable_pns pref') el' \<and> pref_ok dc (set provs) pref' \<and> sets_ok dc (set provs) sorted_pn'"
      with r have "one_each dc (set provs) (usable_pns pref) el0" "pref_ok dc (set provs) pref" "sets_ok dc (set provs) sorted_pn"
        by simp_all
      then obtain Q where "one_each dc (set provs) Q el1"
        using latest_loop_ok [OF l, of "set provs" "usable_pns pref"] by (auto simp: sets_ok_def)
      with one_each_perm m show ?thesis by blast
    qed auto
  qed
qed

lemma prefer_first_front:
  "prefer_first dc pn ps el = Inr (el', u) \<Longrightarrow> mset el' = mset el \<and> (u \<longrightarrow> map_of (pkg_fn dc) (hd el') = Some pn)"
  by (induction ps) (auto simp: bindE_Inr_iff dict_get_Inr_iff dest: move_front_mset split: if_splits)

subsection \<open>Properties\<close>

text \<open>
  Property C15. With no version asked for, the best provider of a recipe is a file of the
  highest layer priority and, within that priority, of the highest default preference and
  then the highest version.
\<close>

theorem best_provider_is_latest_of_top_priority:
  assumes "\<forall>f \<in> set (dict_get_or [] pkgs pn). known dc f" and "dict_get_or [] pkgs pn \<noteq> []"
    and "versionVariableMatch gv ''REQUIRED'' pn = None" and "versionVariableMatch gv ''PREFERRED'' pn = None"
  shows "\<exists>f \<in> set (dict_get_or [] pkgs pn).
    findBestProvider pn gv dc pkgs = Inr (Some (f, ver_of dc f), Some (f, ver_of dc f), False) \<and>
    (\<forall>g \<in> set (dict_get_or [] pkgs pn).
       prio_of dc g \<le> prio_of dc f \<and> (prio_of dc g = prio_of dc f \<longrightarrow> at_most dc g f))"
  using best_provider_default [OF assms(1,2), of gv] assms(3,4) by (auto simp: no_version_set_def)

text \<open>Three files of one recipe for the witnesses: one in a better layer, two versions in the other.\<close>

definition three_files :: data_cache where
  "three_files = new_cache
     \<lparr>pkg_fn := [(''a1'', ''a''), (''a2'', ''a''), (''a3'', ''a'')],
      bbfile_priority := [(''a1'', 5), (''a2'', 6), (''a3'', 6)],
      pkg_dp := [(''a1'', 0), (''a2'', 0), (''a3'', 0)],
      pkg_pepvpr := [(''a1'', [], ''9'', ''r0''), (''a2'', [], ''1.9'', ''r0''), (''a3'', [], ''1.10'', ''r0'')],
      pn_provides := [(''a'', [''a''])]\<rparr>"

lemma three_files_known: "\<forall>f \<in> {''a1'', ''a2'', ''a3''}. known three_files f"
  by (simp add: known_def three_files_def ver_of_def dict_get_or_def epoch_version_def valid_version_def
      explode_step_def re_rest_def is_digit_def is_letter_def)

theorem best_provider_is_latest_of_top_priority_witness:
  "\<exists>f \<in> {''a1'', ''a2'', ''a3''}.
     findBestProvider ''a'' (\<lambda>_. None) three_files [(''a'', [''a1'', ''a2'', ''a3''])] =
       Inr (Some (f, ver_of three_files f), Some (f, ver_of three_files f), False) \<and>
     prio_of three_files ''a2'' \<le> prio_of three_files f"
  using best_provider_is_latest_of_top_priority [of "[(''a'', [''a1'', ''a2'', ''a3''])]" "''a''" three_files "\<lambda>_. None"]
    three_files_known
  by (fastforce simp: dict_get_or_def versionVariableMatch_def or_empty_def)

text \<open>
  \<open>filterProviders\<close> returns candidates from its input, at most one file for each
  recipe, and when it reports that the choice is unique the first of them belongs to the
  recipe that \<open>PREFERRED_PROVIDER\<close> names.
\<close>

theorem filter_keeps_one_per_recipe:
  assumes "filterProviders provs item gv dc = Inr (eligible, unique, dc')"
  shows "set eligible \<subseteq> set provs \<and> distinct (map (map_of (pkg_fn dc)) eligible) \<and>
    (unique \<longrightarrow> map_of (pkg_fn dc) (hd eligible) = map_of (preferred dc') item)"
proof -
  obtain el where el: "filterProviders0 provs item gv dc = Inr el"
    using assms by (auto simp: filterProviders_def bindE_Inr_iff)
  let ?dc = "case nonempty (gv (''PREFERRED_PROVIDER_'' @ item)) of
      Some pn \<Rightarrow> dc\<lparr>preferred := dict_set item pn (preferred dc)\<rparr> | None \<Rightarrow> dc"
  have fn: "pkg_fn ?dc = pkg_fn dc" by (simp split: option.split)
  obtain Q where Q: "one_each dc (set provs) Q el" using filterProviders0_one_each [OF el] by blast
  have "mset eligible = mset el \<and> (unique \<longrightarrow> map_of (pkg_fn dc) (hd eligible) = map_of (preferred dc') item)"
  proof (cases "map_of (preferred ?dc) item")
    case None
    with assms el show ?thesis by (simp add: filterProviders_def Let_def)
  next
    case (Some pn)
    with assms el have "prefer_first ?dc pn el el = Inr (eligible, unique)" "dc' = ?dc"
      by (auto simp: filterProviders_def Let_def bindE_Inr_iff)
    with prefer_first_front [of ?dc pn el el eligible unique] fn Some show ?thesis by simp
  qed
  with one_each_perm [OF Q] show ?thesis by (auto simp: one_each_def)
qed

theorem filter_keeps_one_per_recipe_witness:
  "\<exists>eligible unique dc'. filterProviders [''a1'', ''a2'', ''a3''] ''a'' (\<lambda>_. None) three_files = Inr (eligible, unique, dc') \<and>
     distinct (map (map_of (pkg_fn three_files)) eligible)"
proof -
  have "map_sum id fst (filterProviders [''a1'', ''a2'', ''a3''] ''a'' (\<lambda>_. None) three_files) = Inr [''a3'']"
    by code_simp
  then obtain u dc' where r: "filterProviders [''a1'', ''a2'', ''a3''] ''a'' (\<lambda>_. None) three_files = Inr ([''a3''], u, dc')"
    by (cases "filterProviders [''a1'', ''a2'', ''a3''] ''a'' (\<lambda>_. None) three_files") auto
  with filter_keeps_one_per_recipe [OF r] show ?thesis by blast
qed

definition two_preferred :: data_cache where
  "two_preferred = new_cache
     \<lparr>pkg_fn := [(''a.bb'', ''a''), (''b.bb'', ''b'')],
      bbfile_priority := [(''a.bb'', 5), (''b.bb'', 5)], pkg_dp := [(''a.bb'', 0), (''b.bb'', 0)],
      pkg_pepvpr := [(''a.bb'', [], ''1'', ''r0''), (''b.bb'', [], ''1'', ''r0'')],
      pn_provides := [(''a'', [''virtual/x'']), (''b'', [''virtual/y''])]\<rparr>"

definition two_preferences :: "string \<Rightarrow> string option" where
  "two_preferences = map_of [(''PREFERRED_PROVIDER_virtual/x'', ''a''), (''PREFERRED_PROVIDER_virtual/y'', ''b'')]"

text \<open>
  A conflict between runtime preferences can be missed: the loop over the
  candidates removes the chosen one from the list it iterates over, so the next candidate is
  skipped. Two recipes that are both preferred are reported as one preference.
\<close>

theorem runtime_conflict_missed:
  "filterProvidersRunTime [''a.bb''] ''x'' two_preferences two_preferred = Inr ([''a.bb''], 1) \<and>
   filterProvidersRunTime [''b.bb''] ''x'' two_preferences two_preferred = Inr ([''b.bb''], 1) \<and>
   filterProvidersRunTime [''a.bb'', ''b.bb''] ''x'' two_preferences two_preferred = Inr ([''a.bb'', ''b.bb''], 1)"
  by code_simp

end
