(* ===== verification/Runs.thy ===== *)
theory Runs
  imports Prelude
begin

text \<open>
  Code that changes a state, may raise and may use up the fuel of its model: the state it
  leaves comes with the exception if there is one, since an exception leaves the changes
  made before it in place.
\<close>

subsection \<open>Runs that may raise or use up their fuel\<close>

type_synonym 's run = "(py_error option \<times> 's) option"

definition return :: "'s \<Rightarrow> 's run" where
  "return s = Some (None, s)"

definition raised :: "py_error \<Rightarrow> 's \<Rightarrow> 's run" where
  "raised e s = Some (Some e, s)"

definition and_then :: "'s run \<Rightarrow> ('s \<Rightarrow> 's run) \<Rightarrow> 's run" where
  "and_then r f = (case r of Some (None, s) \<Rightarrow> f s | _ \<Rightarrow> r)"

fun for_each :: "('a \<Rightarrow> 's \<Rightarrow> 's run) \<Rightarrow> 'a list \<Rightarrow> 's \<Rightarrow> 's run" where
  "for_each f [] s = return s"
| "for_each f (x # xs) s = and_then (f x s) (for_each f xs)"

text \<open>A computation that does not touch the state.\<close>

definition on_result :: "'a result \<Rightarrow> 's \<Rightarrow> ('a \<Rightarrow> 's run) \<Rightarrow> 's run" where
  "on_result r s f = (case r of Inl e \<Rightarrow> raised e s | Inr x \<Rightarrow> f x)"

lemma and_then_None_iff:
  "and_then r f = Some (None, s') \<longleftrightarrow> (\<exists>s. r = Some (None, s) \<and> f s = Some (None, s'))"
  by (auto simp: and_then_def split: option.splits prod.splits)

lemma and_then_Some_iff:
  "and_then r f = Some (Some e, s') \<longleftrightarrow> r = Some (Some e, s') \<or> (\<exists>s. r = Some (None, s) \<and> f s = Some (Some e, s'))"
  by (auto simp: and_then_def split: option.splits prod.splits)

lemma and_then_done [simp]: "and_then (return s) f = f s" "return s = Some (e, s') \<longleftrightarrow> e = None \<and> s' = s"
  by (auto simp: and_then_def return_def)

lemma for_each_invariant:
  assumes "for_each f xs s = Some (None, s')" and "P s"
    and "\<And>x a b. x \<in> set xs \<Longrightarrow> P a \<Longrightarrow> f x a = Some (None, b) \<Longrightarrow> P b"
  shows "P s'"
  using assms
proof (induction xs arbitrary: s)
  case (Cons x xs)
  obtain b where b: "f x s = Some (None, b)" "for_each f xs b = Some (None, s')"
    using Cons.prems(1) by (auto simp: and_then_None_iff)
  have "P b" by (rule Cons.prems(3) [OF _ Cons.prems(2) b(1)]) simp
  then show ?case by (rule Cons.IH [OF b(2)]) (rule Cons.prems(3), auto)
qed simp

text \<open>\<open>ends P r\<close>: the fuel was enough, and a run that does not raise leaves a state with \<open>P\<close>.\<close>

definition ends :: "('s \<Rightarrow> bool) \<Rightarrow> 's run \<Rightarrow> bool" where
  "ends P r \<longleftrightarrow> (\<exists>e s. r = Some (e, s) \<and> (e = None \<longrightarrow> P s))"

lemma ends_simps [simp]: "ends P (return s) = P s" "ends P (raised e s)"
  by (simp_all add: ends_def raised_def)

lemma ends_D: "ends P r \<Longrightarrow> r = Some (None, s) \<Longrightarrow> P s"
  by (simp add: ends_def)

lemma ends_not_None: "ends P r \<Longrightarrow> r \<noteq> None"
  by (auto simp: ends_def)

lemma ends_mono: "ends P r \<Longrightarrow> (\<And>s. P s \<Longrightarrow> Q s) \<Longrightarrow> ends Q r"
  by (auto simp: ends_def)

lemma ends_and_then: "ends P r \<Longrightarrow> (\<And>s. P s \<Longrightarrow> ends Q (f s)) \<Longrightarrow> ends Q (and_then r f)"
  by (auto simp: ends_def and_then_def split: option.splits)

lemma ends_for_each:
  "P s \<Longrightarrow> (\<And>x s. x \<in> set xs \<Longrightarrow> P s \<Longrightarrow> ends P (f x s)) \<Longrightarrow> ends P (for_each f xs s)"
  by (induction xs arbitrary: s) (auto intro!: ends_and_then)

lemma ends_on_result: "(\<And>x. r = Inr x \<Longrightarrow> ends P (f x)) \<Longrightarrow> ends P (on_result r s f)"
  by (cases r) (simp_all add: on_result_def)

text \<open>
  \<open>yields P r\<close>: if the run ends without an exception, the state it leaves has \<open>P\<close>. These are
  the rules of partial correctness.
\<close>

definition yields :: "('s \<Rightarrow> bool) \<Rightarrow> 's run \<Rightarrow> bool" where
  "yields P r \<longleftrightarrow> (\<forall>s. r = Some (None, s) \<longrightarrow> P s)"

named_theorems yields_intro \<open>rules of partial correctness for runs\<close>

lemma yields_simps [simp]: "yields P (return s) = P s" "yields P (raised e s)" "yields P None"
  by (simp_all add: yields_def return_def raised_def)

lemma yields_D: "yields P r \<Longrightarrow> r = Some (None, s) \<Longrightarrow> P s"
  by (simp add: yields_def)

lemma yields_mono: "yields P r \<Longrightarrow> (\<And>s. P s \<Longrightarrow> Q s) \<Longrightarrow> yields Q r"
  by (auto simp: yields_def)

lemma yields_and_then: "yields P r \<Longrightarrow> (\<And>s. P s \<Longrightarrow> yields Q (f s)) \<Longrightarrow> yields Q (and_then r f)"
  by (auto simp: yields_def and_then_None_iff)

lemma yields_and_then_same [yields_intro]:
  "yields P r \<Longrightarrow> (\<And>s. P s \<Longrightarrow> yields P (f s)) \<Longrightarrow> yields P (and_then r f)"
  by (rule yields_and_then)

lemma yields_for_each [yields_intro]:
  "P s \<Longrightarrow> (\<And>x s. x \<in> set xs \<Longrightarrow> P s \<Longrightarrow> yields P (f x s)) \<Longrightarrow> yields P (for_each f xs s)"
  by (induction xs arbitrary: s) (auto intro!: yields_and_then)

lemma yields_on_result [yields_intro]: "(\<And>x. r = Inr x \<Longrightarrow> yields P (f x)) \<Longrightarrow> yields P (on_result r s f)"
  by (cases r) (simp_all add: on_result_def)

lemma yields_if [yields_intro]: "(b \<Longrightarrow> yields P r) \<Longrightarrow> (\<not> b \<Longrightarrow> yields P q) \<Longrightarrow> yields P (if b then r else q)"
  by simp

lemma yields_return [yields_intro]: "P s \<Longrightarrow> yields P (return s)"
  by simp

lemma yields_raised [yields_intro]: "yields P (raised e s)"
  by simp

end
