(* ===== verification/TaskData.thy ===== *)
theory TaskData
  imports Providers Runs
begin

text \<open>
  The task database of \<open>bitbake/lib/bb/taskdata.py\<close>: which recipes provide the build and
  runtime targets that are needed, their tasks and dependencies, and the removal of recipes
  that turn out to be unbuildable together with everything that needs them.

  The recursion of \<open>fail_fn\<close>, \<open>remove_buildtarget\<close> and \<open>remove_runtarget\<close> is given fuel; an
  exception leaves the state as it was when it was raised.
\<close>

subsection \<open>State\<close>

record task_entry =
  te_tdepends :: "string list"
  te_idepends :: "(string \<times> string) list"
  te_irdepends :: "(string \<times> string) list"

record taskdata =
  build_targets :: "(string, string list) dict"
  run_targets :: "(string, string list) dict"
  external_targets :: "string list"
  seenfns :: "string list"
  taskentries :: "(tid, task_entry) dict"
  depids :: "(string, string list) dict"
  rdepids :: "(string, string list) dict"
  consider_msgs_cache :: "string list"
  failed_deps :: "string list"
  failed_rdeps :: "string list"
  failed_fns :: "string list"
  halt :: bool
  allowincomplete :: bool
  mcdepends :: "string list"

definition new_taskdata :: "bool \<Rightarrow> bool \<Rightarrow> taskdata" where
  "new_taskdata h incomplete =
     \<lparr>build_targets = [], run_targets = [], external_targets = [], seenfns = [], taskentries = [],
      depids = [], rdepids = [], consider_msgs_cache = [], failed_deps = [], failed_rdeps = [],
      failed_fns = [], halt = h, allowincomplete = incomplete, mcdepends = []\<rparr>"

text \<open>\<open>rm pat s\<close> is \<open>re.match(pat, s)\<close>.\<close>

definition re_match_strings :: "(string \<Rightarrow> string \<Rightarrow> bool) \<Rightarrow> string \<Rightarrow> string list \<Rightarrow> bool" where
  "re_match_strings rm target strings =
     list_ex (\<lambda>name. if startswith name ''^'' \<or> endswith name ''$'' then rm name target else name = target) strings"

definition have_build_target :: "taskdata \<Rightarrow> string \<Rightarrow> bool" where
  "have_build_target td t \<longleftrightarrow> dict_get_or [] (build_targets td) t \<noteq> []"

definition have_runtime_target :: "taskdata \<Rightarrow> string \<Rightarrow> bool" where
  "have_runtime_target td t \<longleftrightarrow> dict_get_or [] (run_targets td) t \<noteq> []"

definition seen_build_target :: "string \<Rightarrow> taskdata \<Rightarrow> taskdata" where
  "seen_build_target name td =
     (if name \<in> set (dict_keys (build_targets td)) then td
      else td\<lparr>build_targets := dict_set name [] (build_targets td)\<rparr>)"

definition seen_run_target :: "string \<Rightarrow> taskdata \<Rightarrow> taskdata" where
  "seen_run_target name td =
     (if name \<in> set (dict_keys (run_targets td)) then td
      else td\<lparr>run_targets := dict_set name [] (run_targets td)\<rparr>)"

definition add_build_target :: "string \<Rightarrow> string \<Rightarrow> taskdata \<Rightarrow> taskdata" where
  "add_build_target fn item td = td\<lparr>build_targets := dd_add item fn (build_targets td)\<rparr>"

definition add_runtime_target :: "string \<Rightarrow> string \<Rightarrow> taskdata \<Rightarrow> taskdata" where
  "add_runtime_target fn item td = td\<lparr>run_targets := dd_add item fn (run_targets td)\<rparr>"

definition mark_external_target :: "string \<Rightarrow> taskdata \<Rightarrow> taskdata" where
  "mark_external_target t td = td\<lparr>external_targets := set_add t (external_targets td)\<rparr>"

definition get_unresolved_build_targets :: "(string \<Rightarrow> string \<Rightarrow> bool) \<Rightarrow> taskdata \<Rightarrow> data_cache \<Rightarrow> string list" where
  "get_unresolved_build_targets rm td dc =
     filter (\<lambda>t. \<not> re_match_strings rm t (ignored_dependencies dc) \<and> t \<notin> set (failed_deps td) \<and>
       \<not> have_build_target td t) (dict_keys (build_targets td))"

definition get_unresolved_run_targets :: "(string \<Rightarrow> string \<Rightarrow> bool) \<Rightarrow> taskdata \<Rightarrow> data_cache \<Rightarrow> string list" where
  "get_unresolved_run_targets rm td dc =
     filter (\<lambda>t. \<not> re_match_strings rm t (ignored_dependencies dc) \<and> t \<notin> set (failed_rdeps td) \<and>
       \<not> have_runtime_target td t) (dict_keys (run_targets td))"

definition get_provider :: "taskdata \<Rightarrow> string \<Rightarrow> string list result" where
  "get_provider td item = dict_get (build_targets td) item"

definition get_dependees :: "taskdata \<Rightarrow> string \<Rightarrow> string list" where
  "get_dependees td item = filter (\<lambda>fn. item \<in> set (dict_get_or [] (depids td) fn)) (dict_keys (depids td))"

definition get_rdependees :: "taskdata \<Rightarrow> string \<Rightarrow> string list" where
  "get_rdependees td item = filter (\<lambda>fn. item \<in> set (dict_get_or [] (rdepids td) fn)) (dict_keys (rdepids td))"

text \<open>The recipes that were skipped while parsing, and what they would have provided.\<close>

record skip_item =
  sk_pn :: string
  sk_provides :: "string list"
  sk_rprovides :: "string list"
  sk_reason :: string

definition get_reasons :: "skip_item list \<Rightarrow> string \<Rightarrow> bool \<Rightarrow> string list" where
  "get_reasons skiplist item runtime =
     concat (map (\<lambda>sk.
       if sk_pn sk = item then [sk_pn sk @ '' was skipped: '' @ sk_reason sk]
       else if runtime \<and> item \<in> set (sk_rprovides sk)
         then [sk_pn sk @ '' RPROVIDES '' @ item @ '' but was skipped: '' @ sk_reason sk]
       else if \<not> runtime \<and> item \<in> set (sk_provides sk)
         then [sk_pn sk @ '' PROVIDES '' @ item @ '' but was skipped: '' @ sk_reason sk]
       else []) skiplist)"

definition get_providermap :: "taskdata \<Rightarrow> string \<Rightarrow> (string, string) dict" where
  "get_providermap td prefix =
     fold (\<lambda>name m.
         if prefix \<noteq> [] \<and> \<not> startswith name prefix then m
         else case dict_get_or [] (build_targets td) name of
           [] \<Rightarrow> m
         | provider # _ \<Rightarrow> dict_set name provider m) (dict_keys (build_targets td)) []"

subsection \<open>Removing what cannot be built\<close>

text \<open>
  \<open>remove_buildtarget\<close> and \<open>remove_runtarget\<close>, over the function that fails a file; the lists
  of missing requirements only serve the messages.
\<close>

definition remove_build_with :: "(string \<Rightarrow> taskdata \<Rightarrow> taskdata run) \<Rightarrow> string \<Rightarrow> taskdata \<Rightarrow> taskdata run" where
  "remove_build_with fail target td0 =
     (let td = td0\<lparr>failed_deps := failed_deps td0 @ [target]\<rparr> in
      and_then (for_each fail (get_dependees td target) td) (\<lambda>td.
      and_then (for_each (\<lambda>(tid, te) td.
                  for_each (\<lambda>(idepend, _) td. if idepend = target then fail (fn_from_tid tid) td else return td)
                    (te_idepends te) td) (taskentries td) td) (\<lambda>td.
      if halt td \<and> target \<in> set (external_targets td) then raised (NoProvider target) td else return td)))"

definition remove_run_with :: "(string \<Rightarrow> taskdata \<Rightarrow> taskdata run) \<Rightarrow> string \<Rightarrow> taskdata \<Rightarrow> taskdata run" where
  "remove_run_with fail target td0 =
     (let td = td0\<lparr>failed_rdeps := failed_rdeps td0 @ [target]\<rparr> in
      and_then (for_each fail (get_rdependees td target) td) (\<lambda>td.
      for_each (\<lambda>(tid, te) td.
          for_each (\<lambda>(idepend, _) td. if idepend = target then fail (fn_from_tid tid) td else return td)
            (te_irdepends te) td) (taskentries td) td))"

definition drop_build :: "(string \<Rightarrow> taskdata \<Rightarrow> taskdata run) \<Rightarrow> string \<Rightarrow> string \<Rightarrow> taskdata \<Rightarrow> taskdata run" where
  "drop_build fail fn target td =
     (let fns = dict_get_or [] (build_targets td) target in
      if fn \<in> set fns then
        let td = td\<lparr>build_targets := dict_set target (remove1 fn fns) (build_targets td)\<rparr>
        in if remove1 fn fns = [] then remove_build_with fail target td else return td
      else return td)"

definition drop_run :: "(string \<Rightarrow> taskdata \<Rightarrow> taskdata run) \<Rightarrow> string \<Rightarrow> string \<Rightarrow> taskdata \<Rightarrow> taskdata run" where
  "drop_run fail fn target td =
     (let fns = dict_get_or [] (run_targets td) target in
      if fn \<in> set fns then
        let td = td\<lparr>run_targets := dict_set target (remove1 fn fns) (run_targets td)\<rparr>
        in if remove1 fn fns = [] then remove_run_with fail target td else return td
      else return td)"

fun fail_fn :: "nat \<Rightarrow> string \<Rightarrow> taskdata \<Rightarrow> taskdata run" where
  "fail_fn 0 fn td = None"
| "fail_fn (Suc n) fn td =
     (if fn \<in> set (failed_fns td) then return td
      else
        let td = td\<lparr>failed_fns := failed_fns td @ [fn]\<rparr> in
        and_then (for_each (drop_build (fail_fn n) fn) (dict_keys (build_targets td)) td) (\<lambda>td.
          for_each (drop_run (fail_fn n) fn) (dict_keys (run_targets td)) td))"

text \<open>Each nested call fails another file, so one unit for each file and two more are enough.\<close>

definition files_of :: "taskdata \<Rightarrow> string list" where
  "files_of td = dict_keys (depids td) @ dict_keys (rdepids td) @ map fn_from_tid (dict_keys (taskentries td))"

definition fail_fuel :: "taskdata \<Rightarrow> nat" where
  "fail_fuel td = length (files_of td) + 2"

definition remove_buildtarget :: "string \<Rightarrow> taskdata \<Rightarrow> taskdata run" where
  "remove_buildtarget target td = remove_build_with (fail_fn (fail_fuel td)) target td"

definition remove_runtarget :: "string \<Rightarrow> taskdata \<Rightarrow> taskdata run" where
  "remove_runtarget target td = remove_run_with (fail_fn (fail_fuel td)) target td"

subsection \<open>Consistency\<close>

definition lists_distinct :: "taskdata \<Rightarrow> bool" where
  "lists_distinct td \<longleftrightarrow> (\<forall>t. distinct (dict_get_or [] (build_targets td) t) \<and> distinct (dict_get_or [] (run_targets td) t))"

definition offers :: "taskdata \<Rightarrow> string \<Rightarrow> bool" where
  "offers td fn \<longleftrightarrow> (\<exists>t. fn \<in> set (dict_get_or [] (build_targets td) t) \<or> fn \<in> set (dict_get_or [] (run_targets td) t))"

text \<open>
  The database is consistent up to the files \<open>F\<close> that are being taken out of the provider
  lists, the targets \<open>D\<close> and \<open>R\<close> whose dependees are being failed, and the files \<open>X\<close> whose
  dependencies have not been looked at yet.
\<close>

definition consistent_upto :: "string set \<Rightarrow> string set \<Rightarrow> string set \<Rightarrow> string set \<Rightarrow> taskdata \<Rightarrow> bool" where
  "consistent_upto F D R X td \<longleftrightarrow>
     (\<forall>f \<in> set (failed_fns td) - F. \<not> offers td f) \<and>
     (\<forall>t \<in> set (failed_deps td) - D. \<forall>f. f \<notin> X \<longrightarrow> t \<in> set (dict_get_or [] (depids td) f) \<longrightarrow> f \<in> set (failed_fns td)) \<and>
     (\<forall>t \<in> set (failed_rdeps td) - R. \<forall>f. f \<notin> X \<longrightarrow> t \<in> set (dict_get_or [] (rdepids td) f) \<longrightarrow> f \<in> set (failed_fns td))"

definition grows :: "taskdata \<Rightarrow> taskdata \<Rightarrow> bool" where
  "grows a b \<longleftrightarrow> set (failed_fns a) \<subseteq> set (failed_fns b) \<and> set (failed_deps a) \<subseteq> set (failed_deps b) \<and>
     set (failed_rdeps a) \<subseteq> set (failed_rdeps b) \<and>
     depids b = depids a \<and> rdepids b = rdepids a \<and> taskentries b = taskentries a \<and>
     halt b = halt a \<and> external_targets b = external_targets a \<and>
     dict_keys (build_targets b) = dict_keys (build_targets a) \<and>
     dict_keys (run_targets b) = dict_keys (run_targets a) \<and>
     (\<forall>t. set (dict_get_or [] (build_targets b) t) \<subseteq> set (dict_get_or [] (build_targets a) t)) \<and>
     (\<forall>t. set (dict_get_or [] (run_targets b) t) \<subseteq> set (dict_get_or [] (run_targets a) t))"

lemma grows_refl [simp]: "grows a a"
  by (simp add: grows_def)

lemma grows_trans: "grows a b \<Longrightarrow> grows b c \<Longrightarrow> grows a c"
  unfolding grows_def by (elim conjE, intro conjI allI) (metis subset_trans)+

lemma grows_offers: "grows a b \<Longrightarrow> offers b f \<Longrightarrow> offers a f"
  unfolding grows_def offers_def by blast

lemma grows_failed: "grows a b \<Longrightarrow> f \<in> set (failed_fns a) \<Longrightarrow> f \<in> set (failed_fns b)"
  by (auto simp: grows_def)

text \<open>What a run that returns normally has done.\<close>

definition keeps :: "taskdata \<Rightarrow> taskdata \<Rightarrow> bool" where
  "keeps a b \<longleftrightarrow> grows a b \<and> (lists_distinct a \<longrightarrow> lists_distinct b \<and>
     (\<forall>F D R X. consistent_upto F D R X a \<longrightarrow> consistent_upto F D R X b))"

lemma keeps_refl [simp]: "keeps a a"
  by (simp add: keeps_def)

lemma keeps_trans: "keeps a b \<Longrightarrow> keeps b c \<Longrightarrow> keeps a c"
  unfolding keeps_def by (blast intro: grows_trans)

lemma for_each_keeps:
  assumes "for_each f xs a = Some (None, b)" and "\<And>x c d. x \<in> set xs \<Longrightarrow> f x c = Some (None, d) \<Longrightarrow> keeps c d"
  shows "keeps a b"
  by (rule for_each_invariant [OF assms(1), where P = "keeps a"]) (auto intro: keeps_trans assms(2))

lemma for_each_visits:
  assumes "for_each f xs a = Some (None, b)" and "I a"
    and "\<And>x c d. x \<in> set xs \<Longrightarrow> I c \<Longrightarrow> f x c = Some (None, d) \<Longrightarrow> keeps c d \<and> I d \<and> Q x d"
    and "\<And>x c d. Q x c \<Longrightarrow> keeps c d \<Longrightarrow> Q x d"
  shows "keeps a b \<and> (\<forall>x \<in> set xs. Q x b)"
  using assms(1-3)
proof (induction xs arbitrary: a)
  case (Cons y ys)
  obtain c where c: "f y a = Some (None, c)" "for_each f ys c = Some (None, b)"
    using Cons.prems(1) by (auto simp: and_then_None_iff)
  have 1: "keeps a c" "I c" "Q y c" using Cons.prems(3) [of y a c] Cons.prems(2) c(1) by auto
  have 2: "keeps c b \<and> (\<forall>x \<in> set ys. Q x b)"
    using Cons.IH [OF c(2) 1(2)] Cons.prems(3) by auto
  with 1 show ?case using keeps_trans [OF 1(1)] assms(4) [OF 1(3)] by auto
qed simp

lemma for_each_reaches:
  assumes "for_each f xs a = Some (None, b)"
    and "\<And>x c d. x \<in> set xs \<Longrightarrow> f x c = Some (None, d) \<Longrightarrow> keeps c d \<and> Q x d"
    and "\<And>x c d. Q x c \<Longrightarrow> keeps c d \<Longrightarrow> Q x d" and "x \<in> set xs"
  shows "Q x b"
  using for_each_visits [OF assms(1), of "\<lambda>_. True" Q] assms(2-4) by blast

definition fails :: "(string \<Rightarrow> taskdata \<Rightarrow> taskdata run) \<Rightarrow> bool" where
  "fails fail \<longleftrightarrow> (\<forall>fn a b. fail fn a = Some (None, b) \<longrightarrow> keeps a b \<and> fn \<in> set (failed_fns b))"

lemma failsD: "fails fail \<Longrightarrow> fail fn a = Some (None, b) \<Longrightarrow> keeps a b \<and> fn \<in> set (failed_fns b)"
  by (auto simp: fails_def)

lemma keeps_failed: "f \<in> set (failed_fns c) \<Longrightarrow> keeps c d \<Longrightarrow> f \<in> set (failed_fns d)"
  by (auto simp: keeps_def grows_def)

lemma idepends_keeps:
  assumes "fails fail"
    and "for_each (\<lambda>(tid, te) td. for_each (\<lambda>(i, _) td. if i = target then fail (fn_from_tid tid) td else return td)
          (sel te) td) tes a = Some (None, b)"
  shows "keeps a b"
proof (rule for_each_keeps [OF assms(2)])
  fix x c d
  assume "(case x of (tid, te) \<Rightarrow> for_each (\<lambda>(i, _) td. if i = target then fail (fn_from_tid tid) td else return td) (sel te)) c = Some (None, d)"
  then obtain tid te where
    "for_each (\<lambda>(i, _) td. if i = target then fail (fn_from_tid tid) td else return td) (sel te) c = Some (None, d)"
    by (cases x) auto
  then show "keeps c d"
    by (rule for_each_keeps) (auto dest: failsD [OF assms(1)] split: if_splits)
qed

lemma remove_build_with_keeps:
  assumes f: "fails fail" and r: "remove_build_with fail target a = Some (None, b)"
  shows "keeps a b"
proof -
  let ?a = "a\<lparr>failed_deps := failed_deps a @ [target]\<rparr>"
  obtain c d where c: "for_each fail (get_dependees ?a target) ?a = Some (None, c)"
    and d: "for_each (\<lambda>(tid, te) td. for_each (\<lambda>(i, _) td. if i = target then fail (fn_from_tid tid) td else return td)
          (te_idepends te) td) (taskentries c) c = Some (None, d)" and b: "b = d"
    using r by (auto simp: remove_build_with_def Let_def and_then_None_iff raised_def split: if_splits)
  have k: "keeps ?a c" "keeps c d"
    using for_each_keeps [OF c] failsD [OF f] idepends_keeps [OF f d] by auto
  have "f \<in> set (failed_fns c)" if "f \<in> set (get_dependees ?a target)" for f
    using for_each_reaches [OF c, of "\<lambda>f td. f \<in> set (failed_fns td)"] failsD [OF f] keeps_failed that by blast
  then have dep: "f \<in> set (failed_fns d)" if "target \<in> set (dict_get_or [] (depids a) f)" for f
    using that keeps_failed [OF _ k(2)] dict_get_or_missing [of f "depids a" "[]"]
    by (fastforce simp: get_dependees_def)
  have ga: "grows a ?a" by (auto simp: grows_def)
  then have g: "grows a d" using k by (auto simp: keeps_def intro: grows_trans)
  have "consistent_upto F D R X d" if l: "lists_distinct a" and con: "consistent_upto F D R X a" for F D R X
  proof -
    have "consistent_upto F (insert target D) R X ?a" using con
      by (auto simp: consistent_upto_def offers_def)
    moreover have "lists_distinct ?a" using l by (simp add: lists_distinct_def)
    ultimately have "consistent_upto F (insert target D) R X d" using k unfolding keeps_def by blast
    then show ?thesis using dep g by (auto simp: consistent_upto_def grows_def)
  qed
  moreover have "lists_distinct d" if "lists_distinct a"
    using that k by (auto simp: keeps_def lists_distinct_def)
  ultimately show ?thesis using g by (simp add: keeps_def b)
qed

lemma remove_run_with_keeps:
  assumes f: "fails fail" and r: "remove_run_with fail target a = Some (None, b)"
  shows "keeps a b"
proof -
  let ?a = "a\<lparr>failed_rdeps := failed_rdeps a @ [target]\<rparr>"
  obtain c where c: "for_each fail (get_rdependees ?a target) ?a = Some (None, c)"
    and b: "for_each (\<lambda>(tid, te) td. for_each (\<lambda>(i, _) td. if i = target then fail (fn_from_tid tid) td else return td)
          (te_irdepends te) td) (taskentries c) c = Some (None, b)"
    using r by (auto simp: remove_run_with_def Let_def and_then_None_iff)
  have k: "keeps ?a c" "keeps c b"
    using for_each_keeps [OF c] failsD [OF f] idepends_keeps [OF f b] by auto
  have "f \<in> set (failed_fns c)" if "f \<in> set (get_rdependees ?a target)" for f
    using for_each_reaches [OF c, of "\<lambda>f td. f \<in> set (failed_fns td)"] failsD [OF f] keeps_failed that by blast
  then have dep: "f \<in> set (failed_fns b)" if "target \<in> set (dict_get_or [] (rdepids a) f)" for f
    using that keeps_failed [OF _ k(2)] dict_get_or_missing [of f "rdepids a" "[]"]
    by (fastforce simp: get_rdependees_def)
  have ga: "grows a ?a" by (auto simp: grows_def)
  then have g: "grows a b" using k by (auto simp: keeps_def intro: grows_trans)
  have "consistent_upto F D R X b" if l: "lists_distinct a" and con: "consistent_upto F D R X a" for F D R X
  proof -
    have "consistent_upto F D (insert target R) X ?a" using con
      by (auto simp: consistent_upto_def offers_def)
    moreover have "lists_distinct ?a" using l by (simp add: lists_distinct_def)
    ultimately have "consistent_upto F D (insert target R) X b" using k unfolding keeps_def by blast
    then show ?thesis using dep g by (auto simp: consistent_upto_def grows_def)
  qed
  moreover have "lists_distinct b" if "lists_distinct a"
    using that k by (auto simp: keeps_def lists_distinct_def)
  ultimately show ?thesis using g by (simp add: keeps_def)
qed

lemma shrink_keeps:
  assumes "set (failed_fns b) = set (failed_fns a)" "set (failed_deps b) = set (failed_deps a)"
    "set (failed_rdeps b) = set (failed_rdeps a)" "depids b = depids a" "rdepids b = rdepids a"
    "taskentries b = taskentries a" "halt b = halt a" "external_targets b = external_targets a"
    "dict_keys (build_targets b) = dict_keys (build_targets a)" "dict_keys (run_targets b) = dict_keys (run_targets a)"
    "\<forall>t. set (dict_get_or [] (build_targets b) t) \<subseteq> set (dict_get_or [] (build_targets a) t)"
    "\<forall>t. set (dict_get_or [] (run_targets b) t) \<subseteq> set (dict_get_or [] (run_targets a) t)"
    "lists_distinct a \<Longrightarrow> lists_distinct b"
  shows "keeps a b"
proof -
  have g: "grows a b" using assms by (simp add: grows_def)
  have "consistent_upto F D R X b" if "consistent_upto F D R X a" for F D R X
    using that grows_offers [OF g] unfolding consistent_upto_def assms(1-5) by blast
  with g assms(13) show ?thesis by (simp add: keeps_def)
qed

lemma drop_build_keeps:
  assumes f: "fails fail" and r: "drop_build fail fn target a = Some (None, b)" and t: "target \<in> set (dict_keys (build_targets a))"
  shows "keeps a b \<and> (lists_distinct a \<longrightarrow> fn \<notin> set (dict_get_or [] (build_targets b) target))"
proof (cases "fn \<in> set (dict_get_or [] (build_targets a) target)")
  case True
  let ?rest = "remove1 fn (dict_get_or [] (build_targets a) target)"
  let ?a = "a\<lparr>build_targets := dict_set target ?rest (build_targets a)\<rparr>"
  have k1: "keeps a ?a"
    using dict_set_same_keys [OF t, of ?rest]
    by (intro shrink_keeps) (auto simp: lists_distinct_def set_remove1_subset dest: subsetD [OF set_remove1_subset])
  have k2: "keeps ?a b"
    using r True remove_build_with_keeps [OF f] by (auto simp: drop_build_def Let_def split: if_splits)
  have "fn \<notin> set (dict_get_or [] (build_targets b) target)" if "lists_distinct a"
  proof -
    have "set (dict_get_or [] (build_targets b) target) \<subseteq> set ?rest"
      using k2 by (auto simp: keeps_def grows_def split: if_splits)
    then show ?thesis using that by (auto simp: lists_distinct_def)
  qed
  with keeps_trans [OF k1 k2] show ?thesis by blast
qed (use r in \<open>simp add: drop_build_def\<close>)

lemma drop_run_keeps:
  assumes f: "fails fail" and r: "drop_run fail fn target a = Some (None, b)" and t: "target \<in> set (dict_keys (run_targets a))"
  shows "keeps a b \<and> (lists_distinct a \<longrightarrow> fn \<notin> set (dict_get_or [] (run_targets b) target))"
proof (cases "fn \<in> set (dict_get_or [] (run_targets a) target)")
  case True
  let ?rest = "remove1 fn (dict_get_or [] (run_targets a) target)"
  let ?a = "a\<lparr>run_targets := dict_set target ?rest (run_targets a)\<rparr>"
  have k1: "keeps a ?a"
    using dict_set_same_keys [OF t, of ?rest]
    by (intro shrink_keeps) (auto simp: lists_distinct_def set_remove1_subset dest: subsetD [OF set_remove1_subset])
  have k2: "keeps ?a b"
    using r True remove_run_with_keeps [OF f] by (auto simp: drop_run_def Let_def split: if_splits)
  have "fn \<notin> set (dict_get_or [] (run_targets b) target)" if "lists_distinct a"
  proof -
    have "set (dict_get_or [] (run_targets b) target) \<subseteq> set ?rest"
      using k2 by (auto simp: keeps_def grows_def split: if_splits)
    then show ?thesis using that by (auto simp: lists_distinct_def)
  qed
  with keeps_trans [OF k1 k2] show ?thesis by blast
qed (use r in \<open>simp add: drop_run_def\<close>)

lemma offers_keys:
  "offers td f \<longleftrightarrow> (\<exists>t \<in> set (dict_keys (build_targets td)). f \<in> set (dict_get_or [] (build_targets td) t)) \<or>
     (\<exists>t \<in> set (dict_keys (run_targets td)). f \<in> set (dict_get_or [] (run_targets td) t))"
proof -
  have "f \<in> set (dict_get_or [] d t) \<Longrightarrow> t \<in> set (dict_keys d)" for d :: "(string, string list) dict" and t
    using dict_get_or_missing [of t d "[]"] by (cases "t \<in> fst ` set d") auto
  then show ?thesis unfolding offers_def by blast
qed

lemma fail_loops:
  assumes f: "fails fail"
    and b: "for_each (drop_build fail fn) (dict_keys (build_targets a)) a = Some (None, b)"
    and c: "for_each (drop_run fail fn) (dict_keys (run_targets b)) b = Some (None, c)"
  shows "keeps a c \<and> (lists_distinct a \<longrightarrow> \<not> offers c fn)"
proof -
  have kb: "keeps a b \<and> (\<forall>t \<in> set (dict_keys (build_targets a)).
      lists_distinct a \<longrightarrow> fn \<notin> set (dict_get_or [] (build_targets b) t))"
  proof (rule for_each_visits [OF b, where I = "\<lambda>x. dict_keys (build_targets x) = dict_keys (build_targets a) \<and>
        (lists_distinct a \<longrightarrow> lists_distinct x)"])
    fix t x y
    assume "t \<in> set (dict_keys (build_targets a))" "drop_build fail fn t x = Some (None, y)"
      "dict_keys (build_targets x) = dict_keys (build_targets a) \<and> (lists_distinct a \<longrightarrow> lists_distinct x)"
    with drop_build_keeps [OF f, of fn t x y]
    show "keeps x y \<and> (dict_keys (build_targets y) = dict_keys (build_targets a) \<and> (lists_distinct a \<longrightarrow> lists_distinct y)) \<and>
        (lists_distinct a \<longrightarrow> fn \<notin> set (dict_get_or [] (build_targets y) t))"
      by (simp add: keeps_def grows_def)
  qed (auto simp: keeps_def grows_def)
  have kc: "keeps b c \<and> (\<forall>t \<in> set (dict_keys (run_targets b)).
      lists_distinct b \<longrightarrow> fn \<notin> set (dict_get_or [] (run_targets c) t))"
  proof (rule for_each_visits [OF c, where I = "\<lambda>x. dict_keys (run_targets x) = dict_keys (run_targets b) \<and>
        (lists_distinct b \<longrightarrow> lists_distinct x)"])
    fix t x y
    assume "t \<in> set (dict_keys (run_targets b))" "drop_run fail fn t x = Some (None, y)"
      "dict_keys (run_targets x) = dict_keys (run_targets b) \<and> (lists_distinct b \<longrightarrow> lists_distinct x)"
    with drop_run_keeps [OF f, of fn t x y]
    show "keeps x y \<and> (dict_keys (run_targets y) = dict_keys (run_targets b) \<and> (lists_distinct b \<longrightarrow> lists_distinct y)) \<and>
        (lists_distinct b \<longrightarrow> fn \<notin> set (dict_get_or [] (run_targets y) t))"
      by (simp add: keeps_def grows_def)
  qed (auto simp: keeps_def grows_def)
  have g: "grows b c" "grows a b" using kb kc by (auto simp: keeps_def)
  have "\<not> offers c fn" if l: "lists_distinct a"
  proof -
    have lb: "lists_distinct b" using kb l by (simp add: keeps_def)
    have "fn \<notin> set (dict_get_or [] (build_targets c) t)" if "t \<in> set (dict_keys (build_targets c))" for t
      using kb g that l unfolding grows_def by (metis subsetD)
    moreover have "fn \<notin> set (dict_get_or [] (run_targets c) t)" if "t \<in> set (dict_keys (run_targets c))" for t
      using kc g that lb unfolding grows_def by metis
    ultimately show ?thesis unfolding offers_keys by blast
  qed
  with kb kc show ?thesis by (blast intro: keeps_trans)
qed

lemma fail_fn_fails: "fails (fail_fn n)"
proof (induction n)
  case (Suc n)
  have "keeps a b \<and> fn \<in> set (failed_fns b)" if r: "fail_fn (Suc n) fn a = Some (None, b)" for fn a b
  proof (cases "fn \<in> set (failed_fns a)")
    case False
    let ?a = "a\<lparr>failed_fns := failed_fns a @ [fn]\<rparr>"
    obtain c where "for_each (drop_build (fail_fn n) fn) (dict_keys (build_targets ?a)) ?a = Some (None, c)"
      "for_each (drop_run (fail_fn n) fn) (dict_keys (run_targets c)) c = Some (None, b)"
      using r False by (auto simp: Let_def and_then_None_iff)
    from fail_loops [OF Suc.IH this]
    have k: "keeps ?a b" and o: "lists_distinct ?a \<Longrightarrow> \<not> offers b fn" by auto
    have g: "grows a b" "fn \<in> set (failed_fns b)" using k by (auto simp: keeps_def grows_def)
    have l: "lists_distinct b" if "lists_distinct a" using k that by (simp add: keeps_def lists_distinct_def)
    have "consistent_upto F D R X b" if d: "lists_distinct a" and con: "consistent_upto F D R X a" for F D R X
    proof -
      have d': "lists_distinct ?a" using d by (simp add: lists_distinct_def)
      have "consistent_upto (insert fn F) D R X ?a" using con by (auto simp: consistent_upto_def offers_def)
      then have "consistent_upto (insert fn F) D R X b" using k d' unfolding keeps_def by blast
      with o [OF d'] show ?thesis by (auto simp: consistent_upto_def)
    qed
    with g l show ?thesis by (simp add: keeps_def)
  qed (use r in simp)
  then show ?case unfolding fails_def by blast
qed (simp add: fails_def)

subsection \<open>Fuel and exceptions\<close>

text \<open>A run returns, and raises only the error for an external target in \<open>halt\<close> mode.\<close>

definition returns :: "taskdata \<Rightarrow> taskdata run \<Rightarrow> bool" where
  "returns td r \<longleftrightarrow> (\<exists>b. r = Some (None, b)) \<or>
     (\<exists>t b. r = Some (Some (NoProvider t), b) \<and> halt td \<and> t \<in> set (external_targets td))"

lemma returns_return [simp]: "returns td (return s)"
  by (simp add: returns_def return_def)

lemma returns_cong: "halt b = halt a \<Longrightarrow> external_targets b = external_targets a \<Longrightarrow> returns b = returns a"
  by (auto simp: returns_def fun_eq_iff)

lemma returns_and_then:
  assumes "returns td r" and "\<And>s. r = Some (None, s) \<Longrightarrow> returns td (f s)"
  shows "returns td (and_then r f)"
  using assms by (auto simp: returns_def and_then_def split: option.splits)

lemma returns_for_each:
  assumes "P s" and "\<And>x a. x \<in> set xs \<Longrightarrow> P a \<Longrightarrow> returns td (f x a)"
    and "\<And>x a b. x \<in> set xs \<Longrightarrow> P a \<Longrightarrow> f x a = Some (None, b) \<Longrightarrow> P b"
  shows "returns td (for_each f xs s)"
  using assms
proof (induction xs arbitrary: s)
  case Nil
  then show ?case by (simp add: returns_def return_def)
next
  case (Cons x xs)
  have "returns td (f x s)" by (rule Cons.prems(2) [OF _ Cons.prems(1)]) simp
  moreover have "returns td (for_each f xs b)" if "f x s = Some (None, b)" for b
  proof (rule Cons.IH)
    show "P b" by (rule Cons.prems(3) [OF _ Cons.prems(1) that]) simp
    show "returns td (f y c)" if "y \<in> set xs" "P c" for y c
      using that by (intro Cons.prems(2)) auto
    show "P d" if "y \<in> set xs" "P c" "f y c = Some (None, d)" for y c d
      by (rule Cons.prems(3) [OF _ that(2,3)]) (simp add: that(1))
  qed
  ultimately show ?case by (auto intro: returns_and_then)
qed

text \<open>
  \<open>below V m a b\<close>: \<open>b\<close> came from \<open>a\<close>, its files are among \<open>V\<close>, and at most \<open>m\<close> of them
  have not failed yet.
\<close>

definition below :: "string set \<Rightarrow> nat \<Rightarrow> taskdata \<Rightarrow> taskdata \<Rightarrow> bool" where
  "below V m a b \<longleftrightarrow> grows a b \<and> set (files_of b) \<subseteq> V \<and> card (V - set (failed_fns b)) \<le> m"

lemma files_of_grows: "grows a b \<Longrightarrow> files_of b = files_of a"
  by (simp add: files_of_def grows_def)

lemma below_grows: "finite V \<Longrightarrow> below V m a b \<Longrightarrow> grows b c \<Longrightarrow> below V m a c"
proof -
  assume V: "finite V" and b: "below V m a b" and g: "grows b c"
  have "V - set (failed_fns c) \<subseteq> V - set (failed_fns b)" using g by (auto simp: grows_def)
  then have "card (V - set (failed_fns c)) \<le> card (V - set (failed_fns b))"
    using V by (intro card_mono) auto
  with b g show ?thesis by (auto simp: below_def files_of_grows [OF g] intro: grows_trans)
qed

lemma below_keeps: "finite V \<Longrightarrow> below V m a b \<Longrightarrow> keeps b c \<Longrightarrow> below V m a c"
  by (auto simp: keeps_def intro: below_grows)

definition fail_returns :: "string set \<Rightarrow> nat \<Rightarrow> taskdata \<Rightarrow> (string \<Rightarrow> taskdata \<Rightarrow> taskdata run) \<Rightarrow> bool" where
  "fail_returns V m a fail \<longleftrightarrow> (\<forall>fn b. fn \<in> V \<longrightarrow> below V m a b \<longrightarrow> returns a (fail fn b))"

lemma get_dependees_files: "fn \<in> set (get_dependees td t) \<Longrightarrow> fn \<in> set (files_of td)"
  by (auto simp: get_dependees_def files_of_def)

lemma get_rdependees_files: "fn \<in> set (get_rdependees td t) \<Longrightarrow> fn \<in> set (files_of td)"
  by (auto simp: get_rdependees_def files_of_def)

lemma idepends_returns:
  assumes V: "finite V" and f: "fails fail" and r: "fail_returns V m a fail" and b: "below V m a b"
  shows "returns a (for_each (\<lambda>(tid, te) td.
      for_each (\<lambda>(i, _) td. if i = target then fail (fn_from_tid tid) td else return td) (sel te) td) (taskentries b) b)"
proof (rule returns_for_each [where P = "below V m a", OF b])
  fix x c
  assume x: "x \<in> set (taskentries b)" and c: "below V m a c"
  obtain tid te where te: "x = (tid, te)" by force
  have "fn_from_tid tid \<in> set (files_of b)" using x te by (force simp: files_of_def)
  then have v: "fn_from_tid tid \<in> V" using b by (auto simp: below_def)
  have "returns a (for_each (\<lambda>(i, _) td. if i = target then fail (fn_from_tid tid) td else return td) (sel te) c)"
  proof (rule returns_for_each [where P = "below V m a", OF c])
    fix y d
    assume "below V m a d"
    then show "returns a ((case y of (i, _) \<Rightarrow> \<lambda>td. if i = target then fail (fn_from_tid tid) td else return td) d)"
      using r v by (cases y) (auto simp: fail_returns_def returns_def return_def)
  next
    fix y d e
    assume "below V m a d" "(case y of (i, _) \<Rightarrow> \<lambda>td. if i = target then fail (fn_from_tid tid) td else return td) d = Some (None, e)"
    then show "below V m a e"
      by (cases y) (auto dest: failsD [OF f] intro: below_keeps [OF V] split: if_splits)
  qed
  then show "returns a ((case x of (tid, te) \<Rightarrow> \<lambda>td. for_each (\<lambda>(i, _) td. if i = target then fail (fn_from_tid tid) td else return td) (sel te) td) c)"
    by (simp add: te)
next
  fix x c d
  assume c: "below V m a c"
    and r: "(case x of (tid, te) \<Rightarrow> \<lambda>td. for_each (\<lambda>(i, _) td. if i = target then fail (fn_from_tid tid) td else return td) (sel te) td) c = Some (None, d)"
  obtain tid te where te: "x = (tid, te)" by force
  with r have "for_each (\<lambda>(i, _) td. if i = target then fail (fn_from_tid tid) td else return td) (sel te) c = Some (None, d)"
    by simp
  then have "keeps c d"
    by (rule for_each_keeps) (auto dest: failsD [OF f] split: if_splits)
  with c show "below V m a d" by (rule below_keeps [OF V])
qed

lemma remove_build_with_returns:
  assumes V: "finite V" and f: "fails fail" and r: "fail_returns V m a fail" and b: "below V m a b"
  shows "returns a (remove_build_with fail target b)"
proof -
  let ?b = "b\<lparr>failed_deps := failed_deps b @ [target]\<rparr>"
  have "grows b ?b" by (auto simp: grows_def)
  then have b': "below V m a ?b" by (rule below_grows [OF V b])
  have dep: "fn \<in> V" if "fn \<in> set (get_dependees ?b target)" for fn
    using get_dependees_files [OF that] b' by (auto simp: below_def)
  have 1: "returns a (for_each fail (get_dependees ?b target) ?b)"
    by (rule returns_for_each [where P = "below V m a", OF b'])
      (use r dep in \<open>auto simp: fail_returns_def dest: failsD [OF f] intro: below_keeps [OF V]\<close>)
  have 2: "below V m a c" if "for_each fail (get_dependees ?b target) ?b = Some (None, c)" for c
    using for_each_keeps [OF that] failsD [OF f] by (blast intro: below_keeps [OF V b'])
  have 3: "halt c = halt a \<and> external_targets c = external_targets a" if "below V m a c" for c
    using that by (simp add: below_def grows_def)
  show ?thesis
    unfolding remove_build_with_def Let_def
  proof (intro returns_and_then 1)
    fix c
    assume c: "for_each fail (get_dependees ?b target) ?b = Some (None, c)"
    show "returns a (for_each (\<lambda>(tid, te) td.
        for_each (\<lambda>(i, _) td. if i = target then fail (fn_from_tid tid) td else return td) (te_idepends te) td) (taskentries c) c)"
      by (rule idepends_returns [OF V f r 2 [OF c]])
    fix d
    assume d: "for_each (\<lambda>(tid, te) td.
        for_each (\<lambda>(i, _) td. if i = target then fail (fn_from_tid tid) td else return td) (te_idepends te) td) (taskentries c) c = Some (None, d)"
    have "below V m a d" by (rule below_keeps [OF V 2 [OF c] idepends_keeps [OF f d]])
    from 3 [OF this]
    show "returns a (if halt d \<and> target \<in> set (external_targets d) then raised (NoProvider target) d else return d)"
      by (auto simp: returns_def raised_def return_def)
  qed
qed

lemma remove_run_with_returns:
  assumes V: "finite V" and f: "fails fail" and r: "fail_returns V m a fail" and b: "below V m a b"
  shows "returns a (remove_run_with fail target b)"
proof -
  let ?b = "b\<lparr>failed_rdeps := failed_rdeps b @ [target]\<rparr>"
  have "grows b ?b" by (auto simp: grows_def)
  then have b': "below V m a ?b" by (rule below_grows [OF V b])
  have dep: "fn \<in> V" if "fn \<in> set (get_rdependees ?b target)" for fn
    using get_rdependees_files [OF that] b' by (auto simp: below_def)
  have 1: "returns a (for_each fail (get_rdependees ?b target) ?b)"
    by (rule returns_for_each [where P = "below V m a", OF b'])
      (use r dep in \<open>auto simp: fail_returns_def dest: failsD [OF f] intro: below_keeps [OF V]\<close>)
  have 2: "below V m a c" if "for_each fail (get_rdependees ?b target) ?b = Some (None, c)" for c
    using for_each_keeps [OF that] failsD [OF f] by (blast intro: below_keeps [OF V b'])
  show ?thesis
    unfolding remove_run_with_def Let_def
    by (intro returns_and_then 1 idepends_returns [OF V f r 2])
qed

lemma drop_build_returns:
  assumes V: "finite V" and f: "fails fail" and r: "fail_returns V m a fail" and b: "below V m a b"
    and t: "target \<in> set (dict_keys (build_targets b))"
  shows "returns a (drop_build fail fn target b)"
proof -
  let ?rest = "remove1 fn (dict_get_or [] (build_targets b) target)"
  let ?b = "b\<lparr>build_targets := dict_set target ?rest (build_targets b)\<rparr>"
  have "grows b ?b"
    using dict_set_same_keys [OF t, of ?rest] by (auto simp: grows_def dest: subsetD [OF set_remove1_subset])
  then have "below V m a ?b" by (rule below_grows [OF V b])
  from remove_build_with_returns [OF V f r this, of target] show ?thesis
    by (auto simp: drop_build_def Let_def)
qed

lemma drop_run_returns:
  assumes V: "finite V" and f: "fails fail" and r: "fail_returns V m a fail" and b: "below V m a b"
    and t: "target \<in> set (dict_keys (run_targets b))"
  shows "returns a (drop_run fail fn target b)"
proof -
  let ?rest = "remove1 fn (dict_get_or [] (run_targets b) target)"
  let ?b = "b\<lparr>run_targets := dict_set target ?rest (run_targets b)\<rparr>"
  have "grows b ?b"
    using dict_set_same_keys [OF t, of ?rest] by (auto simp: grows_def dest: subsetD [OF set_remove1_subset])
  then have "below V m a ?b" by (rule below_grows [OF V b])
  from remove_run_with_returns [OF V f r this, of target] show ?thesis
    by (auto simp: drop_run_def Let_def)
qed

lemma fail_fn_returns:
  assumes V: "finite V"
  shows "m < n \<Longrightarrow> fail_returns V m a (fail_fn n)"
proof (induction n arbitrary: m)
  case (Suc n)
  have "returns a (fail_fn (Suc n) fn b)" if fn: "fn \<in> V" and b: "below V m a b" for fn b
  proof (cases "fn \<in> set (failed_fns b)")
    case False
    let ?b = "b\<lparr>failed_fns := failed_fns b @ [fn]\<rparr>"
    have g: "grows b ?b" by (auto simp: grows_def)
    have "V - set (failed_fns ?b) \<subset> V - set (failed_fns b)" using fn False by auto
    then have "card (V - set (failed_fns ?b)) < card (V - set (failed_fns b))"
      using V by (intro psubset_card_mono) auto
    moreover have "grows a ?b" using b g by (auto simp: below_def intro: grows_trans)
    ultimately have b': "below V (m - 1) a ?b" and m: "m \<ge> 1"
      using b unfolding below_def files_of_grows [OF g] by linarith+
    have r: "fail_returns V (m - 1) a (fail_fn n)" using Suc m by auto
    note f = fail_fn_fails [of n]
    let ?I = "\<lambda>c. below V (m - 1) a c \<and> dict_keys (build_targets c) = dict_keys (build_targets b)"
    let ?J = "\<lambda>d c. below V (m - 1) a c \<and> dict_keys (run_targets c) = dict_keys (run_targets d)"
    have 1: "returns a (for_each (drop_build (fail_fn n) fn) (dict_keys (build_targets b)) ?b)"
    proof (rule returns_for_each [where P = ?I])
      show "?I ?b" using b' by simp
      show "returns a (drop_build (fail_fn n) fn t c)" if "t \<in> set (dict_keys (build_targets b))" "?I c" for t c
        using drop_build_returns [OF V f r, of c t fn] that by simp
      show "?I d" if "t \<in> set (dict_keys (build_targets b))" "?I c" "drop_build (fail_fn n) fn t c = Some (None, d)" for t c d
        using drop_build_keeps [OF f that(3)] that(1,2) below_keeps [OF V, of "m - 1" a c d] by (simp add: keeps_def grows_def)
    qed
    have 2: "returns a (for_each (drop_run (fail_fn n) fn) (dict_keys (run_targets d)) d)"
      if d: "for_each (drop_build (fail_fn n) fn) (dict_keys (build_targets b)) ?b = Some (None, d)" for d
    proof (rule returns_for_each [where P = "?J d"])
      have "?I d"
      proof (rule for_each_invariant [OF d, where P = ?I])
        show "?I ?b" using b' by simp
        show "?I e" if "t \<in> set (dict_keys (build_targets b))" "?I c" "drop_build (fail_fn n) fn t c = Some (None, e)" for t c e
          using drop_build_keeps [OF f that(3)] that(1,2) below_keeps [OF V, of "m - 1" a c e] by (simp add: keeps_def grows_def)
      qed
      then show "?J d d" by simp
      show "returns a (drop_run (fail_fn n) fn t c)" if "t \<in> set (dict_keys (run_targets d))" "?J d c" for t c
        using drop_run_returns [OF V f r, of c t fn] that by simp
      show "?J d e" if "t \<in> set (dict_keys (run_targets d))" "?J d c" "drop_run (fail_fn n) fn t c = Some (None, e)" for t c e
        using drop_run_keeps [OF f that(3)] that(1,2) below_keeps [OF V, of "m - 1" a c e] by (simp add: keeps_def grows_def)
    qed
    show ?thesis using False returns_and_then [OF 1 2] by (simp add: Let_def)
  qed (simp add: returns_def return_def)
  then show ?case unfolding fail_returns_def by blast
qed simp

text \<open>The fuel of the model is enough.\<close>

lemma fail_fn_total: "returns td (fail_fn (fail_fuel td) fn td)"
proof -
  let ?V = "insert fn (set (files_of td))"
  have "card (?V - set (failed_fns td)) \<le> card ?V" by (intro card_mono) auto
  also have "\<dots> \<le> Suc (length (files_of td))"
    using card_length [of "files_of td"] card_insert_le_m1 [of "Suc (length (files_of td))" "set (files_of td)" fn]
    by simp
  finally have "below ?V (length (files_of td) + 1) td td" by (auto simp: below_def)
  moreover have "fail_returns ?V (length (files_of td) + 1) td (fail_fn (fail_fuel td))"
    by (rule fail_fn_returns) (simp_all add: fail_fuel_def)
  ultimately show ?thesis unfolding fail_returns_def by blast
qed

subsection \<open>Adding tasks and providers\<close>

text \<open>
  What the operations take from outside: the configuration, regular expressions (\<open>re.match\<close>
  on a string, and on a pattern that may not compile), and the effect on the cache of a
  recipe's \<open>calculate_extra_depends\<close> code.
\<close>

record renv =
  env_gv :: "string \<Rightarrow> string option"
  env_rm :: "string \<Rightarrow> string \<Rightarrow> bool"
  env_rx :: "string \<Rightarrow> string \<Rightarrow> bool option"
  env_extra :: "string \<Rightarrow> (data_cache \<Rightarrow> data_cache) option"

type_synonym tstate = "taskdata \<times> data_cache"

definition with_cache :: "taskdata run \<Rightarrow> data_cache \<Rightarrow> tstate run" where
  "with_cache r dc = map_option (\<lambda>(e, td). (e, (td, dc))) r"

definition parse_dep :: "string \<Rightarrow> (string \<times> string) result" where
  "parse_dep dep = (case split_on colon dep of [a, b] \<Rightarrow> Inr (a, b) | _ \<Rightarrow> Inl Fatal)"

definition handle_deps :: "task_deps \<Rightarrow> string \<Rightarrow> string \<Rightarrow> (string \<times> string) list result" where
  "handle_deps deps task flag =
     (case task_flag deps flag task of
        None \<Rightarrow> Inr []
      | Some v \<Rightarrow> foldE (\<lambda>dep ids. bindE (parse_dep dep) (\<lambda>d. Inr (ids @ [d]))) (split_ws v) [])"

definition add_mcdepends :: "task_deps \<Rightarrow> string \<Rightarrow> taskdata \<Rightarrow> taskdata result" where
  "add_mcdepends deps task td =
     (case task_flag deps ''mcdepends'' task of
        None \<Rightarrow> Inr td
      | Some v \<Rightarrow> foldE (\<lambda>dep td. if length (split_on colon dep) \<noteq> 5 then Inl Fatal
                               else Inr (td\<lparr>mcdepends := set_add dep (mcdepends td)\<rparr>)) (split_ws v) td)"

definition add_task :: "string \<Rightarrow> task_deps \<Rightarrow> string \<Rightarrow> taskdata \<Rightarrow> taskdata result" where
  "add_task fn deps task td =
     bindE (dict_get (td_parents deps) task) (\<lambda>parents.
     bindE (handle_deps deps task ''depends'') (\<lambda>ids.
     bindE (handle_deps deps task ''rdepends'') (\<lambda>rids.
       let parentids = map (\<lambda>dep. fn @ [colon] @ dep) (filter (\<lambda>dep. dep \<in> set (td_tasks deps)) parents);
           td = td\<lparr>taskentries := dict_set (fn @ [colon] @ task)
                     \<lparr>te_tdepends = parentids, te_idepends = ids, te_irdepends = rids\<rparr> (taskentries td)\<rparr>;
           td = fold (\<lambda>d. seen_build_target (fst d)) ids td;
           td = fold (\<lambda>d. seen_run_target (fst d)) rids td
       in add_mcdepends deps task td)))"

definition add_depids :: "string \<Rightarrow> data_cache \<Rightarrow> taskdata \<Rightarrow> taskdata" where
  "add_depids fn dc td =
     (let td = (if fn \<in> set (dict_keys (depids td)) then td
                else td\<lparr>depids := dict_set fn (remdups (dict_get_or [] (dc_deps dc) fn)) (depids td)\<rparr>);
          rdepends = concat (map snd (dict_get_or [] (rundeps dc) fn)) @ concat (map snd (dict_get_or [] (runrecs dc) fn))
      in if fn \<in> set (dict_keys (rdepids td)) then td
         else td\<lparr>rdepids := dict_set fn (remdups rdepends) (rdepids td)\<rparr>)"

text \<open>The closing loops of \<open>add_tasks\<close>: a failed dependency fails the file and returns.\<close>

fun check_rdeps :: "string \<Rightarrow> string list \<Rightarrow> taskdata \<Rightarrow> taskdata run" where
  "check_rdeps fn [] td = return td"
| "check_rdeps fn (dep # deps) td =
     (let td = seen_run_target dep td
      in if dep \<in> set (failed_rdeps td) then fail_fn (fail_fuel td) fn td else check_rdeps fn deps td)"

fun check_deps :: "string \<Rightarrow> string list \<Rightarrow> string list \<Rightarrow> taskdata \<Rightarrow> taskdata run" where
  "check_deps fn [] rdeps td = check_rdeps fn rdeps td"
| "check_deps fn (dep # deps) rdeps td =
     (let td = seen_build_target dep td
      in if dep \<in> set (failed_deps td) then fail_fn (fail_fuel td) fn td else check_deps fn deps rdeps td)"

definition add_extra_deps :: "renv \<Rightarrow> string \<Rightarrow> data_cache \<Rightarrow> data_cache result" where
  "add_extra_deps env fn dc =
     (case env_extra env fn of
        None \<Rightarrow> Inr dc
      | Some f \<Rightarrow> bindE (buildWorldTargetList None dc) (\<lambda>dc.
          bindE (dict_get (pkg_fn dc) fn) (\<lambda>pn. Inr (f dc))))"

definition add_tasks :: "renv \<Rightarrow> string \<Rightarrow> tstate \<Rightarrow> tstate run" where
  "add_tasks env fn = (\<lambda>(td, dc).
     on_result (dict_get (task_deps_of dc) fn) (td, dc) (\<lambda>deps.
     if fn \<in> set (failed_fns td) then raised Fatal (td, dc)
     else if fn \<in> set (seenfns td) then return (td, dc)
     else
       let td = td\<lparr>seenfns := seenfns td @ [fn]\<rparr> in
       on_result (add_extra_deps env fn dc) (td, dc) (\<lambda>dc.
       on_result (foldE (add_task fn deps) (td_tasks deps) td) (td, dc) (\<lambda>td.
       let td = add_depids fn dc td in
       with_cache (check_deps fn (dict_get_or [] (depids td) fn) (dict_get_or [] (rdepids td) fn) td) dc))))"

definition note_choice :: "string \<Rightarrow> taskdata \<Rightarrow> taskdata" where
  "note_choice item td = td\<lparr>consider_msgs_cache := consider_msgs_cache td @ [item]\<rparr>"

definition add_provider_internal :: "renv \<Rightarrow> string \<Rightarrow> tstate \<Rightarrow> tstate run" where
  "add_provider_internal env item = (\<lambda>(td, dc).
     if re_match_strings (env_rm env) item (ignored_dependencies dc) then return (td, dc)
     else case map_of (providers dc) item of
       None \<Rightarrow>
         on_result (getRuntimeProviders (env_rx env) dc item) (td, dc) (\<lambda>all_p.
         on_result (foldE (\<lambda>fn _. bindE (dict_get (pkg_fn dc) fn) (\<lambda>_. Inr ())) all_p ()) (td, dc) (\<lambda>_.
           raised (NoProvider item) (td, dc)))
     | Some all_p \<Rightarrow>
         if have_build_target td item then return (td, dc)
         else
           let dc = dc\<lparr>providers := dict_set item (sort all_p) (providers dc)\<rparr> in
           on_result (filterProviders all_p item (env_gv env) dc) (td, dc) (\<lambda>(eligible, unique, dc).
           let eligible = filter (\<lambda>p. p \<notin> set (failed_fns td)) eligible in
           if eligible = [] then raised (NoProvider item) (td, dc)
           else
             let td = (if length eligible > 1 \<and> \<not> unique then note_choice item td else td) in
             for_each (\<lambda>fn (td, dc).
                 if fn \<in> set (failed_fns td) then return (td, dc)
                 else add_tasks env fn (add_build_target fn item td, dc)) eligible (td, dc)))"

text \<open>\<open>add_provider\<close>: without \<open>halt\<close> a missing provider removes the target.\<close>

definition add_provider :: "renv \<Rightarrow> string \<Rightarrow> tstate \<Rightarrow> tstate run" where
  "add_provider env item s =
     and_then
       (case add_provider_internal env item s of
          Some (Some (NoProvider t), (td, dc)) \<Rightarrow>
            if halt td then raised (NoProvider t) (td, dc) else with_cache (remove_buildtarget item td) dc
        | r \<Rightarrow> r)
       (\<lambda>(td, dc). return (mark_external_target item td, dc))"

definition add_rprovider :: "renv \<Rightarrow> string \<Rightarrow> tstate \<Rightarrow> tstate run" where
  "add_rprovider env item = (\<lambda>(td, dc).
     if re_match_strings (env_rm env) item (ignored_dependencies dc) then return (td, dc)
     else if have_runtime_target td item then return (td, dc)
     else
       on_result (getRuntimeProviders (env_rx env) dc item) (td, dc) (\<lambda>all_p.
       if all_p = [] then raised (NoRProvider item) (td, dc)
       else
         on_result (filterProvidersRunTime all_p item (env_gv env) dc) (td, dc) (\<lambda>(eligible, numberPreferred).
         let eligible = filter (\<lambda>p. p \<notin> set (failed_fns td)) eligible in
         if eligible = [] then raised (NoRProvider item) (td, dc)
         else
           let td = (if length eligible > 1 \<and> numberPreferred = 0 then note_choice item td else td) in
           if numberPreferred > 1 then raised (MultipleRProvider item) (note_choice item td, dc)
           else
             for_each (\<lambda>fn (td, dc).
                 if fn \<in> set (failed_fns td) then return (td, dc)
                 else add_tasks env fn (add_runtime_target fn item td, dc)) eligible (td, dc))))"

text \<open>One round of \<open>add_unresolved\<close>, with the count of what was added, and its loop.\<close>

definition resolve_build :: "renv \<Rightarrow> string \<Rightarrow> nat \<times> tstate \<Rightarrow> (nat \<times> tstate) run" where
  "resolve_build env target = (\<lambda>(added, s).
     case add_provider_internal env target s of
       Some (None, s') \<Rightarrow> return (added + 1, s')
     | Some (Some (NoProvider t), (td, dc)) \<Rightarrow>
         if halt td \<and> target \<in> set (external_targets td) \<and> \<not> allowincomplete td
         then raised (NoProvider t) (added, (td, dc))
         else if \<not> allowincomplete td
           then map_option (\<lambda>(e, td). (e, (added, (td, dc)))) (remove_buildtarget target td)
           else return (added, (td, dc))
     | Some (e, s') \<Rightarrow> Some (e, (added, s'))
     | None \<Rightarrow> None)"

definition resolve_run :: "renv \<Rightarrow> string \<Rightarrow> nat \<times> tstate \<Rightarrow> (nat \<times> tstate) run" where
  "resolve_run env target = (\<lambda>(added, s).
     case add_rprovider env target s of
       Some (None, s') \<Rightarrow> return (added + 1, s')
     | Some (Some (NoRProvider t), (td, dc)) \<Rightarrow>
         map_option (\<lambda>(e, td). (e, (added, (td, dc)))) (remove_runtarget target td)
     | Some (Some (MultipleRProvider t), (td, dc)) \<Rightarrow>
         map_option (\<lambda>(e, td). (e, (added, (td, dc)))) (remove_runtarget target td)
     | Some (e, s') \<Rightarrow> Some (e, (added, s'))
     | None \<Rightarrow> None)"

definition resolve_round :: "renv \<Rightarrow> tstate \<Rightarrow> (nat \<times> tstate) run" where
  "resolve_round env s =
     and_then (for_each (resolve_build env) (get_unresolved_build_targets (env_rm env) (fst s) (snd s)) (0, s)) (\<lambda>(added, s).
       for_each (resolve_run env) (get_unresolved_run_targets (env_rm env) (fst s) (snd s)) (added, s))"

fun add_unresolved :: "nat \<Rightarrow> renv \<Rightarrow> tstate \<Rightarrow> tstate run" where
  "add_unresolved 0 env s = None"
| "add_unresolved (Suc n) env s =
     (case resolve_round env s of
        None \<Rightarrow> None
      | Some (Some e, (_, s')) \<Rightarrow> raised e s'
      | Some (None, (added, s')) \<Rightarrow> if added = 0 then return s' else add_unresolved n env s')"

subsection \<open>The operations keep the database consistent\<close>

text \<open>In \<open>--continue\<close> mode, up to the files \<open>X\<close> whose dependencies have not been looked at.\<close>

definition good_upto :: "string set \<Rightarrow> taskdata \<Rightarrow> bool" where
  "good_upto X td \<longleftrightarrow> \<not> halt td \<and> lists_distinct td \<and> consistent_upto {} {} {} X td"

definition leaves :: "(taskdata \<Rightarrow> bool) \<Rightarrow> ('s \<Rightarrow> taskdata) \<Rightarrow> 's run \<Rightarrow> bool" where
  "leaves P td_of r \<longleftrightarrow> (\<forall>e s. r = Some (e, s) \<longrightarrow> P (td_of s))"

lemma leaves_simps [simp]:
  "leaves P td_of (return s) = P (td_of s)" "leaves P td_of (raised e s) = P (td_of s)"
  "leaves P td_of None" "leaves P td_of (Some (oe, s)) = P (td_of s)"
  by (auto simp: leaves_def return_def raised_def)

lemma leaves_and_then:
  assumes "leaves P td_of r" and "\<And>s. r = Some (None, s) \<Longrightarrow> P (td_of s) \<Longrightarrow> leaves P td_of (f s)"
  shows "leaves P td_of (and_then r f)"
  using assms by (auto simp: leaves_def and_then_def split: option.splits)

lemma leaves_for_each:
  assumes "P (td_of s)" and "\<And>x s. x \<in> set xs \<Longrightarrow> P (td_of s) \<Longrightarrow> leaves P td_of (f x s)"
  shows "leaves P td_of (for_each f xs s)"
  using assms
proof (induction xs arbitrary: s)
  case (Cons x xs)
  show ?case
    unfolding for_each.simps
  proof (rule leaves_and_then)
    show "leaves P td_of (f x s)" by (rule Cons.prems(2) [OF _ Cons.prems(1)]) simp
    show "leaves P td_of (for_each f xs s')" if "P (td_of s')" for s'
      using Cons.IH [OF that] Cons.prems(2) by auto
  qed
qed simp

lemma leaves_on_result:
  "P (td_of s) \<Longrightarrow> (\<And>x. r = Inr x \<Longrightarrow> leaves P td_of (f x)) \<Longrightarrow> leaves P td_of (on_result r s f)"
  by (cases r) (auto simp: on_result_def)

lemma leaves_with_cache: "leaves P (\<lambda>td. td) r \<Longrightarrow> leaves P fst (with_cache r dc)"
  by (auto simp: leaves_def with_cache_def)

lemma returns_no_halt: "returns td r \<Longrightarrow> \<not> halt td \<Longrightarrow> \<exists>b. r = Some (None, b)"
  by (auto simp: returns_def)

lemma good_keeps: "good_upto X a \<Longrightarrow> keeps a b \<Longrightarrow> good_upto X b"
  by (auto simp: good_upto_def keeps_def grows_def)

lemma good_upto_failed: "good_upto {fn} b \<Longrightarrow> fn \<in> set (failed_fns b) \<Longrightarrow> good_upto {} b"
  unfolding good_upto_def consistent_upto_def by fastforce

lemma good_upto_checked:
  assumes "good_upto {fn} b" and "\<forall>d \<in> set (dict_get_or [] (depids b) fn). d \<notin> set (failed_deps b)"
    and "\<forall>d \<in> set (dict_get_or [] (rdepids b) fn). d \<notin> set (failed_rdeps b)"
  shows "good_upto {} b"
  using assms unfolding good_upto_def consistent_upto_def by fastforce

lemma fail_fn_leaves:
  assumes "good_upto {fn} td"
  shows "leaves (good_upto {}) (\<lambda>td. td) (fail_fn (fail_fuel td) fn td)"
proof -
  obtain b where b: "fail_fn (fail_fuel td) fn td = Some (None, b)"
    using returns_no_halt [OF fail_fn_total] assms by (auto simp: good_upto_def)
  from failsD [OF fail_fn_fails this] have k: "keeps td b" "fn \<in> set (failed_fns b)" by auto
  with good_keeps [OF assms] have "good_upto {} b" by (intro good_upto_failed) auto
  with b show ?thesis by simp
qed

lemma remove_leaves:
  assumes "good_upto X td"
  shows "leaves (good_upto X) (\<lambda>td. td) (remove_buildtarget t td)" "leaves (good_upto X) (\<lambda>td. td) (remove_runtarget t td)"
proof -
  let ?V = "set (files_of td)"
  have V: "fail_returns ?V (card ?V) td (fail_fn (fail_fuel td))"
    using card_length [of "files_of td"] by (intro fail_fn_returns) (simp_all add: fail_fuel_def)
  have "card (?V - set (failed_fns td)) \<le> card ?V" by (intro card_mono) auto
  then have b: "below ?V (card ?V) td td" by (simp add: below_def)
  have h: "\<not> halt td" using assms by (simp add: good_upto_def)
  obtain c where c: "remove_buildtarget t td = Some (None, c)"
    using returns_no_halt [OF remove_build_with_returns [OF _ fail_fn_fails V b] h] by (auto simp: remove_buildtarget_def)
  with good_keeps [OF assms remove_build_with_keeps [OF fail_fn_fails]]
  show "leaves (good_upto X) (\<lambda>td. td) (remove_buildtarget t td)" by (auto simp: remove_buildtarget_def)
  obtain d where d: "remove_runtarget t td = Some (None, d)"
    using returns_no_halt [OF remove_run_with_returns [OF _ fail_fn_fails V b] h] by (auto simp: remove_runtarget_def)
  with good_keeps [OF assms remove_run_with_keeps [OF fail_fn_fails]]
  show "leaves (good_upto X) (\<lambda>td. td) (remove_runtarget t td)" by (auto simp: remove_runtarget_def)
qed

text \<open>Steps that add entries but touch neither the provider lists nor the failures.\<close>

definition same_lists :: "taskdata \<Rightarrow> taskdata \<Rightarrow> bool" where
  "same_lists a b \<longleftrightarrow> failed_fns b = failed_fns a \<and> failed_deps b = failed_deps a \<and> failed_rdeps b = failed_rdeps a \<and>
     depids b = depids a \<and> rdepids b = rdepids a \<and> halt b = halt a \<and>
     dict_get_or [] (build_targets b) = dict_get_or [] (build_targets a) \<and>
     dict_get_or [] (run_targets b) = dict_get_or [] (run_targets a)"

lemma same_lists_good: "same_lists a b \<Longrightarrow> good_upto X b = good_upto X a"
  by (simp add: same_lists_def good_upto_def lists_distinct_def consistent_upto_def offers_def)

lemma same_lists_trans: "same_lists a b \<Longrightarrow> same_lists b c \<Longrightarrow> same_lists a c"
  by (simp add: same_lists_def)

lemma seen_same [simp]: "same_lists td (seen_build_target n td)" "same_lists td (seen_run_target n td)"
  by (auto simp: same_lists_def seen_build_target_def seen_run_target_def fun_eq_iff dict_get_or_missing)

lemma same_lists_refl [simp]: "same_lists a a"
  by (simp add: same_lists_def)

lemma add_mcdepends_same: "add_mcdepends deps task c = Inr d \<Longrightarrow> same_lists c d"
proof (cases "task_flag deps ''mcdepends'' task")
  case (Some v)
  assume "add_mcdepends deps task c = Inr d"
  with Some have "foldE (\<lambda>dep td. if length (split_on colon dep) \<noteq> 5 then Inl Fatal
      else Inr (td\<lparr>mcdepends := set_add dep (mcdepends td)\<rparr>)) (split_ws v) c = Inr d"
    by (simp add: add_mcdepends_def)
  then show ?thesis
    by (rule foldE_invariant [where P = "same_lists c"]) (auto simp: same_lists_def split: if_splits)
qed (simp add: add_mcdepends_def)

lemma add_task_same:
  assumes "add_task fn deps task td = Inr td'"
  shows "same_lists td td'"
proof -
  have 1: "same_lists c (fold (\<lambda>d. seen_build_target (fst d)) ids c)" for c and ids :: "(string \<times> string) list"
    by (rule fold_invariant' [where P = "same_lists c"]) (auto intro: same_lists_trans)
  have 2: "same_lists c (fold (\<lambda>d. seen_run_target (fst d)) ids c)" for c and ids :: "(string \<times> string) list"
    by (rule fold_invariant' [where P = "same_lists c"]) (auto intro: same_lists_trans)
  obtain parents ids rids where r: "dict_get (td_parents deps) task = Inr parents"
    "handle_deps deps task ''depends'' = Inr ids" "handle_deps deps task ''rdepends'' = Inr rids"
    using assms unfolding add_task_def bindE_Inr_iff by blast
  obtain te where "add_mcdepends deps task
      (fold (\<lambda>d. seen_run_target (fst d)) rids (fold (\<lambda>d. seen_build_target (fst d)) ids
        (td\<lparr>taskentries := dict_set (fn @ [colon] @ task) te (taskentries td)\<rparr>))) = Inr td'"
    using assms unfolding add_task_def r Let_def bindE_simps by blast
  from add_mcdepends_same [OF this]
  have "same_lists (td\<lparr>taskentries := dict_set (fn @ [colon] @ task) te (taskentries td)\<rparr>) td'"
    using 1 2 by (blast intro: same_lists_trans)
  then show ?thesis by (simp add: same_lists_def)
qed

lemma add_tasks_same:
  "foldE (add_task fn deps) ts td = Inr td' \<Longrightarrow> same_lists td td'"
  by (erule foldE_invariant [where P = "same_lists td"]) (auto intro: same_lists_trans add_task_same)

lemma add_depids_good:
  assumes "good_upto {} td"
  shows "good_upto {fn} (add_depids fn dc td)"
  using assms by (auto simp: add_depids_def Let_def good_upto_def lists_distinct_def consistent_upto_def offers_def)

text \<open>The closing check closes the gap that \<open>add_depids\<close> left.\<close>

lemma check_rdeps_leaves:
  assumes "good_upto {fn} td" and "\<forall>d \<in> set (dict_get_or [] (depids td) fn). d \<notin> set (failed_deps td)"
    and "set (dict_get_or [] (rdepids td) fn) \<subseteq> set rdeps \<union> - set (failed_rdeps td)"
  shows "leaves (good_upto {}) (\<lambda>td. td) (check_rdeps fn rdeps td)"
  using assms
proof (induction rdeps arbitrary: td)
  case Nil
  have "good_upto {} td" by (rule good_upto_checked [OF Nil(1)]) (use Nil in auto)
  then show ?case by simp
next
  case (Cons d rdeps)
  let ?td = "seen_run_target d td"
  have s: "same_lists td ?td" by simp
  then have g: "good_upto {fn} ?td" using Cons.prems(1) same_lists_good by blast
  show ?case
  proof (cases "d \<in> set (failed_rdeps ?td)")
    case True
    with fail_fn_leaves [OF g] show ?thesis by (simp add: Let_def)
  next
    case False
    have "leaves (good_upto {}) (\<lambda>td. td) (check_rdeps fn rdeps ?td)"
      using Cons.prems(2,3) False s by (intro Cons.IH [OF g]) (auto simp: same_lists_def)
    with False show ?thesis by (simp add: Let_def)
  qed
qed

lemma check_deps_leaves:
  assumes "good_upto {fn} td" and "set (dict_get_or [] (depids td) fn) \<subseteq> set deps \<union> - set (failed_deps td)"
    and "set (dict_get_or [] (rdepids td) fn) \<subseteq> set rdeps"
  shows "leaves (good_upto {}) (\<lambda>td. td) (check_deps fn deps rdeps td)"
  using assms
proof (induction deps arbitrary: td)
  case Nil
  have "leaves (good_upto {}) (\<lambda>td. td) (check_rdeps fn rdeps td)"
    by (rule check_rdeps_leaves [OF Nil(1)]) (use Nil in auto)
  then show ?case by simp
next
  case (Cons d deps)
  let ?td = "seen_build_target d td"
  have s: "same_lists td ?td" by simp
  then have g: "good_upto {fn} ?td" using Cons.prems(1) same_lists_good by blast
  show ?case
  proof (cases "d \<in> set (failed_deps ?td)")
    case True
    with fail_fn_leaves [OF g] show ?thesis by (simp add: Let_def)
  next
    case False
    have "leaves (good_upto {}) (\<lambda>td. td) (check_deps fn deps rdeps ?td)"
      using Cons.prems(2,3) False s by (intro Cons.IH [OF g]) (auto simp: same_lists_def)
    with False show ?thesis by (simp add: Let_def)
  qed
qed

lemma add_tasks_leaves:
  assumes "good_upto {} (fst s)"
  shows "leaves (good_upto {}) fst (add_tasks env fn s)"
proof -
  obtain td dc where s: "s = (td, dc)" by force
  let ?td = "td\<lparr>seenfns := seenfns td @ [fn]\<rparr>"
  have g: "good_upto {} ?td"
    using assms s by (simp add: good_upto_def lists_distinct_def consistent_upto_def offers_def)
  have "leaves (good_upto {}) fst (with_cache (check_deps fn (dict_get_or [] (depids (add_depids fn dc' td')) fn)
      (dict_get_or [] (rdepids (add_depids fn dc' td')) fn) (add_depids fn dc' td')) dc')"
    if "foldE (add_task fn deps) (td_tasks deps) ?td = Inr td'" for td' dc' deps
  proof -
    have "good_upto {} td'" using g same_lists_good [OF add_tasks_same [OF that]] by simp
    from check_deps_leaves [OF add_depids_good [OF this]] show ?thesis
      by (intro leaves_with_cache) simp
  qed
  then show ?thesis
    using assms g unfolding s add_tasks_def Let_def split
    by (intro leaves_on_result) (auto intro!: leaves_on_result simp: good_upto_def [of "{}" td])
qed


text \<open>Recording a provider that has not failed.\<close>

abbreviation good :: "taskdata \<Rightarrow> bool" where
  "good \<equiv> good_upto {}"

lemma add_target_good:
  assumes "good td" and "fn \<notin> set (failed_fns td)"
  shows "good (add_build_target fn item td)" "good (add_runtime_target fn item td)"
  using assms
  by (auto simp: good_upto_def consistent_upto_def lists_distinct_def offers_def add_build_target_def
      add_runtime_target_def set_add_def)

lemma note_choice_same [simp]: "good (note_choice item td) = good td" "failed_fns (note_choice item td) = failed_fns td"
  by (simp_all add: note_choice_def good_upto_def consistent_upto_def lists_distinct_def offers_def)

lemma mark_external_same [simp]: "good (mark_external_target t td) = good td"
  by (simp add: mark_external_target_def good_upto_def consistent_upto_def lists_distinct_def offers_def)

lemma add_eligible_leaves:
  assumes "good td" and add: "\<And>fn td. good td \<Longrightarrow> fn \<notin> set (failed_fns td) \<Longrightarrow> good (add fn td)"
  shows "leaves good fst (for_each (\<lambda>fn (td, dc).
      if fn \<in> set (failed_fns td) then return (td, dc) else add_tasks env fn (add fn td, dc)) fns (td, dc))"
proof (rule leaves_for_each)
  fix fn and s :: tstate
  assume "good (fst s)"
  then show "leaves good fst ((\<lambda>(td, dc). if fn \<in> set (failed_fns td) then return (td, dc)
      else add_tasks env fn (add fn td, dc)) s)"
    using add_tasks_leaves [of "(add fn (fst s), snd s)" env fn] add by (cases s) auto
qed (use assms(1) in simp)

lemma add_provider_internal_leaves:
  assumes "good (fst s)"
  shows "leaves good fst (add_provider_internal env item s)"
proof -
  obtain td dc where s: "s = (td, dc)" by force
  have g: "good td" using assms s by simp
  note a = add_eligible_leaves [where add = "\<lambda>fn. add_build_target fn item"]
  show ?thesis
  proof (cases "map_of (providers dc) item")
    case None
    then show ?thesis using g by (auto simp: s add_provider_internal_def intro!: leaves_on_result)
  next
    case (Some all_p)
    then show ?thesis using g add_target_good(1)
      by (auto simp: s add_provider_internal_def Let_def intro!: leaves_on_result a)
  qed
qed

lemma add_rprovider_leaves:
  assumes "good (fst s)"
  shows "leaves good fst (add_rprovider env item s)"
proof -
  obtain td dc where s: "s = (td, dc)" by force
  have g: "good td" using assms s by simp
  note a = add_eligible_leaves [where add = "\<lambda>fn. add_runtime_target fn item"]
  show ?thesis using g add_target_good(2)
    by (auto simp: s add_rprovider_def Let_def intro!: leaves_on_result a)
qed

lemma add_provider_leaves:
  assumes "good (fst s)"
  shows "leaves good fst (add_provider env item s)"
  unfolding add_provider_def
proof (rule leaves_and_then)
  from add_provider_internal_leaves [OF assms, of env item]
  show "leaves good fst (case add_provider_internal env item s of
      Some (Some (NoProvider t), (td, dc)) \<Rightarrow>
        if halt td then raised (NoProvider t) (td, dc) else with_cache (remove_buildtarget item td) dc
    | r \<Rightarrow> r)"
    by (auto simp: remove_leaves(1) intro!: leaves_with_cache split: option.split py_error.split prod.split)
qed (auto split: prod.splits)

lemma map_remove_leaves:
  assumes "leaves P (\<lambda>td. td) r"
  shows "leaves P (\<lambda>s. fst (snd s)) (map_option (\<lambda>(e, td). (e, (added, (td, dc)))) r)"
  using assms by (auto simp: leaves_def)

lemma resolve_build_leaves:
  assumes "good (fst (snd s))"
  shows "leaves good (\<lambda>s. fst (snd s)) (resolve_build env target s)"
proof -
  obtain added t where s: "s = (added, t)" by (cases s)
  show ?thesis
    using add_provider_internal_leaves [of t env target] assms unfolding s resolve_build_def split
    by (auto simp: remove_leaves(1) intro!: map_remove_leaves split: option.split py_error.split prod.split)
qed

lemma resolve_run_leaves:
  assumes "good (fst (snd s))"
  shows "leaves good (\<lambda>s. fst (snd s)) (resolve_run env target s)"
proof -
  obtain added t where s: "s = (added, t)" by (cases s)
  show ?thesis
    using add_rprovider_leaves [of t env target] assms unfolding s resolve_run_def split
    by (auto simp: remove_leaves(2) intro!: map_remove_leaves split: option.split py_error.split prod.split)
qed

lemma resolve_round_leaves:
  assumes "good (fst s)"
  shows "leaves good (\<lambda>s. fst (snd s)) (resolve_round env s)"
  unfolding resolve_round_def
proof (rule leaves_and_then)
  show "leaves good (\<lambda>s. fst (snd s)) (for_each (resolve_build env)
      (get_unresolved_build_targets (env_rm env) (fst s) (snd s)) (0, s))"
    by (rule leaves_for_each) (use assms resolve_build_leaves in auto)
  fix s1 :: "nat \<times> tstate"
  assume "good (fst (snd s1))"
  then show "leaves good (\<lambda>s. fst (snd s)) (case s1 of (added, s) \<Rightarrow>
      for_each (resolve_run env) (get_unresolved_run_targets (env_rm env) (fst s) (snd s)) (added, s))"
    by (cases s1) (auto intro!: leaves_for_each resolve_run_leaves)
qed

lemma add_unresolved_leaves:
  "good (fst s) \<Longrightarrow> leaves good fst (add_unresolved n env s)"
proof (induction n arbitrary: s)
  case (Suc n)
  from resolve_round_leaves [OF Suc.prems, of env] Suc.IH show ?case
    by (auto split: option.split prod.split)
qed simp

lemma remove_buildtarget_returns:
  assumes "good td"
  shows "\<exists>td'. remove_buildtarget t td = Some (None, td')"
proof -
  let ?V = "set (files_of td)"
  have V: "fail_returns ?V (card ?V) td (fail_fn (fail_fuel td))"
    using card_length [of "files_of td"] by (intro fail_fn_returns) (simp_all add: fail_fuel_def)
  have "card (?V - set (failed_fns td)) \<le> card ?V" by (intro card_mono) auto
  then have b: "below ?V (card ?V) td td" by (simp add: below_def)
  have "\<not> halt td" using assms by (simp add: good_upto_def)
  with returns_no_halt [OF remove_build_with_returns [OF _ fail_fn_fails V b]] show ?thesis
    by (simp add: remove_buildtarget_def)
qed

lemma remove_build_with_failed:
  assumes f: "fails fail" and r: "remove_build_with fail target a = Some (None, b)"
  shows "target \<in> set (failed_deps b) \<and> depids b = depids a"
proof -
  let ?a = "a\<lparr>failed_deps := failed_deps a @ [target]\<rparr>"
  obtain c where c: "for_each fail (get_dependees ?a target) ?a = Some (None, c)"
    and d: "for_each (\<lambda>(tid, te) td. for_each (\<lambda>(i, _) td. if i = target then fail (fn_from_tid tid) td else return td)
          (te_idepends te) td) (taskentries c) c = Some (None, b)"
    using r by (auto simp: remove_build_with_def Let_def and_then_None_iff raised_def split: if_splits)
  have "keeps ?a c" "keeps c b"
    using for_each_keeps [OF c] failsD [OF f] idepends_keeps [OF f d] by auto
  then show ?thesis by (auto simp: keeps_def grows_def)
qed

subsection \<open>Properties\<close>

text \<open>What the consistency of the database says, spelled out.\<close>

definition unbuildable_closed :: "taskdata \<Rightarrow> bool" where
  "unbuildable_closed td \<longleftrightarrow>
     (\<forall>f \<in> set (failed_fns td). \<forall>t. f \<notin> set (dict_get_or [] (build_targets td) t) \<and>
        f \<notin> set (dict_get_or [] (run_targets td) t)) \<and>
     (\<forall>f t. t \<in> set (failed_deps td) \<longrightarrow> t \<in> set (dict_get_or [] (depids td) f) \<longrightarrow> f \<in> set (failed_fns td)) \<and>
     (\<forall>f t. t \<in> set (failed_rdeps td) \<longrightarrow> t \<in> set (dict_get_or [] (rdepids td) f) \<longrightarrow> f \<in> set (failed_fns td))"

lemma good_unbuildable_closed: "good td \<longleftrightarrow> \<not> halt td \<and> lists_distinct td \<and> unbuildable_closed td"
  by (auto simp: good_upto_def consistent_upto_def offers_def unbuildable_closed_def)

lemma good_new: "good (new_taskdata False incomplete)"
  by (simp add: new_taskdata_def good_upto_def consistent_upto_def lists_distinct_def offers_def dict_get_or_def)

text \<open>
  What a build does with the database: requests for targets and runtime targets, resolution of
  the rest, and removals, in any order, exceptions included.
\<close>

datatype td_op = AddProvider string | AddRprovider string | AddUnresolved nat | RemoveBuild string | RemoveRun string

fun td_run :: "renv \<Rightarrow> td_op \<Rightarrow> tstate \<Rightarrow> tstate run" where
  "td_run env (AddProvider t) s = add_provider env t s"
| "td_run env (AddRprovider t) s = add_rprovider env t s"
| "td_run env (AddUnresolved n) s = add_unresolved n env s"
| "td_run env (RemoveBuild t) s = with_cache (remove_buildtarget t (fst s)) (snd s)"
| "td_run env (RemoveRun t) s = with_cache (remove_runtarget t (fst s)) (snd s)"

inductive td_reach :: "renv \<Rightarrow> bool \<Rightarrow> tstate \<Rightarrow> bool" for env incomplete where
  start: "td_reach env incomplete (new_taskdata False incomplete, dc)"
| step: "td_reach env incomplete s \<Longrightarrow> td_run env oper s = Some (e, s') \<Longrightarrow> td_reach env incomplete s'"

lemma td_run_leaves: "good (fst s) \<Longrightarrow> leaves good fst (td_run env oper s)"
  by (cases oper) (auto intro: add_provider_leaves add_rprovider_leaves add_unresolved_leaves
      intro!: leaves_with_cache simp: remove_leaves)

lemma td_reach_good: "td_reach env incomplete s \<Longrightarrow> good (fst s)"
proof (induction rule: td_reach.induct)
  case (start dc)
  show ?case by (simp add: good_new)
next
  case (step s oper e s')
  have "leaves good fst (Some (e, s'))" using td_run_leaves [OF step.IH, of env oper] step.hyps(2) by simp
  then show ?case by simp
qed

text \<open>
  An image whose only task waits for a task of \<open>boot\<close>, which nothing provides, and two recipes
  that depend on each other.
\<close>

definition image_cache :: data_cache where
  "image_cache = new_cache
     \<lparr>task_deps_of := [(''image.bb'', \<lparr>td_tasks = [''do_build''], td_parents = [(''do_build'', [])],
        td_flags = [(''depends'', [(''do_build'', ''boot:do_deploy'')])]\<rparr>)],
      pkg_fn := [(''image.bb'', ''image'')], pkg_pn := [(''image'', [''image.bb''])],
      pkg_pepvpr := [(''image.bb'', (''0'', ''1.0'', ''r0''))], pkg_dp := [(''image.bb'', 0)],
      pn_provides := [(''image'', [''image''])], providers := [(''image'', [''image.bb''])],
      dc_deps := [(''image.bb'', [])], rundeps := [(''image.bb'', [])], runrecs := [(''image.bb'', [])],
      bbfile_priority := [(''image.bb'', 5)]\<rparr>"

definition plain_env :: renv where
  "plain_env = \<lparr>env_gv = \<lambda>_. None, env_rm = \<lambda>p s. False, env_rx = \<lambda>p s. Some False, env_extra = \<lambda>_. None\<rparr>"

definition run_ops :: "renv \<Rightarrow> td_op list \<Rightarrow> tstate run" where
  "run_ops env ops = for_each (td_run env) ops (new_taskdata False False, image_cache)"

definition cyclic_db :: taskdata where
  "cyclic_db = (new_taskdata False False)
     \<lparr>build_targets := [(''a'', [''a.bb'']), (''b'', [''b.bb''])],
      depids := [(''a.bb'', [''b'']), (''b.bb'', [''a''])]\<rparr>"

lemma run_ops_reach:
  assumes "run_ops env ops = Some (None, s')"
  shows "td_reach env False s'"
  using assms unfolding run_ops_def
  by (rule for_each_invariant [where P = "td_reach env False"]) (auto intro: td_reach.intros)





text \<open>
  The same does not hold of the dependencies between single tasks: \<open>add_tasks\<close>
  looks at the failed targets for \<open>depids\<close> and \<open>rdepids\<close> only, so whether a recipe fails whose
  task waits for an unbuildable target depends on which of the two was asked for first.
\<close>

theorem late_idepends_survive:
  "map_option (\<lambda>(e, td, _). (e, failed_fns td)) (run_ops plain_env
     [AddProvider ''image'', AddProvider ''boot'', AddUnresolved 2]) = Some (None, [''image.bb'']) \<and>
   map_option (\<lambda>(e, td, _). (e, failed_fns td, failed_deps td, map (te_idepends \<circ> snd) (taskentries td)))
     (run_ops plain_env [AddProvider ''boot'', AddProvider ''image'', AddUnresolved 2]) =
   Some (None, [], [''boot''], [[(''boot'', ''do_deploy'')]])"
  by code_simp

end
