(* ===== verification/RunQueueDeps.thy ===== *)
theory RunQueueDeps
  imports RunQueueWeights TaskData
begin

text \<open>
  The dependency resolution of \<open>RunQueueData.prepare\<close> in \<open>bitbake/lib/bb/runqueue.py\<close>:
  step A, which turns the task database of every multiconfig into the task graph, and the
  computation of the recursive dependencies (\<open>recrdeptask\<close>).

  The code iterates over Python sets; the model keeps them as duplicate-free lists and
  iterates in list order.
\<close>

subsection \<open>Resolving one task\<close>

record prep =
  p_taskData :: "(string, taskdata) dict"
  p_rt :: rtentries
  p_rec :: "(tid, string list) dict"
  p_reci :: "(tid, tid list) dict"
  p_selfref :: "tid list"

text \<open>The tasks \<open>tasknames\<close> of the first provider of every name in \<open>depids\<close>, where they exist.\<close>

definition add_first_provider :: "taskdata \<Rightarrow> (string, string list) dict \<Rightarrow> string list \<Rightarrow> string list \<Rightarrow>
    tid list \<Rightarrow> tid list" where
  "add_first_provider td targets ids tasknames depends =
     fold (\<lambda>depname depends. case dict_get_or [] targets depname of
         [] \<Rightarrow> depends
       | depdata # _ \<Rightarrow> fold (\<lambda>taskname depends.
           if depdata @ [colon] @ taskname \<in> set (dict_keys (taskentries td))
           then set_add (depdata @ [colon] @ taskname) depends else depends) tasknames depends) ids depends"

definition add_build_dependencies :: "taskdata \<Rightarrow> string list \<Rightarrow> string list \<Rightarrow> tid list \<Rightarrow> tid list" where
  "add_build_dependencies td = add_first_provider td (build_targets td)"

definition add_runtime_dependencies :: "taskdata \<Rightarrow> string list \<Rightarrow> string list \<Rightarrow> tid list \<Rightarrow> tid list" where
  "add_runtime_dependencies td = add_first_provider td (run_targets td)"

definition append_tdepend :: "string \<Rightarrow> tid \<Rightarrow> tid \<Rightarrow> (string, taskdata) dict \<Rightarrow> (string, taskdata) dict result" where
  "append_tdepend mc tid newdep tds =
     bindE (dict_get tds mc) (\<lambda>td.
     bindE (dict_get (taskentries td) tid) (\<lambda>te.
       Inr (dict_set mc (td\<lparr>taskentries :=
         dict_set tid (te\<lparr>te_tdepends := te_tdepends te @ [newdep]\<rparr>) (taskentries td)\<rparr>) tds)))"

definition add_mc_dependencies :: "string \<Rightarrow> tid \<Rightarrow> (string, taskdata) dict \<Rightarrow> (string, taskdata) dict result" where
  "add_mc_dependencies mc tid tds =
     bindE (dict_get tds mc) (\<lambda>td.
       foldE (\<lambda>dep tds.
         let mcdependency = split_on colon dep in
         if length mcdependency < 5 then Inl IndexError
         else if mc = mcdependency ! 1 then
           bindE (dict_get tds (mcdependency ! 2)) (\<lambda>mctd.
           bindE (dict_get (build_targets mctd) (mcdependency ! 3)) (\<lambda>fns.
             case fns of
               [] \<Rightarrow> Inl IndexError
             | fn # _ \<Rightarrow> append_tdepend mc tid (fn @ [colon] @ (mcdependency ! 4)) tds))
         else Inr tds) (mcdepends td) tds)"

definition normal_tid :: "tid \<Rightarrow> tid result" where
  "normal_tid t = bindE (split_tid_mcfn t) (\<lambda>(depmc, depfn, deptaskname, _). Inr (build_tid depmc depfn deptaskname))"

text \<open>What a task flag asks for, if the task has it.\<close>

definition with_flag :: "task_deps \<Rightarrow> string \<Rightarrow> string \<Rightarrow> (string list \<Rightarrow> 's \<Rightarrow> 's result) \<Rightarrow> 's \<Rightarrow> 's result" where
  "with_flag deps flag taskname f s =
     (case task_flag deps flag taskname of None \<Rightarrow> Inr s | Some v \<Rightarrow> f (split_ws v) s)"

definition add_idepend :: "taskdata \<Rightarrow> (string \<times> string) \<Rightarrow> tid list \<Rightarrow> tid list result" where
  "add_idepend td = (\<lambda>(depname, idependtask) depends.
     case dict_get_or [] (build_targets td) depname of
       [] \<Rightarrow> Inr depends
     | depdata # _ \<Rightarrow>
         if depname \<in> set (failed_deps td) then Inr depends
         else if depdata @ [colon] @ idependtask \<in> set (dict_keys (taskentries td))
           then Inr (set_add (depdata @ [colon] @ idependtask) depends)
         else Inl Fatal)"

definition add_irdepend :: "taskdata \<Rightarrow> (string \<times> string) \<Rightarrow> tid list \<Rightarrow> tid list result" where
  "add_irdepend td = (\<lambda>(depname, idependtask) depends.
     case dict_get_or [] (run_targets td) depname of
       [] \<Rightarrow> Inr depends
     | depdata # _ \<Rightarrow>
         if depdata @ [colon] @ idependtask \<in> set (dict_keys (taskentries td))
           then Inr (set_add (depdata @ [colon] @ idependtask) depends)
         else Inl Fatal)"

text \<open>\<open>recrdeptask\<close>, part A: the direct part, and the entries for part B.\<close>

definition add_recrdeptask :: "task_deps \<Rightarrow> taskdata \<Rightarrow> tid \<Rightarrow> string \<times> string \<times> string \<times> string \<Rightarrow>
    prep \<times> tid list \<Rightarrow> (prep \<times> tid list) result" where
  "add_recrdeptask deps td tid = (\<lambda>(mc, fn, taskname, taskfn).
     with_flag deps ''recrdeptask'' taskname (\<lambda>tasknames (st, depends).
       bindE (dict_get (depids td) taskfn) (\<lambda>ids.
       bindE (dict_get (rdepids td) taskfn) (\<lambda>rids.
         let depends = add_runtime_dependencies td rids tasknames (add_build_dependencies td ids tasknames depends);
             st = st\<lparr>p_rec := dict_set tid tasknames (p_rec st)\<rparr>;
             st = (if taskname \<in> set tasknames then st\<lparr>p_selfref := set_add tid (p_selfref st)\<rparr> else st)
         in with_flag deps ''recideptask'' taskname (\<lambda>ts (st, depends).
              Inr (st\<lparr>p_reci := dict_set tid (map (build_tid mc fn) ts) (p_reci st)\<rparr>, depends)) (st, depends)))))"

text \<open>All dependencies of a task of a recipe that has not failed.\<close>

definition task_depends :: "task_deps \<Rightarrow> taskdata \<Rightarrow> tid \<Rightarrow> string \<times> string \<times> string \<times> string \<Rightarrow>
    prep \<Rightarrow> (prep \<times> tid list) result" where
  "task_depends deps td tid = (\<lambda>(mc, fn, taskname, taskfn) st.
     bindE (dict_get (taskentries td) tid) (\<lambda>te.
     bindE (foldE (\<lambda>t depends. bindE (normal_tid t) (\<lambda>t. Inr (set_add t depends))) (te_tdepends te) []) (\<lambda>depends.
     bindE (with_flag deps ''deptask'' taskname (\<lambda>tasknames depends.
       bindE (dict_get (depids td) taskfn) (\<lambda>ids. Inr (add_build_dependencies td ids tasknames depends))) depends) (\<lambda>depends.
     bindE (with_flag deps ''rdeptask'' taskname (\<lambda>tasknames depends.
       bindE (dict_get (rdepids td) taskfn) (\<lambda>ids. Inr (add_runtime_dependencies td ids tasknames depends))) depends) (\<lambda>depends.
     bindE (foldE (add_idepend td) (te_idepends te) depends) (\<lambda>depends.
     bindE (foldE (add_irdepend td) (te_irdepends te) depends) (\<lambda>depends.
       add_recrdeptask deps td tid (mc, fn, taskname, taskfn) (st, depends))))))))"

definition resolve_task :: "(string, data_cache) dict \<Rightarrow> tid \<Rightarrow> prep \<Rightarrow> prep result" where
  "resolve_task dcs tid st =
     bindE (split_tid_mcfn tid) (\<lambda>(mc, fn, taskname, taskfn).
     bindE (dict_get dcs mc) (\<lambda>dc.
     bindE (dict_get (task_deps_of dc) taskfn) (\<lambda>deps.
     let st = st\<lparr>p_rt := dict_set tid new_rte (p_rt st)\<rparr> in
     bindE (dict_get (p_taskData st) mc) (\<lambda>td.
     if fn \<in> set (failed_fns td) then Inr st
     else
       bindE (with_flag deps ''mcdepends'' taskname (\<lambda>_. add_mc_dependencies mc tid) (p_taskData st)) (\<lambda>tds.
       bindE (dict_get tds mc) (\<lambda>td.
       bindE (task_depends deps td tid (mc, fn, taskname, taskfn) (st\<lparr>p_taskData := tds\<rparr>)) (\<lambda>(st, depends).
         Inr (st\<lparr>p_rt := dict_set tid (new_rte\<lparr>rt_depends := filter (\<lambda>t. t \<noteq> tid) depends\<rparr>) (p_rt st)\<rparr>))))))))"

text \<open>Step A, over every multiconfig.\<close>

definition resolve_tasks :: "(string, data_cache) dict \<Rightarrow> (string, taskdata) dict \<Rightarrow> prep result" where
  "resolve_tasks dcs tds =
     foldE (\<lambda>mc st. bindE (dict_get (p_taskData st) mc) (\<lambda>td.
         foldE (resolve_task dcs) (dict_keys (taskentries td)) st)) (dict_keys tds)
       \<lparr>p_taskData = tds, p_rt = [], p_rec = [], p_reci = [], p_selfref = []\<rparr>"

subsection \<open>The recipes below each task\<close>

text \<open>
  The temporary dictionaries hold every task from the start, so they are total functions.
\<close>

record cstate =
  c_deps :: "tid \<Rightarrow> tid list"
  c_cum :: "tid \<Rightarrow> string list"

definition temp_revdeps :: "rtentries \<Rightarrow> (tid \<Rightarrow> tid list) result" where
  "temp_revdeps rt =
     foldE (\<lambda>(tid, e) rd. foldE (\<lambda>dep rd.
         if dep \<in> set (dict_keys rt) then Inr (rd(dep := set_add tid (rd dep))) else Inl KeyError)
       (rt_depends e) rd) rt (\<lambda>_. [])"

text \<open>One step of the inner loop: \<open>tid\<close> is complete and \<open>dep\<close> depends on it.\<close>

definition cum_edge :: "tid \<times> tid \<Rightarrow> cstate \<times> tid list \<Rightarrow> cstate \<times> tid list" where
  "cum_edge = (\<lambda>(tid, dep) (st, next_points).
     let st = st\<lparr>c_cum := (c_cum st)(dep := set_union (set_add (fn_from_tid tid) (c_cum st dep)) (c_cum st tid)),
                 c_deps := (c_deps st)(dep := remove1 tid (c_deps st dep))\<rparr>
     in (st, if c_deps st dep = [] then set_add dep next_points else next_points))"

definition cum_pass :: "(tid \<Rightarrow> tid list) \<Rightarrow> tid list \<Rightarrow> cstate \<Rightarrow> cstate \<times> tid list" where
  "cum_pass rd endpoints st = fold cum_edge (concat (map (\<lambda>tid. map (Pair tid) (rd tid)) endpoints)) (st, [])"

fun cum_loop :: "nat \<Rightarrow> (tid \<Rightarrow> tid list) \<Rightarrow> tid list \<Rightarrow> cstate \<Rightarrow> cstate option" where
  "cum_loop 0 rd endpoints st = None"
| "cum_loop (Suc n) rd endpoints st =
     (if endpoints = [] then Some st
      else case cum_pass rd endpoints st of (st', next_points) \<Rightarrow> cum_loop n rd next_points st')"

text \<open>A task becomes an end point once, so one pass per task and one more are enough.\<close>

definition cumulative_deps :: "rtentries \<Rightarrow> (tid \<Rightarrow> string list) result option" where
  "cumulative_deps rt =
     (case temp_revdeps rt of
        Inl e \<Rightarrow> Some (Inl e)
      | Inr rd \<Rightarrow>
          map_option (\<lambda>st. Inr (c_cum st))
            (cum_loop (Suc (length rt)) rd (filter (\<lambda>t. deps_of rt t = []) (dict_keys rt))
              \<lparr>c_deps = deps_of rt, c_cum = (\<lambda>_. [])\<rparr>))"

subsection \<open>Recursive dependencies\<close>

definition add_depend_of :: "tid \<Rightarrow> tid \<Rightarrow> rtentries \<Rightarrow> rtentries" where
  "add_depend_of tid newtid rt =
     map (\<lambda>(t, e). (t, if t = tid then e\<lparr>rt_depends := set_add newtid (rt_depends e)\<rparr> else e)) rt"

text \<open>
  Adding, and counting, the candidates that pass a check against the current graph; a
  candidate comes with the task name it was found for.
\<close>

definition count_add :: "(tid \<times> string \<Rightarrow> rtentries \<Rightarrow> bool) \<Rightarrow> tid \<Rightarrow> tid \<times> string \<Rightarrow>
    rtentries \<times> nat \<Rightarrow> rtentries \<times> nat" where
  "count_add wanted tid c = (\<lambda>(rt, extradeps).
     if wanted c rt then (add_depend_of tid (fst c) rt, extradeps + 1) else (rt, extradeps))"

definition recr_below :: "(tid \<Rightarrow> string list) \<Rightarrow> (tid, tid list) dict \<Rightarrow> tid \<Rightarrow> string list \<Rightarrow>
    rtentries \<times> nat \<Rightarrow> rtentries \<times> nat" where
  "recr_below cum reci tid tasknames = (\<lambda>(rt, extradeps).
     let is = dict_get_or [] reci tid;
         totaldeps = deps_of rt tid @ is @ concat (map (deps_of rt) is);
         deps = remdups (concat (map cum totaldeps))
     in fold (count_add (\<lambda>(newtid, _) rt. newtid \<noteq> tid \<and> newtid \<in> tasks rt \<and>
              newtid \<notin> set (deps_of rt tid)) tid)
          (concat (map (\<lambda>t. map (\<lambda>taskname. (t @ [colon] @ taskname, taskname)) tasknames) deps)) (rt, extradeps))"

definition recr_others :: "(tid, string list) dict \<Rightarrow> tid \<Rightarrow> string list \<Rightarrow> rtentries \<times> nat \<Rightarrow> rtentries \<times> nat" where
  "recr_others rec tid tasknames = (\<lambda>(rt, extradeps).
     let deps = remdups (concat (map (\<lambda>dep. set_diff (deps_of rt dep) (deps_of rt tid))
                  (set_inter (deps_of rt tid) (dict_keys rec))))
     in fold (count_add (\<lambda>(newtid, taskname) rt. endswith newtid (colon # taskname) \<and>
              newtid \<in> tasks rt) tid)
          (concat (map (\<lambda>newtid. map (Pair newtid) tasknames) deps)) (rt, extradeps))"

definition recr_task :: "(tid \<Rightarrow> string list) \<Rightarrow> (tid, string list) dict \<Rightarrow> (tid, tid list) dict \<Rightarrow>
    tid \<times> string list \<Rightarrow> rtentries \<times> nat \<Rightarrow> rtentries \<times> nat" where
  "recr_task cum rec reci = (\<lambda>(tid, tasknames) s. recr_others rec tid tasknames (recr_below cum reci tid tasknames s))"

definition recr_pass :: "(tid \<Rightarrow> string list) \<Rightarrow> (tid, string list) dict \<Rightarrow> (tid, tid list) dict \<Rightarrow>
    rtentries \<Rightarrow> rtentries \<times> nat" where
  "recr_pass cum rec reci rt =
     fold (recr_task cum rec reci) rec (rt, 0)"

fun recr_loop :: "nat \<Rightarrow> (tid \<Rightarrow> string list) \<Rightarrow> (tid, string list) dict \<Rightarrow> (tid, tid list) dict \<Rightarrow>
    rtentries \<Rightarrow> rtentries option" where
  "recr_loop 0 cum rec reci rt = None"
| "recr_loop (Suc n) cum rec reci rt =
     (case recr_pass cum rec reci rt of (rt', extradeps) \<Rightarrow>
        if extradeps = 0 then Some rt' else recr_loop n cum rec reci rt')"

text \<open>Every pass but the last adds a task of the graph to one of the recursive tasks.\<close>

definition recr_fuel :: "(tid, string list) dict \<Rightarrow> rtentries \<Rightarrow> nat" where
  "recr_fuel rec rt = Suc (length rec * length rt)"

definition drop_selfrefs :: "tid list \<Rightarrow> rtentries \<Rightarrow> rtentries" where
  "drop_selfrefs selfref rt =
     map (\<lambda>(t, e). (t, if t \<in> set selfref then e\<lparr>rt_depends := set_diff (rt_depends e) selfref\<rparr> else e)) rt"

definition recursive_depends :: "prep \<Rightarrow> rtentries result option" where
  "recursive_depends st =
     (case cumulative_deps (p_rt st) of
        None \<Rightarrow> None
      | Some (Inl e) \<Rightarrow> Some (Inl e)
      | Some (Inr cum) \<Rightarrow>
          map_option (\<lambda>rt. Inr (drop_selfrefs (p_selfref st) rt))
            (recr_loop (recr_fuel (p_rec st) (p_rt st)) cum (p_rec st) (p_reci st) (p_rt st)))"

subsection \<open>The recipes below each task, proved\<close>

text \<open>A graph whose dependencies are tasks of it.\<close>

definition wf_deps :: "rtentries \<Rightarrow> bool" where
  "wf_deps rt \<longleftrightarrow> distinct (dict_keys rt) \<and> (\<forall>t. distinct (deps_of rt t) \<and> set (deps_of rt t) \<subseteq> tasks rt)"

lemma wf_depsD:
  assumes "wf_deps rt"
  shows "distinct (dict_keys rt)" "distinct (deps_of rt t)" "set (deps_of rt t) \<subseteq> tasks rt"
    "(u, t) \<in> dep_rel rt \<Longrightarrow> u \<in> tasks rt \<and> t \<in> tasks rt"
  using assms deps_of_off_tasks [of u rt] by (cases "u \<in> tasks rt"; auto simp: wf_deps_def dep_rel_def)+

lemma deps_of_entry: "distinct (dict_keys rt) \<Longrightarrow> (t, e) \<in> set rt \<Longrightarrow> deps_of rt t = rt_depends e"
  by (simp add: deps_of_def)

lemma temp_revdeps_edges:
  assumes "wf_deps rt"
  shows "temp_revdeps rt = Inr (fold (\<lambda>(u, t) rd. rd(t := set_add u (rd t))) (edges_from rt (dict_keys rt)) (\<lambda>_. []))"
proof -
  let ?g = "\<lambda>(u, t) rd. rd(t := set_add u (rd t))"
  let ?f = "\<lambda>(tid, e) rd. foldE (\<lambda>dep rd.
         if dep \<in> set (dict_keys rt) then Inr (rd(dep := set_add tid (rd dep))) else Inl KeyError)
       (rt_depends e) rd"
  have "?f x s = Inr (fold ?g (map (Pair (fst x)) (deps_of rt (fst x))) s)" if "x \<in> set rt" for x s
  proof -
    obtain t e where x: "x = (t, e)" by force
    have d: "deps_of rt t = rt_depends e" using deps_of_entry [OF wf_depsD(1) [OF assms]] that x by simp
    have "set (rt_depends e) \<subseteq> set (dict_keys rt)" using wf_depsD(3) [OF assms, of t] d by (simp add: tasks_def)
    then have "foldE (\<lambda>dep rd. if dep \<in> set (dict_keys rt) then Inr (rd(dep := set_add t (rd dep))) else Inl KeyError)
        (rt_depends e) s = Inr (fold (\<lambda>dep rd. rd(dep := set_add t (rd dep))) (rt_depends e) s)"
      by (intro foldE_total) auto
    then show ?thesis by (simp add: x d fold_map comp_def)
  qed
  then have "temp_revdeps rt = Inr (fold (\<lambda>x. fold ?g (map (Pair (fst x)) (deps_of rt (fst x)))) rt (\<lambda>_. []))"
    unfolding temp_revdeps_def by (rule foldE_total)
  then show ?thesis by (simp add: edges_from_def fold_concat_map comp_def fold_map)
qed

lemma fold_rev_edges:
  "set (fold (\<lambda>(u, t) rd. rd(t := set_add u (rd t))) es rd t) = set (rd t) \<union> {u. (u, t) \<in> set es}"
  "distinct (rd t) \<Longrightarrow> distinct (fold (\<lambda>(u, t) rd. rd(t := set_add u (rd t))) es rd t)"
  by (induction es arbitrary: rd) (auto split: prod.splits)

lemma set_edges_from: "set (edges_from rt us) = {(u, t). u \<in> set us \<and> t \<in> set (deps_of rt u)}"
  by (auto simp: edges_from_def)

lemma temp_revdeps_result:
  assumes "wf_deps rt"
  obtains rd where "temp_revdeps rt = Inr rd" and "\<And>t. set (rd t) = {u. (u, t) \<in> dep_rel rt}"
proof
  let ?rd = "fold (\<lambda>(u, t) rd. rd(t := set_add u (rd t))) (edges_from rt (dict_keys rt)) (\<lambda>_. [])"
  show "temp_revdeps rt = Inr ?rd" by (rule temp_revdeps_edges [OF assms])
  show "set (?rd t) = {u. (u, t) \<in> dep_rel rt}" for t
    using wf_depsD(4) [OF assms, of _ t] unfolding fold_rev_edges(1) set_edges_from
    by (auto simp: dep_rel_def tasks_def)
qed

text \<open>A pass, edge by edge.\<close>

lemma cum_edge_simps:
  "c_deps (fst (cum_edge (u, t) s)) = (c_deps (fst s))(t := remove1 u (c_deps (fst s) t))"
  "c_cum (fst (cum_edge (u, t) s)) =
    (c_cum (fst s))(t := set_union (set_add (fn_from_tid u) (c_cum (fst s) t)) (c_cum (fst s) u))"
  "snd (cum_edge (u, t) s) = (if remove1 u (c_deps (fst s) t) = [] then set_add t (snd s) else snd s)"
  by (simp_all add: cum_edge_def Let_def case_prod_unfold)

lemma cum_edges_deps:
  assumes "\<And>t. distinct (c_deps st t)"
  shows "distinct (c_deps (fst (fold cum_edge es (st, []))) t) \<and>
    set (c_deps (fst (fold cum_edge es (st, []))) t) = set (c_deps st t) - {u. (u, t) \<in> set es}"
proof (induction es arbitrary: t rule: rev_induct)
  case (snoc x es)
  obtain u v where x: "x = (u, v)" by force
  have "c_deps (fst (fold cum_edge (es @ [x]) (st, []))) =
      (c_deps (fst (fold cum_edge es (st, []))))(v := remove1 u (c_deps (fst (fold cum_edge es (st, []))) v))"
    by (simp add: x cum_edge_simps)
  then show ?case using snoc.IH [of t] by (cases "t = v") (simp_all add: x, blast)
qed (simp add: assms)

lemma cum_edges_cum:
  assumes "fst ` set es \<inter> snd ` set es = {}"
  shows "set (c_cum (fst (fold cum_edge es (st, []))) t) =
    set (c_cum st t) \<union> (\<Union>u \<in> {u. (u, t) \<in> set es}. insert (fn_from_tid u) (set (c_cum st u)))"
  using assms
proof (induction es arbitrary: t rule: rev_induct)
  case (snoc x es)
  obtain u v where x: "x = (u, v)" by force
  have d: "fst ` set es \<inter> snd ` set es = {}" and "u \<notin> snd ` set es"
    using snoc.prems unfolding x by auto
  then have u: "{w. (w, u) \<in> set es} = {}" by (auto simp: image_iff)
  let ?s = "fold cum_edge es (st, [])"
  note IH = snoc.IH [OF d]
  have cu: "set (c_cum (fst ?s) u) = set (c_cum st u)" unfolding IH u by simp
  have step: "c_cum (fst (fold cum_edge (es @ [x]) (st, []))) =
      (c_cum (fst ?s))(v := set_union (set_add (fn_from_tid u) (c_cum (fst ?s) v)) (c_cum (fst ?s) u))"
    by (simp add: x cum_edge_simps)
  show ?case
  proof (cases "t = v")
    case True
    have "set (c_cum (fst (fold cum_edge (es @ [x]) (st, []))) t) =
        set (c_cum (fst ?s) t) \<union> insert (fn_from_tid u) (set (c_cum st u))"
      unfolding step using True cu by simp
    moreover have "{w. (w, t) \<in> set (es @ [x])} = insert u {w. (w, t) \<in> set es}" using x True by auto
    ultimately show ?thesis unfolding IH by (simp add: Un_ac)
  next
    case False
    then have "{w. (w, t) \<in> set (es @ [x])} = {w. (w, t) \<in> set es}" using x by auto
    then show ?thesis unfolding step using False IH [of t] by simp
  qed
qed simp

lemma cum_edges_next:
  assumes "\<And>t. distinct (c_deps st t)"
  shows "set (snd (fold cum_edge es (st, []))) =
    {t \<in> snd ` set es. c_deps (fst (fold cum_edge es (st, []))) t = []}"
proof (induction es rule: rev_induct)
  case (snoc x es)
  obtain u v where x: "x = (u, v)" by force
  with snoc.IH show ?case by (auto simp: cum_edge_simps split: if_splits)
qed simp

text \<open>After some passes the tasks \<open>P\<close> are complete, and \<open>E\<close> are those that have just become ready.\<close>

definition cum_inv :: "rtentries \<Rightarrow> tid set \<Rightarrow> tid list \<Rightarrow> cstate \<Rightarrow> bool" where
  "cum_inv rt P E st \<longleftrightarrow> P \<subseteq> tasks rt \<and> set E = {t \<in> tasks rt - P. set (deps_of rt t) \<subseteq> P} \<and>
     (\<forall>t \<in> P. set (deps_of rt t) \<subseteq> P) \<and>
     (\<forall>t. distinct (c_deps st t) \<and> set (c_deps st t) = set (deps_of rt t) - P) \<and>
     (\<forall>t. set (c_cum st t) = fn_from_tid ` {d. \<exists>p \<in> P. (t, p) \<in> dep_rel rt \<and> (p, d) \<in> (dep_rel rt)\<^sup>*})"

lemma cum_inv_init:
  "wf_deps rt \<Longrightarrow> cum_inv rt {} (filter (\<lambda>t. deps_of rt t = []) (dict_keys rt)) \<lparr>c_deps = deps_of rt, c_cum = (\<lambda>_. [])\<rparr>"
  by (auto simp: cum_inv_def tasks_def dest: wf_depsD(2))

lemma below_trancl:
  assumes "\<And>p. (u, p) \<in> R \<Longrightarrow> p \<in> P"
  shows "{d. \<exists>p \<in> P. (u, p) \<in> R \<and> (p, d) \<in> R\<^sup>*} = {d. (u, d) \<in> R\<^sup>+}"
proof -
  have "(\<exists>p \<in> P. (u, p) \<in> R \<and> (p, d) \<in> R\<^sup>*) \<longleftrightarrow> (u, d) \<in> R\<^sup>+" for d
    using assms by (metis tranclD rtrancl_into_trancl2)
  then show ?thesis by simp
qed

lemma cum_inv_pass:
  assumes wf: "wf_deps rt" and rd: "\<And>t. set (rd t) = {u. (u, t) \<in> dep_rel rt}"
    and inv: "cum_inv rt P E st" and r: "cum_pass rd E st = (st', nx)"
  shows "cum_inv rt (P \<union> set E) nx st'"
proof -
  let ?es = "concat (map (\<lambda>tid. map (Pair tid) (rd tid)) E)"
  have es: "set ?es = {(u, t). u \<in> set E \<and> (t, u) \<in> dep_rel rt}" using rd by auto
  have fold: "st' = fst (fold cum_edge ?es (st, []))" "nx = snd (fold cum_edge ?es (st, []))"
    using r by (auto simp: cum_pass_def)
  have dist: "distinct (c_deps st t)" for t using inv by (simp add: cum_inv_def)
  have E: "set E = {t \<in> tasks rt - P. set (deps_of rt t) \<subseteq> P}" and P: "\<And>t. t \<in> P \<Longrightarrow> set (deps_of rt t) \<subseteq> P"
    and sub: "P \<subseteq> tasks rt" using inv by (auto simp: cum_inv_def)
  have deps: "distinct (c_deps st' t)" "set (c_deps st' t) = set (deps_of rt t) - (P \<union> set E)" for t
    using cum_edges_deps [OF dist, of ?es t] inv unfolding fold es by (auto simp: cum_inv_def dep_rel_def)
  have "set nx = {t. (\<exists>u \<in> set E. (t, u) \<in> dep_rel rt) \<and> set (c_deps st' t) = {}}"
    unfolding fold cum_edges_next [OF dist] es by (auto simp: image_iff)
  also have "\<dots> = {t \<in> tasks rt - (P \<union> set E). set (deps_of rt t) \<subseteq> P \<union> set E}"
    unfolding deps using E P wf_depsD(4) [OF wf] by (auto simp: dep_rel_def)
  finally have nx: "set nx = {t \<in> tasks rt - (P \<union> set E). set (deps_of rt t) \<subseteq> P \<union> set E}" .
  have disj: "fst ` set ?es \<inter> snd ` set ?es = {}" unfolding es using E by (auto simp: dep_rel_def)
  have cumE: "insert (fn_from_tid u) (set (c_cum st u)) = fn_from_tid ` {d. (u, d) \<in> (dep_rel rt)\<^sup>*}" if "u \<in> set E" for u
  proof -
    have uP: "p \<in> P" if "(u, p) \<in> dep_rel rt" for p using that \<open>u \<in> set E\<close> E by (auto simp: dep_rel_def)
    have "{d. \<exists>p \<in> P. (u, p) \<in> dep_rel rt \<and> (p, d) \<in> (dep_rel rt)\<^sup>*} = {d. (u, d) \<in> (dep_rel rt)\<^sup>+}"
      using uP by (rule below_trancl)
    then show ?thesis using inv by (auto simp: cum_inv_def rtrancl_eq_or_trancl)
  qed
  have cum: "set (c_cum st' t) = fn_from_tid ` {d. \<exists>p \<in> P \<union> set E. (t, p) \<in> dep_rel rt \<and> (p, d) \<in> (dep_rel rt)\<^sup>*}" for t
  proof -
    have "set (c_cum st' t) = set (c_cum st t) \<union>
        (\<Union>u \<in> {u \<in> set E. (t, u) \<in> dep_rel rt}. fn_from_tid ` {d. (u, d) \<in> (dep_rel rt)\<^sup>*})"
      unfolding fold cum_edges_cum [OF disj] es using cumE by auto
    then show ?thesis using inv by (auto simp: cum_inv_def)
  qed
  have "set (deps_of rt t) \<subseteq> P \<union> set E" if "t \<in> P \<union> set E" for t using that E P by blast
  then show ?thesis using nx deps cum sub E unfolding cum_inv_def by blast
qed

lemma cum_loop_total:
  assumes "wf_deps rt" and "\<And>t. set (rd t) = {u. (u, t) \<in> dep_rel rt}"
  shows "cum_inv rt P E st \<Longrightarrow> card (tasks rt - P) < n \<Longrightarrow> \<exists>st' P'. cum_loop n rd E st = Some st' \<and> cum_inv rt P' [] st'"
proof (induction n arbitrary: P E st)
  case (Suc n)
  show ?case
  proof (cases "E = []")
    case False
    obtain st' nx where r: "cum_pass rd E st = (st', nx)" by force
    have "set E \<subseteq> tasks rt - P" using Suc.prems(1) unfolding cum_inv_def by blast
    moreover have "set E \<noteq> {}" using False by simp
    ultimately obtain t where "t \<in> set E" "t \<in> tasks rt - P" using hd_in_set [OF False] by (meson subsetD)
    then have "tasks rt - (P \<union> set E) \<subset> tasks rt - P" by (intro psubsetI) auto
    then have "card (tasks rt - (P \<union> set E)) < card (tasks rt - P)" by (intro psubset_card_mono) simp_all
    with Suc.prems(2) have "card (tasks rt - (P \<union> set E)) < n" by simp
    from Suc.IH [OF cum_inv_pass [OF assms Suc.prems(1) r] this] show ?thesis using False r by simp
  qed (use Suc.prems in auto)
qed simp

lemma acyclic_all_complete:
  assumes wf: "wf_deps rt" and acyc: "acyclic (dep_rel rt)"
    and inv: "P \<subseteq> tasks rt" "{t \<in> tasks rt - P. set (deps_of rt t) \<subseteq> P} = {}"
  shows "P = tasks rt"
proof -
  have "dep_rel rt \<subseteq> tasks rt \<times> tasks rt" using wf_depsD(4) [OF wf] by auto
  then have "finite (dep_rel rt)" by (rule finite_subset) simp
  with acyc have "wf ((dep_rel rt)\<inverse>)" by (rule finite_acyclic_wf_converse [rotated])
  then have "t \<in> tasks rt \<longrightarrow> t \<in> P" for t
  proof (induction t rule: wf_induct_rule)
    case (less t)
    then have "set (deps_of rt t) \<subseteq> P" using wf_depsD(3) [OF wf, of t] by (auto simp: dep_rel_def)
    with inv(2) show ?case by blast
  qed
  with inv(1) show ?thesis by blast
qed

text \<open>
  Property C13. On an acyclic task graph the walk up the dependency chains returns and gives
  every task exactly the recipes of the tasks it depends on through any chain.
\<close>

theorem cumulative_deps_exact:
  assumes "wf_deps rt" and "acyclic (dep_rel rt)"
  shows "\<exists>cum. cumulative_deps rt = Some (Inr cum) \<and>
    (\<forall>t. set (cum t) = fn_from_tid ` {d. (t, d) \<in> (dep_rel rt)\<^sup>+})"
proof -
  obtain rd where rd: "temp_revdeps rt = Inr rd" "\<And>t. set (rd t) = {u. (u, t) \<in> dep_rel rt}"
    using temp_revdeps_result [OF assms(1)] by blast
  have "card (tasks rt - {}) < Suc (length rt)"
    using card_length [of "dict_keys rt"] by (simp add: tasks_def)
  from cum_loop_total [OF assms(1) rd(2) cum_inv_init [OF assms(1)] this]
  obtain st P where st: "cum_loop (Suc (length rt)) rd (filter (\<lambda>t. deps_of rt t = []) (dict_keys rt))
      \<lparr>c_deps = deps_of rt, c_cum = (\<lambda>_. [])\<rparr> = Some st" and inv: "cum_inv rt P [] st" by blast
  have "P = tasks rt"
    using inv by (intro acyclic_all_complete [OF assms]) (auto simp: cum_inv_def)
  then have "{d. \<exists>p \<in> P. (t, p) \<in> dep_rel rt \<and> (p, d) \<in> (dep_rel rt)\<^sup>*} = {d. (t, d) \<in> (dep_rel rt)\<^sup>+}" for t
    using wf_depsD(4) [OF assms(1)] by (intro below_trancl) blast
  with inv have "\<forall>t. set (c_cum st t) = fn_from_tid ` {d. (t, d) \<in> (dep_rel rt)\<^sup>+}" by (simp add: cum_inv_def)
  with rd(1) st show ?thesis by (simp add: cumulative_deps_def)
qed

subsection \<open>The recursive dependencies, proved\<close>

text \<open>
  What the loop may do: add dependencies on tasks of the graph to recursive tasks, each for
  one of the task's names.
\<close>

definition extends :: "(tid, string list) dict \<Rightarrow> rtentries \<Rightarrow> rtentries \<Rightarrow> bool" where
  "extends rec a b \<longleftrightarrow> dict_keys b = dict_keys a \<and> (\<forall>t. set (deps_of a t) \<subseteq> set (deps_of b t) \<and>
     (distinct (deps_of a t) \<longrightarrow> distinct (deps_of b t)) \<and> revdeps_of b t = revdeps_of a t \<and>
     (\<forall>x \<in> set (deps_of b t) - set (deps_of a t). x \<in> tasks a \<and>
        (\<exists>names. (t, names) \<in> set rec \<and> (\<exists>name \<in> set names. endswith x (colon # name)))))"

lemma extends_refl [simp]: "extends rec a a"
  by (simp add: extends_def)

lemma extends_tasks: "extends rec a b \<Longrightarrow> tasks b = tasks a"
  by (simp add: extends_def tasks_def)

lemma extends_trans: "extends rec a b \<Longrightarrow> extends rec b c \<Longrightarrow> extends rec a c"
  using extends_tasks [of rec a b] unfolding extends_def by (elim conjE, intro conjI allI) (simp, metis subset_trans, metis, metis, blast)

lemma deps_of_add_depend:
  "deps_of (add_depend_of tid x rt) t = (if t = tid \<and> t \<in> tasks rt then set_add x (deps_of rt t) else deps_of rt t)"
proof -
  have "map_of (add_depend_of tid x rt) t =
      map_option (\<lambda>e. if t = tid then e\<lparr>rt_depends := set_add x (rt_depends e)\<rparr> else e) (map_of rt t)"
    unfolding add_depend_of_def by (rule map_of_map_values)
  then show ?thesis using tasks_map_of [of t rt] by (cases "map_of rt t") (auto simp: deps_of_def)
qed

lemma revdeps_of_add_depend [simp]: "revdeps_of (add_depend_of tid x rt) t = revdeps_of rt t"
proof -
  have "map_of (add_depend_of tid x rt) t =
      map_option (\<lambda>e. if t = tid then e\<lparr>rt_depends := set_add x (rt_depends e)\<rparr> else e) (map_of rt t)"
    unfolding add_depend_of_def by (rule map_of_map_values)
  then show ?thesis by (cases "map_of rt t") (auto simp: revdeps_of_def)
qed

lemma keys_add_depend [simp]: "dict_keys (add_depend_of tid x rt) = dict_keys rt" "tasks (add_depend_of tid x rt) = tasks rt"
  by (auto simp: add_depend_of_def tasks_def comp_def case_prod_unfold)

lemma mem_concat_map: "x \<in> set (concat (map f xs)) \<longleftrightarrow> (\<exists>y \<in> set xs. x \<in> set (f y))"
  by simp

text \<open>A run of candidates for the task \<open>tid\<close> that are new with respect to the graph \<open>base\<close>.\<close>

lemma count_adds:
  assumes "fold (count_add W tid) cs (rt, n) = (rt', n')" and "tid \<in> tasks rt" and "(tid, names) \<in> set rec"
    and "\<And>c b. c \<in> set cs \<Longrightarrow> W c b \<Longrightarrow> extends rec base b \<Longrightarrow>
      fst c \<in> tasks b \<and> snd c \<in> set names \<and> endswith (fst c) (colon # snd c) \<and> fst c \<notin> set (deps_of base tid)"
    and "extends rec base rt"
  shows "extends rec base rt' \<and> n \<le> n' \<and> (n < n' \<longrightarrow> \<not> set (deps_of rt' tid) \<subseteq> set (deps_of base tid)) \<and>
    (n' = n \<longrightarrow> rt' = rt \<and> (\<forall>c \<in> set cs. \<not> W c rt))"
  using assms
proof (induction cs arbitrary: rt n)
  case (Cons c cs)
  show ?case
  proof (cases "W c rt")
    case True
    let ?rt = "add_depend_of tid (fst c) rt"
    have c: "fst c \<in> tasks rt" "snd c \<in> set names" "endswith (fst c) (colon # snd c)" "fst c \<notin> set (deps_of base tid)"
      using Cons.prems(4) [of c rt] True Cons.prems(5) by auto
    have "extends rec rt ?rt"
      using c Cons.prems(3) by (auto simp: extends_def deps_of_add_depend)
    then have e: "extends rec base ?rt" using Cons.prems(5) by (rule extends_trans [rotated])
    have f: "fold (count_add W tid) cs (?rt, n + 1) = (rt', n')"
    proof -
      have "count_add W tid c (rt, n) = (?rt, n + 1)" using True by (simp add: count_add_def)
      with Cons.prems(1) show ?thesis by simp
    qed
    have "extends rec base rt' \<and> n + 1 \<le> n' \<and> (n + 1 < n' \<longrightarrow> \<not> set (deps_of rt' tid) \<subseteq> set (deps_of base tid)) \<and>
        (n' = n + 1 \<longrightarrow> rt' = ?rt \<and> (\<forall>c \<in> set cs. \<not> W c ?rt))"
      by (rule Cons.IH [OF f]) (use Cons.prems e in auto)
    moreover have "fst c \<in> set (deps_of ?rt tid)" using Cons.prems(2) by (simp add: deps_of_add_depend)
    ultimately show ?thesis using c(4) by (cases "n' = n + 1") auto
  next
    case False
    have f: "fold (count_add W tid) cs (rt, n) = (rt', n')"
    proof -
      have "count_add W tid c (rt, n) = (rt, n)" using False by (simp add: count_add_def)
      with Cons.prems(1) show ?thesis by simp
    qed
    show ?thesis using Cons.IH [OF f] Cons.prems False by auto
  qed
qed simp

text \<open>The two halves of a task's turn; \<open>a\<close> is the graph before, with a count of \<open>n\<close>.\<close>

definition grew :: "(tid, string list) dict \<Rightarrow> rtentries \<Rightarrow> rtentries \<Rightarrow> bool" where
  "grew rec a b \<longleftrightarrow> extends rec a b \<and> (\<exists>t \<in> set (dict_keys rec). \<not> set (deps_of b t) \<subseteq> set (deps_of a t))"

definition turn :: "(tid, string list) dict \<Rightarrow> rtentries \<times> nat \<Rightarrow> rtentries \<times> nat \<Rightarrow> bool" where
  "turn rec a b \<longleftrightarrow> extends rec (fst a) (fst b) \<and> snd a \<le> snd b \<and>
     (snd a < snd b \<longrightarrow> grew rec (fst a) (fst b)) \<and> (snd a = snd b \<longrightarrow> fst a = fst b)"

lemma turn_trans: "turn rec a b \<Longrightarrow> turn rec b c \<Longrightarrow> turn rec a c"
proof -
  assume ab: "turn rec a b" and bc: "turn rec b c"
  have e: "extends rec (fst a) (fst b)" "extends rec (fst b) (fst c)" using ab bc by (auto simp: turn_def)
  have "grew rec (fst a) (fst c)" if "grew rec (fst a) (fst b)"
    using that e extends_trans [OF e] unfolding grew_def extends_def by blast
  moreover have "grew rec (fst a) (fst c)" if "grew rec (fst b) (fst c)"
    using that e extends_trans [OF e] unfolding grew_def extends_def by blast
  ultimately show ?thesis using ab bc extends_trans [OF e] by (auto simp: turn_def)
qed

lemma turnI:
  assumes "extends rec rt rt' \<and> n \<le> n' \<and> (n < n' \<longrightarrow> \<not> set (deps_of rt' tid) \<subseteq> set (deps_of rt tid)) \<and>
      (n' = n \<longrightarrow> rt' = rt \<and> Q)"
    and "(tid, names) \<in> set rec"
  shows "turn rec (rt, n) (rt', n') \<and> (n' = n \<longrightarrow> Q)"
proof -
  have "tid \<in> set (dict_keys rec)" using assms(2) by force
  then have "grew rec rt rt'" if "n < n'" using assms(1) that unfolding grew_def by blast
  with assms(1) show ?thesis by (simp add: turn_def)
qed

definition below_closed :: "(tid \<Rightarrow> string list) \<Rightarrow> (tid, tid list) dict \<Rightarrow> rtentries \<Rightarrow> tid \<Rightarrow> string list \<Rightarrow> bool" where
  "below_closed cum reci rt tid tasknames \<longleftrightarrow>
     (\<forall>dep \<in> set (deps_of rt tid) \<union> (\<Union>i \<in> set (dict_get_or [] reci tid). insert i (set (deps_of rt i))).
      \<forall>fn \<in> set (cum dep). \<forall>name \<in> set tasknames. fn @ [colon] @ name \<in> tasks rt - {tid} \<longrightarrow>
        fn @ [colon] @ name \<in> set (deps_of rt tid))"

definition others_closed :: "(tid, string list) dict \<Rightarrow> rtentries \<Rightarrow> tid \<Rightarrow> string list \<Rightarrow> bool" where
  "others_closed rec rt tid tasknames \<longleftrightarrow>
     (\<forall>dep \<in> set (deps_of rt tid) \<inter> set (dict_keys rec). \<forall>x \<in> set (deps_of rt dep) \<inter> tasks rt.
        (\<exists>name \<in> set tasknames. endswith x (colon # name)) \<longrightarrow> x \<in> set (deps_of rt tid))"

lemma recr_below_turn:
  assumes "(tid, tasknames) \<in> set rec" and "tid \<in> tasks (fst s)"
  shows "turn rec s (recr_below cum reci tid tasknames s) \<and>
    (snd (recr_below cum reci tid tasknames s) = snd s \<longrightarrow> below_closed cum reci (fst s) tid tasknames)"
proof -
  obtain rt n where s: "s = (rt, n)" by force
  obtain rt' n' where r: "recr_below cum reci tid tasknames s = (rt', n')" by force
  let ?W = "\<lambda>(newtid :: tid, _ :: string) rt. newtid \<noteq> tid \<and> newtid \<in> tasks rt \<and> newtid \<notin> set (deps_of rt tid)"
  let ?is = "dict_get_or [] reci tid"
  let ?total = "deps_of rt tid @ ?is @ concat (map (deps_of rt) ?is)"
  let ?cs = "concat (map (\<lambda>t. map (\<lambda>taskname. (t @ [colon] @ taskname, taskname)) tasknames) (remdups (concat (map cum ?total))))"
  have f: "fold (count_add ?W tid) ?cs (rt, n) = (rt', n')"
    using r by (simp add: s recr_below_def Let_def)
  have k: "extends rec rt rt' \<and> n \<le> n' \<and> (n < n' \<longrightarrow> \<not> set (deps_of rt' tid) \<subseteq> set (deps_of rt tid)) \<and>
      (n' = n \<longrightarrow> rt' = rt \<and> (\<forall>c \<in> set ?cs. \<not> ?W c rt))"
  proof (rule count_adds [OF f _ assms(1)])
    show "tid \<in> tasks rt" using assms(2) s by simp
    show "fst c \<in> tasks b \<and> snd c \<in> set tasknames \<and> endswith (fst c) (colon # snd c) \<and> fst c \<notin> set (deps_of rt tid)"
      if "c \<in> set ?cs" "?W c b" "extends rec rt b" for c b
    proof -
      have "set (deps_of rt tid) \<subseteq> set (deps_of b tid)" using that(3) by (simp add: extends_def)
      with that(1,2) show ?thesis by (auto simp: endswith_iff)
    qed
  qed simp
  have "below_closed cum reci rt tid tasknames" if "\<forall>c \<in> set ?cs. \<not> ?W c rt"
    unfolding below_closed_def
  proof (intro ballI impI)
    fix dep fn name
    assume "dep \<in> set (deps_of rt tid) \<union> (\<Union>i \<in> set ?is. insert i (set (deps_of rt i)))"
      and fn: "fn \<in> set (cum dep)" and name: "name \<in> set tasknames" and t: "fn @ [colon] @ name \<in> tasks rt - {tid}"
    then have "dep \<in> set ?total" by auto
    with fn have "fn \<in> set (remdups (concat (map cum ?total)))" unfolding set_remdups mem_concat_map by blast
    with name have "(fn @ [colon] @ name, name) \<in> set ?cs" unfolding mem_concat_map by (intro bexI) simp_all
    from bspec [OF that this] t show "fn @ [colon] @ name \<in> set (deps_of rt tid)" by simp
  qed
  with turnI [OF k assms(1)] show ?thesis unfolding r unfolding s fst_conv snd_conv by blast
qed

lemma recr_others_turn:
  assumes "(tid, tasknames) \<in> set rec" and "tid \<in> tasks (fst s)"
  shows "turn rec s (recr_others rec tid tasknames s) \<and>
    (snd (recr_others rec tid tasknames s) = snd s \<longrightarrow> others_closed rec (fst s) tid tasknames)"
proof -
  obtain rt n where s: "s = (rt, n)" by force
  obtain rt' n' where r: "recr_others rec tid tasknames s = (rt', n')" by force
  let ?W = "\<lambda>(newtid :: tid, taskname) rt. endswith newtid (colon # taskname) \<and> newtid \<in> tasks rt"
  let ?deps = "remdups (concat (map (\<lambda>dep. set_diff (deps_of rt dep) (deps_of rt tid)) (set_inter (deps_of rt tid) (dict_keys rec))))"
  let ?cs = "concat (map (\<lambda>newtid. map (Pair newtid) tasknames) ?deps)"
  have f: "fold (count_add ?W tid) ?cs (rt, n) = (rt', n')"
    using r by (simp add: s recr_others_def Let_def)
  have k: "extends rec rt rt' \<and> n \<le> n' \<and> (n < n' \<longrightarrow> \<not> set (deps_of rt' tid) \<subseteq> set (deps_of rt tid)) \<and>
      (n' = n \<longrightarrow> rt' = rt \<and> (\<forall>c \<in> set ?cs. \<not> ?W c rt))"
  proof (rule count_adds [OF f _ assms(1)])
    show "tid \<in> tasks rt" using assms(2) s by simp
    show "fst c \<in> tasks b \<and> snd c \<in> set tasknames \<and> endswith (fst c) (colon # snd c) \<and> fst c \<notin> set (deps_of rt tid)"
      if "c \<in> set ?cs" "?W c b" "extends rec rt b" for c b
      using that(1,2) by auto
  qed simp
  have "others_closed rec rt tid tasknames" if no: "\<forall>c \<in> set ?cs. \<not> ?W c rt"
    unfolding others_closed_def
  proof (intro ballI impI)
    fix dep x
    assume dep: "dep \<in> set (deps_of rt tid) \<inter> set (dict_keys rec)" and x: "x \<in> set (deps_of rt dep) \<inter> tasks rt"
      and "\<exists>name \<in> set tasknames. endswith x (colon # name)"
    then obtain name where name: "name \<in> set tasknames" "endswith x (colon # name)" by blast
    show "x \<in> set (deps_of rt tid)"
    proof (rule ccontr)
      assume "x \<notin> set (deps_of rt tid)"
      with dep x have "x \<in> set ?deps" unfolding set_remdups mem_concat_map by (intro bexI [of _ dep]) simp_all
      with name(1) have "(x, name) \<in> set ?cs" unfolding mem_concat_map by (intro bexI [of _ x]) simp_all
      from bspec [OF no this] name(2) x show False by simp
    qed
  qed
  with turnI [OF k assms(1)] show ?thesis unfolding r unfolding s fst_conv snd_conv by blast
qed

definition recr_closed :: "(tid \<Rightarrow> string list) \<Rightarrow> (tid, string list) dict \<Rightarrow> (tid, tid list) dict \<Rightarrow> rtentries \<Rightarrow> bool" where
  "recr_closed cum rec reci rt \<longleftrightarrow>
     (\<forall>(tid, tasknames) \<in> set rec. below_closed cum reci rt tid tasknames \<and> others_closed rec rt tid tasknames)"

definition turn_closed :: "(tid \<Rightarrow> string list) \<Rightarrow> (tid, string list) dict \<Rightarrow> (tid, tid list) dict \<Rightarrow> rtentries \<Rightarrow>
    tid \<times> string list \<Rightarrow> bool" where
  "turn_closed cum rec reci rt x \<longleftrightarrow> below_closed cum reci rt (fst x) (snd x) \<and> others_closed rec rt (fst x) (snd x)"

lemma recr_turn:
  assumes "x \<in> set rec" and "fst x \<in> tasks (fst s)"
  shows "turn rec s (recr_task cum rec reci x s) \<and>
    (snd (recr_task cum rec reci x s) = snd s \<longrightarrow> turn_closed cum rec reci (fst s) x)"
proof -
  obtain tid tasknames where x: "x = (tid, tasknames)" by force
  let ?s1 = "recr_below cum reci tid tasknames s"
  have 1: "(tid, tasknames) \<in> set rec" "tid \<in> tasks (fst s)" using assms x by auto
  note b = recr_below_turn [OF 1, of cum reci]
  then have "tid \<in> tasks (fst ?s1)" using 1(2) extends_tasks [of rec "fst s" "fst ?s1"] by (simp add: turn_def)
  note o = recr_others_turn [OF 1(1) this]
  from b o have t: "turn rec s (recr_others rec tid tasknames ?s1)" using turn_trans by blast
  have "snd ?s1 = snd s \<and> snd (recr_others rec tid tasknames ?s1) = snd ?s1 \<and> fst ?s1 = fst s"
    if "snd (recr_others rec tid tasknames ?s1) = snd s"
    using that b o by (simp add: turn_def)
  with t b o show ?thesis unfolding x recr_task_def turn_closed_def split fst_conv snd_conv by metis
qed

lemma recr_turns:
  assumes "set es \<subseteq> set rec" and "set (dict_keys rec) \<subseteq> tasks (fst s)"
  shows "turn rec s (fold (recr_task cum rec reci) es s) \<and>
    (snd (fold (recr_task cum rec reci) es s) = snd s \<longrightarrow> (\<forall>x \<in> set es. turn_closed cum rec reci (fst s) x))"
  using assms
proof (induction es arbitrary: s)
  case (Cons x es)
  let ?s1 = "recr_task cum rec reci x s"
  let ?r = "fold (recr_task cum rec reci) es ?s1"
  have "x \<in> set rec" "fst x \<in> tasks (fst s)" using Cons.prems by auto
  note a = recr_turn [OF this, of cum reci]
  then have "set (dict_keys rec) \<subseteq> tasks (fst ?s1)"
    using Cons.prems(2) extends_tasks [of rec "fst s" "fst ?s1"] by (simp add: turn_def)
  then have b: "turn rec ?s1 ?r \<and> (snd ?r = snd ?s1 \<longrightarrow> (\<forall>x \<in> set es. turn_closed cum rec reci (fst ?s1) x))"
    using Cons.prems(1) by (intro Cons.IH) simp_all
  from a b have t: "turn rec s ?r" using turn_trans by blast
  have "snd ?s1 = snd s \<and> snd ?r = snd ?s1 \<and> fst ?s1 = fst s" if "snd ?r = snd s"
    using that a b by (simp add: turn_def)
  with t a b have "snd ?r = snd s \<longrightarrow> (\<forall>y \<in> set (x # es). turn_closed cum rec reci (fst s) y)"
    unfolding set_simps ball_simps by metis
  with t show ?case by simp
qed (simp add: turn_def)

lemma recr_closed_turns: "recr_closed cum rec reci rt \<longleftrightarrow> (\<forall>x \<in> set rec. turn_closed cum rec reci rt x)"
  by (simp add: recr_closed_def turn_closed_def case_prod_unfold)

text \<open>How many dependencies the recursive tasks could still get.\<close>

definition room :: "(tid, string list) dict \<Rightarrow> rtentries \<Rightarrow> nat" where
  "room rec rt = (\<Sum>t \<in> set (dict_keys rec). card (tasks rt - set (deps_of rt t)))"

lemma room_fuel: "room rec rt < recr_fuel rec rt"
proof -
  have "card (tasks rt - set (deps_of rt t)) \<le> length rt" for t
    using card_mono [of "tasks rt" "tasks rt - set (deps_of rt t)"] card_length [of "dict_keys rt"]
    by (simp add: tasks_def)
  then have "room rec rt \<le> card (set (dict_keys rec)) * length rt"
    unfolding room_def using sum_bounded_above [of "set (dict_keys rec)" "\<lambda>t. card (tasks rt - set (deps_of rt t))" "length rt"]
    by simp
  also have "\<dots> \<le> length rec * length rt" using card_length [of "dict_keys rec"] by simp
  finally show ?thesis by (simp add: recr_fuel_def)
qed

lemma room_grew: "grew rec a b \<Longrightarrow> room rec b < room rec a"
proof -
  assume g: "grew rec a b"
  then have e: "extends rec a b" and t: "\<exists>t \<in> set (dict_keys rec). \<not> set (deps_of b t) \<subseteq> set (deps_of a t)"
    by (simp_all add: grew_def)
  have sub: "tasks b - set (deps_of b t) \<subseteq> tasks a - set (deps_of a t)" for t
    using e extends_tasks [OF e] by (auto simp: extends_def)
  obtain t x where t: "t \<in> set (dict_keys rec)" and x: "x \<in> set (deps_of b t) - set (deps_of a t)" using t by blast
  have "x \<in> tasks a" using e x by (simp add: extends_def)
  with x sub [of t] have "tasks b - set (deps_of b t) \<subset> tasks a - set (deps_of a t)" by blast
  then have "card (tasks b - set (deps_of b t)) < card (tasks a - set (deps_of a t))" by (intro psubset_card_mono) simp_all
  with t show ?thesis
    unfolding room_def by (intro sum_strict_mono_ex1) (auto intro!: card_mono sub)
qed

lemma recr_loop_total:
  assumes "set (dict_keys rec) \<subseteq> tasks rt" and "room rec rt < n"
  shows "\<exists>rt'. recr_loop n cum rec reci rt = Some rt' \<and> extends rec rt rt' \<and> recr_closed cum rec reci rt'"
  using assms
proof (induction n arbitrary: rt)
  case (Suc n)
  obtain rt' k where r: "recr_pass cum rec reci rt = (rt', k)" by force
  have t: "turn rec (rt, 0) (rt', k)" and c: "k = 0 \<longrightarrow> recr_closed cum rec reci rt"
    using recr_turns [of rec rec "(rt, 0)" cum reci] Suc.prems(1) r
    unfolding recr_closed_turns recr_pass_def by simp_all
  show ?case
  proof (cases "k = 0")
    case True
    with t c r show ?thesis by (simp add: turn_def)
  next
    case False
    with t have e: "extends rec rt rt'" and g: "grew rec rt rt'" by (auto simp: turn_def)
    have "room rec rt' < n" using room_grew [OF g] Suc.prems(2) by simp
    moreover have "set (dict_keys rec) \<subseteq> tasks rt'" using Suc.prems(1) extends_tasks [OF e] by simp
    ultimately obtain rt'' where "recr_loop n cum rec reci rt' = Some rt''" "extends rec rt' rt''"
      "recr_closed cum rec reci rt''"
      using Suc.IH by blast
    with False r e show ?thesis by (auto intro: extends_trans)
  qed
qed simp

subsection \<open>What step A delivers\<close>

definition prep_wf :: "prep \<Rightarrow> bool" where
  "prep_wf st \<longleftrightarrow> distinct (dict_keys (p_rt st)) \<and> (\<forall>t. distinct (deps_of (p_rt st) t) \<and> revdeps_of (p_rt st) t = []) \<and>
     set (dict_keys (p_rec st)) \<subseteq> tasks (p_rt st)"

lemma add_first_provider_distinct:
  "distinct depends \<Longrightarrow> distinct (add_first_provider td targets ids tasknames depends)"
  unfolding add_first_provider_def
proof (rule fold_invariant' [where P = distinct])
  show "distinct (case dict_get_or [] targets depname of [] \<Rightarrow> a
       | depdata # _ \<Rightarrow> fold (\<lambda>taskname depends.
           if depdata @ [colon] @ taskname \<in> set (dict_keys (taskentries td))
           then set_add (depdata @ [colon] @ taskname) depends else depends) tasknames a)" if "distinct a" for depname a
    using that by (auto split: list.split intro!: fold_invariant' [where P = distinct])
qed

lemma add_dependencies_distinct [intro]:
  "distinct depends \<Longrightarrow> distinct (add_build_dependencies td ids tasknames depends)"
  "distinct depends \<Longrightarrow> distinct (add_runtime_dependencies td ids tasknames depends)"
  by (auto simp: add_build_dependencies_def add_runtime_dependencies_def intro: add_first_provider_distinct)

lemma add_idepend_distinct:
  "add_idepend td d depends = Inr depends' \<Longrightarrow> distinct depends \<Longrightarrow> distinct depends'"
  "add_irdepend td d depends = Inr depends' \<Longrightarrow> distinct depends \<Longrightarrow> distinct depends'"
  by (auto simp: add_idepend_def add_irdepend_def split: prod.splits list.splits if_splits)

lemma with_flag_invariant:
  assumes "with_flag deps flag taskname f s = Inr s'" and "P s" and "\<And>v s'. f v s = Inr s' \<Longrightarrow> P s'"
  shows "P s'"
  using assms by (auto simp: with_flag_def split: option.splits)

lemma with_flag_state:
  "with_flag deps flag taskname f s = Inr s' \<Longrightarrow> s' = s \<or> (\<exists>v. f v s = Inr s')"
  by (auto simp: with_flag_def split: option.splits)

definition part_ok :: "prep \<Rightarrow> tid \<Rightarrow> prep \<times> tid list \<Rightarrow> bool" where
  "part_ok st tid r \<longleftrightarrow> distinct (snd r) \<and> p_rt (fst r) = p_rt st \<and>
     set (dict_keys (p_rec (fst r))) \<subseteq> insert tid (set (dict_keys (p_rec st)))"

lemma add_recrdeptask_result:
  assumes "add_recrdeptask deps td tid names (st, depends) = Inr r" and "distinct depends"
  shows "part_ok st tid r"
proof -
  obtain mc fn taskname taskfn where n: "names = (mc, fn, taskname, taskfn)" by (cases names)
  have ok: "part_ok st tid (st, depends)" using assms(2) by (auto simp: part_ok_def)
  let ?last = "\<lambda>ts (st :: prep, depends :: tid list).
    (Inr (st\<lparr>p_reci := dict_set tid (map (build_tid mc fn) ts) (p_reci st)\<rparr>, depends) :: (prep \<times> tid list) result)"
  have last: "part_ok st tid r" if "with_flag deps ''recideptask'' taskname ?last s = Inr r" "part_ok st tid s" for s r
    using with_flag_state [OF that(1)] that(2) by (cases s) (auto simp: part_ok_def [abs_def] dest!: sym [of _ r] simp del: set_map)
  from with_flag_state [OF assms(1) [unfolded add_recrdeptask_def n prod.case]]
  show ?thesis
  proof (elim disjE exE)
    assume "r = (st, depends)"
    with ok show ?thesis by simp
  next
    fix v
    assume "(case (st, depends) of (st, depends) \<Rightarrow>
       bindE (dict_get (depids td) taskfn) (\<lambda>ids.
       bindE (dict_get (rdepids td) taskfn) (\<lambda>rids.
         let depends = add_runtime_dependencies td rids v (add_build_dependencies td ids v depends);
             st = st\<lparr>p_rec := dict_set tid v (p_rec st)\<rparr>;
             st = (if taskname \<in> set v then st\<lparr>p_selfref := set_add tid (p_selfref st)\<rparr> else st)
         in with_flag deps ''recideptask'' taskname ?last (st, depends)))) = Inr r"
    then obtain ids rids where w: "with_flag deps ''recideptask'' taskname ?last
          (if taskname \<in> set v then st\<lparr>p_rec := dict_set tid v (p_rec st), p_selfref := set_add tid (p_selfref st)\<rparr>
             else st\<lparr>p_rec := dict_set tid v (p_rec st)\<rparr>,
           add_runtime_dependencies td rids v (add_build_dependencies td ids v depends)) = Inr r"
      unfolding prod.case bindE_Inr_iff Let_def by (auto split: if_splits)
    show ?thesis
      by (rule last [OF w]) (use assms(2) in \<open>auto simp: part_ok_def fst_set_keys\<close>)
  qed
qed

lemma revdeps_of_set: "revdeps_of (dict_set tid e rt) t = (if t = tid then rt_revdeps e else revdeps_of rt t)"
  by (simp add: revdeps_of_def)

lemma deps_of_set: "deps_of (dict_set tid e rt) t = (if t = tid then rt_depends e else deps_of rt t)"
  by (simp add: deps_of_def)

lemma tasks_set [simp]: "tasks (dict_set tid e rt) = insert tid (tasks rt)"
  by (simp add: tasks_def fst_set_keys)

lemma prep_wf_set:
  assumes "prep_wf st" and "distinct (rt_depends e)" and "rt_revdeps e = []"
    and "p_rt st' = dict_set tid e (p_rt st)" and "set (dict_keys (p_rec st')) \<subseteq> insert tid (set (dict_keys (p_rec st)))"
  shows "prep_wf st'"
  unfolding prep_wf_def
proof (intro conjI allI)
  show "set (dict_keys (p_rec st')) \<subseteq> tasks (p_rt st')"
    using assms(1,5) unfolding prep_wf_def assms(4) tasks_set by blast
qed (use assms in \<open>simp_all add: prep_wf_def deps_of_set revdeps_of_set\<close>)

lemma task_depends_result:
  assumes "task_depends deps td tid names st = Inr r"
  shows "part_ok st tid r"
proof -
  obtain mc fn taskname taskfn where n: "names = (mc, fn, taskname, taskfn)" by (cases names)
  obtain te :: task_entry and ds0 ds1 ds2 ds3 ds4 where
    d0: "foldE (\<lambda>t depends. bindE (normal_tid t) (\<lambda>t. Inr (set_add t depends))) (te_tdepends te) [] = Inr ds0" and
    d1: "with_flag deps ''deptask'' taskname (\<lambda>tasknames depends.
       bindE (dict_get (depids td) taskfn) (\<lambda>ids. Inr (add_build_dependencies td ids tasknames depends))) ds0 = Inr ds1" and
    d2: "with_flag deps ''rdeptask'' taskname (\<lambda>tasknames depends.
       bindE (dict_get (rdepids td) taskfn) (\<lambda>ids. Inr (add_runtime_dependencies td ids tasknames depends))) ds1 = Inr ds2" and
    d3: "foldE (add_idepend td) (te_idepends te) ds2 = Inr ds3" and
    d4: "foldE (add_irdepend td) (te_irdepends te) ds3 = Inr ds4" and
    d5: "add_recrdeptask deps td tid (mc, fn, taskname, taskfn) (st, ds4) = Inr r"
    using assms unfolding task_depends_def n prod.case bindE_Inr_iff by (elim exE conjE) (rule that, assumption+)
  have "distinct ds0" by (rule foldE_invariant [OF d0]) (auto simp: bindE_Inr_iff)
  then have "distinct ds1" using with_flag_state [OF d1] by (auto simp: bindE_Inr_iff)
  then have "distinct ds2" using with_flag_state [OF d2] by (auto simp: bindE_Inr_iff)
  then have "distinct ds3" by (rule foldE_invariant [OF d3]) (rule add_idepend_distinct)
  then have "distinct ds4" by (rule foldE_invariant [OF d4]) (rule add_idepend_distinct)
  then show ?thesis by (rule add_recrdeptask_result [OF d5])
qed

lemma resolve_task_wf:
  assumes "resolve_task dcs tid st = Inr st'" and wf: "prep_wf st"
  shows "prep_wf st'"
proof -
  let ?st = "st\<lparr>p_rt := dict_set tid new_rte (p_rt st)\<rparr>"
  have wf1: "prep_wf ?st" by (rule prep_wf_set [OF wf, of new_rte]) (auto simp: new_rte_def)
  obtain n where n: "split_tid_mcfn tid = Inr n" using assms(1) unfolding resolve_task_def bindE_Inr_iff by blast
  obtain mc fn taskname taskfn where n': "n = (mc, fn, taskname, taskfn)" by (cases n)
  obtain dc :: data_cache and deps :: task_deps and td :: taskdata where r: "dict_get dcs mc = Inr dc" "dict_get (task_deps_of dc) taskfn = Inr deps"
    "dict_get (p_taskData ?st) mc = Inr td"
    using assms(1) unfolding resolve_task_def n n' bindE_simps prod.case bindE_Inr_iff Let_def by blast
  show ?thesis
  proof (cases "fn \<in> set (failed_fns td)")
    case True
    then show ?thesis using assms(1) wf1
      unfolding resolve_task_def n n' Let_def bindE_simps prod.case r if_P [OF True] by simp
  next
    case False
    then obtain tds td' r' where d: "task_depends deps td' tid n (?st\<lparr>p_taskData := tds\<rparr>) = Inr r'"
      and "(case r' of (st, depends) \<Rightarrow>
         Inr (st\<lparr>p_rt := dict_set tid (new_rte\<lparr>rt_depends := filter (\<lambda>t. t \<noteq> tid) depends\<rparr>) (p_rt st)\<rparr>)) =
         (Inr st' :: prep result)"
      using assms(1) unfolding resolve_task_def n n' Let_def bindE_simps prod.case r if_not_P [OF False] bindE_Inr_iff
      by blast
    then have st': "st' = fst r'\<lparr>p_rt := dict_set tid (new_rte\<lparr>rt_depends := filter (\<lambda>t. t \<noteq> tid) (snd r')\<rparr>) (p_rt (fst r'))\<rparr>"
      by (cases r') simp
    let ?e = "new_rte\<lparr>rt_depends := filter (\<lambda>t. t \<noteq> tid) (snd r')\<rparr>"
    have p: "distinct (snd r')" "p_rt (fst r') = p_rt ?st"
      "set (dict_keys (p_rec (fst r'))) \<subseteq> insert tid (set (dict_keys (p_rec ?st)))"
      using task_depends_result [OF d] unfolding part_ok_def by simp_all
    show ?thesis
    proof (rule prep_wf_set [OF wf1, of ?e])
      show "distinct (rt_depends ?e)" "rt_revdeps ?e = []" using p(1) by (simp_all add: new_rte_def)
      show "p_rt st' = dict_set tid ?e (p_rt ?st)" using p(2) unfolding st' by simp
      show "set (dict_keys (p_rec st')) \<subseteq> insert tid (set (dict_keys (p_rec ?st)))" using p(3) unfolding st' by simp
    qed
  qed
qed

lemma resolve_tasks_wf:
  assumes "resolve_tasks dcs tds = Inr st"
  shows "prep_wf st"
  using assms unfolding resolve_tasks_def
proof (rule foldE_invariant)
  show "prep_wf \<lparr>p_taskData = tds, p_rt = [], p_rec = [], p_reci = [], p_selfref = []\<rparr>"
    by (simp add: prep_wf_def deps_of_def revdeps_of_def)
  fix mc a b
  assume a: "prep_wf a" and "bindE (dict_get (p_taskData a) mc) (\<lambda>td. foldE (resolve_task dcs) (dict_keys (taskentries td)) a) = Inr b"
  then obtain td :: taskdata where "foldE (resolve_task dcs) (dict_keys (taskentries td)) a = Inr b" by (auto simp: bindE_Inr_iff)
  then show "prep_wf b" using a by (rule foldE_invariant) (rule resolve_task_wf)
qed

subsection \<open>Properties of the recursive dependencies\<close>

lemma foldE_steps: "foldE f xs s = Inr s' \<Longrightarrow> x \<in> set xs \<Longrightarrow> \<exists>a b. f x a = Inr b"
  by (induction xs arbitrary: s) (auto simp: bindE_Inr_iff)

lemma temp_revdeps_wf:
  assumes "temp_revdeps rt = Inr rd" and "distinct (dict_keys rt)" and "\<And>t. distinct (deps_of rt t)"
  shows "wf_deps rt"
proof -
  have "dep \<in> tasks rt" if "dep \<in> set (deps_of rt t)" for t dep
  proof -
    obtain e where e: "map_of rt t = Some e" "dep \<in> set (rt_depends e)"
      using \<open>dep \<in> set (deps_of rt t)\<close> by (cases "map_of rt t") (auto simp: deps_of_def)
    from foldE_steps [OF assms(1) [unfolded temp_revdeps_def] map_of_SomeD [OF e(1)]]
    obtain a b where "foldE (\<lambda>dep rd. if dep \<in> set (dict_keys rt) then Inr (rd(dep := set_add t (rd dep))) else Inl KeyError)
        (rt_depends e) a = Inr b" by auto
    from foldE_steps [OF this e(2)] show ?thesis by (auto simp: tasks_def split: if_splits)
  qed
  with assms(2,3) show ?thesis by (auto simp: wf_deps_def)
qed

lemma cumulative_deps_total:
  assumes "distinct (dict_keys rt)" and "\<And>t. distinct (deps_of rt t)"
  shows "\<exists>r. cumulative_deps rt = Some r"
proof (cases "temp_revdeps rt")
  case (Inr rd)
  then have wf: "wf_deps rt" using assms by (rule temp_revdeps_wf)
  then obtain rd' where rd: "temp_revdeps rt = Inr rd'" "\<And>t. set (rd' t) = {u. (u, t) \<in> dep_rel rt}"
    using temp_revdeps_result by blast
  have "card (tasks rt - {}) < Suc (length rt)"
    using card_length [of "dict_keys rt"] by (simp add: tasks_def)
  from cum_loop_total [OF wf rd(2) cum_inv_init [OF wf] this] rd(1) show ?thesis
    by (auto simp: cumulative_deps_def)
qed (simp add: cumulative_deps_def)

lemma recursive_depends_some:
  assumes "resolve_tasks dcs tds = Inr st"
  shows "\<exists>r. recursive_depends st = Some r"
proof -
  note wf = resolve_tasks_wf [OF assms]
  obtain r where r: "cumulative_deps (p_rt st) = Some r"
    using cumulative_deps_total [of "p_rt st"] wf by (auto simp: prep_wf_def)
  show ?thesis
  proof (cases r)
    case (Inr cum)
    have "set (dict_keys (p_rec st)) \<subseteq> tasks (p_rt st)" using wf by (simp add: prep_wf_def)
    from recr_loop_total [OF this room_fuel, of cum "p_reci st"] show ?thesis
      using r Inr by (auto simp: recursive_depends_def)
  qed (use r in \<open>simp add: recursive_depends_def\<close>)
qed

text \<open>
  Whatever the recipes ask for, the computation of the recursive dependencies
  ends: with the graph or with an exception, never in an endless loop.
\<close>

theorem recursive_depends_ends:
  assumes "resolve_tasks dcs tds = Inr st"
  shows "\<exists>r. recursive_depends st = Some r"
  by (rule recursive_depends_some [OF assms])


text \<open>An image over two libraries, the second of them only below the first.\<close>

definition example_dcs :: "(string, data_cache) dict" where
  "example_dcs = [([], new_cache\<lparr>task_deps_of :=
     [(''image.bb'', \<lparr>td_tasks = [''do_rootfs''], td_parents = [], td_flags = [(''recrdeptask'', [(''do_rootfs'', ''do_package'')])]\<rparr>),
      (''lib.bb'', \<lparr>td_tasks = [''do_package''], td_parents = [], td_flags = [(''deptask'', [(''do_package'', ''do_package'')])]\<rparr>),
      (''base.bb'', \<lparr>td_tasks = [''do_package''], td_parents = [], td_flags = []\<rparr>)]\<rparr>)]"

definition example_tds :: "(string, taskdata) dict" where
  "example_tds = [([], (new_taskdata False False)
     \<lparr>build_targets := [(''lib'', [''lib.bb'']), (''base'', [''base.bb''])],
      depids := [(''image.bb'', [''lib'']), (''lib.bb'', [''base'']), (''base.bb'', [])],
      rdepids := [(''image.bb'', []), (''lib.bb'', []), (''base.bb'', [])],
      taskentries := map (\<lambda>t. (t, \<lparr>te_tdepends = [], te_idepends = [], te_irdepends = []\<rparr>))
        [''image.bb:do_rootfs'', ''lib.bb:do_package'', ''base.bb:do_package'']\<rparr>)]"

definition rootfs_tid :: tid where "rootfs_tid = ''image.bb:do_rootfs''"

definition lib_tid :: tid where "lib_tid = ''lib.bb:do_package''"

definition base_tid :: tid where "base_tid = ''base.bb:do_package''"

definition example_graph :: rtentries where
  "example_graph =
     [(rootfs_tid, new_rte\<lparr>rt_depends := [lib_tid]\<rparr>), (lib_tid, new_rte\<lparr>rt_depends := [base_tid]\<rparr>), (base_tid, new_rte)]"

lemma example_tids: "distinct [rootfs_tid, lib_tid, base_tid]" "fn_from_tid base_tid @ [colon] @ ''do_package'' = base_tid"
  by code_simp+

lemma example_resolved:
  obtains st where "resolve_tasks example_dcs example_tds = Inr st" and "p_rt st = example_graph"
    and "p_rec st = [(rootfs_tid, [''do_package''])]" and "p_selfref st = []"
proof -
  have "case resolve_tasks example_dcs example_tds of Inl _ \<Rightarrow> False
    | Inr st \<Rightarrow> p_rt st = example_graph \<and> p_rec st = [(rootfs_tid, [''do_package''])] \<and> p_selfref st = []"
    by code_simp
  then show ?thesis using that by (auto split: sum.splits)
qed

lemma example_graph_deps: "deps_of example_graph t =
    (if t = rootfs_tid then [lib_tid]
     else if t = lib_tid then [base_tid] else [])"
  using example_tids(1) by (simp add: deps_of_def example_graph_def new_rte_def)

lemma example_graph_wf: "wf_deps example_graph" "acyclic (dep_rel example_graph)"
proof -
  show "wf_deps example_graph"
    unfolding wf_deps_def example_graph_deps using example_tids(1) by (auto simp: example_graph_def tasks_def)
  let ?f = "\<lambda>t. if t = rootfs_tid then 2 else if t = lib_tid then 1 else 0 :: nat"
  have "dep_rel example_graph \<subseteq> (measure ?f)\<inverse>" using example_tids(1) by (auto simp: dep_rel_def example_graph_deps split: if_splits)
  then show "acyclic (dep_rel example_graph)"
    by (rule acyclic_subset [rotated]) (simp add: acyclic_converse wf_acyclic)
qed

theorem recursive_depends_ends_witness:
  "\<exists>st r. resolve_tasks example_dcs example_tds = Inr st \<and> recursive_depends st = Some r"
proof -
  obtain st where "resolve_tasks example_dcs example_tds = Inr st" by (rule example_resolved)
  with recursive_depends_ends [OF this] show ?thesis by blast
qed

theorem cumulative_deps_exact_witness:
  "\<exists>cum. cumulative_deps example_graph = Some (Inr cum) \<and> ''base.bb'' \<in> set (cum rootfs_tid)"
proof -
  obtain cum where c: "cumulative_deps example_graph = Some (Inr cum)"
    "set (cum rootfs_tid) = fn_from_tid ` {d. (rootfs_tid, d) \<in> (dep_rel example_graph)\<^sup>+}"
    using cumulative_deps_exact [OF example_graph_wf] by blast
  have "(rootfs_tid, base_tid) \<in> (dep_rel example_graph)\<^sup>+"
    by (rule trancl.trancl_into_trancl [of _ "lib_tid"]) (use example_tids(1) in \<open>auto simp: dep_rel_def example_graph_deps\<close>)
  moreover have "fn_from_tid base_tid = ''base.bb''" by code_simp
  ultimately show ?thesis using c by force
qed


end
