(* ===== verification/RunQueuePrepare.thy ===== *)
theory RunQueuePrepare
  imports RunQueueDeps RunQueueChains RunQueueState
begin

text \<open>
  Steps B to D of \<open>RunQueueData.prepare\<close> in \<open>bitbake/lib/bb/runqueue.py\<close>: marking the tasks
  that the targets need, dropping the others, the sanity checks and the order in which the
  tasks are hashed; and \<open>prepare\<close> itself.
\<close>

subsection \<open>Marking\<close>

record prep_config =
  cf_runall :: "string list"
  cf_runonly :: "string list"
  cf_force :: bool
  cf_nosetscene :: bool
  cf_invalidate_stamp :: "string option"
  cf_multi_provider_allowed :: "string list"

text \<open>
  The state of the steps: the graph, \<open>runq_build\<close>, \<open>target_tids\<close>, and the tasks whose
  signatures were invalidated, in order.
\<close>

record pstate =
  ps_rt :: rtentries
  ps_active :: "tid list"
  ps_target_tids :: "tid list"
  ps_invalidated :: "(string \<times> string \<times> string) list"

text \<open>The recursion of \<open>mark_active\<close> marks a task per level, so a level per task is enough.\<close>

fun mark_active :: "nat \<Rightarrow> rtentries \<Rightarrow> tid \<Rightarrow> tid list \<Rightarrow> tid list run" where
  "mark_active 0 rt tid active = None"
| "mark_active (Suc n) rt tid active =
     (if tid \<in> set active then return active
      else case map_of rt tid of
        None \<Rightarrow> raised KeyError (active @ [tid])
      | Some e \<Rightarrow> for_each (mark_active n rt) (rt_depends e) (active @ [tid]))"

definition mark_fuel :: "rtentries \<Rightarrow> nat" where
  "mark_fuel rt = length rt + 2"

definition mark :: "tid \<Rightarrow> pstate \<Rightarrow> pstate run" where
  "mark tid st = map_option (\<lambda>(e, active). (e, st\<lparr>ps_active := active\<rparr>))
     (mark_active (mark_fuel (ps_rt st)) (ps_rt st) tid (ps_active st))"

definition invalidate_task :: "(string, data_cache) dict \<Rightarrow> (string, taskdata) dict \<Rightarrow> tid \<Rightarrow> bool \<Rightarrow> pstate \<Rightarrow> pstate run" where
  "invalidate_task dcs tds tid error_nostamp st =
     on_result (split_tid_mcfn tid) st (\<lambda>(mc, fn, taskname, taskfn).
     on_result (dict_get dcs mc) st (\<lambda>dc.
     on_result (dict_get (task_deps_of dc) taskfn) st (\<lambda>taskdep.
     on_result (dict_get tds mc) st (\<lambda>_.
       if task_flag taskdep ''nostamp'' taskname \<noteq> None then
         if error_nostamp then raised Fatal st else return st
       else return (st\<lparr>ps_invalidated := ps_invalidated st @ [(taskname, mc, taskfn)]\<rparr>)))))"

text \<open>A target is a multiconfig, the name asked for, the task and the file that provides it.\<close>

type_synonym target = "string \<times> string \<times> string \<times> string"

definition mark_target :: "(string, taskdata) dict \<Rightarrow> target \<Rightarrow> pstate \<Rightarrow> pstate run" where
  "mark_target tds = (\<lambda>(mc, tgt, task, fn) st.
     on_result (dict_get tds mc) st (\<lambda>td.
     if dict_get_or [] (build_targets td) tgt = [] then return st
     else if tgt \<in> set (failed_deps td) then return st
     else
       let parents = endswith task ''-'';
           task = (if parents then butlast task else task)
       in if fn \<in> set (failed_fns td) then return st
       else
         let tid = fn @ [colon] @ task;
             st = st\<lparr>ps_target_tids := ps_target_tids st @ [tid]\<rparr>
         in if tid \<notin> set (dict_keys (taskentries td)) then raised Fatal st
         else if parents then
           on_result (dict_get (ps_rt st) tid) st (\<lambda>e. for_each mark (rt_depends e) st)
         else mark tid st))"

subsection \<open>Pruning\<close>

definition do_name :: "string \<Rightarrow> string" where
  "do_name task = (if startswith task ''do_'' then task else ''do_'' @ task)"

definition mark_forced :: "prep_config \<Rightarrow> (string, data_cache) dict \<Rightarrow> (string, taskdata) dict \<Rightarrow> tid \<Rightarrow> pstate \<Rightarrow> pstate run" where
  "mark_forced cf dcs tds tid st =
     and_then (mark tid st) (\<lambda>st. if cf_force cf then invalidate_task dcs tds tid False st else return st)"

definition mark_runall :: "prep_config \<Rightarrow> (string, data_cache) dict \<Rightarrow> (string, taskdata) dict \<Rightarrow> tid list \<Rightarrow>
    string \<Rightarrow> pstate \<Rightarrow> pstate run" where
  "mark_runall cf dcs tds reduced task st =
     for_each (mark_forced cf dcs tds)
       (remdups (filter (\<lambda>t. t \<in> tasks (ps_rt st)) (map (\<lambda>tid. fn_from_tid tid @ [colon] @ do_name task) reduced))) st"

definition prune :: "pstate \<Rightarrow> pstate" where
  "prune st = st\<lparr>ps_rt := filter (\<lambda>(t, _). t \<in> set (ps_active st)) (ps_rt st)\<rparr>"

definition with_taskname :: "string \<Rightarrow> tid list \<Rightarrow> tid list result" where
  "with_taskname task = (\<lambda>tids. foldE (\<lambda>k found.
     bindE (taskname_from_tid k) (\<lambda>name. Inr (if name = task then found @ [k] else found))) tids [])"

definition mark_runonly :: "prep_config \<Rightarrow> (string, data_cache) dict \<Rightarrow> (string, taskdata) dict \<Rightarrow>
    string \<Rightarrow> pstate \<Rightarrow> pstate run" where
  "mark_runonly cf dcs tds task st =
     on_result (with_taskname (do_name task) (dict_keys (ps_rt st))) st (\<lambda>tids.
       for_each (mark_forced cf dcs tds) tids st)"

definition prune_inactive :: "prep_config \<Rightarrow> (string, data_cache) dict \<Rightarrow> (string, taskdata) dict \<Rightarrow> pstate \<Rightarrow> pstate run" where
  "prune_inactive cf dcs tds st =
     and_then
       (if cf_runall cf = [] then return st
        else for_each (mark_runall cf dcs tds (filter (\<lambda>t. t \<in> set (ps_active st)) (dict_keys (ps_rt st)))) (cf_runall cf)
               (st\<lparr>ps_active := []\<rparr>))
       (\<lambda>st. let st = prune st in
          if cf_runall cf \<noteq> [] \<and> ps_rt st = [] then raised Fatal st
          else if cf_runonly cf = [] then return st
          else and_then (for_each (mark_runonly cf dcs tds) (cf_runonly cf) (st\<lparr>ps_active := []\<rparr>))
            (\<lambda>st. let st = prune st in if ps_rt st = [] then raised Fatal st else return st))"

subsection \<open>Reverse dependencies and checks\<close>

definition add_revdeps :: "rtentries \<Rightarrow> rtentries result" where
  "add_revdeps rt =
     foldE (\<lambda>(tid, e) rt'. foldE (\<lambda>dep rt'.
         bindE (dict_get rt' dep) (\<lambda>d. Inr (dict_set dep (d\<lparr>rt_revdeps := set_add tid (rt_revdeps d)\<rparr>) rt')))
       (rt_depends e) rt') rt rt"

definition mutual_deps :: "rtentries \<Rightarrow> bool" where
  "mutual_deps rt = list_ex (\<lambda>(_, e). list_ex (\<lambda>dep. dep \<in> set (rt_depends e)) (rt_revdeps e)) rt"

text \<open>The recipes of a multiconfig that the tasks belong to, by what they provide.\<close>

definition collect_provides :: "string \<Rightarrow> data_cache \<Rightarrow> tid \<Rightarrow> (string, string list) dict \<times> string list \<Rightarrow>
    ((string, string list) dict \<times> string list) result" where
  "collect_provides mc dc tid = (\<lambda>(prov_list, seen_fn).
     bindE (split_tid_mcfn tid) (\<lambda>(tidmc, fn, taskname, taskfn).
       if taskfn \<in> set seen_fn then Inr (prov_list, seen_fn)
       else if mc \<noteq> tidmc then Inr (prov_list, seen_fn)
       else bindE (dict_get (fn_provides dc) taskfn) (\<lambda>provs.
         Inr (fold (\<lambda>prov. dd_add prov taskfn) provs prov_list, seen_fn @ [taskfn]))))"

definition check_versions :: "data_cache \<Rightarrow> string list \<Rightarrow> unit result" where
  "check_versions dc fns =
     bindE (foldE (\<lambda>fn seen_pn. bindE (dict_get (pkg_fn dc) fn) (\<lambda>pn.
       if pn \<in> set seen_pn then Inl Fatal else Inr (seen_pn @ [pn]))) fns []) (\<lambda>_. Inr ())"

definition check_providers :: "prep_config \<Rightarrow> (string, data_cache) dict \<Rightarrow> tid list \<Rightarrow> unit result" where
  "check_providers cf dcs tids =
     foldE (\<lambda>(mc, dc) _.
       bindE (foldE (collect_provides mc dc) tids ([], [])) (\<lambda>(prov_list, _).
         foldE (\<lambda>(prov, fns) _.
           if length fns < 2 then Inr ()
           else if prov \<in> set (cf_multi_provider_allowed cf) then Inr ()
           else check_versions dc fns) prov_list ())) dcs ()"

definition setscene_tids :: "prep_config \<Rightarrow> (string, taskdata) dict \<Rightarrow> tid list \<Rightarrow> tid list result" where
  "setscene_tids cf tds tids =
     (if cf_nosetscene cf then Inr []
      else foldE (\<lambda>tid found.
        bindE (split_tid_mcfn tid) (\<lambda>(mc, _).
        bindE (dict_get tds mc) (\<lambda>td.
          Inr (if tid @ ''_setscene'' \<in> set (dict_keys (taskentries td)) then set_add tid found else found)))) tids [])"

definition invalidate_targets :: "prep_config \<Rightarrow> (string, data_cache) dict \<Rightarrow> (string, taskdata) dict \<Rightarrow> pstate \<Rightarrow> pstate run" where
  "invalidate_targets cf dcs tds st =
     and_then
       (if cf_force cf then for_each (\<lambda>tid. invalidate_task dcs tds tid False) (ps_target_tids st) st else return st)
       (\<lambda>st. case cf_invalidate_stamp cf of
          None \<Rightarrow> return st
        | Some stamps \<Rightarrow> if stamps = [] then return st else
            for_each (\<lambda>tid. for_each (\<lambda>s. invalidate_task dcs tds (fn_from_tid tid @ [colon] @ do_name s) True)
              (split_on CHR '','' stamps)) (ps_target_tids st) st)"

text \<open>The table of what \<open>virtual/\<close> names resolve to only serves a log; it may raise.\<close>

definition virtual_table :: "(string, data_cache) dict \<Rightarrow> (string, taskdata) dict \<Rightarrow> unit result" where
  "virtual_table dcs tds =
     foldE (\<lambda>(mc, td) _. foldE (\<lambda>(v, fn) _.
         bindE (dict_get dcs mc) (\<lambda>dc. bindE (dict_get (pkg_fn dc) fn) (\<lambda>_. Inr ())))
       (get_providermap td ''virtual/'') ()) tds ()"

subsection \<open>Hashing\<close>

text \<open>
  The signature generator is a state \<open>'g\<close> and a function that gives a task, with its
  dependencies, its hash and its unihash.
\<close>

type_synonym 'g hasher = "'g \<Rightarrow> tid \<Rightarrow> tid list \<Rightarrow> ('g \<times> string \<times> string) result"

definition prepare_task_hash :: "'g hasher \<Rightarrow> tid \<Rightarrow> rtentries \<times> 'g \<Rightarrow> (rtentries \<times> 'g) result" where
  "prepare_task_hash hasher tid = (\<lambda>(rt, g).
     bindE (dict_get rt tid) (\<lambda>e.
     bindE (hasher g tid (rt_depends e)) (\<lambda>(g, h, unihash).
       Inr (dict_set tid (e\<lparr>rt_hash := Some h, rt_unihash := Some unihash\<rparr>) rt, g))))"

record 'g hstate =
  h_todeal :: "tid list"
  h_dealt :: "tid list"
  h_rt :: rtentries
  h_gen :: 'g

definition hash_visit :: "'g hasher \<Rightarrow> tid \<Rightarrow> 'g hstate \<Rightarrow> 'g hstate result" where
  "hash_visit hasher tid st =
     (if set_diff (deps_of (h_rt st) tid) (h_dealt st) = [] then
        bindE (prepare_task_hash hasher tid (h_rt st, h_gen st)) (\<lambda>(rt, g).
          Inr (st\<lparr>h_todeal := remove1 tid (h_todeal st), h_dealt := h_dealt st @ [tid], h_rt := rt, h_gen := g\<rparr>))
      else Inr st)"

fun hash_loop :: "nat \<Rightarrow> 'g hasher \<Rightarrow> 'g hstate \<Rightarrow> 'g hstate result option" where
  "hash_loop 0 hasher st = None"
| "hash_loop (Suc n) hasher st =
     (if h_todeal st = [] then Some (Inr st)
      else case foldE (hash_visit hasher) (h_todeal st) st of
        Inl e \<Rightarrow> Some (Inl e)
      | Inr st' \<Rightarrow> hash_loop n hasher st')"

text \<open>Every round over an acyclic graph hashes a task.\<close>

definition hash_tasks :: "'g hasher \<Rightarrow> rtentries \<Rightarrow> 'g \<Rightarrow> (rtentries \<times> 'g) result option" where
  "hash_tasks hasher rt g =
     map_option (map_sum (\<lambda>e. e) (\<lambda>st. (h_rt st, h_gen st)))
       (hash_loop (Suc (length rt)) hasher \<lparr>h_todeal = dict_keys rt, h_dealt = [], h_rt = rt, h_gen = g\<rparr>)"

subsection \<open>Prepare\<close>

text \<open>What is prepared: the hashed graph with its data, the generator, and the invalidations.\<close>

record 'g prepared =
  pr_rqdata :: rqdata
  pr_gen :: 'g
  pr_invalidated :: "(string \<times> string \<times> string) list"

definition bindOE :: "('e + 'a) option \<Rightarrow> ('a \<Rightarrow> ('e + 'b) option) \<Rightarrow> ('e + 'b) option" where
  "bindOE r f = (case r of None \<Rightarrow> None | Some (Inl e) \<Rightarrow> Some (Inl e) | Some (Inr x) \<Rightarrow> f x)"

definition run_result :: "'s run \<Rightarrow> 's result option" where
  "run_result r = map_option (\<lambda>(e, s). case e of None \<Rightarrow> Inr s | Some x \<Rightarrow> Inl x) r"

text \<open>Steps B and C: the graph of the tasks that are needed.\<close>

definition active_graph :: "prep_config \<Rightarrow> (string, data_cache) dict \<Rightarrow> (string, taskdata) dict \<Rightarrow> target list \<Rightarrow>
    rtentries \<Rightarrow> pstate result option" where
  "active_graph cf dcs tds targets rt =
     run_result (and_then (for_each (mark_target tds) targets
         \<lparr>ps_rt = rt, ps_active = [], ps_target_tids = [], ps_invalidated = []\<rparr>)
       (prune_inactive cf dcs tds))"

text \<open>Step D up to the weights.\<close>

definition weighted_graph :: "rtentries \<Rightarrow> rtentries result option" where
  "weighted_graph rt =
     (case add_revdeps rt of
        Inl e \<Rightarrow> Some (Inl e)
      | Inr rt \<Rightarrow> if mutual_deps rt then Some (Inl Fatal) else calculate_task_weights rt (endpoints_of rt))"

text \<open>Steps A to D: the task databases, what was marked, and the weighted graph.\<close>

definition needed_graph :: "prep_config \<Rightarrow> (string, data_cache) dict \<Rightarrow> (string, taskdata) dict \<Rightarrow> target list \<Rightarrow>
    ((string, taskdata) dict \<times> pstate \<times> rtentries) result option" where
  "needed_graph cf dcs tds targets =
     bindOE (Some (resolve_tasks dcs tds)) (\<lambda>st.
     bindOE (recursive_depends st) (\<lambda>rt.
     bindOE (active_graph cf dcs (p_taskData st) targets rt) (\<lambda>ps.
     if ps_rt ps = [] then Some (bindE (dict_get (p_taskData st) []) (\<lambda>_. Inl Fatal))
     else bindOE (weighted_graph (ps_rt ps)) (\<lambda>rt. Some (Inr (p_taskData st, ps, rt))))))"

text \<open>The checks, the invalidations and the hashes.\<close>

definition complete_graph :: "'g hasher \<Rightarrow> prep_config \<Rightarrow> (string, data_cache) dict \<Rightarrow> (tid list \<Rightarrow> 'g) \<Rightarrow>
    (string, taskdata) dict \<times> pstate \<times> rtentries \<Rightarrow> 'g prepared result option" where
  "complete_graph hasher cf dcs gen = (\<lambda>(tds, ps, rt).
     bindOE (Some (check_providers cf dcs (dict_keys rt))) (\<lambda>_.
     bindOE (Some (setscene_tids cf tds (dict_keys rt))) (\<lambda>sc.
     bindOE (run_result (invalidate_targets cf dcs tds ps)) (\<lambda>ps.
     bindOE (Some (virtual_table dcs tds)) (\<lambda>_.
     bindOE (hash_tasks hasher rt (gen sc)) (\<lambda>(rt, g).
       Some (Inr
         \<lparr>pr_rqdata = \<lparr>runtaskentries = rt, runq_setscene_tids = sc, target_tids = ps_target_tids ps\<rparr>,
          pr_gen = g, pr_invalidated = ps_invalidated ps\<rparr>)))))))"

text \<open>
  The whole of it: \<open>None\<close> within the result if there is nothing to do. \<open>gen\<close> is the signature
  generator after it has been told the setscene tasks.
\<close>

definition prepare :: "'g hasher \<Rightarrow> prep_config \<Rightarrow> (string, data_cache) dict \<Rightarrow> (string, taskdata) dict \<Rightarrow>
    target list \<Rightarrow> (tid list \<Rightarrow> 'g) \<Rightarrow> 'g prepared option result option" where
  "prepare hasher cf dcs tds targets gen =
     (if list_all (\<lambda>(mc, td). taskentries td = []) tds then Some (Inr None)
      else bindOE (needed_graph cf dcs tds targets) (\<lambda>x.
        bindOE (complete_graph hasher cf dcs gen x) (\<lambda>r. Some (Inr (Some r)))))"

subsection \<open>Marking computes what the targets need\<close>

definition covers :: "rtentries \<Rightarrow> tid list \<Rightarrow> tid list \<Rightarrow> tid set \<Rightarrow> bool" where
  "covers rt A A' T \<longleftrightarrow> set A \<subseteq> set A' \<and> T \<subseteq> set A' \<and> set A' \<subseteq> set A \<union> (dep_rel rt)\<^sup>* `` T \<and>
     (\<forall>x \<in> set A' - set A. set (deps_of rt x) \<subseteq> set A')"

lemma reach_tasks: "wf_deps rt \<Longrightarrow> T \<subseteq> tasks rt \<Longrightarrow> (dep_rel rt)\<^sup>* `` T \<subseteq> tasks rt"
proof -
  assume wf: "wf_deps rt" and T: "T \<subseteq> tasks rt"
  have "y \<in> tasks rt" if "(x, y) \<in> (dep_rel rt)\<^sup>*" "x \<in> T" for x y
    using that T by (induction rule: rtrancl_induct) (auto dest: wf_depsD(4) [OF wf])
  then show ?thesis by blast
qed

lemma covers_tasks: "wf_deps rt \<Longrightarrow> covers rt A A' T \<Longrightarrow> set A \<subseteq> tasks rt \<Longrightarrow> T \<subseteq> tasks rt \<Longrightarrow> set A' \<subseteq> tasks rt"
  using reach_tasks [of rt T] unfolding covers_def by blast

lemma covers_union:
  assumes "covers rt A B S" and "covers rt B C T"
  shows "covers rt A C (S \<union> T)"
proof -
  have "set (deps_of rt x) \<subseteq> set C" if "x \<in> set C - set A" for x
    using assms that unfolding covers_def by (cases "x \<in> set B") (metis Diff_iff subset_trans)+
  then show ?thesis using assms unfolding covers_def Image_Un by (intro conjI ballI) auto
qed

lemma for_each_covers:
  assumes "wf_deps rt"
    and step: "\<And>t A. t \<in> tasks rt \<Longrightarrow> set A \<subseteq> tasks rt \<Longrightarrow> card (tasks rt - set A) < n \<Longrightarrow>
      \<exists>A'. f t A = Some (None, A') \<and> covers rt A A' {t}"
  shows "set ts \<subseteq> tasks rt \<Longrightarrow> set A \<subseteq> tasks rt \<Longrightarrow> card (tasks rt - set A) < n \<Longrightarrow>
    \<exists>A'. for_each f ts A = Some (None, A') \<and> covers rt A A' (set ts)"
proof (induction ts arbitrary: A)
  case Nil
  then show ?case by (simp add: covers_def)
next
  case (Cons t ts)
  then obtain B where B: "f t A = Some (None, B)" "covers rt A B {t}" using step [of t A] by auto
  have "set B \<subseteq> tasks rt" using covers_tasks [OF assms(1) B(2)] Cons.prems by simp
  moreover have "card (tasks rt - set B) \<le> card (tasks rt - set A)"
    using B(2) by (intro card_mono) (auto simp: covers_def)
  ultimately obtain C where C: "for_each f ts B = Some (None, C)" "covers rt B C (set ts)"
    using Cons.IH [of B] Cons.prems by auto
  have "covers rt A C ({t} \<union> set ts)" by (rule covers_union [OF B(2) C(2)])
  with B(1) C(1) show ?case by (simp add: and_then_def)
qed

lemma mark_active_covers:
  assumes wf: "wf_deps rt"
  shows "t \<in> tasks rt \<Longrightarrow> set A \<subseteq> tasks rt \<Longrightarrow> card (tasks rt - set A) < n \<Longrightarrow>
    \<exists>A'. mark_active n rt t A = Some (None, A') \<and> covers rt A A' {t}"
proof (induction n arbitrary: t A)
  case (Suc n)
  show ?case
  proof (cases "t \<in> set A")
    case True
    then show ?thesis by (auto simp: covers_def)
  next
    case False
    obtain e where e: "map_of rt t = Some e" using Suc.prems(1) tasks_map_of by blast
    let ?A = "A @ [t]"
    have "tasks rt - set ?A \<subset> tasks rt - set A" using False Suc.prems(1) by auto
    then have "card (tasks rt - set ?A) < card (tasks rt - set A)" by (intro psubset_card_mono) simp_all
    then have c: "card (tasks rt - set ?A) < n" using Suc.prems(3) by simp
    have "set (rt_depends e) \<subseteq> tasks rt" using wf_depsD(3) [OF wf, of t] deps_of_mem [OF e] by simp
    from for_each_covers [OF wf Suc.IH this _ c]
    obtain A' where A': "for_each (mark_active n rt) (rt_depends e) ?A = Some (None, A')"
      "covers rt ?A A' (set (rt_depends e))"
      using Suc.prems by auto
    have "covers rt A A' {t}"
      unfolding covers_def
    proof (intro conjI ballI)
      have "(t, d) \<in> dep_rel rt" if "d \<in> set (rt_depends e)" for d
        using that deps_of_mem [OF e] by (simp add: dep_rel_def)
      then have "insert t ((dep_rel rt)\<^sup>* `` set (rt_depends e)) \<subseteq> (dep_rel rt)\<^sup>* `` {t}"
        by (auto intro: converse_rtrancl_into_rtrancl)
      moreover have "set A' \<subseteq> set ?A \<union> (dep_rel rt)\<^sup>* `` set (rt_depends e)" using A'(2) unfolding covers_def by blast
      ultimately show "set A' \<subseteq> set A \<union> (dep_rel rt)\<^sup>* `` {t}" by (simp add: subset_iff) blast
      show "set (deps_of rt x) \<subseteq> set A'" if "x \<in> set A' - set A" for x
        using A'(2) that deps_of_mem [OF e] by (cases "x = t") (auto simp: covers_def)
    qed (use A'(2) in \<open>auto simp: covers_def\<close>)
    with A'(1) False e show ?thesis by simp
  qed
qed simp

text \<open>What is marked stays closed under dependencies.\<close>

definition closed_in :: "rtentries \<Rightarrow> tid list \<Rightarrow> bool" where
  "closed_in rt A \<longleftrightarrow> set A \<subseteq> tasks rt \<and> (\<forall>t \<in> set A. set (deps_of rt t) \<subseteq> set A)"

lemma closed_reach: "closed_in rt A \<Longrightarrow> (dep_rel rt)\<^sup>* `` set A = set A"
  by (intro Image_closed_trancl) (auto simp: closed_in_def dep_rel_def)

lemma covers_closed:
  assumes "wf_deps rt" and "closed_in rt A" and "covers rt A A' T" and "T \<subseteq> tasks rt"
  shows "closed_in rt A' \<and> set A' = set A \<union> (dep_rel rt)\<^sup>* `` T"
proof -
  have c: "closed_in rt A'"
    using assms covers_tasks [OF assms(1,3)] unfolding closed_in_def covers_def by blast
  have "(dep_rel rt)\<^sup>* `` T \<subseteq> (dep_rel rt)\<^sup>* `` set A'" using assms(3) by (auto simp: covers_def)
  with closed_reach [OF c] c assms(3) show ?thesis unfolding covers_def by blast
qed

lemma mark_active_result:
  assumes "wf_deps rt" and "t \<in> tasks rt" and "closed_in rt A"
  obtains A' where "mark_active (mark_fuel rt) rt t A = Some (None, A')" and "closed_in rt A'"
    and "set A' = set A \<union> {d. (t, d) \<in> (dep_rel rt)\<^sup>*}"
proof -
  have "card (tasks rt - set A) < mark_fuel rt"
    using card_mono [of "tasks rt" "tasks rt - set A"] card_length [of "dict_keys rt"]
    by (simp add: tasks_def mark_fuel_def)
  moreover have "set A \<subseteq> tasks rt" using assms(3) by (simp add: closed_in_def)
  ultimately obtain A' where A': "mark_active (mark_fuel rt) rt t A = Some (None, A')" "covers rt A A' {t}"
    using mark_active_covers [OF assms(1,2)] by blast
  from covers_closed [OF assms(1,3) A'(2)] assms(2)
  have "closed_in rt A'" "set A' = set A \<union> {d. (t, d) \<in> (dep_rel rt)\<^sup>*}" by (auto simp: Image_singleton)
  with A'(1) show ?thesis by (rule that)
qed

definition pinv :: "pstate \<Rightarrow> bool" where
  "pinv st \<longleftrightarrow> wf_deps (ps_rt st) \<and> closed_in (ps_rt st) (ps_active st)"

lemma mark_active_missing:
  "t \<notin> tasks rt \<Longrightarrow> set A \<subseteq> tasks rt \<Longrightarrow> mark_active (Suc n) rt t A = raised KeyError (A @ [t])"
  using tasks_map_of [of t rt] by (cases "map_of rt t") auto

lemma mark_cases:
  assumes "pinv st"
  shows "(t \<notin> tasks (ps_rt st) \<and> (\<exists>st'. mark t st = raised KeyError st')) \<or>
    (\<exists>A'. mark t st = return (st\<lparr>ps_active := A'\<rparr>) \<and> t \<in> tasks (ps_rt st) \<and> closed_in (ps_rt st) A' \<and>
       set A' = set (ps_active st) \<union> {d. (t, d) \<in> (dep_rel (ps_rt st))\<^sup>*})"
proof (cases "t \<in> tasks (ps_rt st)")
  case True
  from assms have "wf_deps (ps_rt st)" "closed_in (ps_rt st) (ps_active st)" by (auto simp: pinv_def)
  from mark_active_result [OF this(1) True this(2)]
  obtain A' where "mark_active (mark_fuel (ps_rt st)) (ps_rt st) t (ps_active st) = Some (None, A')"
    "closed_in (ps_rt st) A'" "set A' = set (ps_active st) \<union> {d. (t, d) \<in> (dep_rel (ps_rt st))\<^sup>*}" .
  with True show ?thesis by (auto simp: mark_def return_def)
next
  case False
  with mark_active_missing [OF this, of "ps_active st" "length (ps_rt st) + 1"] assms show ?thesis
    by (auto simp: mark_def mark_fuel_def raised_def pinv_def closed_in_def)
qed

definition same_graph :: "rtentries \<Rightarrow> pstate \<Rightarrow> bool" where
  "same_graph rt st \<longleftrightarrow> pinv st \<and> ps_rt st = rt"

lemma mark_ends: "same_graph rt st \<Longrightarrow> ends (same_graph rt) (mark t st)"
  using mark_cases [of st t] by (auto simp: same_graph_def pinv_def)

lemma for_each_mark:
  assumes "for_each mark ts st = Some (None, st')" and "pinv st"
  shows "pinv st' \<and> ps_rt st' = ps_rt st \<and>
    set (ps_active st') = set (ps_active st) \<union> (dep_rel (ps_rt st))\<^sup>* `` set ts"
  using assms
proof (induction ts arbitrary: st)
  case (Cons t ts)
  obtain b where b: "mark t st = Some (None, b)" "for_each mark ts b = Some (None, st')"
    using Cons.prems(1) by (auto simp: and_then_None_iff)
  obtain A' where A': "b = st\<lparr>ps_active := A'\<rparr>" "closed_in (ps_rt st) A'"
    "set A' = set (ps_active st) \<union> {d. (t, d) \<in> (dep_rel (ps_rt st))\<^sup>*}"
    using mark_cases [OF Cons.prems(2), of t] b(1) by (auto simp: raised_def return_def)
  then have "pinv b" using Cons.prems(2) by (simp add: pinv_def)
  from Cons.IH [OF b(2) this] A' show ?case by auto
qed simp

lemma invalidate_task_ends:
  assumes "same_graph rt st"
  shows "ends (same_graph rt) (invalidate_task dcs tds tid error_nostamp st)"
  using assms by (auto simp: invalidate_task_def same_graph_def pinv_def intro!: ends_on_result split: prod.splits)

text \<open>The tasks that a target asks for.\<close>

definition wanted_tids :: "(string, taskdata) dict \<Rightarrow> rtentries \<Rightarrow> target \<Rightarrow> tid set" where
  "wanted_tids tds rt = (\<lambda>(mc, tgt, task, fn).
     case map_of tds mc of
       None \<Rightarrow> {}
     | Some td \<Rightarrow>
         if dict_get_or [] (build_targets td) tgt = [] \<or> tgt \<in> set (failed_deps td) \<or> fn \<in> set (failed_fns td) then {}
         else if endswith task ''-'' then set (deps_of rt (fn @ [colon] @ butlast task))
         else {fn @ [colon] @ task})"

lemma mark_target_exact:
  assumes "mark_target tds tg st = Some (None, st')" and "pinv st"
  shows "pinv st' \<and> ps_rt st' = ps_rt st \<and>
    set (ps_active st') = set (ps_active st) \<union> (dep_rel (ps_rt st))\<^sup>* `` wanted_tids tds (ps_rt st) tg"
proof -
  obtain mc tgt task fn where tg: "tg = (mc, tgt, task, fn)" by (cases tg)
  obtain td where td: "map_of tds mc = Some td"
    using assms(1) by (cases "map_of tds mc") (auto simp: tg mark_target_def dict_get_def on_result_def raised_def)
  then have get: "dict_get tds mc = Inr td" by (simp add: dict_get_def)
  let ?task = "if endswith task ''-'' then butlast task else task"
  let ?tid = "fn @ [colon] @ ?task"
  let ?st = "st\<lparr>ps_target_tids := ps_target_tids st @ [?tid]\<rparr>"
  have eq: "mark_target tds tg st =
      (if dict_get_or [] (build_targets td) tgt = [] \<or> tgt \<in> set (failed_deps td) \<or> fn \<in> set (failed_fns td) then return st
       else if ?tid \<notin> set (dict_keys (taskentries td)) then raised Fatal ?st
       else if endswith task ''-'' then on_result (dict_get (ps_rt ?st) ?tid) ?st (\<lambda>e. for_each mark (rt_depends e) ?st)
       else mark ?tid ?st)"
    by (simp add: tg mark_target_def get on_result_def Let_def)
  show ?thesis
  proof (cases "dict_get_or [] (build_targets td) tgt = [] \<or> tgt \<in> set (failed_deps td) \<or> fn \<in> set (failed_fns td)")
    case True
    then have "st' = st" "wanted_tids tds (ps_rt st) tg = {}"
      using assms(1) unfolding eq by (simp_all add: tg wanted_tids_def td)
    then show ?thesis using assms(2) by simp
  next
    case False
    have inv: "pinv ?st" using assms(2) by (simp add: pinv_def)
    have run: "(if ?tid \<notin> set (dict_keys (taskentries td)) then raised Fatal ?st
        else if endswith task ''-'' then on_result (dict_get (ps_rt ?st) ?tid) ?st (\<lambda>e. for_each mark (rt_depends e) ?st)
        else mark ?tid ?st) = Some (None, st')"
      using assms(1) unfolding eq if_not_P [OF False] .
    have "\<exists>ts. for_each mark ts ?st = Some (None, st') \<and> set ts = wanted_tids tds (ps_rt st) tg"
    proof (cases "endswith task ''-''")
      case True
      then obtain e where "map_of (ps_rt st) ?tid = Some e" "for_each mark (rt_depends e) ?st = Some (None, st')"
        using run by (cases "map_of (ps_rt st) ?tid") (auto simp: on_result_def raised_def dict_get_def split: if_splits)
      with True False td show ?thesis
        by (intro exI [of _ "rt_depends e"]) (auto simp: tg wanted_tids_def deps_of_def)
    next
      case nodash: False
      with run have "for_each mark [?tid] ?st = Some (None, st')"
        by (auto simp: and_then_def raised_def split: if_splits)
      with nodash False td show ?thesis by (intro exI [of _ "[?tid]"]) (auto simp: tg wanted_tids_def)
    qed
    then show ?thesis using for_each_mark [OF _ inv] by auto
  qed
qed

lemma mark_target_ends:
  assumes "same_graph rt st"
  shows "ends (same_graph rt) (mark_target tds tg st)"
proof -
  have "same_graph rt (st\<lparr>ps_target_tids := ts\<rparr>)" for ts using assms by (auto simp: same_graph_def pinv_def)
  then show ?thesis using assms
    by (cases tg) (auto simp: mark_target_def Let_def intro!: ends_on_result ends_for_each mark_ends)
qed

lemma for_each_mark_target:
  assumes "for_each (mark_target tds) tgs st = Some (None, st')" and "pinv st"
  shows "pinv st' \<and> ps_rt st' = ps_rt st \<and>
    set (ps_active st') = set (ps_active st) \<union> (dep_rel (ps_rt st))\<^sup>* `` (\<Union>tg \<in> set tgs. wanted_tids tds (ps_rt st) tg)"
  using assms
proof (induction tgs arbitrary: st)
  case (Cons tg tgs)
  obtain b where b: "mark_target tds tg st = Some (None, b)" "for_each (mark_target tds) tgs b = Some (None, st')"
    using Cons.prems(1) by (auto simp: and_then_None_iff)
  note m = mark_target_exact [OF b(1) Cons.prems(2)]
  then have "pinv b" by simp
  from Cons.IH [OF b(2) this] m show ?case by (simp add: Image_Un Un_ac)
qed simp

subsection \<open>Pruning keeps whole dependency chains\<close>

lemma map_of_filter_keys: "map_of (filter (\<lambda>(k, _). P k) d) k = (if P k then map_of d k else None)"
  by (induction d) auto

lemma dict_keys_filter: "dict_keys (filter (\<lambda>(k, _). P k) d) = filter P (dict_keys d)"
  by (induction d) auto

lemma deps_of_prune:
  "deps_of (ps_rt (prune st)) t = (if t \<in> set (ps_active st) then deps_of (ps_rt st) t else [])"
  "revdeps_of (ps_rt (prune st)) t = (if t \<in> set (ps_active st) then revdeps_of (ps_rt st) t else [])"
  "tasks (ps_rt (prune st)) = tasks (ps_rt st) \<inter> set (ps_active st)"
  "ps_active (prune st) = ps_active st"
proof -
  have "dict_keys (ps_rt (prune st)) = filter (\<lambda>t. t \<in> set (ps_active st)) (dict_keys (ps_rt st))"
    unfolding prune_def by (simp add: dict_keys_filter del: set_map)
  then show "tasks (ps_rt (prune st)) = tasks (ps_rt st) \<inter> set (ps_active st)"
    unfolding tasks_def by (metis set_filter Collect_conj_eq Collect_mem_eq)
qed (simp_all add: prune_def deps_of_def revdeps_of_def map_of_filter_keys)

text \<open>A graph whose reverse dependencies have not been filled in.\<close>

definition fresh_graph :: "rtentries \<Rightarrow> bool" where
  "fresh_graph rt \<longleftrightarrow> wf_deps rt \<and> (\<forall>t. revdeps_of rt t = [])"

lemma prune_fresh:
  assumes "pinv st" and "fresh_graph (ps_rt st)"
  shows "fresh_graph (ps_rt (prune st))" "tasks (ps_rt (prune st)) = set (ps_active st)" "pinv (prune st)"
proof -
  have c: "set (ps_active st) \<subseteq> tasks (ps_rt st)" "\<And>t. t \<in> set (ps_active st) \<Longrightarrow> set (deps_of (ps_rt st) t) \<subseteq> set (ps_active st)"
    using assms(1) by (auto simp: pinv_def closed_in_def)
  then show t: "tasks (ps_rt (prune st)) = set (ps_active st)" by (auto simp: deps_of_prune)
  have wf: "wf_deps (ps_rt st)" using assms(1) by (simp add: pinv_def)
  have "distinct (dict_keys (ps_rt (prune st)))"
    using assms(1) wf_depsD(1) unfolding prune_def by (simp add: dict_keys_filter pinv_def del: set_map)
  then have "wf_deps (ps_rt (prune st))"
    using c wf_depsD(2) [OF wf] unfolding wf_deps_def t by (auto simp: deps_of_prune pinv_def)
  then show "fresh_graph (ps_rt (prune st))" "pinv (prune st)"
    using assms(2) c unfolding pinv_def fresh_graph_def closed_in_def t by (auto simp: deps_of_prune)
qed

lemma mark_forced_ends: "same_graph rt st \<Longrightarrow> ends (same_graph rt) (mark_forced cf dcs tds tid st)"
  unfolding mark_forced_def by (rule ends_and_then [OF mark_ends]) (auto intro: invalidate_task_ends)

lemma mark_runall_ends: "same_graph rt st \<Longrightarrow> ends (same_graph rt) (mark_runall cf dcs tds reduced task st)"
  unfolding mark_runall_def by (rule ends_for_each) (auto intro: mark_forced_ends)

lemma mark_runonly_ends: "same_graph rt st \<Longrightarrow> ends (same_graph rt) (mark_runonly cf dcs tds task st)"
  unfolding mark_runonly_def by (intro ends_on_result ends_for_each) (auto intro: mark_forced_ends)

lemma same_graph_restart: "same_graph rt st \<Longrightarrow> same_graph rt (st\<lparr>ps_active := []\<rparr>)"
  by (auto simp: same_graph_def pinv_def closed_in_def)

lemma prune_inactive_ends:
  assumes "same_graph rt st" and "fresh_graph rt"
  shows "ends (\<lambda>st'. fresh_graph (ps_rt st')) (prune_inactive cf dcs tds st)"
proof -
  let ?first = "if cf_runall cf = [] then return st
        else for_each (mark_runall cf dcs tds (filter (\<lambda>t. t \<in> set (ps_active st)) (dict_keys (ps_rt st)))) (cf_runall cf)
               (st\<lparr>ps_active := []\<rparr>)"
  have 1: "ends (same_graph rt) ?first"
    using assms(1) same_graph_restart [OF assms(1)] by (auto intro: ends_for_each mark_runall_ends)
  have 2: "same_graph (ps_rt (prune s)) (prune s) \<and> fresh_graph (ps_rt (prune s))" if "same_graph rt s" for s
    using that assms(2) prune_fresh [of s] by (auto simp: same_graph_def)
  have 3: "ends (\<lambda>st'. fresh_graph (ps_rt st')) (and_then (for_each (mark_runonly cf dcs tds) (cf_runonly cf) (s\<lparr>ps_active := []\<rparr>))
      (\<lambda>st. let st = prune st in if ps_rt st = [] then raised Fatal st else return st))"
    if s: "same_graph (ps_rt s) s" and f: "fresh_graph (ps_rt s)" for s
  proof (rule ends_and_then)
    show "ends (same_graph (ps_rt s)) (for_each (mark_runonly cf dcs tds) (cf_runonly cf) (s\<lparr>ps_active := []\<rparr>))"
      using same_graph_restart [OF s] by (intro ends_for_each mark_runonly_ends) auto
    show "ends (\<lambda>st'. fresh_graph (ps_rt st')) (let st = prune s' in if ps_rt st = [] then raised Fatal st else return st)"
      if "same_graph (ps_rt s) s'" for s'
      using that f prune_fresh(1) [of s'] by (auto simp: same_graph_def Let_def)
  qed
  show ?thesis unfolding prune_inactive_def
  proof (rule ends_and_then [OF 1])
    fix s
    assume "same_graph rt s"
    from 2 [OF this] 3 [of "prune s"]
    show "ends (\<lambda>st'. fresh_graph (ps_rt st')) (let st = prune s in
          if cf_runall cf \<noteq> [] \<and> ps_rt st = [] then raised Fatal st
          else if cf_runonly cf = [] then return st
          else and_then (for_each (mark_runonly cf dcs tds) (cf_runonly cf) (st\<lparr>ps_active := []\<rparr>))
            (\<lambda>st. let st = prune st in if ps_rt st = [] then raised Fatal st else return st))"
      by (simp add: Let_def)
  qed
qed

lemma run_result_ends: "ends P r \<Longrightarrow> \<exists>x. run_result r = Some x \<and> (\<forall>s. x = Inr s \<longrightarrow> P s)"
proof -
  assume "ends P r"
  then obtain e s where "r = Some (e, s)" "e = None \<longrightarrow> P s" by (auto simp: ends_def)
  then show ?thesis by (cases e) (simp_all add: run_result_def)
qed

lemma run_result_Inr: "run_result r = Some (Inr s) \<longleftrightarrow> r = Some (None, s)"
  by (auto simp: run_result_def split: option.splits)

lemma start_same_graph:
  "fresh_graph rt \<Longrightarrow> same_graph rt \<lparr>ps_rt = rt, ps_active = [], ps_target_tids = [], ps_invalidated = []\<rparr>"
  by (simp add: same_graph_def pinv_def fresh_graph_def closed_in_def)

lemma active_graph_fresh:
  assumes "fresh_graph rt"
  shows "\<exists>r. active_graph cf dcs tds targets rt = Some r \<and> (\<forall>ps. r = Inr ps \<longrightarrow> fresh_graph (ps_rt ps))"
  unfolding active_graph_def
  by (intro run_result_ends ends_and_then [where P = "same_graph rt"] ends_for_each)
    (auto intro: mark_target_ends start_same_graph [OF assms] prune_inactive_ends assms)

text \<open>Without \<open>--runall\<close> and \<open>--runonly\<close> the graph is exactly what the targets need.\<close>

lemma active_graph_tasks:
  assumes "fresh_graph rt" and "cf_runall cf = []" and "cf_runonly cf = []"
    and "active_graph cf dcs tds targets rt = Some (Inr ps)"
  shows "tasks (ps_rt ps) = (dep_rel rt)\<^sup>* `` (\<Union>tg \<in> set targets. wanted_tids tds rt tg) \<and>
    (\<forall>t \<in> tasks (ps_rt ps). deps_of (ps_rt ps) t = deps_of rt t)"
proof -
  let ?st = "\<lparr>ps_rt = rt, ps_active = [], ps_target_tids = [], ps_invalidated = []\<rparr>"
  obtain s where s: "for_each (mark_target tds) targets ?st = Some (None, s)" "ps = prune s"
    using assms(2-4) by (auto simp: active_graph_def run_result_Inr and_then_None_iff prune_inactive_def Let_def)
  from for_each_mark_target [OF s(1)] start_same_graph [OF assms(1)]
  have m: "pinv s" "ps_rt s = rt" "set (ps_active s) = (dep_rel rt)\<^sup>* `` (\<Union>tg \<in> set targets. wanted_tids tds rt tg)"
    by (simp_all add: same_graph_def)
  with prune_fresh(2) [of s] assms(1) show ?thesis by (simp add: s(2) deps_of_prune)
qed

subsection \<open>Reverse dependencies make a well-formed graph\<close>

lemma foldE_concat_map: "foldE f (concat (map h xs)) s = foldE (\<lambda>x. foldE f (h x)) xs s"
  by (induction xs arbitrary: s) (simp_all add: foldE_append, metis)

lemma foldE_map: "foldE f (map g xs) = foldE (f \<circ> g) xs"
proof
  show "foldE f (map g xs) s = foldE (f \<circ> g) xs s" for s by (induction xs arbitrary: s) (simp_all, metis)
qed

definition rev_edge :: "tid \<times> tid \<Rightarrow> rtentries \<Rightarrow> rtentries result" where
  "rev_edge = (\<lambda>(u, t) rt. bindE (dict_get rt t) (\<lambda>d. Inr (dict_set t (d\<lparr>rt_revdeps := set_add u (rt_revdeps d)\<rparr>) rt)))"

lemma rev_edges:
  assumes "\<And>u t. (u, t) \<in> set es \<Longrightarrow> t \<in> tasks rt"
  shows "\<exists>rt'. foldE rev_edge es rt = Inr rt' \<and> dict_keys rt' = dict_keys rt \<and> deps_of rt' = deps_of rt \<and>
    (\<forall>t. set (revdeps_of rt' t) = set (revdeps_of rt t) \<union> {u. (u, t) \<in> set es} \<and>
       (distinct (revdeps_of rt t) \<longrightarrow> distinct (revdeps_of rt' t)))"
  using assms
proof (induction es arbitrary: rt)
  case (Cons x es)
  obtain u t where x: "x = (u, t)" by force
  have "t \<in> tasks rt" using Cons.prems [of u t] x by simp
  then obtain d where d: "map_of rt t = Some d" unfolding tasks_map_of ..
  let ?rt = "dict_set t (d\<lparr>rt_revdeps := set_add u (rt_revdeps d)\<rparr>) rt"
  have k: "dict_keys ?rt = dict_keys rt" by (rule dict_set_same_keys) (rule map_of_in_keys [OF d])
  then have "tasks ?rt = tasks rt" unfolding tasks_def by metis
  then obtain rt' where rt': "foldE rev_edge es ?rt = Inr rt'" "dict_keys rt' = dict_keys ?rt" "deps_of rt' = deps_of ?rt"
    "\<And>t. set (revdeps_of rt' t) = set (revdeps_of ?rt t) \<union> {u. (u, t) \<in> set es} \<and>
       (distinct (revdeps_of ?rt t) \<longrightarrow> distinct (revdeps_of rt' t))"
    using Cons.IH [of ?rt] Cons.prems by fastforce
  have "deps_of ?rt = deps_of rt" using d by (auto simp: deps_of_set fun_eq_iff deps_of_def)
  moreover have "revdeps_of ?rt s = (if s = t then set_add u (revdeps_of rt t) else revdeps_of rt s)" for s
    using d by (simp add: revdeps_of_set) (simp add: revdeps_of_def)
  moreover have "rev_edge x rt = Inr ?rt" using d by (simp add: x rev_edge_def dict_get_def)
  ultimately show ?case using rt' k x by (auto simp del: map_eq_conv)
qed simp

lemma add_revdeps_edges:
  assumes "distinct (dict_keys rt)"
  shows "add_revdeps rt = foldE rev_edge (edges_from rt (dict_keys rt)) rt"
proof -
  have "foldE rev_edge (edges_from rt (dict_keys rt)) s =
      foldE (\<lambda>(tid, e) rt'. foldE (\<lambda>dep rt'.
         bindE (dict_get rt' dep) (\<lambda>d. Inr (dict_set dep (d\<lparr>rt_revdeps := set_add tid (rt_revdeps d)\<rparr>) rt')))
       (rt_depends e) rt') rt s" for s
  proof -
    have map: "foldE rev_edge (map (Pair u) ds) = foldE (\<lambda>dep rt'.
         bindE (dict_get rt' dep) (\<lambda>d. Inr (dict_set dep (d\<lparr>rt_revdeps := set_add u (rt_revdeps d)\<rparr>) rt'))) ds" for u ds
    proof -
      have "rev_edge \<circ> Pair u = (\<lambda>dep rt'. bindE (dict_get rt' dep)
          (\<lambda>d. Inr (dict_set dep (d\<lparr>rt_revdeps := set_add u (rt_revdeps d)\<rparr>) rt')))"
        by (simp add: fun_eq_iff rev_edge_def)
      then show ?thesis unfolding foldE_map by (rule arg_cong)
    qed
    have "edges_from rt (dict_keys rt) = concat (map (\<lambda>(tid, e). map (Pair tid) (rt_depends e)) rt)"
      unfolding edges_from_def by (rule arg_cong [of _ _ concat]) (auto simp: deps_of_entry [OF assms])
    then show ?thesis by (simp add: foldE_concat_map case_prod_unfold map)
  qed
  then show ?thesis unfolding add_revdeps_def ..
qed

lemma add_revdeps_wf:
  assumes "fresh_graph rt"
  obtains rt' where "add_revdeps rt = Inr rt'" and "wf_graph rt'" and "dict_keys rt' = dict_keys rt"
    and "deps_of rt' = deps_of rt"
proof -
  have wf: "wf_deps rt" and r: "\<And>t. revdeps_of rt t = []" using assms by (auto simp: fresh_graph_def)
  have es: "set (edges_from rt (dict_keys rt)) = dep_rel rt"
    using wf_depsD(4) [OF wf] unfolding set_edges_from by (auto simp: dep_rel_def tasks_def)
  obtain rt' where rt': "add_revdeps rt = Inr rt'" "dict_keys rt' = dict_keys rt" "deps_of rt' = deps_of rt"
    "\<And>t. set (revdeps_of rt' t) = {u. (u, t) \<in> dep_rel rt}" "\<And>t. distinct (revdeps_of rt' t)"
    using rev_edges [of "edges_from rt (dict_keys rt)" rt] wf_depsD(4) [OF wf] r
    unfolding add_revdeps_edges [OF wf_depsD(1) [OF wf]] es by auto
  have t: "tasks rt' = tasks rt" using rt'(2) unfolding tasks_def by metis
  have "wf_graph rt'"
    unfolding wf_graph_def t
  proof (intro conjI ballI)
    show "distinct (dict_keys rt')" using rt'(2) wf_depsD(1) [OF wf] by metis
    show "set (revdeps_of rt' x) = {u \<in> tasks rt. x \<in> set (deps_of rt' u)}" for x
      using wf_depsD(4) [OF wf] unfolding rt'(3,4) by (auto simp: dep_rel_def)
  qed (use rt'(3,5) wf_depsD(2,3) [OF wf] in simp_all)
  with rt'(1-3) show ?thesis by (intro that)
qed

lemma store_weights_same:
  "dict_keys (store_weights rt st) = dict_keys rt" "deps_of (store_weights rt st) = deps_of rt"
  "revdeps_of (store_weights rt st) = revdeps_of rt" "tasks (store_weights rt st) = tasks rt"
proof -
  have "map_of (store_weights rt st) t = map_option (\<lambda>e. e\<lparr>rt_weight := ws_weight st t\<rparr>) (map_of rt t)" for t
    unfolding store_weights_def by (rule map_of_map_values)
  then have "deps_of (store_weights rt st) t = deps_of rt t" "revdeps_of (store_weights rt st) t = revdeps_of rt t" for t
    by (cases "map_of rt t"; simp add: deps_of_def revdeps_of_def)+
  then show "deps_of (store_weights rt st) = deps_of rt" "revdeps_of (store_weights rt st) = revdeps_of rt" by auto
  show k: "dict_keys (store_weights rt st) = dict_keys rt" by (simp add: store_weights_def comp_def case_prod_unfold)
  then show "tasks (store_weights rt st) = tasks rt" unfolding tasks_def by metis
qed

lemma wf_graph_cong:
  "dict_keys b = dict_keys a \<Longrightarrow> deps_of b = deps_of a \<Longrightarrow> revdeps_of b = revdeps_of a \<Longrightarrow> wf_graph b = wf_graph a"
proof -
  assume eq: "dict_keys b = dict_keys a" "deps_of b = deps_of a" "revdeps_of b = revdeps_of a"
  then have "tasks b = tasks a" unfolding tasks_def by metis
  with eq show ?thesis by (simp only: wf_graph_def)
qed

lemma weighted_graph_result:
  assumes "fresh_graph rt"
  shows "(\<exists>e. weighted_graph rt = Some (Inl e)) \<or>
    (\<exists>rt'. weighted_graph rt = Some (Inr rt') \<and> wf_graph rt' \<and> acyclic (dep_rel rt') \<and>
       dict_keys rt' = dict_keys rt \<and> deps_of rt' = deps_of rt)"
proof -
  obtain rt1 where rt1: "add_revdeps rt = Inr rt1" "wf_graph rt1" "dict_keys rt1 = dict_keys rt" "deps_of rt1 = deps_of rt"
    using add_revdeps_wf [OF assms] by metis
  obtain st P where r: "calculate_task_weights rt1 (endpoints_of rt1) =
      Some (if problem_tasks rt1 st \<noteq> [] then Inl Fatal else Inr (store_weights rt1 st))"
    and inv: "pass_inv rt1 P [] st"
    using calculate_task_weights_result [OF rt1(2)] .
  show ?thesis
  proof (cases "mutual_deps rt1 \<or> problem_tasks rt1 st \<noteq> []")
    case True
    then show ?thesis using r rt1(1) by (auto simp: weighted_graph_def)
  next
    case False
    then have w: "weighted_graph rt = Some (Inr (store_weights rt1 st))" using r rt1(1) by (simp add: weighted_graph_def)
    have "acyclic (dep_rel rt1)"
      using False problem_tasks_iff [OF inv] acyclic_of_weights [of "dep_rel rt1" "ws_weight st"]
        pass_inv_weights [OF rt1(2) inv] by blast
    then have "acyclic (dep_rel (store_weights rt1 st))" by (simp add: dep_rel_def store_weights_same)
    moreover have "wf_graph (store_weights rt1 st)"
      using wf_graph_cong [OF store_weights_same(1-3)] rt1(2) by blast
    moreover have "dict_keys (store_weights rt1 st) = dict_keys rt" "deps_of (store_weights rt1 st) = deps_of rt"
      by (simp_all only: store_weights_same rt1)
    ultimately show ?thesis using w by blast
  qed
qed

subsection \<open>The order of hashing\<close>

fun newly :: "(tid \<Rightarrow> tid list) \<Rightarrow> tid list \<Rightarrow> tid list \<Rightarrow> tid list" where
  "newly d [] dealt = []"
| "newly d (t # ts) dealt =
     (if set_diff (d t) dealt = [] then t # newly d ts (dealt @ [t]) else newly d ts dealt)"

fun hash_order :: "nat \<Rightarrow> (tid \<Rightarrow> tid list) \<Rightarrow> tid list \<Rightarrow> tid list \<Rightarrow> tid list" where
  "hash_order 0 d todeal dealt = []"
| "hash_order (Suc n) d todeal dealt =
     (if todeal = [] then []
      else newly d todeal dealt @
        hash_order n d (fold remove1 (newly d todeal dealt) todeal) (dealt @ newly d todeal dealt))"

definition topological :: "(tid \<Rightarrow> tid list) \<Rightarrow> tid list \<Rightarrow> bool" where
  "topological d xs \<longleftrightarrow> (\<forall>us t vs. xs = us @ t # vs \<longrightarrow> set (d t) \<subseteq> set us)"

lemma topological_snoc: "topological d xs \<Longrightarrow> set (d t) \<subseteq> set xs \<Longrightarrow> topological d (xs @ [t])"
  unfolding topological_def
proof (intro allI impI)
  fix us s vs
  assume "\<forall>us t vs. xs = us @ t # vs \<longrightarrow> set (d t) \<subseteq> set us" "set (d t) \<subseteq> set xs" "xs @ [t] = us @ s # vs"
  then show "set (d s) \<subseteq> set us" by (cases vs rule: rev_cases) auto
qed

lemma set_diff_Nil [simp]: "set_diff xs ys = [] \<longleftrightarrow> set xs \<subseteq> set ys"
  by (auto simp: set_diff_def filter_empty_conv)

lemma newly_topological: "topological d dealt \<Longrightarrow> topological d (dealt @ newly d ts dealt)"
proof (induction ts arbitrary: dealt)
  case (Cons t ts)
  show ?case
  proof (cases "set (d t) \<subseteq> set dealt")
    case True
    then have "topological d (dealt @ [t])" using Cons.prems by (intro topological_snoc)
    from Cons.IH [OF this] True show ?thesis by simp
  qed (use Cons in simp)
qed simp

lemma newly_set: "set (newly d ts dealt) \<subseteq> set ts" "distinct ts \<Longrightarrow> distinct (newly d ts dealt)"
proof -
  show sub: "set (newly d ts dealt) \<subseteq> set ts" for ts dealt by (induction ts arbitrary: dealt) auto
  show "distinct ts \<Longrightarrow> distinct (newly d ts dealt)"
    using sub by (induction ts arbitrary: dealt) (auto dest: subsetD)
qed

lemma newly_ready: "t \<in> set ts \<Longrightarrow> set (d t) \<subseteq> set dealt \<Longrightarrow> t \<in> set (newly d ts dealt)"
proof (induction ts arbitrary: dealt)
  case (Cons a ts)
  have "set (d t) \<subseteq> set (dealt @ [a])" using Cons.prems(2) by auto
  with Cons show ?case by auto
qed simp

lemma fold_remove1: "distinct xs \<Longrightarrow> distinct (fold remove1 ys xs) \<and> set (fold remove1 ys xs) = set xs - set ys"
  by (induction ys arbitrary: xs) auto

lemma ready_task:
  assumes "wf_deps rt" and "acyclic (dep_rel rt)" and "tasks rt = set todeal \<union> set dealt" and "todeal \<noteq> []"
  shows "\<exists>t \<in> set todeal. set (deps_of rt t) \<subseteq> set dealt"
proof -
  have "dep_rel rt \<subseteq> tasks rt \<times> tasks rt" using wf_depsD(4) [OF assms(1)] by auto
  then have "finite (dep_rel rt)" by (rule finite_subset) simp
  with assms(2) have "wf ((dep_rel rt)\<inverse>)" by (rule finite_acyclic_wf_converse [rotated])
  then obtain t where t: "t \<in> set todeal" "\<And>y. (y, t) \<in> (dep_rel rt)\<inverse> \<Longrightarrow> y \<notin> set todeal"
    using assms(4) by (metis wfE_min hd_in_set)
  have "set (deps_of rt t) \<subseteq> set dealt"
    using t(2) wf_depsD(3) [OF assms(1), of t] assms(3) by (auto simp: dep_rel_def)
  with t(1) show ?thesis by blast
qed

lemma newly_progress:
  assumes "wf_deps rt" and "acyclic (dep_rel rt)" and "tasks rt = set todeal \<union> set dealt" and "todeal \<noteq> []"
  shows "newly (deps_of rt) todeal dealt \<noteq> []"
  using ready_task [OF assms] newly_ready [of _ todeal "deps_of rt" dealt] by force

lemma hash_order_topological:
  assumes "wf_deps rt" and "acyclic (dep_rel rt)"
  shows "distinct todeal \<Longrightarrow> tasks rt = set todeal \<union> set dealt \<Longrightarrow> topological (deps_of rt) dealt \<Longrightarrow>
    length todeal < n \<Longrightarrow> distinct (hash_order n (deps_of rt) todeal dealt) \<and>
      set (hash_order n (deps_of rt) todeal dealt) = set todeal \<and>
      topological (deps_of rt) (dealt @ hash_order n (deps_of rt) todeal dealt)"
proof (induction n arbitrary: todeal dealt)
  case (Suc n)
  show ?case
  proof (cases "todeal = []")
    case False
    let ?new = "newly (deps_of rt) todeal dealt"
    let ?rest = "fold remove1 ?new todeal"
    have new: "?new \<noteq> []" "set ?new \<subseteq> set todeal" "distinct ?new"
      using newly_progress [OF assms Suc.prems(2) False] newly_set Suc.prems(1) by auto
    have rest: "distinct ?rest" "set ?rest = set todeal - set ?new" using fold_remove1 [OF Suc.prems(1)] by auto
    have "set ?rest \<subset> set todeal" using new unfolding rest by (cases ?new) auto
    then have "card (set ?rest) < card (set todeal)" by (intro psubset_card_mono) auto
    then have "length ?rest < n" using distinct_card [OF rest(1)] distinct_card [OF Suc.prems(1)] Suc.prems(4) by simp
    moreover have "tasks rt = set ?rest \<union> set (dealt @ ?new)" using Suc.prems(2) new(2) rest(2) by auto
    ultimately have "distinct (hash_order n (deps_of rt) ?rest (dealt @ ?new)) \<and>
      set (hash_order n (deps_of rt) ?rest (dealt @ ?new)) = set ?rest \<and>
      topological (deps_of rt) ((dealt @ ?new) @ hash_order n (deps_of rt) ?rest (dealt @ ?new))"
      using newly_topological [OF Suc.prems(3)] by (intro Suc.IH [OF rest(1)])
    then have IH: "distinct (hash_order n (deps_of rt) ?rest (dealt @ ?new))"
      "set (hash_order n (deps_of rt) ?rest (dealt @ ?new)) = set ?rest"
      "topological (deps_of rt) ((dealt @ ?new) @ hash_order n (deps_of rt) ?rest (dealt @ ?new))"
      by auto
    with False new rest(2) show ?thesis by auto
  qed (use Suc.prems in simp)
qed simp

lemma prepare_task_hash_same:
  assumes "prepare_task_hash hasher t (rt, g) = Inr (rt', g')"
  shows "dict_keys rt' = dict_keys rt \<and> deps_of rt' = deps_of rt \<and> revdeps_of rt' = revdeps_of rt"
proof -
  obtain e h u where e: "map_of rt t = Some e" "rt' = dict_set t (e\<lparr>rt_hash := Some h, rt_unihash := Some u\<rparr>) rt"
    using assms by (auto simp: prepare_task_hash_def bindE_Inr_iff dict_get_Inr_iff)
  have "dict_keys rt' = dict_keys rt" unfolding e(2) by (rule dict_set_same_keys) (rule map_of_in_keys [OF e(1)])
  moreover have "deps_of rt' = deps_of rt" "revdeps_of rt' = revdeps_of rt"
    using e by (auto simp: deps_of_def revdeps_of_def fun_eq_iff)
  ultimately show ?thesis by blast
qed

lemma hash_pass:
  "foldE (hash_visit hasher) ts st =
     bindE (foldE (prepare_task_hash hasher) (newly (deps_of (h_rt st)) ts (h_dealt st)) (h_rt st, h_gen st)) (\<lambda>(rt, g).
       Inr (st\<lparr>h_todeal := fold remove1 (newly (deps_of (h_rt st)) ts (h_dealt st)) (h_todeal st),
               h_dealt := h_dealt st @ newly (deps_of (h_rt st)) ts (h_dealt st), h_rt := rt, h_gen := g\<rparr>))"
proof (induction ts arbitrary: st)
  case (Cons t ts)
  show ?case
  proof (cases "set (deps_of (h_rt st) t) \<subseteq> set (h_dealt st)")
    case True
    show ?thesis
    proof (cases "prepare_task_hash hasher t (h_rt st, h_gen st)")
      case (Inl e)
      with True show ?thesis by (simp add: hash_visit_def)
    next
      case (Inr r)
      obtain rt g where r: "r = (rt, g)" by force
      have "deps_of rt = deps_of (h_rt st)" using prepare_task_hash_same [of hasher t "h_rt st" "h_gen st" rt g] Inr r by simp
      with True Inr r Cons.IH show ?thesis by (simp add: hash_visit_def)
    qed
  next
    case False
    with Cons.IH show ?thesis by (simp add: hash_visit_def)
  qed
qed simp

lemma hash_loop_order:
  assumes "wf_deps rt" and "acyclic (dep_rel rt)"
  shows "deps_of (h_rt st) = deps_of rt \<Longrightarrow> distinct (h_todeal st) \<Longrightarrow> tasks rt = set (h_todeal st) \<union> set (h_dealt st) \<Longrightarrow>
    length (h_todeal st) < n \<Longrightarrow>
    map_option (map_sum (\<lambda>e. e) (\<lambda>st. (h_rt st, h_gen st))) (hash_loop n hasher st) =
      Some (foldE (prepare_task_hash hasher) (hash_order n (deps_of rt) (h_todeal st) (h_dealt st)) (h_rt st, h_gen st))"
proof (induction n arbitrary: st)
  case (Suc n)
  show ?case
  proof (cases "h_todeal st = []")
    case False
    let ?new = "newly (deps_of rt) (h_todeal st) (h_dealt st)"
    let ?rest = "fold remove1 ?new (h_todeal st)"
    show ?thesis
    proof (cases "foldE (prepare_task_hash hasher) ?new (h_rt st, h_gen st)")
      case (Inl e)
      with False Suc.prems(1) show ?thesis by (simp add: hash_pass foldE_append)
    next
      case (Inr r)
      obtain rt' g where r: "r = (rt', g)" by force
      let ?st = "st\<lparr>h_todeal := ?rest, h_dealt := h_dealt st @ ?new, h_rt := rt', h_gen := g\<rparr>"
      have "deps_of rt' = deps_of (h_rt st)"
        using foldE_invariant [OF Inr, where P = "\<lambda>x. deps_of (fst x) = deps_of (h_rt st)"] prepare_task_hash_same r by force
      then have d: "deps_of (h_rt ?st) = deps_of rt" using Suc.prems(1) by simp
      have new: "?new \<noteq> []" "set ?new \<subseteq> set (h_todeal st)"
        using newly_progress [OF assms Suc.prems(3) False] newly_set by auto
      have rest: "distinct ?rest" "set ?rest = set (h_todeal st) - set ?new" using fold_remove1 [OF Suc.prems(2)] by auto
      have "set ?rest \<subset> set (h_todeal st)" using new unfolding rest by (cases ?new) auto
      then have "card (set ?rest) < card (set (h_todeal st))" by (intro psubset_card_mono) auto
      then have "length ?rest < n" using distinct_card [OF rest(1)] distinct_card [OF Suc.prems(2)] Suc.prems(4) by simp
      moreover have "tasks rt = set ?rest \<union> set (h_dealt st @ ?new)" using Suc.prems(3) new(2) rest(2) by auto
      ultimately have "map_option (map_sum (\<lambda>e. e) (\<lambda>st. (h_rt st, h_gen st))) (hash_loop n hasher ?st) =
          Some (foldE (prepare_task_hash hasher) (hash_order n (deps_of rt) (h_todeal ?st) (h_dealt ?st)) (h_rt ?st, h_gen ?st))"
        using rest(1) by (intro Suc.IH [OF d]) simp_all
      with False Inr r Suc.prems(1) show ?thesis by (simp add: hash_pass foldE_append)
    qed
  qed simp
qed simp

subsection \<open>The whole preparation\<close>

lemma drop_selfrefs_same:
  "dict_keys (drop_selfrefs s rt) = dict_keys rt" "revdeps_of (drop_selfrefs s rt) t = revdeps_of rt t"
  "deps_of (drop_selfrefs s rt) t = (if t \<in> set s then set_diff (deps_of rt t) s else deps_of rt t)"
proof -
  have m: "map_of (drop_selfrefs s rt) t =
      map_option (\<lambda>e. if t \<in> set s then e\<lparr>rt_depends := set_diff (rt_depends e) s\<rparr> else e) (map_of rt t)"
    unfolding drop_selfrefs_def by (rule map_of_map_values)
  show "revdeps_of (drop_selfrefs s rt) t = revdeps_of rt t"
    using m by (cases "map_of rt t") (auto simp: revdeps_of_def)
  show "deps_of (drop_selfrefs s rt) t = (if t \<in> set s then set_diff (deps_of rt t) s else deps_of rt t)"
    using m by (cases "map_of rt t") (auto simp: deps_of_def set_diff_def)
qed (simp add: drop_selfrefs_def comp_def case_prod_unfold)

lemma recursive_depends_fresh:
  assumes "resolve_tasks dcs tds = Inr st" and "recursive_depends st = Some (Inr rt)"
  shows "fresh_graph rt"
proof -
  note wf = resolve_tasks_wf [OF assms(1)]
  obtain cum where cum: "cumulative_deps (p_rt st) = Some (Inr cum)"
    using assms(2) by (auto simp: recursive_depends_def split: option.splits sum.splits)
  then obtain rd where rd: "temp_revdeps (p_rt st) = Inr rd"
    by (cases "temp_revdeps (p_rt st)") (auto simp: cumulative_deps_def)
  have d: "wf_deps (p_rt st)" by (rule temp_revdeps_wf [OF rd]) (use wf in \<open>simp_all add: prep_wf_def\<close>)
  have "set (dict_keys (p_rec st)) \<subseteq> tasks (p_rt st)" using wf by (simp add: prep_wf_def)
  from recr_loop_total [OF this room_fuel, of cum "p_reci st"] cum assms(2)
  obtain rt1 where e: "extends (p_rec st) (p_rt st) rt1" and rt: "rt = drop_selfrefs (p_selfref st) rt1"
    by (auto simp: recursive_depends_def)
  have k: "dict_keys rt = dict_keys (p_rt st)"
    using e unfolding rt drop_selfrefs_same extends_def by (elim conjE)
  then have k2: "tasks rt = tasks (p_rt st)" unfolding tasks_def by metis
  have x: "distinct (deps_of rt1 t)" "set (deps_of rt1 t) \<subseteq> tasks (p_rt st)" "revdeps_of rt1 t = []" for t
  proof -
    note ext = e [unfolded extends_def, THEN conjunct2, THEN spec, of t]
    show "distinct (deps_of rt1 t)" using ext wf_depsD(2) [OF d, of t] by blast
    show "set (deps_of rt1 t) \<subseteq> tasks (p_rt st)" using ext wf_depsD(3) [OF d, of t] by blast
    show "revdeps_of rt1 t = []" using ext wf by (simp add: prep_wf_def)
  qed
  show ?thesis
    unfolding fresh_graph_def wf_deps_def k2
  proof (intro conjI allI)
    show "distinct (dict_keys rt)" using wf_depsD(1) [OF d] k by metis
    show "set (deps_of rt t) \<subseteq> tasks (p_rt st)" for t using x(2) [of t] by (auto simp: rt drop_selfrefs_same)
  qed (use x in \<open>simp_all add: rt drop_selfrefs_same\<close>)
qed

lemma bindOE_None: "r \<noteq> None \<Longrightarrow> (\<And>x. r = Some (Inr x) \<Longrightarrow> f x \<noteq> None) \<Longrightarrow> bindOE r f \<noteq> None"
  by (auto simp: bindOE_def split: sum.splits)

lemma bindOE_Inr: "bindOE r f = Some (Inr y) \<longleftrightarrow> (\<exists>x. r = Some (Inr x) \<and> f x = Some (Inr y))"
  by (auto simp: bindOE_def split: option.splits sum.splits)

lemma invalidate_targets_ends: "ends (\<lambda>_. True) (invalidate_targets cf dcs tds st)"
proof -
  have i: "ends (\<lambda>_. True) (invalidate_task dcs tds tid b st)" for tid b st
    by (auto simp: invalidate_task_def intro!: ends_on_result split: prod.splits)
  show ?thesis
    unfolding invalidate_targets_def
    by (rule ends_and_then [where P = "\<lambda>_. True"]) (auto intro!: ends_for_each i split: option.split)
qed

lemma hash_tasks_order:
  assumes "wf_graph rt" and "acyclic (dep_rel rt)"
  obtains order where "hash_tasks hasher rt g = Some (foldE (prepare_task_hash hasher) order (rt, g))"
    and "distinct order" and "set order = tasks rt" and "topological (deps_of rt) order"
proof
  have wf: "wf_deps rt"
    using wf_graph_keys [OF assms(1)] wf_graphD(1,2) [OF assms(1)] deps_of_off_tasks
    unfolding wf_deps_def by (metis distinct.simps(1) empty_subsetI list.set(1))
  let ?order = "hash_order (Suc (length rt)) (deps_of rt) (dict_keys rt) []"
  have "distinct (dict_keys rt)" "tasks rt = set (dict_keys rt) \<union> set []" "topological (deps_of rt) []"
    "length (dict_keys rt) < Suc (length rt)"
    using wf_depsD(1) [OF wf] by (simp_all add: tasks_def topological_def)
  note o = this
  from hash_order_topological [OF wf assms(2) o]
  show "distinct ?order" "set ?order = tasks rt" "topological (deps_of rt) ?order" by (auto simp: tasks_def)
  show "hash_tasks hasher rt g = Some (foldE (prepare_task_hash hasher) ?order (rt, g))"
    unfolding hash_tasks_def
    using hash_loop_order [OF wf assms(2), of "\<lparr>h_todeal = dict_keys rt, h_dealt = [], h_rt = rt, h_gen = g\<rparr>" "Suc (length rt)" hasher] o
    by simp
qed

lemma needed_graph_result:
  "needed_graph cf dcs tds targets \<noteq> None \<and>
   (\<forall>tds' ps rt. needed_graph cf dcs tds targets = Some (Inr (tds', ps, rt)) \<longrightarrow>
      wf_graph rt \<and> acyclic (dep_rel rt) \<and> dict_keys rt = dict_keys (ps_rt ps) \<and> deps_of rt = deps_of (ps_rt ps) \<and> ps_rt ps \<noteq> [])"
proof -
  have act: "\<exists>r. active_graph cf dcs (p_taskData st) targets rt = Some r \<and> (\<forall>ps. r = Inr ps \<longrightarrow> fresh_graph (ps_rt ps))"
    if "resolve_tasks dcs tds = Inr st" "recursive_depends st = Some (Inr rt)" for st rt
    by (rule active_graph_fresh [OF recursive_depends_fresh [OF that]])
  have "needed_graph cf dcs tds targets \<noteq> None"
    unfolding needed_graph_def
  proof (intro bindOE_None)
    show "recursive_depends st \<noteq> None" if "Some (resolve_tasks dcs tds) = Some (Inr st)" for st
      using recursive_depends_some [of dcs tds st] that by auto
    fix st rt
    assume "Some (resolve_tasks dcs tds) = Some (Inr st)" and rd: "recursive_depends st = Some (Inr rt)"
    then have "resolve_tasks dcs tds = Inr st" by simp
    from act [OF this rd] obtain r where r: "active_graph cf dcs (p_taskData st) targets rt = Some r"
      "\<forall>ps. r = Inr ps \<longrightarrow> fresh_graph (ps_rt ps)" by blast
    then show "active_graph cf dcs (p_taskData st) targets rt \<noteq> None" by simp
    fix ps
    assume "active_graph cf dcs (p_taskData st) targets rt = Some (Inr ps)"
    with r have "fresh_graph (ps_rt ps)" by simp
    from weighted_graph_result [OF this]
    show "(if ps_rt ps = [] then Some (bindE (dict_get (p_taskData st) []) (\<lambda>_. Inl Fatal))
       else bindOE (weighted_graph (ps_rt ps)) (\<lambda>rt. Some (Inr (p_taskData st, ps, rt)))) \<noteq> None"
      by (auto simp: bindOE_def)
  qed simp
  moreover have "wf_graph rt \<and> acyclic (dep_rel rt) \<and> dict_keys rt = dict_keys (ps_rt ps) \<and> deps_of rt = deps_of (ps_rt ps) \<and> ps_rt ps \<noteq> []"
    if n: "needed_graph cf dcs tds targets = Some (Inr (tds', ps, rt))" for tds' ps rt
  proof -
    obtain st rt0 ps0 where s: "resolve_tasks dcs tds = Inr st" "recursive_depends st = Some (Inr rt0)"
      "active_graph cf dcs (p_taskData st) targets rt0 = Some (Inr ps0)"
      and g: "(if ps_rt ps0 = [] then Some (bindE (dict_get (p_taskData st) []) (\<lambda>_. Inl Fatal))
       else bindOE (weighted_graph (ps_rt ps0)) (\<lambda>rt. Some (Inr (p_taskData st, ps0, rt)))) = Some (Inr (tds', ps, rt))"
      using n unfolding needed_graph_def bindOE_Inr by auto
    have f: "fresh_graph (ps_rt ps0)" using act [OF s(1,2)] s(3) by auto
    have "ps_rt ps0 \<noteq> []" using g by (auto simp: bindE_Inr_iff split: if_splits)
    with g have "weighted_graph (ps_rt ps0) = Some (Inr rt)" "ps = ps0" by (auto simp: bindOE_Inr)
    with weighted_graph_result [OF f] \<open>ps_rt ps0 \<noteq> []\<close> show ?thesis by (elim disjE exE conjE) simp_all
  qed
  ultimately show ?thesis by blast
qed

lemma complete_graph_ends:
  assumes "wf_graph rt" and "acyclic (dep_rel rt)"
  shows "complete_graph hasher cf dcs gen (tds, ps, rt) \<noteq> None"
proof -
  have inv: "run_result (invalidate_targets cf dcs tds ps) \<noteq> None"
    using run_result_ends [OF invalidate_targets_ends, of cf dcs tds ps] by auto
  have hash: "hash_tasks hasher rt g \<noteq> None" for g using hash_tasks_order [OF assms, of hasher g] by auto
  show ?thesis
    unfolding complete_graph_def prod.case by (intro bindOE_None inv hash) (simp_all split: prod.split)
qed

text \<open>
  Property C25. The preparation of a build always comes to an end, with a prepared run queue or
  an exception: no dependency structure, cyclic or not, keeps one of its loops going.
\<close>

theorem prepare_ends: "prepare hasher cf dcs tds targets gen \<noteq> None"
proof (cases "list_all (\<lambda>(mc, td). taskentries td = []) tds")
  case False
  have "complete_graph hasher cf dcs gen x \<noteq> None" if "needed_graph cf dcs tds targets = Some (Inr x)" for x
    using needed_graph_result [of cf dcs tds targets] that complete_graph_ends by (cases x) blast
  then show ?thesis
    unfolding prepare_def if_not_P [OF False] using needed_graph_result [of cf dcs tds targets]
    by (intro bindOE_None) simp_all
qed (simp add: prepare_def)

lemma hashes_same:
  assumes "foldE (prepare_task_hash hasher) order (rt, g) = Inr (rt', g')"
  shows "dict_keys rt' = dict_keys rt \<and> deps_of rt' = deps_of rt \<and> revdeps_of rt' = revdeps_of rt"
proof -
  let ?P = "\<lambda>x. dict_keys (fst x) = dict_keys rt \<and> deps_of (fst x) = deps_of rt \<and> revdeps_of (fst x) = revdeps_of rt"
  have "?P (rt', g')"
    using assms
  proof (rule foldE_invariant [where P = ?P])
    fix t a b
    assume "?P a" "prepare_task_hash hasher t a = Inr b"
    then show "?P b" using prepare_task_hash_same [of hasher t "fst a" "snd a" "fst b" "snd b"] by (simp del: map_eq_conv)
  qed simp
  then show ?thesis by simp
qed

lemma complete_graph_result:
  assumes "complete_graph hasher cf dcs gen (tds, ps, rt) = Some (Inr r)" and "wf_graph rt" and "acyclic (dep_rel rt)"
  shows "\<exists>order. foldE (prepare_task_hash hasher) order (rt, gen (runq_setscene_tids (pr_rqdata r))) =
      Inr (runtaskentries (pr_rqdata r), pr_gen r) \<and>
    distinct order \<and> set order = tasks rt \<and> topological (deps_of rt) order \<and>
    dict_keys (runtaskentries (pr_rqdata r)) = dict_keys rt \<and> deps_of (runtaskentries (pr_rqdata r)) = deps_of rt \<and>
    revdeps_of (runtaskentries (pr_rqdata r)) = revdeps_of rt"
proof -
  obtain sc and ps' :: pstate and rt' g where h: "hash_tasks hasher rt (gen sc) = Some (Inr (rt', g))"
    and r: "r = \<lparr>pr_rqdata = \<lparr>runtaskentries = rt', runq_setscene_tids = sc, target_tids = ps_target_tids ps'\<rparr>,
          pr_gen = g, pr_invalidated = ps_invalidated ps'\<rparr>"
    using assms(1) unfolding complete_graph_def prod.case bindOE_Inr by auto
  obtain order where o: "hash_tasks hasher rt (gen sc) = Some (foldE (prepare_task_hash hasher) order (rt, gen sc))"
    "distinct order" "set order = tasks rt" "topological (deps_of rt) order"
    by (rule hash_tasks_order [OF assms(2,3), of hasher "gen sc"])
  then have f: "foldE (prepare_task_hash hasher) order (rt, gen sc) = Inr (rt', g)" using h by simp
  have "runtaskentries (pr_rqdata r) = rt'" "runq_setscene_tids (pr_rqdata r) = sc" "pr_gen r = g" by (simp_all add: r)
  with hashes_same [OF f] f o(2-4) show ?thesis by (intro exI [of _ order]) (simp only:)
qed

lemma prepareD:
  assumes "prepare hasher cf dcs tds targets gen = Some (Inr (Some r))"
  obtains tds' ps rt where "needed_graph cf dcs tds targets = Some (Inr (tds', ps, rt))"
    and "complete_graph hasher cf dcs gen (tds', ps, rt) = Some (Inr r)"
    and "wf_graph rt" and "acyclic (dep_rel rt)" and "dict_keys rt = dict_keys (ps_rt ps)"
    and "deps_of rt = deps_of (ps_rt ps)" and "ps_rt ps \<noteq> []"
proof -
  obtain x where x: "needed_graph cf dcs tds targets = Some (Inr x)" "complete_graph hasher cf dcs gen x = Some (Inr r)"
    using assms by (auto simp: prepare_def bindOE_Inr split: if_splits)
  obtain tds' ps rt where "x = (tds', ps, rt)" by (cases x)
  with x needed_graph_result [of cf dcs tds targets] show ?thesis by (intro that) blast+
qed

text \<open>
  Property C3. A prepared run queue is sound: it has tasks, its dependencies and reverse
  dependencies are tasks of it and converse to each other, and no task depends on itself
  through any chain.
\<close>

theorem prepared_graph_sound:
  assumes "prepare hasher cf dcs tds targets gen = Some (Inr (Some r))"
  shows "wf_graph (runtaskentries (pr_rqdata r)) \<and> acyclic (dep_rel (runtaskentries (pr_rqdata r))) \<and>
    runtaskentries (pr_rqdata r) \<noteq> []"
proof -
  obtain tds' ps rt where p: "complete_graph hasher cf dcs gen (tds', ps, rt) = Some (Inr r)"
    "wf_graph rt" "acyclic (dep_rel rt)" "dict_keys rt = dict_keys (ps_rt ps)" "ps_rt ps \<noteq> []"
    using prepareD [OF assms] by metis
  from complete_graph_result [OF p(1-3)]
  have s: "dict_keys (runtaskentries (pr_rqdata r)) = dict_keys rt" "deps_of (runtaskentries (pr_rqdata r)) = deps_of rt"
    "revdeps_of (runtaskentries (pr_rqdata r)) = revdeps_of rt" by blast+
  have "runtaskentries (pr_rqdata r) \<noteq> []" using s(1) p(4,5) by auto
  with s p(2,3) wf_graph_cong [OF s] show ?thesis by (simp add: dep_rel_def)
qed

text \<open>
  Property C4. Without \<open>--runall\<close> and \<open>--runonly\<close> the run queue holds exactly the tasks that
  the targets ask for and everything these depend on through any chain, with the
  dependencies that step A and the recursive dependencies gave them.
\<close>

theorem prepared_tasks_needed:
  assumes "prepare hasher cf dcs tds targets gen = Some (Inr (Some r))" and "cf_runall cf = []" and "cf_runonly cf = []"
  shows "\<exists>st rt. resolve_tasks dcs tds = Inr st \<and> recursive_depends st = Some (Inr rt) \<and>
    tasks (runtaskentries (pr_rqdata r)) =
      (dep_rel rt)\<^sup>* `` (\<Union>tg \<in> set targets. wanted_tids (p_taskData st) rt tg) \<and>
    (\<forall>t \<in> tasks (runtaskentries (pr_rqdata r)). deps_of (runtaskentries (pr_rqdata r)) t = deps_of rt t)"
proof -
  obtain tds' ps rt where p: "needed_graph cf dcs tds targets = Some (Inr (tds', ps, rt))"
    "complete_graph hasher cf dcs gen (tds', ps, rt) = Some (Inr r)"
    "wf_graph rt" "acyclic (dep_rel rt)" "dict_keys rt = dict_keys (ps_rt ps)" "deps_of rt = deps_of (ps_rt ps)"
    using prepareD [OF assms(1)] by metis
  obtain st rt0 where s: "resolve_tasks dcs tds = Inr st" "recursive_depends st = Some (Inr rt0)"
    "active_graph cf dcs (p_taskData st) targets rt0 = Some (Inr ps)"
    using p(1) unfolding needed_graph_def bindOE_Inr by (auto simp: bindOE_Inr bindE_Inr_iff split: if_splits)
  from complete_graph_result [OF p(2-4)]
  have "dict_keys (runtaskentries (pr_rqdata r)) = dict_keys rt" "deps_of (runtaskentries (pr_rqdata r)) = deps_of rt"
    by blast+
  then have e: "tasks (runtaskentries (pr_rqdata r)) = tasks (ps_rt ps)"
    "deps_of (runtaskentries (pr_rqdata r)) = deps_of (ps_rt ps)"
    using p(5,6) unfolding tasks_def by metis+
  from active_graph_tasks [OF recursive_depends_fresh [OF s(1,2)] assms(2,3) s(3)] s(1,2) show ?thesis
    unfolding e by blast
qed

text \<open>
  Property C5. The signatures are computed in dependency order: there is an order of all the
  tasks, each of them once and after everything it depends on, such that the loop over the
  run queue computes the hashes in this order.
\<close>

theorem tasks_hashed_in_order:
  assumes "prepare hasher cf dcs tds targets gen = Some (Inr (Some r))"
  shows "\<exists>order rt. foldE (prepare_task_hash hasher) order (rt, gen (runq_setscene_tids (pr_rqdata r))) =
      Inr (runtaskentries (pr_rqdata r), pr_gen r) \<and>
    distinct order \<and> set order = tasks (runtaskentries (pr_rqdata r)) \<and>
    topological (deps_of (runtaskentries (pr_rqdata r))) order"
proof -
  obtain tds' ps rt where p: "complete_graph hasher cf dcs gen (tds', ps, rt) = Some (Inr r)"
    "wf_graph rt" "acyclic (dep_rel rt)"
    using prepareD [OF assms] by metis
  from complete_graph_result [OF p] obtain order where
    o: "foldE (prepare_task_hash hasher) order (rt, gen (runq_setscene_tids (pr_rqdata r))) = Inr (runtaskentries (pr_rqdata r), pr_gen r)"
    "distinct order" "set order = tasks rt" "topological (deps_of rt) order"
    "dict_keys (runtaskentries (pr_rqdata r)) = dict_keys rt" "deps_of (runtaskentries (pr_rqdata r)) = deps_of rt" by blast
  then have "tasks (runtaskentries (pr_rqdata r)) = tasks rt" unfolding tasks_def by metis
  with o show ?thesis by auto
qed

text \<open>The example of the recursive dependencies with the image as target, hashed into a log.\<close>

definition log_hasher :: "tid list hasher" where
  "log_hasher = (\<lambda>g t ds. Inr (g @ [t], t, t))"

definition plain_config :: prep_config where
  "plain_config = \<lparr>cf_runall = [], cf_runonly = [], cf_force = False, cf_nosetscene = False,
     cf_invalidate_stamp = None, cf_multi_provider_allowed = []\<rparr>"

definition image_dcs :: "(string, data_cache) dict" where
  "image_dcs = map (\<lambda>(mc, dc). (mc, dc\<lparr>fn_provides := [(''image.bb'', [''image'']), (''lib.bb'', [''lib'']), (''base.bb'', [''base''])],
     pkg_fn := [(''image.bb'', ''image''), (''lib.bb'', ''lib''), (''base.bb'', ''base'')]\<rparr>)) example_dcs"

definition image_tds :: "(string, taskdata) dict" where
  "image_tds = map (\<lambda>(mc, td). (mc, td\<lparr>build_targets := build_targets td @ [(''image'', [''image.bb''])]\<rparr>)) example_tds"

definition image_run :: "tid list prepared option result option" where
  "image_run = prepare log_hasher plain_config image_dcs image_tds [([], ''image'', ''do_rootfs'', ''image.bb'')] (\<lambda>_. [])"

lemma image_run:
  obtains r where "image_run = Some (Inr (Some r))" and "pr_gen r = [base_tid, lib_tid, rootfs_tid]"
    and "deps_of (runtaskentries (pr_rqdata r)) rootfs_tid = [lib_tid, base_tid]"
proof -
  have "case image_run of Some (Inr (Some r)) \<Rightarrow> pr_gen r = [base_tid, lib_tid, rootfs_tid] \<and>
      deps_of (runtaskentries (pr_rqdata r)) rootfs_tid = [lib_tid, base_tid] | _ \<Rightarrow> False"
    by code_simp
  then show ?thesis using that by (auto split: option.splits sum.splits)
qed

theorem prepared_graph_sound_witness:
  "\<exists>r. image_run = Some (Inr (Some r)) \<and> wf_graph (runtaskentries (pr_rqdata r)) \<and>
     (rootfs_tid, base_tid) \<in> dep_rel (runtaskentries (pr_rqdata r))"
proof -
  obtain r where r: "image_run = Some (Inr (Some r))" "deps_of (runtaskentries (pr_rqdata r)) rootfs_tid = [lib_tid, base_tid]"
    by (rule image_run)
  from prepared_graph_sound [OF r(1) [unfolded image_run_def]] r show ?thesis by (auto simp: dep_rel_def)
qed

theorem prepared_tasks_needed_witness:
  "\<exists>r. image_run = Some (Inr (Some r)) \<and> (\<exists>st rt. resolve_tasks image_dcs image_tds = Inr st \<and>
     recursive_depends st = Some (Inr rt) \<and> tasks (runtaskentries (pr_rqdata r)) =
       (dep_rel rt)\<^sup>* `` wanted_tids (p_taskData st) rt ([], ''image'', ''do_rootfs'', ''image.bb''))"
proof -
  obtain r where r: "image_run = Some (Inr (Some r))" by (rule image_run)
  have "cf_runall plain_config = []" "cf_runonly plain_config = []" by (simp_all add: plain_config_def)
  from prepared_tasks_needed [OF r [unfolded image_run_def] this] r show ?thesis by auto
qed

theorem tasks_hashed_in_order_witness:
  "\<exists>r order. image_run = Some (Inr (Some r)) \<and> set order = tasks (runtaskentries (pr_rqdata r)) \<and>
     topological (deps_of (runtaskentries (pr_rqdata r))) order"
proof -
  obtain r where r: "image_run = Some (Inr (Some r))" by (rule image_run)
  from tasks_hashed_in_order [OF r [unfolded image_run_def]] r show ?thesis by blast
qed

end
