(* ===== verification/SceneQueue.thy ===== *)
theory SceneQueue
  imports Scheduler TaskData Runs
begin

text \<open>
  The scene queue of \<open>bitbake/lib/bb/runqueue.py\<close>: which stamps are current
  (\<open>check_stamp_task\<close>, \<open>check_setscene_stamps\<close>), and the operations of \<open>RunQueueExecute\<close> and
  \<open>SQData\<close> that mark setscene tasks as covered or not covered.
\<close>

subsection \<open>Configuration and environment\<close>

text \<open>
  What stays the same during a build: the data caches and task data per multiconfig, the
  options of the command line, \<open>setscene_ignore_tasks\<close> and \<open>setscene_enforce\<close>, the
  \<open>number_threads\<close> flag of a task, and the stamp file that the signature generator names for
  a task, a multiconfig, a recipe file and the \<open>noextra\<close> flag.
\<close>

record exec_config =
  xc_caches :: "(string, data_cache) dict"
  xc_taskdata :: "(string, taskdata) dict"
  xc_force :: bool
  xc_skipsetscene :: bool
  xc_setsceneonly :: bool
  xc_dry_run :: bool
  xc_enforce :: bool
  xc_ignore :: "string list option"
  xc_nthreads :: "string \<Rightarrow> string option"
  xc_stampfile :: "string \<Rightarrow> string \<Rightarrow> string \<Rightarrow> bool \<Rightarrow> string"

text \<open>
  What one step finds outside: the time stamp of a file once the given stamps have been
  made, the answers of the functions the metadata supplies (\<open>BB_HASHCHECK_FUNCTION\<close>,
  \<open>BB_SETSCENE_DEPVALID\<close>) and of the signature generator, whether the machine is under
  pressure and whether a fakeroot worker can be started.
\<close>

type_synonym hash_request = "tid \<times> string option \<times> string \<times> string option"

record world =
  wd_mtime :: "string list \<Rightarrow> string \<Rightarrow> int option"
  wd_validate :: "(hash_request list \<Rightarrow> tid list) option"
  wd_depvalid :: "(tid \<Rightarrow> (tid \<times> string \<times> string \<times> string) list \<Rightarrow> tid list \<Rightarrow> bool) option"
  wd_taskhash :: "tid \<Rightarrow> tid list \<Rightarrow> string"
  wd_unihash :: "tid \<Rightarrow> string"
  wd_pressure :: bool
  wd_spawns :: "string \<Rightarrow> bool"

abbreviation rt_of :: "rqexec \<Rightarrow> rtentries" where
  "rt_of s \<equiv> runtaskentries (rqd s)"

abbreviation setscene_tids_of :: "rqexec \<Rightarrow> tid list" where
  "setscene_tids_of s \<equiv> runq_setscene_tids (rqd s)"

subsection \<open>Stamps\<close>

definition truthy_time :: "int option \<Rightarrow> bool" where
  "truthy_time t = (case t of None \<Rightarrow> False | Some v \<Rightarrow> v \<noteq> 0)"

definition older :: "int option \<Rightarrow> int option \<Rightarrow> bool" where
  "older t u = (case t of None \<Rightarrow> False | Some v \<Rightarrow> (case u of None \<Rightarrow> False | Some w \<Rightarrow> v < w))"

text \<open>
  \<open>check_stamp_task\<close> on the cache it is given: the state of the run is the answer and the
  cache. The fuel bounds the depth of the recursion, which follows the dependencies.
\<close>

fun check_stamp :: "nat \<Rightarrow> exec_config \<Rightarrow> (string \<Rightarrow> int option) \<Rightarrow> rtentries \<Rightarrow> tid \<Rightarrow> string option \<Rightarrow> bool \<Rightarrow>
    (tid, bool) dict \<Rightarrow> (bool \<times> (tid, bool) dict) run" where
  "check_stamp 0 cf mtime rt tid name recurse cache = None"
| "check_stamp (Suc n) cf mtime rt tid name recurse cache =
     on_result (split_tid_mcfn tid) (False, cache) (\<lambda>(mc, fn, tn, taskfn).
     on_result (dict_get (xc_caches cf) mc) (False, cache) (\<lambda>dc.
     let taskname = (case name of None \<Rightarrow> tn | Some t \<Rightarrow> t);
         t1 = mtime (xc_stampfile cf taskname mc taskfn False)
     in if t1 = None then return (False, cache)
     else on_result (dict_get (task_deps_of dc) taskfn) (False, cache) (\<lambda>taskdep.
     if task_flag taskdep ''nostamp'' taskname \<noteq> None then return (False, cache)
     else if taskname \<noteq> ''do_setscene'' \<and> endswith taskname ''_setscene'' then return (True, cache)
     else on_result (dict_get rt tid) (False, cache) (\<lambda>e.
       and_then
         (for_each (\<lambda>dep (iscurrent, cache).
            if \<not> iscurrent then return (iscurrent, cache)
            else on_result (split_tid_mcfn dep) (iscurrent, cache) (\<lambda>(mc2, fn2, taskname2, taskfn2).
              on_result (dict_get (xc_caches cf) mc2) (iscurrent, cache) (\<lambda>_.
              let t2 = mtime (xc_stampfile cf taskname2 mc2 taskfn2 False);
                  t3 = mtime (xc_stampfile cf (taskname2 @ ''_setscene'') mc2 taskfn2 False)
              in if truthy_time t3 \<and> (\<not> truthy_time t2 \<or> older t2 t3) then return (True, cache)
                 else if fn \<noteq> fn2 then return (True, cache)
                 else if \<not> truthy_time t2 \<or> older t1 t2 then return (False, cache)
                 else if \<not> recurse then return (True, cache)
                 else case map_of cache dep of
                   Some b \<Rightarrow> return (b, cache)
                 | None \<Rightarrow> and_then (check_stamp n cf mtime rt dep None True cache)
                     (\<lambda>(b, cache). return (b, dict_set dep b cache)))))
            (rt_depends e) (True, cache))
         (\<lambda>(iscurrent, cache). return (iscurrent, if recurse then dict_set tid iscurrent cache else cache))))))"

definition stamp_fuel :: "rtentries \<Rightarrow> nat" where
  "stamp_fuel rt = length rt + 1"

text \<open>\<open>check_stamp_task\<close> with the \<open>stampcache\<close> of the queue, and what is done with its answer.\<close>

definition with_stamp :: "exec_config \<Rightarrow> world \<Rightarrow> tid \<Rightarrow> string \<Rightarrow> bool \<Rightarrow> rqexec \<Rightarrow> (bool \<Rightarrow> rqexec \<Rightarrow> rqexec run) \<Rightarrow> rqexec run" where
  "with_stamp cf wd tid name recurse s k =
     (case check_stamp (stamp_fuel (rt_of s)) cf (wd_mtime wd (stamps_made s)) (rt_of s) tid (Some name) recurse (stampcache s) of
        None \<Rightarrow> None
      | Some (Some e, _) \<Rightarrow> raised e s
      | Some (None, (b, cache)) \<Rightarrow> k b (s\<lparr>stampcache := cache\<rparr>))"

definition make_stamp :: "exec_config \<Rightarrow> string \<Rightarrow> string \<Rightarrow> string \<Rightarrow> rqexec \<Rightarrow> rqexec" where
  "make_stamp cf taskname mc taskfn s = s\<lparr>stamps_made := stamps_made s @ [xc_stampfile cf taskname mc taskfn False]\<rparr>"

text \<open>The pair \<open>noexec, stamppresent\<close> is handed to the continuation.\<close>

definition check_setscene_stamps :: "exec_config \<Rightarrow> world \<Rightarrow> tid \<Rightarrow> rqexec \<Rightarrow>
    (bool \<Rightarrow> bool \<Rightarrow> rqexec \<Rightarrow> rqexec run) \<Rightarrow> rqexec run" where
  "check_setscene_stamps cf wd tid s k =
     on_result (split_tid_mcfn tid) s (\<lambda>(mc, fn, taskname, taskfn).
     on_result (dict_get (xc_caches cf) mc) s (\<lambda>dc.
     on_result (dict_get (task_deps_of dc) taskfn) s (\<lambda>taskdep.
     if task_flag taskdep ''noexec'' taskname \<noteq> None then
       k True False (make_stamp cf (taskname @ ''_setscene'') mc taskfn s)
     else with_stamp cf wd tid (taskname @ ''_setscene'') False s (\<lambda>b s.
       if b then k False True s
       else with_stamp cf wd tid taskname True s (\<lambda>b s. k False b s)))))"

subsection \<open>The tasks that may fail\<close>

text \<open>\<open>fnmatch\<close>: \<open>*\<close>, \<open>?\<close> and character classes; an unclosed \<open>[\<close> stands for itself.\<close>

definition class_end :: "string \<Rightarrow> (string \<times> string) option" where
  "class_end p =
     (let n = (if startswith p ''!'' then 1 else 0);
          n = (if startswith (drop n p) '']'' then n + 1 else n);
          body = takeWhile (\<lambda>c. c \<noteq> CHR '']'') (drop n p);
          m = n + length body
      in if m < length p then Some (take m p, drop (Suc m) p) else None)"

fun in_ranges :: "char \<Rightarrow> string \<Rightarrow> bool" where
  "in_ranges c [] = False"
| "in_ranges c [a] = (c = a)"
| "in_ranges c [a, b] = (c = a \<or> c = b)"
| "in_ranges c (a # b # d # rest) =
     (if b = CHR ''-'' then (a \<le> c \<and> c \<le> d) \<or> in_ranges c rest
      else c = a \<or> in_ranges c (b # d # rest))"

definition in_class :: "char \<Rightarrow> string \<Rightarrow> bool" where
  "in_class c cls = (if startswith cls ''!'' then \<not> in_ranges c (tl cls) else in_ranges c cls)"

function glob :: "string \<Rightarrow> string \<Rightarrow> bool" where
  "glob [] s = (s = [])"
| "glob (c # p) s =
     (if c = CHR ''*'' then glob p s \<or> (case s of [] \<Rightarrow> False | _ # t \<Rightarrow> glob (c # p) t)
      else if s = [] then False
      else if c = CHR ''?'' then glob p (tl s)
      else if c = CHR ''['' then
        (case class_end p of
           None \<Rightarrow> hd s = c \<and> glob p (tl s)
         | Some (cls, rest) \<Rightarrow> in_class (hd s) cls \<and> glob rest (tl s))
      else hd s = c \<and> glob p (tl s))"
  by pat_completeness auto

termination
proof (relation "measure (\<lambda>(p, s). length p + length s)")
  fix c :: char and p s :: string and z cls rest
  assume "class_end p = Some z" and "(cls, rest) = z" and "s \<noteq> []"
  then have "length rest < length p"
    by (auto simp: class_end_def Let_def split: if_splits)
  with \<open>s \<noteq> []\<close> show "((rest, tl s), (c # p, s)) \<in> measure (\<lambda>(p, s). length p + length s)"
    by simp
qed auto

definition check_setscene_enforce_ignore_tasks :: "string \<Rightarrow> string \<Rightarrow> string list option \<Rightarrow> bool" where
  "check_setscene_enforce_ignore_tasks pn taskname ignore_tasks =
     (case ignore_tasks of None \<Rightarrow> True
      | Some pats \<Rightarrow> list_ex (\<lambda>pat. glob pat (pn @ [colon] @ taskname)) pats)"

definition get_setscene_enforce_ignore_tasks :: "(string \<Rightarrow> string option) \<Rightarrow> (string \<times> string \<times> string \<times> string) list \<Rightarrow>
    string list option" where
  "get_setscene_enforce_ignore_tasks getVar targets =
     (if getVar ''BB_SETSCENE_ENFORCE'' \<noteq> Some ''1'' then None
      else let items = split_ws (case getVar ''BB_SETSCENE_ENFORCE_IGNORE_TASKS'' of None \<Rightarrow> [] | Some v \<Rightarrow> v)
      in Some (concat (map (\<lambda>item.
           if startswith item ''%:'' then map (\<lambda>(mc, tgt, task, fn). tgt @ [colon] @ split_on colon item ! 1) targets
           else [item]) items)))"

text \<open>\<open>task.split(sub)[0]\<close>.\<close>

fun before_sub :: "string \<Rightarrow> string \<Rightarrow> string" where
  "before_sub sub [] = []"
| "before_sub sub (c # s) = (if startswith (c # s) sub then [] else c # before_sub sub s)"

definition sq_check_taskfail :: "exec_config \<Rightarrow> tid \<Rightarrow> rqexec \<Rightarrow> rqexec run" where
  "sq_check_taskfail cf task s =
     (if xc_ignore cf = None then return s
      else on_result (split_tid_mcfn (before_sub ''_setscene'' task)) s (\<lambda>(mc, fn, taskname, taskfn).
        on_result (dict_get (xc_caches cf) mc) s (\<lambda>dc.
        on_result (dict_get (pkg_fn dc) taskfn) s (\<lambda>pn.
        if \<not> check_setscene_enforce_ignore_tasks pn taskname (xc_ignore cf)
        then return (s\<lparr>rqstate := QCleanUp\<rparr>) else return s))))"

subsection \<open>Covered, not covered and done\<close>

definition setbuildable :: "tid \<Rightarrow> rqexec \<Rightarrow> rqexec" where
  "setbuildable task s = s\<lparr>runq_buildable := set_add task (runq_buildable s), sched := newbuildable task (sched s)\<rparr>"

text \<open>
  The loop at the end of \<open>scenequeue_updatecounters\<close>: a task that only tasks that are done
  depend upon is done as well. Every round but the first marks a new task.
\<close>

definition done_task :: "rtentries \<Rightarrow> tid list \<Rightarrow> tid \<Rightarrow> tid list \<times> tid list \<Rightarrow> (tid list \<times> tid list) result" where
  "done_task rt setscene t = (\<lambda>(done, new).
     let done = set_add t done in
     bindE (dict_get rt t) (\<lambda>e.
     bindE (foldE (\<lambda>dep new.
         if dep \<in> set setscene \<or> dep \<in> set done then Inr new
         else bindE (dict_get rt dep) (\<lambda>d.
           Inr (if set (rt_revdeps d) \<subseteq> set done then set_add dep new else new))) (rt_depends e) new) (\<lambda>new.
       Inr (done, new))))"

fun done_loop :: "nat \<Rightarrow> tid list \<Rightarrow> rqexec \<Rightarrow> rqexec run" where
  "done_loop 0 next s = None"
| "done_loop (Suc n) next s =
     (if next = [] then return s
      else on_result (foldE (done_task (rt_of s) (setscene_tids_of s)) (sort next) (tasks_scenequeue_done s, [])) s
        (\<lambda>(done, new). done_loop n new (s\<lparr>tasks_scenequeue_done := done\<rparr>)))"

definition done_fuel :: "rtentries \<Rightarrow> nat" where
  "done_fuel rt = length rt + 3"

text \<open>
  \<open>scenequeue_updatecounters\<close> and \<open>sq_task_failoutright\<close>, which call each other for hard
  dependencies: the fuel bounds the depth.
\<close>

definition is_harddep :: "sqdata \<Rightarrow> tid \<Rightarrow> tid \<Rightarrow> bool" where
  "is_harddep q task dep \<longleftrightarrow> dep \<in> set (dict_get_or [] (sq_harddeps q) task)"

definition update_counts :: "rqexec \<Rightarrow> rqexec" where
  "update_counts s = s\<lparr>stats := updateCovered (int (length (scenequeue_covered s))) (int (length (scenequeue_notcovered s))) (stats s),
     holdoff_need_update := True\<rparr>"

definition sq_failing :: "tid \<Rightarrow> rqexec \<Rightarrow> rqexec" where
  "sq_failing task s = s\<lparr>sq_running := set_add task (sq_running s), sq_buildable := set_add task (sq_buildable s),
     scenequeue_notcovered := set_add task (scenequeue_notcovered s)\<rparr>"

fun scenequeue_updatecounters :: "nat \<Rightarrow> exec_config \<Rightarrow> world \<Rightarrow> tid \<Rightarrow> bool \<Rightarrow> rqexec \<Rightarrow> rqexec run" where
  "scenequeue_updatecounters 0 cf wd task fail s = None"
| "scenequeue_updatecounters (Suc n) cf wd task fail s =
     on_result (dict_get (sq_deps (sqd s)) task) s (\<lambda>deps.
     and_then
       (for_each (\<lambda>dep s.
          if fail \<and> is_harddep (sqd s) task dep then
            if dep \<in> set (scenequeue_covered s) \<or> dep \<in> set (scenequeue_notcovered s) then return s
            else check_setscene_stamps cf wd dep s (\<lambda>noexec stamppresent s.
              if noexec \<or> stamppresent then return s
              else scenequeue_updatecounters n cf wd dep True (sq_failing dep s))
          else on_result (dict_get (sq_revdeps (sqd s)) dep) s (\<lambda>revdeps.
            if set revdeps \<subseteq> set (scenequeue_covered s) \<union> set (scenequeue_notcovered s)
            then return (s\<lparr>sq_buildable := set_add dep (sq_buildable s)\<rparr>)
            else return s)) (sort deps) s)
       (\<lambda>s. and_then (done_loop (done_fuel (rt_of s)) [task] s)
          (\<lambda>s. return (update_counts s))))"

definition sq_fuel :: "rqexec \<Rightarrow> nat" where
  "sq_fuel s = length (sq_deps (sqd s)) + 2"

definition sq_update :: "exec_config \<Rightarrow> world \<Rightarrow> tid \<Rightarrow> bool \<Rightarrow> rqexec \<Rightarrow> rqexec run" where
  "sq_update cf wd task fail s = scenequeue_updatecounters (sq_fuel s) cf wd task fail s"

definition sq_task_failoutright :: "exec_config \<Rightarrow> world \<Rightarrow> tid \<Rightarrow> rqexec \<Rightarrow> rqexec run" where
  "sq_task_failoutright cf wd task s = sq_update cf wd task True (sq_failing task s)"

definition sq_task_completeoutright :: "exec_config \<Rightarrow> world \<Rightarrow> tid \<Rightarrow> rqexec \<Rightarrow> rqexec run" where
  "sq_task_completeoutright cf wd task s =
     sq_update cf wd task False (s\<lparr>scenequeue_covered := set_add task (scenequeue_covered s)\<rparr>)"

definition sq_task_skip :: "exec_config \<Rightarrow> world \<Rightarrow> tid \<Rightarrow> rqexec \<Rightarrow> rqexec run" where
  "sq_task_skip cf wd task s =
     sq_task_completeoutright cf wd task
       (s\<lparr>sq_running := set_add task (sq_running s), sq_buildable := set_add task (sq_buildable s)\<rparr>)"

text \<open>The event of a task is built from its name and its hash.\<close>

definition task_event :: "tid \<Rightarrow> rqexec \<Rightarrow> rqexec run" where
  "task_event task s =
     on_result (taskname_from_tid task) s (\<lambda>_. on_result (dict_get (rt_of s) task) s (\<lambda>_. return s))"

definition sq_task_complete :: "exec_config \<Rightarrow> world \<Rightarrow> tid \<Rightarrow> rqexec \<Rightarrow> rqexec run" where
  "sq_task_complete cf wd task s = and_then (task_event task s) (sq_task_completeoutright cf wd task)"

definition sq_task_fail :: "exec_config \<Rightarrow> world \<Rightarrow> tid \<Rightarrow> rqexec \<Rightarrow> rqexec run" where
  "sq_task_fail cf wd task s =
     and_then (task_event task s) (\<lambda>s.
     and_then (sq_update cf wd task True (s\<lparr>scenequeue_notcovered := set_add task (scenequeue_notcovered s)\<rparr>))
       (sq_check_taskfail cf task))"

subsection \<open>Availability\<close>

text \<open>
  \<open>update_scenequeue_data\<close>: tasks without an own run or with a current stamp are skipped,
  the others are looked up. The first loop collects \<open>tocheck\<close>.
\<close>

definition sq_forget :: "tid \<Rightarrow> sqdata \<Rightarrow> sqdata" where
  "sq_forget tid q = q\<lparr>stamppresent := set_diff (stamppresent q) [tid], sq_valid := set_diff (sq_valid q) [tid],
     outrightfail := set_diff (outrightfail q) [tid]\<rparr>"

definition hash_query :: "exec_config \<Rightarrow> rqexec \<Rightarrow> tid \<Rightarrow> hash_request list \<Rightarrow> hash_request list result" where
  "hash_query cf s tid qs =
     bindE (split_tid_mcfn tid) (\<lambda>(mc, fn, taskname, taskfn).
     bindE (dict_get (rt_of s) tid) (\<lambda>e.
     bindE (dict_get (xc_caches cf) mc) (\<lambda>dc.
     bindE (dict_get (hashfn dc) taskfn) (\<lambda>h. Inr (qs @ [(tid, rt_hash e, h, rt_unihash e)])))))"

definition validate_hashes :: "exec_config \<Rightarrow> world \<Rightarrow> tid list \<Rightarrow> rqexec \<Rightarrow> tid list result" where
  "validate_hashes cf wd tocheck s =
     (case wd_validate wd of None \<Rightarrow> Inr []
      | Some f \<Rightarrow> bindE (foldE (hash_query cf s) tocheck []) (\<lambda>qs. Inr (f qs)))"

fun update_scenequeue_tids :: "exec_config \<Rightarrow> world \<Rightarrow> tid list \<Rightarrow> tid list \<Rightarrow> rqexec \<Rightarrow>
    (tid list \<Rightarrow> rqexec \<Rightarrow> rqexec run) \<Rightarrow> rqexec run" where
  "update_scenequeue_tids cf wd [] tocheck s k = k tocheck s"
| "update_scenequeue_tids cf wd (tid # tids) tocheck s k =
     check_setscene_stamps cf wd tid (s\<lparr>sqd := sq_forget tid (sqd s)\<rparr>) (\<lambda>noexec present s.
       if noexec then
         and_then (sq_task_skip cf wd tid (s\<lparr>sqd := (sqd s)\<lparr>sq_noexec := set_add tid (sq_noexec (sqd s))\<rparr>\<rparr>))
           (\<lambda>s. update_scenequeue_tids cf wd tids tocheck s k)
       else if present then
         and_then (sq_task_skip cf wd tid (s\<lparr>sqd := (sqd s)\<lparr>stamppresent := set_add tid (stamppresent (sqd s))\<rparr>\<rparr>))
           (\<lambda>s. update_scenequeue_tids cf wd tids tocheck s k)
       else update_scenequeue_tids cf wd tids (set_add tid tocheck) s k)"

definition unavailable :: "rqexec \<Rightarrow> tid \<Rightarrow> bool" where
  "unavailable s tid \<longleftrightarrow> tid \<notin> set (stamppresent (sqd s)) \<and> tid \<notin> set (sq_valid (sqd s)) \<and>
     tid \<notin> set (sq_noexec (sqd s)) \<and> tid \<notin> set (scenequeue_covered s) \<and>
     tid \<notin> set (scenequeue_notcovered s) \<and> tid \<notin> set (dict_keys (sq_deferred s))"

definition update_scenequeue_data :: "exec_config \<Rightarrow> world \<Rightarrow> tid list \<Rightarrow> rqexec \<Rightarrow> rqexec run" where
  "update_scenequeue_data cf wd tids s =
     update_scenequeue_tids cf wd (sort tids) [] s (\<lambda>tocheck s.
       on_result (validate_hashes cf wd tocheck s) s (\<lambda>valid.
         let q = (sqd s)\<lparr>sq_valid := set_union (sq_valid (sqd s)) valid\<rparr>;
             s = s\<lparr>sqd := q\<rparr>
         in return (s\<lparr>sqd := q\<lparr>outrightfail := set_union (outrightfail q) (filter (unavailable s) tids)\<rparr>\<rparr>)))"

subsection \<open>The graph of setscene tasks\<close>

text \<open>
  \<open>build_scenequeue_data\<close>. The tables it works on: the reverse dependencies that are left,
  the squashed ones, and the tasks that a setscene task covers.
\<close>

record sqbuild =
  sb_revdeps :: "(tid, tid list) dict"
  sb_squash :: "(tid, tid list) dict"
  sb_collated :: "(tid, tid list) dict"

definition dict_remove :: "tid \<Rightarrow> tid \<Rightarrow> (tid, tid list) dict \<Rightarrow> (tid, tid list) dict result" where
  "dict_remove k x d = bindE (dict_get d k) (\<lambda>xs. Inr (if x \<in> set xs then dict_set k (remove1 x xs) d else d))"

definition dict_insert :: "tid \<Rightarrow> tid list \<Rightarrow> (tid, tid list) dict \<Rightarrow> (tid, tid list) dict result" where
  "dict_insert k ys d = bindE (dict_get d k) (\<lambda>xs. Inr (dict_set k (set_union xs ys) d))"

definition sq_start :: "rtentries \<Rightarrow> tid list \<Rightarrow> sqbuild \<times> (tid, tid list) dict" where
  "sq_start rt setscene =
     (\<lparr>sb_revdeps = map (\<lambda>(t, e). (t, rt_revdeps e)) rt, sb_squash = map (\<lambda>(t, e). (t, [])) rt, sb_collated = []\<rparr>,
      map (\<lambda>(t, e). (t, [])) (filter (\<lambda>(t, e). rt_revdeps e = [] \<and> t \<notin> set setscene) rt))"

definition sq_endpoint :: "rtentries \<Rightarrow> tid \<Rightarrow> sqbuild \<times> (tid, tid list) dict \<Rightarrow>
    (sqbuild \<times> (tid, tid list) dict) result" where
  "sq_endpoint rt tid = (\<lambda>(b, endpoints).
     let b = b\<lparr>sb_collated := dict_set tid [] (sb_collated b)\<rparr> in
     bindE (dict_get rt tid) (\<lambda>e.
     foldE (\<lambda>dep (b, endpoints).
       bindE (dict_remove dep tid (sb_revdeps b)) (\<lambda>revdeps.
         Inr (b\<lparr>sb_revdeps := revdeps\<rparr>, dict_set dep (set_add tid (dict_get_or [] endpoints dep)) endpoints)))
       (rt_depends e) (b, endpoints)))"

definition sq_point :: "rtentries \<Rightarrow> tid list \<Rightarrow> tid \<times> tid list \<Rightarrow> sqbuild \<times> (tid, tid list) dict \<Rightarrow>
    (sqbuild \<times> (tid, tid list) dict) result" where
  "sq_point rt setscene = (\<lambda>(point, task) (b, newendpoints).
     bindE (dict_get (sb_squash b) point) (\<lambda>squashed.
     let tasks = set_union task squashed in
     if point \<in> set setscene then Inr (b\<lparr>sb_squash := dict_set point tasks (sb_squash b)\<rparr>, newendpoints)
     else
       bindE (foldE (\<lambda>t. dict_insert t [point]) tasks (sb_collated b)) (\<lambda>collated.
       let b = b\<lparr>sb_collated := collated, sb_squash := dict_set point [] (sb_squash b)\<rparr> in
       bindE (dict_get rt point) (\<lambda>e.
       foldE (\<lambda>dep (b, newendpoints).
         bindE (dict_remove dep point (sb_revdeps b)) (\<lambda>revdeps.
         bindE (if tasks = [] then Inr (sb_squash b) else dict_insert dep tasks (sb_squash b)) (\<lambda>squash.
           Inr (b\<lparr>sb_revdeps := revdeps, sb_squash := squash\<rparr>,
             if dict_get_or [] revdeps dep = [] \<and> dep \<notin> set setscene then dict_set dep task newendpoints
             else newendpoints))))
         (rt_depends e) (b, newendpoints)))))"

text \<open>The endpoints of a round are dependencies of those of the round before: a round per task is enough.\<close>

fun process_endpoints :: "nat \<Rightarrow> rtentries \<Rightarrow> tid list \<Rightarrow> (tid, tid list) dict \<Rightarrow> sqbuild \<Rightarrow> sqbuild run" where
  "process_endpoints 0 rt setscene endpoints b = None"
| "process_endpoints (Suc n) rt setscene endpoints b =
     on_result (foldE (sq_point rt setscene) endpoints (b, [])) b (\<lambda>(b, newendpoints).
       if newendpoints = [] then return b else process_endpoints n rt setscene newendpoints b)"

definition endpoint_fuel :: "rtentries \<Rightarrow> nat" where
  "endpoint_fuel rt = length rt + 2"

definition squash_chains :: "rtentries \<Rightarrow> tid list \<Rightarrow> sqbuild run" where
  "squash_chains rt setscene =
     (let (b, endpoints) = sq_start rt setscene in
      on_result (foldE (sq_endpoint rt) setscene (b, endpoints)) b (\<lambda>(b, endpoints).
        process_endpoints (endpoint_fuel rt) rt setscene endpoints b))"

text \<open>The unskippable tasks: what the ends of the build need, up to and including setscene tasks.\<close>

definition unskippable_task :: "tid \<Rightarrow> rqexec \<Rightarrow> rqexec run" where
  "unskippable_task tid s =
     (if tid \<in> set (setscene_tids_of s) then return s
      else on_result (dict_get (rt_of s) tid) s (\<lambda>e.
        let s = (if rt_depends e = [] then setbuildable tid s else s)
        in return (s\<lparr>sqd := (sqd s)\<lparr>unskippable := set_union (unskippable (sqd s)) (rt_depends e)\<rparr>\<rparr>)))"

fun unskippable_loop :: "nat \<Rightarrow> rqexec \<Rightarrow> rqexec run" where
  "unskippable_loop 0 s = None"
| "unskippable_loop (Suc n) s =
     (let orig = unskippable (sqd s) in
      and_then (for_each unskippable_task (rev (sort orig)) s) (\<lambda>s.
        if set (unskippable (sqd s)) = set orig then return s else unskippable_loop n s))"

definition mark_unskippable :: "rqexec \<Rightarrow> rqexec run" where
  "mark_unskippable s =
     (let ends = map fst (filter (\<lambda>(t, e). rt_revdeps e = []) (rt_of s));
          s = s\<lparr>sqd := (sqd s)\<lparr>unskippable := set_union (set_union (unskippable (sqd s)) ends) (cantskip s)\<rparr>\<rparr>
      in and_then (unskippable_loop (length (rt_of s) + 2) s) (\<lambda>s.
        return (s\<lparr>tasks_scenequeue_done :=
          set_union (tasks_scenequeue_done s) (set_diff (unskippable (sqd s)) (setscene_tids_of s))\<rparr>)))"

definition drop_squashed :: "tid list \<Rightarrow> tid \<Rightarrow> (tid, tid list) dict \<Rightarrow> (tid, tid list) dict result" where
  "drop_squashed setscene tid squash =
     (if tid \<in> set setscene then Inr squash
      else bindE (dict_get squash tid) (\<lambda>xs. if xs \<noteq> [] then Inl Fatal else Inr (dict_del tid squash)))"

text \<open>\<open>s.replace(sub, "")\<close>.\<close>

function remove_sub :: "string \<Rightarrow> string \<Rightarrow> string" where
  "remove_sub sub [] = []"
| "remove_sub sub (c # s) =
     (if sub \<noteq> [] \<and> startswith (c # s) sub then remove_sub sub (drop (length sub - 1) s)
      else c # remove_sub sub s)"
  by pat_completeness auto

termination by (relation "measure (\<lambda>(sub, s). length s)") (auto simp: less_Suc_eq_le)

text \<open>Dependencies between setscene tasks that the metadata asks for: \<open>(squash, harddeps)\<close>.\<close>

definition inter_setscene :: "taskdata \<Rightarrow> rtentries \<Rightarrow> tid \<Rightarrow> string \<times> string \<Rightarrow>
    (tid, tid list) dict \<times> (tid, tid list) dict \<Rightarrow> ((tid, tid list) dict \<times> (tid, tid list) dict) result" where
  "inter_setscene td rt tid = (\<lambda>(depname, idependtask) (squash, harddeps).
     case map_of (build_targets td) depname of
       None \<Rightarrow> Inr (squash, harddeps)
     | Some [] \<Rightarrow> Inl IndexError
     | Some (depfn # _) \<Rightarrow>
         let deptid = depfn @ [colon] @ remove_sub ''_setscene'' idependtask in
         if deptid \<notin> tasks rt then Inl Fatal
         else bindE (dict_insert tid [deptid] squash) (\<lambda>squash.
           Inr (dict_set deptid [] squash, dict_set deptid (set_add tid (dict_get_or [] harddeps deptid)) harddeps)))"

definition setscene_idepends :: "exec_config \<Rightarrow> rtentries \<Rightarrow> tid \<Rightarrow>
    (tid, string) dict \<times> (tid, tid list) dict \<times> (tid, tid list) dict \<Rightarrow>
    ((tid, string) dict \<times> (tid, tid list) dict \<times> (tid, tid list) dict) result" where
  "setscene_idepends cf rt tid = (\<lambda>(stamps, squash, harddeps).
     bindE (split_tid_mcfn tid) (\<lambda>(mc, fn, taskname, taskfn).
     bindE (dict_get (xc_taskdata cf) mc) (\<lambda>td.
     bindE (dict_get (taskentries td) (tid @ ''_setscene'')) (\<lambda>te.
     bindE (dict_get (xc_caches cf) mc) (\<lambda>_.
     bindE (foldE (inter_setscene td rt tid) (te_idepends te) (squash, harddeps)) (\<lambda>(squash, harddeps).
       Inr (dict_set tid (xc_stampfile cf (taskname @ ''_setscene'') mc taskfn True) stamps, squash, harddeps)))))))"

definition invert_deps :: "(tid, tid list) dict \<Rightarrow> (tid, tid list) dict result" where
  "invert_deps revdeps =
     foldE (\<lambda>(tid, deps). foldE (\<lambda>dep. dict_insert dep [tid]) deps) revdeps (map (\<lambda>(t, _). (t, [])) revdeps)"

text \<open>
  Tasks that may produce the same output in different multiconfigs are paired up by this
  index; the second one is deferred until the first is done.
\<close>

definition pending_hash_index :: "exec_config \<Rightarrow> rtentries \<Rightarrow> tid \<Rightarrow> string result" where
  "pending_hash_index cf rt tid =
     bindE (split_tid_mcfn tid) (\<lambda>(mc, fn, taskname, taskfn).
     bindE (dict_get (xc_caches cf) mc) (\<lambda>dc.
     bindE (dict_get (pkg_fn dc) taskfn) (\<lambda>pn.
     bindE (dict_get rt tid) (\<lambda>e.
     case rt_unihash e of None \<Rightarrow> Inl TypeError
     | Some h \<Rightarrow> Inr (pn @ '':'' @ ''taskname'' @ h)))))"

definition defer_tid :: "exec_config \<Rightarrow> rtentries \<Rightarrow> string \<Rightarrow> tid \<Rightarrow>
    (string, tid) dict \<times> (tid, tid) dict \<Rightarrow> ((string, tid) dict \<times> (tid, tid) dict) result" where
  "defer_tid cf rt mc tid = (\<lambda>(hashes, deferred).
     if mc_from_tid tid \<noteq> mc then Inr (hashes, deferred)
     else bindE (pending_hash_index cf rt tid) (\<lambda>h.
       case map_of hashes h of
         None \<Rightarrow> Inr (dict_set h tid hashes, deferred)
       | Some first \<Rightarrow> Inr (hashes, dict_set tid first deferred)))"

definition defer_tids :: "exec_config \<Rightarrow> rtentries \<Rightarrow> string list \<Rightarrow> tid list \<Rightarrow>
    ((string, tid) dict \<times> (tid, tid) dict) result" where
  "defer_tids cf rt mcs tids =
     foldE (\<lambda>mc. foldE (defer_tid cf rt mc) (sort tids)) (sort mcs) ([], [])"

definition sq_graph :: "exec_config \<Rightarrow> sqbuild \<Rightarrow> rqexec \<Rightarrow> rqexec run" where
  "sq_graph cf b s =
     (let rt = rt_of s; setscene = setscene_tids_of s in
      on_result (foldE (drop_squashed setscene) (dict_keys rt) (sb_squash b)) s (\<lambda>squash.
      on_result (foldE (setscene_idepends cf rt) setscene ([], squash, [])) s (\<lambda>(stamps, squash, harddeps).
      on_result (foldE (\<lambda>(task, deps). foldE (\<lambda>dep. dict_insert dep [task]) deps) harddeps squash) s (\<lambda>revdeps.
      on_result (invert_deps revdeps) s (\<lambda>deps.
      let q = sqd s in
      return (s\<lparr>sqd := q\<lparr>sq_stamps := stamps, sq_harddeps := harddeps, sq_revdeps := revdeps, sq_deps := deps,
          sq_covered_tasks := sb_collated b, multiconfigs := remdups (map mc_from_tid (dict_keys revdeps))\<rparr>,
        sq_buildable := set_union (sq_buildable s) (map fst (filter (\<lambda>(t, ds). ds = []) revdeps))\<rparr>))))))"

definition build_scenequeue_data :: "exec_config \<Rightarrow> world \<Rightarrow> rqexec \<Rightarrow> rqexec run" where
  "build_scenequeue_data cf wd s =
     (case squash_chains (rt_of s) (setscene_tids_of s) of
        None \<Rightarrow> None
      | Some (Some e, _) \<Rightarrow> raised e s
      | Some (None, b) \<Rightarrow>
          and_then (mark_unskippable s) (\<lambda>s.
          and_then (sq_graph cf b s) (\<lambda>s.
          on_result (defer_tids cf (rt_of s) (multiconfigs (sqd s)) (dict_keys (sq_revdeps (sqd s)))) s (\<lambda>(hashes, deferred).
          update_scenequeue_data cf wd (dict_keys (sq_revdeps (sqd s)))
            (s\<lparr>sqd := (sqd s)\<lparr>sq_noexec := [], stamppresent := [], sq_valid := [], sq_hashes := hashes\<rparr>,
               sq_deferred := deferred\<rparr>)))))"

subsection \<open>What the scene queue leaves alone\<close>

text \<open>
  The part of the state that belongs to the run queue proper. The operations of the scene
  queue keep it, and never take a task out of \<open>sq_running\<close>.
\<close>

definition run_view :: "rqexec \<Rightarrow> (int \<times> tid list \<times> tid list \<times> tid list \<times> tid list) \<times>
    (scheduler \<times> tid list \<times> message list \<times> report list \<times> rqdata) \<times> int \<times> int" where
  "run_view s = ((number_tasks s, runq_buildable s, runq_running s, runq_complete s, failed_tids s),
     (sched s, sq_live s, worker_in s, worker_out s, rqd s), st_active (stats s), st_total (stats s))"

definition sq_frame :: "exec_config \<Rightarrow> rqexec \<Rightarrow> rqexec \<Rightarrow> bool" where
  "sq_frame cf s s' \<longleftrightarrow> run_view s' = run_view s \<and> set (sq_running s) \<subseteq> set (sq_running s') \<and>
     (rqstate s' = rqstate s \<or> (xc_ignore cf \<noteq> None \<and> rqstate s' = QCleanUp))"

lemma sq_frame_refl [simp]: "sq_frame cf s s"
  by (simp add: sq_frame_def)

lemma sq_frame_trans: "sq_frame cf s s' \<Longrightarrow> sq_frame cf s' s'' \<Longrightarrow> sq_frame cf s s''"
  by (auto simp: sq_frame_def)

lemma yields_frame: "yields (sq_frame cf s) r \<Longrightarrow> sq_frame cf s0 s \<Longrightarrow> yields (sq_frame cf s0) r"
  by (erule yields_mono) (rule sq_frame_trans)

lemma yields_with_stamp [yields_intro]:
  "(\<And>b c. yields P (k b (s\<lparr>stampcache := c\<rparr>))) \<Longrightarrow> yields P (with_stamp cf wd tid name recurse s k)"
  by (auto simp: with_stamp_def split: option.split prod.split)

lemma yields_check_setscene_stamps [yields_intro]:
  assumes "\<And>a b c m. yields P (k a b (s\<lparr>stampcache := c, stamps_made := m\<rparr>))"
  shows "yields P (check_setscene_stamps cf wd tid s k)"
proof -
  have k: "yields P (k a b (s\<lparr>stampcache := c\<rparr>))" "yields P (k a b (s\<lparr>stamps_made := m\<rparr>))"
    "yields P (k a b (s\<lparr>stampcache := c', stampcache := c\<rparr>))" for a b c c' m
    using assms [of a b "stamps_made s" c] assms [of a b m "stampcache s"] by simp_all
  show ?thesis
    unfolding check_setscene_stamps_def make_stamp_def
    by (intro yields_on_result) (auto intro!: yields_on_result yields_if yields_with_stamp k simp: case_prod_unfold)
qed

lemma frame_done_loop: "yields (sq_frame cf s) (done_loop n ts s)"
proof (induction n arbitrary: ts s)
  case (Suc n)
  have "yields (sq_frame cf s) (done_loop n new (s\<lparr>tasks_scenequeue_done := d\<rparr>))" for new d
    by (rule yields_frame [OF Suc.IH]) (simp add: sq_frame_def run_view_def)
  then show ?case by (auto intro!: yields_intro simp: case_prod_unfold)
qed simp

named_theorems frame_intro \<open>the scene queue leaves the run queue alone\<close>

lemma frame_done [frame_intro]: "sq_frame cf s0 s \<Longrightarrow> yields (sq_frame cf s0) (done_loop n ts s)"
  by (rule yields_frame [OF frame_done_loop])

lemma sq_frame_upd [frame_intro]:
  "sq_frame cf s0 s \<Longrightarrow> sq_frame cf s0 (s\<lparr>stampcache := c, stamps_made := m\<rparr>)"
  "sq_frame cf s0 s \<Longrightarrow> sq_frame cf s0 (s\<lparr>sq_buildable := b\<rparr>)"
  "sq_frame cf s0 s \<Longrightarrow> sq_frame cf s0 (update_counts s)"
  "sq_frame cf s0 s \<Longrightarrow> sq_frame cf s0 (sq_failing t s)"
  "sq_frame cf s0 s \<Longrightarrow> sq_frame cf s0 (s\<lparr>scenequeue_covered := xs\<rparr>)"
  "sq_frame cf s0 s \<Longrightarrow> sq_frame cf s0 (s\<lparr>scenequeue_notcovered := xs\<rparr>)"
  "sq_frame cf s0 s \<Longrightarrow> sq_frame cf s0 (s\<lparr>sqd := q\<rparr>)"
  "sq_frame cf s0 s \<Longrightarrow> sq_frame cf s0 (s\<lparr>sq_running := set_add t (sq_running s), sq_buildable := b\<rparr>)"
  "sq_frame cf s0 s \<Longrightarrow> sq_frame cf s0 (s\<lparr>sq_deferred := d\<rparr>)"
  by (auto simp: sq_frame_def run_view_def update_counts_def sq_failing_def updateCovered_def)

lemma frame_updatecounters:
  "sq_frame cf s0 s \<Longrightarrow> yields (sq_frame cf s0) (scenequeue_updatecounters n cf wd task fail s)"
proof (induction n arbitrary: task fail s)
  case (Suc n)
  show ?case using Suc.prems by (auto intro!: yields_intro frame_intro Suc.IH)
qed simp

lemma frame_sq_ops [frame_intro]:
  assumes "sq_frame cf s0 s"
  shows "yields (sq_frame cf s0) (sq_update cf wd task fail s)"
    and "yields (sq_frame cf s0) (sq_task_failoutright cf wd task s)"
    and "yields (sq_frame cf s0) (sq_task_completeoutright cf wd task s)"
    and "yields (sq_frame cf s0) (sq_task_skip cf wd task s)"
    and "yields (sq_frame cf s0) (sq_task_complete cf wd task s)"
    and "yields (sq_frame cf s0) (sq_task_fail cf wd task s)"
proof -
  have upd: "yields (sq_frame cf s0) (sq_update cf wd task fail s)" if "sq_frame cf s0 s" for task fail s
    unfolding sq_update_def by (rule frame_updatecounters [OF that])
  have event: "yields (sq_frame cf s0) (task_event task s)"
    unfolding task_event_def using assms by (intro yields_intro)
  have chk: "yields (sq_frame cf s0) (sq_check_taskfail cf task s)" if "sq_frame cf s0 s" for s
    using that unfolding sq_check_taskfail_def
    by (auto intro!: yields_intro simp: case_prod_unfold sq_frame_def run_view_def)
  show "yields (sq_frame cf s0) (sq_update cf wd task fail s)"
    using assms by (rule upd)
  show "yields (sq_frame cf s0) (sq_task_failoutright cf wd task s)"
    unfolding sq_task_failoutright_def using assms by (intro upd frame_intro)
  show co: "yields (sq_frame cf s0) (sq_task_completeoutright cf wd task s)"
    unfolding sq_task_completeoutright_def using assms by (intro upd frame_intro)
  show "yields (sq_frame cf s0) (sq_task_skip cf wd task s)"
    unfolding sq_task_skip_def sq_task_completeoutright_def using assms by (intro upd frame_intro)
  show "yields (sq_frame cf s0) (sq_task_complete cf wd task s)"
    unfolding sq_task_complete_def sq_task_completeoutright_def
    by (rule yields_and_then [OF event]) (intro upd frame_intro)
  show "yields (sq_frame cf s0) (sq_task_fail cf wd task s)"
    unfolding sq_task_fail_def
    by (rule yields_and_then [OF event]) (auto intro!: yields_and_then_same upd chk frame_intro)
qed

lemma frame_update_tids:
  assumes "\<And>tocheck s. sq_frame cf s0 s \<Longrightarrow> yields (sq_frame cf s0) (k tocheck s)"
  shows "sq_frame cf s0 s \<Longrightarrow> yields (sq_frame cf s0) (update_scenequeue_tids cf wd tids tocheck s k)"
proof (induction tids arbitrary: tocheck s)
  case (Cons tid tids)
  show ?case using Cons.prems by (auto intro!: yields_intro frame_intro Cons.IH)
qed (simp add: assms)

lemma frame_update_data [frame_intro]:
  "sq_frame cf s0 s \<Longrightarrow> yields (sq_frame cf s0) (update_scenequeue_data cf wd tids s)"
  unfolding update_scenequeue_data_def
  by (rule frame_update_tids) (auto intro!: yields_intro frame_intro simp: Let_def)

end
