(* ===== verification/RunQueueExec.thy ===== *)
theory RunQueueExec
  imports SceneQueue
begin

text \<open>
  \<open>RunQueueExecute\<close> of \<open>bitbake/lib/bb/runqueue.py\<close>: the reports of the workers, the
  operations that complete, fail and skip tasks, the rehashing of tasks whose unihash
  changed, and \<open>execute\<close>, which starts at most one setscene task and one task.
\<close>

subsection \<open>Tasks\<close>

definition all_complete :: "rqexec \<Rightarrow> tid list \<Rightarrow> bool" where
  "all_complete s deps \<longleftrightarrow> set deps \<subseteq> set (runq_complete s)"

definition wake_revdep :: "tid \<Rightarrow> rqexec \<Rightarrow> rqexec run" where
  "wake_revdep revdep s =
     (if revdep \<in> set (runq_running s) \<or> revdep \<in> set (runq_buildable s) then return s
      else on_result (dict_get (rt_of s) revdep) s (\<lambda>e.
        return (if all_complete s (rt_depends e) then setbuildable revdep s else s)))"

definition undefer :: "exec_config \<Rightarrow> world \<Rightarrow> tid \<Rightarrow> tid \<Rightarrow> rqexec \<Rightarrow> rqexec run" where
  "undefer cf wd task t s =
     on_result (dict_get (sq_deferred s) t) s (\<lambda>blocker.
       if blocker = task then update_scenequeue_data cf wd [t] (s\<lparr>sq_deferred := dict_del t (sq_deferred s)\<rparr>)
       else return s)"

definition task_completeoutright :: "exec_config \<Rightarrow> world \<Rightarrow> tid \<Rightarrow> rqexec \<Rightarrow> rqexec run" where
  "task_completeoutright cf wd task s =
     (let s = s\<lparr>runq_complete := set_add task (runq_complete s)\<rparr> in
      on_result (dict_get (rt_of s) task) s (\<lambda>e.
      and_then (for_each wake_revdep (rt_revdeps e) s) (\<lambda>s.
        for_each (undefer cf wd task) (dict_keys (sq_deferred s)) s)))"

definition task_complete :: "exec_config \<Rightarrow> world \<Rightarrow> tid \<Rightarrow> rqexec \<Rightarrow> rqexec run" where
  "task_complete cf wd task s =
     and_then (task_event task (s\<lparr>stats := taskCompleted (stats s)\<rparr>)) (\<lambda>s.
     and_then (task_completeoutright cf wd task s) (\<lambda>s.
       return (s\<lparr>runq_tasksrun := set_add task (runq_tasksrun s)\<rparr>)))"

text \<open>The task data of the default multiconfig decide whether a failure halts the build.\<close>

definition task_fail :: "exec_config \<Rightarrow> tid \<Rightarrow> rqexec \<Rightarrow> rqexec run" where
  "task_fail cf task s =
     and_then (task_event task (s\<lparr>stats := taskFailed (stats s), failed_tids := failed_tids s @ [task]\<rparr>)) (\<lambda>s.
     on_result (dict_get (xc_taskdata cf) []) s (\<lambda>td.
       return (if halt td then s\<lparr>rqstate := QCleanUp\<rparr> else s)))"

definition task_skip :: "exec_config \<Rightarrow> world \<Rightarrow> tid \<Rightarrow> rqexec \<Rightarrow> rqexec run" where
  "task_skip cf wd task s =
     and_then (task_event task (setbuildable task (s\<lparr>runq_running := set_add task (runq_running s)\<rparr>))) (\<lambda>s.
     and_then (task_completeoutright cf wd task s) (\<lambda>s.
       return (s\<lparr>stats := taskCompleted (taskSkipped (stats s))\<rparr>)))"

text \<open>
  A worker reports the exit status of a task. \<open>list.remove\<close> and \<open>set.remove\<close> raise if the
  element is not there.
\<close>

definition drop_build_stamp :: "tid \<Rightarrow> rqexec \<Rightarrow> rqexec run" where
  "drop_build_stamp task s =
     (case map_of (build_stamps s) task of
        None \<Rightarrow> return s
      | Some stamp \<Rightarrow>
          if stamp \<in> set (build_stamps2 s) then
            return (s\<lparr>build_stamps2 := remove1 stamp (build_stamps2 s), build_stamps := dict_del task (build_stamps s)\<rparr>)
          else raised ValueError s)"

definition set_setscene_active :: "rqexec \<Rightarrow> rqexec" where
  "set_setscene_active s = s\<lparr>stats := updateActiveSetscene (int (length (sq_live s))) (stats s)\<rparr>"

definition drop_live :: "tid \<Rightarrow> rqexec \<Rightarrow> rqexec run" where
  "drop_live task s =
     (if task \<in> set (sq_live s) then return (set_setscene_active (s\<lparr>sq_live := remove1 task (sq_live s)\<rparr>))
      else raised KeyError s)"

definition runqueue_process_waitpid :: "exec_config \<Rightarrow> world \<Rightarrow> tid \<times> int \<Rightarrow> rqexec \<Rightarrow> rqexec run" where
  "runqueue_process_waitpid cf wd = (\<lambda>(task, status) s.
     and_then (drop_build_stamp task s) (\<lambda>s.
       if task \<in> set (sq_live s) then
         and_then (if status \<noteq> 0 then sq_task_fail cf wd task s else sq_task_complete cf wd task s) (drop_live task)
       else if status \<noteq> 0 then task_fail cf task s
       else task_complete cf wd task s))"

definition process_report :: "exec_config \<Rightarrow> world \<Rightarrow> report \<Rightarrow> rqexec \<Rightarrow> rqexec run" where
  "process_report cf wd r s =
     (let s = s\<lparr>worker_out := worker_out s @ [r]\<rparr> in
      case r of
        ExitCode task status \<Rightarrow> runqueue_process_waitpid cf wd (task, status) s
      | UniHashUpdate task unihash \<Rightarrow>
          return (s\<lparr>updated_taskhash_queue := updated_taskhash_queue s @ [(task, unihash)]\<rparr>))"

definition read_workers :: "exec_config \<Rightarrow> world \<Rightarrow> report list \<Rightarrow> rqexec \<Rightarrow> rqexec run" where
  "read_workers cf wd = for_each (process_report cf wd)"

text \<open>\<open>finish_now\<close> and \<open>finish\<close>, which reads the workers while tasks are active.\<close>

definition busy_count :: "rqexec \<Rightarrow> int" where
  "busy_count s = st_active (stats s) + int (length (sq_live s))"

definition end_phase :: "rqexec \<Rightarrow> phase" where
  "end_phase s = (if failed_tids s \<noteq> [] then QFailed else QComplete)"

definition finish_now :: "rqexec \<Rightarrow> rqexec" where
  "finish_now s = s\<lparr>rqstate := end_phase s\<rparr>"

definition finish :: "exec_config \<Rightarrow> world \<Rightarrow> report list \<Rightarrow> rqexec \<Rightarrow> rqexec run" where
  "finish cf wd reports s =
     (let s = s\<lparr>rqstate := QCleanUp\<rparr> in
      if busy_count s > 0 then read_workers cf wd reports s
      else return (s\<lparr>rqstate := end_phase s\<rparr>))"

subsection \<open>What is left of the setscene queue\<close>

text \<open>\<open>summarise_scenequeue_errors\<close>: its result, since it only logs.\<close>

definition summarise_scenequeue_errors :: "rqexec \<Rightarrow> bool" where
  "summarise_scenequeue_errors s \<longleftrightarrow>
     sq_deferred s \<noteq> [] \<or> updated_taskhash_queue s \<noteq> [] \<or> holdoff_tasks s \<noteq> [] \<or>
     list_ex (\<lambda>tid. (tid \<notin> set (scenequeue_covered s) \<and> tid \<notin> set (scenequeue_notcovered s)) \<or>
         tid \<notin> set (sq_buildable s) \<or> tid \<notin> set (sq_running s)) (setscene_tids_of s) \<or>
     list_ex (\<lambda>(x, e). (x \<notin> set (tasks_covered s) \<and> x \<notin> set (tasks_notcovered s)) \<or>
         x \<notin> set (tasks_scenequeue_done s) \<or>
         (rt_depends e = [] \<and> x \<notin> set (runq_buildable s))) (rt_of s)"

definition covered_union :: "rqexec \<Rightarrow> tid list \<Rightarrow> tid list \<Rightarrow> tid list result" where
  "covered_union s = foldE (\<lambda>tid acc. bindE (dict_get (sq_covered_tasks (sqd s)) tid) (\<lambda>c. Inr (set_union acc c)))"

definition buildable_now :: "tid \<Rightarrow> rqexec \<Rightarrow> rqexec run" where
  "buildable_now tid s =
     on_result (dict_get (rt_of s) tid) s (\<lambda>e.
       return (if all_complete s (rt_depends e) then setbuildable tid s else s))"

definition holdoff_covered :: "rqexec \<Rightarrow> tid list \<Rightarrow> tid list result" where
  "holdoff_covered s held =
     foldE (\<lambda>tid acc. bindE (dict_get (sq_covered_tasks (sqd s)) tid) (\<lambda>c.
       Inr (set_union acc (set_diff c (runq_complete s))))) held held"

definition update_holdofftasks :: "rqexec \<Rightarrow> rqexec run" where
  "update_holdofftasks s =
     (if \<not> holdoff_need_update s then return s
      else
        on_result (covered_union s (scenequeue_notcovered s) (set_union (scenequeue_notcovered s) (cantskip s))) s (\<lambda>notcov.
        on_result (covered_union s (scenequeue_covered s) (scenequeue_covered s)) s (\<lambda>cov.
        let notcov = set_inter (set_union notcov (set_diff (unskippable (sqd s)) (setscene_tids_of s))) (tasks_scenequeue_done s);
            cov = set_inter (set_diff cov notcov) (tasks_scenequeue_done s)
        in and_then (for_each buildable_now (set_union notcov cov) s) (\<lambda>s.
          let s = s\<lparr>tasks_covered := cov, tasks_notcovered := notcov, holdoff_tasks := []\<rparr>;
              held = filter (\<lambda>tid. tid \<notin> set (scenequeue_covered s) \<and> tid \<notin> set (scenequeue_notcovered s)) (remdups (setscene_tids_of s))
          in on_result (holdoff_covered s held) s (\<lambda>held.
            return (s\<lparr>holdoff_tasks := held, holdoff_need_update := False\<rparr>))))))"

subsection \<open>What a task is told about its dependencies\<close>

text \<open>\<open>check_dependencies\<close> hands the task and what depends on it to the function of the metadata.\<close>

definition dep_query :: "exec_config \<Rightarrow> tid \<Rightarrow> (tid \<times> string \<times> string \<times> string) list \<Rightarrow>
    (tid \<times> string \<times> string \<times> string) list result" where
  "dep_query cf dep qs =
     bindE (split_tid_mcfn dep) (\<lambda>(mc, fn, taskname, taskfn).
     bindE (dict_get (xc_caches cf) mc) (\<lambda>dc.
     bindE (dict_get (pkg_fn dc) taskfn) (\<lambda>pn. Inr (qs @ [(dep, pn, taskname, fn)]))))"

definition check_dependencies :: "exec_config \<Rightarrow> world \<Rightarrow> tid \<Rightarrow> tid list \<Rightarrow> rqexec \<Rightarrow> bool result" where
  "check_dependencies cf wd task taskdeps s =
     (case wd_depvalid wd of None \<Rightarrow> Inr False
      | Some f \<Rightarrow> bindE (foldE (dep_query cf) (set_add task taskdeps) []) (\<lambda>qs.
          Inr (f task qs (scenequeue_notneeded s))))"

text \<open>
  \<open>build_taskdepdata\<close> and \<open>sq_build_taskdepdata\<close> walk the dependencies in rounds; \<open>deps\<close>
  gives the dependencies of a task. A round per task and two more are enough.
\<close>

definition filtermcdeps :: "string \<Rightarrow> tid list \<Rightarrow> tid list" where
  "filtermcdeps mc deps = filter (\<lambda>dep. mc_from_tid dep = mc) deps"

definition dep_info_of :: "exec_config \<Rightarrow> rtentries \<Rightarrow> tid \<Rightarrow> tid list \<Rightarrow> dep_info result" where
  "dep_info_of cf rt tid deps =
     bindE (split_tid_mcfn tid) (\<lambda>(mc, fn, taskname, taskfn).
     bindE (dict_get (xc_caches cf) mc) (\<lambda>dc.
     bindE (dict_get (pkg_fn dc) taskfn) (\<lambda>pn.
     bindE (dict_get (fn_provides dc) taskfn) (\<lambda>provides.
     bindE (dict_get rt tid) (\<lambda>e. Inr (pn, taskname, fn, deps, provides, rt_hash e, rt_unihash e))))))"

definition depdata_visit :: "exec_config \<Rightarrow> rtentries \<Rightarrow> (tid \<Rightarrow> tid list result) \<Rightarrow> tid \<Rightarrow>
    (tid, dep_info) dict \<times> tid list \<Rightarrow> ((tid, dep_info) dict \<times> tid list) result" where
  "depdata_visit cf rt deps tid = (\<lambda>(tdd, additional).
     bindE (deps tid) (\<lambda>ds.
     bindE (dep_info_of cf rt tid ds) (\<lambda>i.
       let tdd = dict_set tid i tdd
       in Inr (tdd, additional @ filter (\<lambda>d. d \<notin> set (dict_keys tdd)) ds))))"

fun depdata_loop :: "nat \<Rightarrow> exec_config \<Rightarrow> rtentries \<Rightarrow> (tid \<Rightarrow> tid list result) \<Rightarrow> tid list \<Rightarrow>
    (tid, dep_info) dict \<Rightarrow> (tid, dep_info) dict result option" where
  "depdata_loop 0 cf rt deps next tdd = None"
| "depdata_loop (Suc n) cf rt deps next tdd =
     (if next = [] then Some (Inr tdd)
      else case foldE (depdata_visit cf rt deps) next (tdd, []) of
        Inl e \<Rightarrow> Some (Inl e)
      | Inr (tdd, additional) \<Rightarrow> depdata_loop n cf rt deps additional tdd)"

definition depdata_fuel :: "rtentries \<Rightarrow> nat" where
  "depdata_fuel rt = length rt + 3"

definition mc_deps :: "rtentries \<Rightarrow> string \<Rightarrow> tid \<Rightarrow> tid list result" where
  "mc_deps rt mc tid = bindE (dict_get rt tid) (\<lambda>e. Inr (filtermcdeps mc (rt_depends e)))"

definition build_taskdepdata :: "exec_config \<Rightarrow> rtentries \<Rightarrow> tid \<Rightarrow> (tid, dep_info) dict result option" where
  "build_taskdepdata cf rt task =
     (let mc = mc_from_tid task in
      case dict_get rt task of
        Inl e \<Rightarrow> Some (Inl e)
      | Inr e \<Rightarrow> depdata_loop (depdata_fuel rt) cf rt (mc_deps rt mc) (filtermcdeps mc (set_add task (rt_depends e))) [])"

definition getsetscenedeps :: "exec_config \<Rightarrow> tid \<Rightarrow> tid list result" where
  "getsetscenedeps cf tid =
     bindE (split_tid_mcfn tid) (\<lambda>(mc, fn, taskname, _).
     bindE (dict_get (xc_taskdata cf) mc) (\<lambda>td.
     bindE (dict_get (taskentries td) (tid @ ''_setscene'')) (\<lambda>te.
     foldE (\<lambda>(depname, idependtask) deps.
       case map_of (build_targets td) depname of
         None \<Rightarrow> Inr deps
       | Some [] \<Rightarrow> Inl IndexError
       | Some (depfn # _) \<Rightarrow> Inr (set_add (depfn @ [colon] @ remove_sub ''_setscene'' idependtask) deps))
       (te_idepends te) [])))"

definition sq_build_taskdepdata :: "exec_config \<Rightarrow> rtentries \<Rightarrow> tid \<Rightarrow> (tid, dep_info) dict result option" where
  "sq_build_taskdepdata cf rt task =
     (case getsetscenedeps cf task of
        Inl e \<Rightarrow> Some (Inl e)
      | Inr deps \<Rightarrow> depdata_loop (depdata_fuel rt) cf rt (getsetscenedeps cf) (set_add task deps) [])"

subsection \<open>Changed hashes\<close>

definition set_entry :: "tid \<Rightarrow> (rte \<Rightarrow> rte) \<Rightarrow> rqexec \<Rightarrow> rqexec result" where
  "set_entry tid f s =
     bindE (dict_get (rt_of s) tid) (\<lambda>e.
       Inr (s\<lparr>rqd := (rqd s)\<lparr>runtaskentries := dict_set tid (f e) (rt_of s)\<rparr>\<rparr>))"

text \<open>The first loop of \<open>process_possible_migrations\<close>, with the set \<open>toprocess\<close>.\<close>

definition rehash_update :: "tid \<times> string \<Rightarrow> rqexec \<times> tid list \<Rightarrow> (rqexec \<times> tid list) result" where
  "rehash_update = (\<lambda>(tid, unihash) (s, toprocess).
     if tid \<in> set (runq_running s) \<and> tid \<notin> set (runq_complete s) then Inr (s, toprocess)
     else
       let s = s\<lparr>updated_taskhash_queue := remove1 (tid, unihash) (updated_taskhash_queue s)\<rparr> in
       bindE (dict_get (rt_of s) tid) (\<lambda>e.
       if rt_unihash e = Some unihash then Inr (s, toprocess)
       else
         foldE (\<lambda>h (s, toprocess). bindE (set_entry h (\<lambda>e. e\<lparr>rt_unihash := Some unihash\<rparr>) s)
             (\<lambda>s. Inr (s, set_add h toprocess)))
           (tid # map fst (filter (\<lambda>(deftid, blocker). blocker = tid) (sq_deferred s))) (s, toprocess)))"

definition revdeps_union :: "rtentries \<Rightarrow> tid list \<Rightarrow> tid list result" where
  "revdeps_union rt xs = foldE (\<lambda>p acc. bindE (dict_get rt p) (\<lambda>e. Inr (set_union acc (rt_revdeps e)))) xs []"

text \<open>Everything that depends upon the changed tasks; every round adds a task.\<close>

fun revdep_closure :: "nat \<Rightarrow> rtentries \<Rightarrow> tid list \<Rightarrow> tid list \<Rightarrow> tid list result option" where
  "revdep_closure 0 rt next tot = None"
| "revdep_closure (Suc n) rt next tot =
     (if next = [] then Some (Inr tot)
      else let tot = set_union tot next in
        case revdeps_union rt next of
          Inl e \<Rightarrow> Some (Inl e)
        | Inr new \<Rightarrow> revdep_closure n rt (set_diff new tot) tot)"

text \<open>
  The rehashing in dependency order: state, tasks left, changed tasks and the next round.
  \<open>p\<close> is the variable that the loop before it leaves behind.
\<close>

definition rehash_task :: "exec_config \<Rightarrow> world \<Rightarrow> tid \<Rightarrow> tid \<Rightarrow> rqexec \<times> tid list \<times> tid list \<times> tid list \<Rightarrow>
    (rqexec \<times> tid list \<times> tid list \<times> tid list) result" where
  "rehash_task cf wd p tid = (\<lambda>(s, tot, changed, next).
     bindE (dict_get (rt_of s) p) (\<lambda>pe.
     bindE (dict_get (rt_of s) tid) (\<lambda>e.
     if rt_depends pe \<noteq> [] \<and> set (rt_depends e) \<inter> set tot \<noteq> {} then Inr (s, tot, changed, next)
     else
       let newhash = wd_taskhash wd tid (rt_depends e);
           newuni = wd_unihash wd tid;
           remapped = (Some newuni = rt_unihash e \<or> tid \<in> set (scenequeue_covered s) \<or> tid \<in> set (sq_live s))
       in bindE (if remapped then Inr s else set_entry tid (\<lambda>e. e\<lparr>rt_hash := Some newhash, rt_unihash := Some newuni\<rparr>) s) (\<lambda>s.
       if tid \<notin> set tot then Inl KeyError
       else
         let tot = remove1 tid tot
         in Inr (s, tot, if remapped then changed else set_add tid changed,
              set_inter (set_union next (rt_revdeps e)) tot)))))"

text \<open>A round that handles no task leaves nothing for the next one.\<close>

fun rehash_loop :: "nat \<Rightarrow> exec_config \<Rightarrow> world \<Rightarrow> tid \<Rightarrow> tid list \<Rightarrow> rqexec \<times> tid list \<times> tid list \<Rightarrow>
    (rqexec \<times> tid list) result option" where
  "rehash_loop 0 cf wd p next st = None"
| "rehash_loop (Suc n) cf wd p next st =
     (if next = [] then Some (Inr (fst st, snd (snd st)))
      else case foldE (rehash_task cf wd p) next (fst st, fst (snd st), snd (snd st), []) of
        Inl e \<Rightarrow> Some (Inl e)
      | Inr (s, tot, changed, next) \<Rightarrow> rehash_loop n cf wd p next (s, tot, changed))"

definition rehash_first :: "rtentries \<Rightarrow> tid list \<Rightarrow> tid list result" where
  "rehash_first rt tot =
     foldE (\<lambda>p next. bindE (dict_get rt p) (\<lambda>e.
       Inr (if set (rt_depends e) \<inter> set tot = {} then set_add p next else next))) tot []"

definition rehash_all :: "exec_config \<Rightarrow> world \<Rightarrow> rqexec \<Rightarrow> (rqexec \<times> tid list) result option" where
  "rehash_all cf wd s =
     (case foldE rehash_update (updated_taskhash_queue s) (s, []) of
        Inl e \<Rightarrow> Some (Inl e)
      | Inr (s, toprocess) \<Rightarrow>
          (case revdeps_union (rt_of s) toprocess of
             Inl e \<Rightarrow> Some (Inl e)
           | Inr next \<Rightarrow>
               (case revdep_closure (length (rt_of s) + 2) (rt_of s) next [] of
                  None \<Rightarrow> None
                | Some (Inl e) \<Rightarrow> Some (Inl e)
                | Some (Inr tot) \<Rightarrow>
                    (case rehash_first (rt_of s) tot of
                       Inl e \<Rightarrow> Some (Inl e)
                     | Inr next \<Rightarrow> rehash_loop (length tot + 2) cf wd (last tot) next (s, tot, [])))))"

text \<open>
  The pending migrations. A covered task that is complete without having run is an error,
  which ends \<open>process_possible_migrations\<close>.
\<close>

fun reset_covered :: "tid list \<Rightarrow> rqexec \<Rightarrow> bool \<times> rqexec" where
  "reset_covered [] s = (True, s)"
| "reset_covered (dep # deps) s =
     (if dep \<in> set (runq_complete s) then
        if dep \<notin> set (runq_tasksrun s) then (False, s) else reset_covered deps s
      else if dep \<notin> set (unskippable (sqd s)) then
        reset_covered deps (s\<lparr>tasks_scenequeue_done := set_diff (tasks_scenequeue_done s) [dep]\<rparr>)
      else reset_covered deps s)"

definition harddep_failed :: "rqexec \<Rightarrow> tid \<Rightarrow> bool" where
  "harddep_failed s tid \<longleftrightarrow>
     list_ex (\<lambda>(t, deps). tid \<in> set deps \<and> t \<in> set (scenequeue_notcovered s)) (sq_harddeps (sqd s))"

definition requeue_tid :: "exec_config \<Rightarrow> tid \<Rightarrow> rqexec \<Rightarrow> (rqexec \<times> bool) result" where
  "requeue_tid cf tid s =
     (let s = s\<lparr>sq_buildable := set_diff (sq_buildable s) [tid], sq_running := set_diff (sq_running s) [tid]\<rparr>;
          failed = harddep_failed s tid
      in bindE (dict_get (sq_revdeps (sqd s)) tid) (\<lambda>revdeps.
         bindE (split_tid_mcfn tid) (\<lambda>(mc, fn, taskname, taskfn).
         bindE (dict_get (xc_caches cf) mc) (\<lambda>_.
         let ready = (\<not> failed \<and> set revdeps \<subseteq> set (scenequeue_covered s) \<union> set (scenequeue_notcovered s)) \<or> revdeps = [];
             q = sqd s;
             q = q\<lparr>outrightfail := set_diff (outrightfail q) [tid],
               sq_stamps := dict_set tid (xc_stampfile cf (taskname @ ''_setscene'') mc taskfn True) (sq_stamps q)\<rparr>
         in Inr (s\<lparr>sq_buildable := (if ready then set_add tid (sq_buildable s) else sq_buildable s),
               scenequeue_notcovered := set_diff (scenequeue_notcovered s) [tid],
               scenequeue_covered := set_diff (scenequeue_covered s) [tid],
               scenequeue_notneeded := set_diff (scenequeue_notneeded s) [tid],
               sqd := q, stampcache := dict_del tid (stampcache s), build_stamps := dict_del tid (build_stamps s)\<rparr>, failed)))))"

fun migrate_tids :: "exec_config \<Rightarrow> tid list \<Rightarrow> (tid \<times> bool) list \<Rightarrow> bool \<Rightarrow> rqexec \<Rightarrow>
    ((tid \<times> bool) list \<Rightarrow> bool \<Rightarrow> rqexec \<Rightarrow> rqexec run) \<Rightarrow> rqexec run" where
  "migrate_tids cf [] upd changed s k = k upd changed s"
| "migrate_tids cf (tid # tids) upd changed s k =
     (if tid \<in> set (runq_running s) \<or> tid \<in> set (sq_live s) then
        migrate_tids cf tids upd changed (s\<lparr>pending_migrations := set_diff (pending_migrations s) [tid]\<rparr>) k
      else on_result (dict_get (sq_covered_tasks (sqd s)) tid) s (\<lambda>covered.
        if list_ex (\<lambda>dep. dep \<in> set (runq_running s) \<and> dep \<notin> set (runq_complete s)) covered
        then migrate_tids cf tids upd changed s k
        else
          let s = s\<lparr>pending_migrations := set_diff (pending_migrations s) [tid],
                tasks_scenequeue_done := set_diff (tasks_scenequeue_done s) [tid]\<rparr>;
              (ok, s) = reset_covered covered s
          in if \<not> ok then return (s\<lparr>failed_tids := failed_tids s @ [tid], rqstate := QCleanUp\<rparr>)
             else on_result (requeue_tid cf tid s) s (\<lambda>(s, failed).
               migrate_tids cf tids (upd @ [(tid, failed)]) True s k)))"

definition redefer_tid :: "exec_config \<Rightarrow> string \<Rightarrow> tid \<Rightarrow> rqexec \<Rightarrow> rqexec run" where
  "redefer_tid cf mc tid s =
     (if mc_from_tid tid \<noteq> mc then return s
      else on_result (pending_hash_index cf (rt_of s) tid) s (\<lambda>h.
        case map_of (sq_hashes (sqd s)) h of
          None \<Rightarrow> return s
        | Some first \<Rightarrow> return (if tid = first then s else s\<lparr>sq_deferred := dict_set tid first (sq_deferred s)\<rparr>)))"

definition finish_migrations :: "exec_config \<Rightarrow> world \<Rightarrow> (tid \<times> bool) list \<Rightarrow> bool \<Rightarrow> rqexec \<Rightarrow> rqexec run" where
  "finish_migrations cf wd upd changed s =
     and_then
       (if upd = [] then return s
        else and_then
          (for_each (\<lambda>mc. for_each (redefer_tid cf mc) (sort (map fst upd))) (sort (multiconfigs (sqd s))) (s\<lparr>sqdone := False\<rparr>))
          (update_scenequeue_data cf wd (map fst upd)))
       (\<lambda>s. and_then
         (for_each (\<lambda>(tid, failed) s. if failed then sq_task_failoutright cf wd tid s else return s) upd s)
         (\<lambda>s. return (if changed then update_counts s else s)))"

definition new_hash_messages :: "exec_config \<Rightarrow> rqexec \<Rightarrow> message list" where
  "new_hash_messages cf s =
     map (\<lambda>mc. NewTaskHashes (mc, False)) (dict_keys (xc_caches cf)) @ map (\<lambda>mc. NewTaskHashes (mc, True)) (fakeworkers s)"

definition process_possible_migrations :: "exec_config \<Rightarrow> world \<Rightarrow> rqexec \<Rightarrow> rqexec run" where
  "process_possible_migrations cf wd s =
     (case rehash_all cf wd s of
        None \<Rightarrow> None
      | Some (Inl e) \<Rightarrow> raised e s
      | Some (Inr (s, changed)) \<Rightarrow>
          let s = s\<lparr>worker_in := worker_in s @ (if changed = [] then [] else new_hash_messages cf s),
                pending_migrations := set_union (pending_migrations s) (filter (\<lambda>t. t \<in> set (setscene_tids_of s)) changed)\<rparr>
          in migrate_tids cf (pending_migrations s) [] (changed \<noteq> []) s (finish_migrations cf wd))"

subsection \<open>Execution\<close>

text \<open>
  The choice of the next setscene task in \<open>execute\<close>: the loop goes on, hands a task to the
  rest of \<open>execute\<close>, or has made \<open>execute\<close> return. The inner loop over covered tasks that
  run does nothing: its \<open>continue\<close> belongs to that loop.
\<close>

fun next_setscene :: "exec_config \<Rightarrow> world \<Rightarrow> tid list \<Rightarrow> rqexec \<Rightarrow> (tid option \<Rightarrow> rqexec \<Rightarrow> rqexec run) \<Rightarrow> rqexec run" where
  "next_setscene cf wd [] s k = k None s"
| "next_setscene cf wd (nexttask # others) s k =
     (if nexttask \<notin> set (sq_buildable s) \<or> nexttask \<in> set (sq_running s) then next_setscene cf wd others s k
      else on_result (dict_get (sq_stamps (sqd s)) nexttask) s (\<lambda>stamp.
      if stamp \<in> set (dict_values (build_stamps s)) then next_setscene cf wd others s k
      else on_result (if nexttask \<in> set (unskippable (sqd s)) then Inr False
          else bindE (dict_get (sq_revdeps (sqd s)) nexttask) (\<lambda>revdeps.
            if revdeps \<noteq> [] \<and> set revdeps \<subseteq> set (scenequeue_covered s)
            then check_dependencies cf wd nexttask revdeps s else Inr False)) s (\<lambda>notneeded.
      if notneeded \<and> nexttask \<notin> set (target_tids (rqd s)) then
        and_then (sq_task_skip cf wd nexttask s) (\<lambda>s.
          return (s\<lparr>scenequeue_notneeded := set_add nexttask (scenequeue_notneeded s),
            sq_deferred := dict_del nexttask (sq_deferred s)\<rparr>))
      else on_result (dict_get (sq_covered_tasks (sqd s)) nexttask) s (\<lambda>_.
      case map_of (sq_deferred s) nexttask of
        Some blocker \<Rightarrow>
          if blocker \<notin> set (runq_complete s) then next_setscene cf wd others s k
          else
            let s = s\<lparr>sq_deferred := dict_del nexttask (sq_deferred s)\<rparr> in
            on_result (validate_hashes cf wd [nexttask] s) s (\<lambda>valid.
            if valid = [] \<or> nexttask \<in> set (outrightfail (sqd s)) then sq_task_failoutright cf wd nexttask s
            else k (Some nexttask) s)
      | None \<Rightarrow>
          if nexttask \<in> set (outrightfail (sqd s)) then sq_task_failoutright cf wd nexttask s
          else k (Some nexttask) s))))"

text \<open>
  Handing a task to a worker. A recipe that needs fakeroot for the task gets a worker of its
  own; \<open>failed\<close> says what happens if it cannot be started.
\<close>

definition needs_fakeroot :: "task_deps \<Rightarrow> string \<Rightarrow> bool \<Rightarrow> bool" where
  "needs_fakeroot taskdep taskname dry_run \<longleftrightarrow> task_flag taskdep ''fakeroot'' taskname \<noteq> None \<and> \<not> dry_run"

definition send_task :: "exec_config \<Rightarrow> world \<Rightarrow> string \<Rightarrow> bool \<Rightarrow> (rqexec \<Rightarrow> rqexec run) \<Rightarrow>
    (bool \<Rightarrow> message) \<Rightarrow> rqexec \<Rightarrow> (rqexec \<Rightarrow> rqexec run) \<Rightarrow> rqexec run" where
  "send_task cf wd mc fakeroot failed msg s k =
     (if \<not> fakeroot then k (s\<lparr>worker_in := worker_in s @ [msg False]\<rparr>)
      else if mc \<notin> set (fakeworkers s) \<and> \<not> wd_spawns wd mc then failed s
      else k (s\<lparr>fakeworkers := set_add mc (fakeworkers s), worker_in := worker_in s @ [msg True]\<rparr>))"

definition note_stamp :: "exec_config \<Rightarrow> tid \<Rightarrow> string \<Rightarrow> string \<Rightarrow> string \<Rightarrow> rqexec \<Rightarrow> rqexec" where
  "note_stamp cf task taskname mc taskfn s =
     (let stamp = xc_stampfile cf taskname mc taskfn True
      in s\<lparr>build_stamps := dict_set task stamp (build_stamps s), build_stamps2 := build_stamps2 s @ [stamp]\<rparr>)"

definition note_setscene :: "exec_config \<Rightarrow> tid \<Rightarrow> string \<Rightarrow> string \<Rightarrow> string \<Rightarrow> rqexec \<Rightarrow> rqexec" where
  "note_setscene cf task taskname mc taskfn s =
     set_setscene_active ((note_stamp cf task taskname mc taskfn s)
       \<lparr>sq_running := set_add task (sq_running s), sq_live := set_add task (sq_live s)\<rparr>)"

text \<open>\<open>execute\<close> returns after a start while more tasks can be started, and goes on otherwise.\<close>

definition return_or :: "(rqexec \<Rightarrow> rqexec run) \<Rightarrow> rqexec \<Rightarrow> rqexec run" where
  "return_or k s = (if can_start_task s then return s else k s)"

definition start_setscene :: "exec_config \<Rightarrow> world \<Rightarrow> tid \<Rightarrow> rqexec \<Rightarrow> (rqexec \<Rightarrow> rqexec run) \<Rightarrow> rqexec run" where
  "start_setscene cf wd task s k =
     on_result (split_tid_mcfn task) s (\<lambda>(mc, fn, basename, taskfn).
     on_result (taskname_from_tid task) s (\<lambda>realname.
     let taskname = basename @ ''_setscene'' in
     with_stamp cf wd task realname True s (\<lambda>current s.
     if current then sq_task_failoutright cf wd task s
     else if xc_force cf \<and> task \<in> set (target_tids (rqd s)) then sq_task_failoutright cf wd task s
     else with_stamp cf wd task taskname False s (\<lambda>current s.
     if current then sq_task_skip cf wd task s
     else if xc_skipsetscene cf then sq_task_failoutright cf wd task s
     else and_then (task_event task s) (\<lambda>s.
     case sq_build_taskdepdata cf (rt_of s) task of
       None \<Rightarrow> None
     | Some (Inl e) \<Rightarrow> raised e s
     | Some (Inr tdd) \<Rightarrow>
     on_result (dict_get (xc_caches cf) mc) s (\<lambda>dc.
     on_result (dict_get (task_deps_of dc) taskfn) s (\<lambda>taskdep.
     on_result (dict_get (rt_of s) task) s (\<lambda>e.
     send_task cf wd mc (needs_fakeroot taskdep taskname (xc_dry_run cf)) (raised OSError)
       (\<lambda>fakeroot. RunTask (mc, fakeroot) task taskname taskfn (rt_hash e) (rt_unihash e) True tdd False) s (\<lambda>s.
     return_or k (note_setscene cf task taskname mc taskfn s))))))))))"

definition check_setscene_ignore_tasks :: "exec_config \<Rightarrow> world \<Rightarrow> tid \<Rightarrow> rqexec \<Rightarrow> (bool \<Rightarrow> rqexec \<Rightarrow> rqexec run) \<Rightarrow> rqexec run" where
  "check_setscene_ignore_tasks cf wd tid s k =
     on_result (split_tid_mcfn tid) s (\<lambda>(mc, fn, taskname, taskfn).
     if tid \<in> set (tasks_covered s) then k False s
     else with_stamp cf wd tid taskname False s (\<lambda>current s.
     if current then k False s
     else
       on_result (dict_get (xc_caches cf) mc) s (\<lambda>dc.
       on_result (dict_get (task_deps_of dc) taskfn) s (\<lambda>taskdep.
       if task_flag taskdep ''noexec'' taskname \<noteq> None then k False s
       else on_result (dict_get (pkg_fn dc) taskfn) s (\<lambda>pn.
       if check_setscene_enforce_ignore_tasks pn taskname (xc_ignore cf) then k False s
       else on_result (foldE (\<lambda>t _. bindE (dict_get (rt_of s) t) (\<lambda>_. Inr ())) (scenequeue_notcovered s) ()) s
         (\<lambda>_. k True s))))))"

text \<open>
  The end of \<open>execute\<close>: wait for the workers, give up waiting for deferred tasks, or decide
  how the build has ended.
\<close>

definition never_completed :: "rqexec \<Rightarrow> bool" where
  "never_completed s \<longleftrightarrow>
     list_ex (\<lambda>task. task \<notin> set (runq_buildable s) \<or> task \<notin> set (runq_running s) \<or> task \<notin> set (runq_complete s))
       (dict_keys (rt_of s))"

definition execute_idle :: "exec_config \<Rightarrow> world \<Rightarrow> report list \<Rightarrow> rqexec \<Rightarrow> rqexec run" where
  "execute_idle cf wd reports s =
     (if st_active (stats s) > 0 \<or> sq_live s \<noteq> [] then read_workers cf wd reports s
      else if sq_deferred s \<noteq> [] then return (s\<lparr>sq_deferred := tl (sq_deferred s)\<rparr>)
      else if failed_tids s \<noteq> [] then return (s\<lparr>rqstate := QFailed\<rparr>)
      else if summarise_scenequeue_errors s \<or> never_completed s then return (s\<lparr>rqstate := QFailed\<rparr>)
      else return (s\<lparr>rqstate := QComplete\<rparr>))"

definition mark_started :: "tid \<Rightarrow> rqexec \<Rightarrow> rqexec" where
  "mark_started task s = s\<lparr>runq_running := set_add task (runq_running s), stats := taskActive (stats s)\<rparr>"

definition run_noexec :: "exec_config \<Rightarrow> world \<Rightarrow> tid \<Rightarrow> string \<Rightarrow> string \<Rightarrow> string \<Rightarrow> rqexec \<Rightarrow> rqexec run" where
  "run_noexec cf wd task taskname mc taskfn s =
     and_then (task_event task s) (\<lambda>s.
       let s = mark_started task s;
           s = (if xc_dry_run cf \<or> xc_enforce cf then s else make_stamp cf taskname mc taskfn s)
       in task_complete cf wd task s)"

definition start_task :: "exec_config \<Rightarrow> world \<Rightarrow> tid \<Rightarrow> string \<Rightarrow> string \<Rightarrow> string \<Rightarrow> task_deps \<Rightarrow> rqexec \<Rightarrow>
    (rqexec \<Rightarrow> rqexec run) \<Rightarrow> rqexec run" where
  "start_task cf wd task taskname mc taskfn taskdep s k =
     and_then (task_event task s) (\<lambda>s.
     case build_taskdepdata cf (rt_of s) task of
       None \<Rightarrow> None
     | Some (Inl e) \<Rightarrow> raised e s
     | Some (Inr tdd) \<Rightarrow>
     on_result (dict_get (rt_of s) task) s (\<lambda>e.
     send_task cf wd mc (needs_fakeroot taskdep taskname (xc_dry_run cf \<or> xc_enforce cf))
       (\<lambda>s. return (s\<lparr>rqstate := QFailed, stats := taskFailed (stats s)\<rparr>))
       (\<lambda>fakeroot. RunTask (mc, fakeroot) task taskname taskfn (rt_hash e) (rt_unihash e) False tdd (xc_enforce cf)) s (\<lambda>s.
     return_or k (mark_started task (note_stamp cf task taskname mc taskfn s)))))"

definition execute_task :: "exec_config \<Rightarrow> world \<Rightarrow> tid \<Rightarrow> rqexec \<Rightarrow> (rqexec \<Rightarrow> rqexec run) \<Rightarrow> rqexec run" where
  "execute_task cf wd task s k =
     on_result (split_tid_mcfn task) s (\<lambda>(mc, fn, taskname, taskfn).
     (if xc_ignore cf = None then (\<lambda>c. c False s) else check_setscene_ignore_tasks cf wd task s) (\<lambda>unexpected s.
     if unexpected then task_fail cf task s
     else if task \<in> set (tasks_covered s) then task_skip cf wd task s
     else with_stamp cf wd task taskname False s (\<lambda>current s.
     if current then
       and_then (task_skip cf wd task s) (\<lambda>s. return (s\<lparr>runq_tasksrun := set_add task (runq_tasksrun s)\<rparr>))
     else
       on_result (dict_get (xc_caches cf) mc) s (\<lambda>dc.
       on_result (dict_get (task_deps_of dc) taskfn) s (\<lambda>taskdep.
       if task_flag taskdep ''noexec'' taskname \<noteq> None then run_noexec cf wd task taskname mc taskfn s
       else start_task cf wd task taskname mc taskfn taskdep s k)))))"

definition execute_next :: "exec_config \<Rightarrow> world \<Rightarrow> report list \<Rightarrow> rqexec \<Rightarrow> rqexec run" where
  "execute_next cf wd reports s =
     on_result (if xc_setsceneonly cf then Inr (None, s)
                else sched_next (xc_nthreads cf) (wd_pressure wd) (rt_of s) s) s (\<lambda>(task, s).
       case task of
         None \<Rightarrow> execute_idle cf wd reports s
       | Some task \<Rightarrow> execute_task cf wd task s (execute_idle cf wd reports))"

definition execute_tasks :: "exec_config \<Rightarrow> world \<Rightarrow> report list \<Rightarrow> rqexec \<Rightarrow> rqexec run" where
  "execute_tasks cf wd reports s =
     and_then (update_holdofftasks s) (\<lambda>s.
       if sq_live s = [] \<and> \<not> sqdone s \<and> sq_deferred s = [] \<and> updated_taskhash_queue s = [] \<and> holdoff_tasks s = [] then
         if summarise_scenequeue_errors s then return (s\<lparr>rqstate := QFailed\<rparr>)
         else if xc_setsceneonly cf then return (s\<lparr>rqstate := QComplete\<rparr>)
         else
           let s = s\<lparr>sqdone := True\<rparr>
           in if st_total (stats s) = 0 then return (s\<lparr>rqstate := QComplete\<rparr>) else execute_next cf wd reports s
       else execute_next cf wd reports s)"

text \<open>
  \<open>execute\<close>. \<open>before\<close> and \<open>after\<close> are the reports that the workers have written when it reads
  them first, and when it waits.
\<close>

definition execute_setscene :: "exec_config \<Rightarrow> world \<Rightarrow> report list \<Rightarrow> rqexec \<Rightarrow> rqexec run" where
  "execute_setscene cf wd after s =
     (if \<not> sqdone s \<and> can_start_task s then
        next_setscene cf wd (sort (setscene_tids_of s)) s (\<lambda>task s.
          case task of
            None \<Rightarrow> execute_tasks cf wd after s
          | Some task \<Rightarrow> start_setscene cf wd task s (execute_tasks cf wd after))
      else execute_tasks cf wd after s)"

definition execute :: "exec_config \<Rightarrow> world \<Rightarrow> report list \<Rightarrow> report list \<Rightarrow> rqexec \<Rightarrow> rqexec run" where
  "execute cf wd before after s =
     and_then (read_workers cf wd before s) (\<lambda>s.
     and_then (if updated_taskhash_queue s \<noteq> [] \<or> pending_migrations s \<noteq> [] then process_possible_migrations cf wd s else return s)
       (execute_setscene cf wd after))"

text \<open>
  The start of a build: \<open>RunQueueExecute.__init__\<close>, and what \<open>_execute_runqueue\<close> adds when
  there are no setscene tasks. Then its loop: execution while the state is \<open>QRunning\<close>, and
  \<open>finish\<close> when it is \<open>QCleanUp\<close>, at once if execution has just got there.
\<close>

definition start_execution :: "exec_config \<Rightarrow> world \<Rightarrow> rqexec \<Rightarrow> rqexec run" where
  "start_execution cf wd s =
     and_then (build_scenequeue_data cf wd s) (\<lambda>s.
       return (if setscene_tids_of s \<noteq> [] then s
         else (fold (\<lambda>(tid, e) s.
             let s = (if rt_depends e = [] then setbuildable tid s else s)
             in s\<lparr>tasks_notcovered := set_add tid (tasks_notcovered s)\<rparr>) (rt_of s) s)\<lparr>sqdone := True\<rparr>))"

definition execute_runqueue :: "exec_config \<Rightarrow> world \<Rightarrow> report list \<Rightarrow> report list \<Rightarrow> report list \<Rightarrow> rqexec \<Rightarrow> rqexec run" where
  "execute_runqueue cf wd before after final s =
     and_then (if rqstate s = QRunning then execute cf wd before after s else return s) (\<lambda>s.
       if rqstate s = QCleanUp then finish cf wd final s else return s)"

end
