(* ===== verification/RunQueueSteps.thy ===== *)
theory RunQueueSteps
  imports RunQueueExec
begin

text \<open>
  The invariant of a build and the runs that keep it: when a task may be buildable, running
  or complete, and how many tasks the workers have at a time.
\<close>

subsection \<open>The graph does not change\<close>

definition graph_of :: "rtentries \<Rightarrow> (tid \<times> tid list \<times> tid list) list" where
  "graph_of rt = map (\<lambda>(t, e). (t, rt_depends e, rt_revdeps e)) rt"

lemma graph_of_set:
  assumes "map_of rt t = Some e" and "rt_depends e' = rt_depends e" and "rt_revdeps e' = rt_revdeps e"
  shows "graph_of (dict_set t e' rt) = graph_of rt"
  using assms by (induction rt) (auto simp: graph_of_def split: if_splits)

lemma graph_of_map_of: "map_of (graph_of rt) t = map_option (\<lambda>e. (rt_depends e, rt_revdeps e)) (map_of rt t)"
  by (induction rt) (auto simp: graph_of_def)

lemma graph_of_keys: "dict_keys (graph_of rt) = dict_keys rt"
  by (auto simp: graph_of_def case_prod_unfold)

lemma deps_of_graph: "deps_of rt t = (case map_of (graph_of rt) t of None \<Rightarrow> [] | Some p \<Rightarrow> fst p)"
  by (simp add: deps_of_def graph_of_map_of split: option.split)

lemma graph_eq_deps: "graph_of rt = graph_of rt' \<Longrightarrow> deps_of rt t = deps_of rt' t"
  by (simp only: deps_of_graph)

lemma graph_eq_tasks: "graph_of rt = graph_of rt' \<Longrightarrow> tasks rt = tasks rt'"
  unfolding tasks_def graph_of_keys [symmetric] by simp

lemma graph_eq_length: "graph_of rt = graph_of rt' \<Longrightarrow> length rt = length rt'"
  by (drule arg_cong [of _ _ length]) (simp add: graph_of_def)

subsection \<open>The invariant\<close>

text \<open>The tasks that were sent to a worker, and the exit statuses among the reports.\<close>

definition sent_tasks :: "bool \<Rightarrow> rqexec \<Rightarrow> tid list" where
  "sent_tasks setscene s = concat (map (\<lambda>m. case m of
     RunTask w t n f h u ss d dry \<Rightarrow> (if ss = setscene then [t] else [])
   | NewTaskHashes w \<Rightarrow> []) (worker_in s))"

definition exit_codes :: "rqexec \<Rightarrow> report list" where
  "exit_codes s = filter (\<lambda>r. case r of ExitCode t c \<Rightarrow> True | UniHashUpdate t h \<Rightarrow> False) (worker_out s)"

definition outstanding :: "rqexec \<Rightarrow> int" where
  "outstanding s = int (length (sent_tasks True s)) + int (length (sent_tasks False s)) - int (length (exit_codes s))"

lemma history_same:
  assumes "worker_in s' = worker_in s" and "worker_out s' = worker_out s"
  shows "sent_tasks b s' = sent_tasks b s" and "exit_codes s' = exit_codes s" and "outstanding s' = outstanding s"
  using assms by (simp_all add: sent_tasks_def exit_codes_def outstanding_def)

text \<open>
  \<open>d\<close> is by how much the count of active tasks differs from the tasks the workers have, in
  the middle of an operation. Without a list of tasks to ignore it is zero in between.
\<close>

definition ready_ok :: "rtentries \<Rightarrow> rqexec \<Rightarrow> bool" where
  "ready_ok rt s \<longleftrightarrow>
     (\<forall>t\<in>set (runq_buildable s). set (deps_of rt t) \<subseteq> set (runq_complete s)) \<and>
     set (buildable (sched s)) \<subseteq> set (runq_buildable s) \<and>
     set (runq_running s) \<subseteq> set (runq_buildable s)"

definition sent_ok :: "rqexec \<Rightarrow> bool" where
  "sent_ok s \<longleftrightarrow>
     set (sent_tasks False s) \<subseteq> set (runq_running s) \<and> distinct (sent_tasks False s) \<and>
     (\<forall>t\<in>set (runq_complete s). ExitCode t 0 \<in> set (worker_out s) \<or>
        (t \<in> set (runq_running s) \<and> t \<notin> set (sent_tasks False s))) \<and>
     distinct (sq_live s) \<and> set (sq_live s) \<subseteq> set (sq_running s)"

definition count_ok :: "exec_config \<Rightarrow> rtentries \<Rightarrow> int \<Rightarrow> rqexec \<Rightarrow> bool" where
  "count_ok cf rt d s \<longleftrightarrow> (xc_ignore cf = None \<longrightarrow>
     busy_count s = outstanding s + d \<and>
     outstanding s \<le> number_tasks s \<and>
     (rqstate s = QCleanUp \<longrightarrow> failed_tids s \<noteq> []) \<and>
     (rqstate s = QComplete \<and> \<not> xc_setsceneonly cf \<longrightarrow> tasks rt \<subseteq> set (runq_complete s)))"

definition run_ok :: "exec_config \<Rightarrow> int \<Rightarrow> rtentries \<Rightarrow> int \<Rightarrow> rqexec \<Rightarrow> bool" where
  "run_ok cf N rt d s \<longleftrightarrow> graph_of (rt_of s) = graph_of rt \<and> number_tasks s = N \<and> st_total (stats s) = int (length rt) \<and>
     ready_ok rt s \<and> sent_ok s \<and> count_ok cf rt d s"

text \<open>The invariant reads only part of the state.\<close>

definition ok_view :: "rqexec \<Rightarrow> ((int \<times> tid list \<times> tid list \<times> tid list \<times> tid list) \<times>
    (scheduler \<times> tid list \<times> message list \<times> report list \<times> rqdata) \<times> int \<times> int) \<times> tid list \<times> phase" where
  "ok_view s = (run_view s, sq_running s, rqstate s)"

lemma ok_view_fields:
  assumes "ok_view s' = ok_view s"
  shows "number_tasks s' = number_tasks s" "runq_buildable s' = runq_buildable s" "runq_running s' = runq_running s"
    "runq_complete s' = runq_complete s" "failed_tids s' = failed_tids s" "sched s' = sched s" "sq_live s' = sq_live s"
    "worker_in s' = worker_in s" "worker_out s' = worker_out s" "rqd s' = rqd s"
    "st_active (stats s') = st_active (stats s)" "st_total (stats s') = st_total (stats s)"
    "sq_running s' = sq_running s" "rqstate s' = rqstate s"
  using assms by (simp_all add: ok_view_def run_view_def)

lemma ok_view_derived:
  assumes "ok_view s' = ok_view s"
  shows "sent_tasks b s' = sent_tasks b s" "exit_codes s' = exit_codes s" "outstanding s' = outstanding s"
    "busy_count s' = busy_count s"
  by (simp_all add: sent_tasks_def exit_codes_def outstanding_def busy_count_def ok_view_fields [OF assms])

lemma run_ok_view:
  assumes "ok_view s' = ok_view s"
  shows "run_ok cf N rt d s' = run_ok cf N rt d s"
  unfolding run_ok_def ready_ok_def sent_ok_def count_ok_def ok_view_fields [OF assms] ok_view_derived [OF assms]
  by (rule refl)

lemma run_ok_frame:
  assumes "run_ok cf N rt d s" and "sq_frame cf s s'"
  shows "run_ok cf N rt d s'"
proof -
  let ?s = "s'\<lparr>sq_running := sq_running s, rqstate := rqstate s\<rparr>"
  have q: "set (sq_running s) \<subseteq> set (sq_running s')"
    and r: "rqstate s' = rqstate s \<or> (xc_ignore cf \<noteq> None \<and> rqstate s' = QCleanUp)"
    using assms(2) by (simp_all add: sq_frame_def)
  have "ok_view ?s = ok_view s"
    using assms(2) by (simp add: sq_frame_def ok_view_def run_view_def)
  then have "run_ok cf N rt d ?s" using assms(1) run_ok_view by blast
  with q r show ?thesis
    by (auto simp: run_ok_def ready_ok_def sent_ok_def count_ok_def sent_tasks_def exit_codes_def
        outstanding_def busy_count_def)
qed

lemma yields_run_ok_frame: "run_ok cf N rt d s \<Longrightarrow> yields (sq_frame cf s) r \<Longrightarrow> yields (run_ok cf N rt d) r"
  by (erule yields_mono) (rule run_ok_frame)

text \<open>Updates of other fields.\<close>

named_theorems ok_intro \<open>the invariant of a build is kept\<close>

lemma run_ok_setbuildable:
  assumes "run_ok cf N rt d s" and "set (deps_of rt t) \<subseteq> set (runq_complete s)"
  shows "run_ok cf N rt d (setbuildable t s)"
proof -
  have "sent_ok (setbuildable t s) = sent_ok s" "count_ok cf rt d (setbuildable t s) = count_ok cf rt d s"
    by (simp_all add: sent_ok_def count_ok_def setbuildable_def sent_tasks_def exit_codes_def outstanding_def busy_count_def)
  moreover have "ready_ok rt (setbuildable t s)" if "ready_ok rt s"
    using that assms(2) by (auto simp: ready_ok_def setbuildable_def newbuildable_def)
  ultimately show ?thesis using assms(1) by (simp add: run_ok_def) (simp add: setbuildable_def)
qed

lemma run_ok_complete:
  assumes "run_ok cf N rt d s" and "ExitCode t 0 \<in> set (worker_out s) \<or> (t \<in> set (runq_running s) \<and> t \<notin> set (sent_tasks False s))"
  shows "run_ok cf N rt d (s\<lparr>runq_complete := set_add t (runq_complete s)\<rparr>)"
proof -
  let ?s = "s\<lparr>runq_complete := set_add t (runq_complete s)\<rparr>"
  note e = history_same [of ?s s, simplified]
  have "sent_ok ?s" if "sent_ok s"
    using that assms(2) unfolding sent_ok_def e by auto
  moreover have "count_ok cf rt d ?s" if "count_ok cf rt d s"
    using that unfolding count_ok_def e by (auto simp: busy_count_def)
  moreover have "ready_ok rt ?s" if "ready_ok rt s"
    using that by (auto simp: ready_ok_def)
  ultimately show ?thesis using assms(1) by (simp add: run_ok_def)
qed

lemma entry_deps: "run_ok cf N rt d s \<Longrightarrow> dict_get (rt_of s) t = Inr e \<Longrightarrow> deps_of rt t = rt_depends e"
  by (metis deps_of_mem dict_get_Inr_iff graph_eq_deps run_ok_def)

lemma run_ok_other [ok_intro]:
  assumes "run_ok cf N rt d s"
  shows "run_ok cf N rt d (s\<lparr>stampcache := c\<rparr>)" "run_ok cf N rt d (s\<lparr>runq_tasksrun := xs\<rparr>)"
    "run_ok cf N rt d (s\<lparr>sq_deferred := df\<rparr>)" "run_ok cf N rt d (s\<lparr>build_stamps := bs\<rparr>)"
    "run_ok cf N rt d (s\<lparr>build_stamps2 := bs2, build_stamps := bs\<rparr>)"
    "run_ok cf N rt d (s\<lparr>updated_taskhash_queue := q\<rparr>)"
    "run_ok cf N rt d (s\<lparr>pending_migrations := xs\<rparr>)" "run_ok cf N rt d (s\<lparr>tasks_scenequeue_done := xs\<rparr>)"
    "run_ok cf N rt d (s\<lparr>scenequeue_notneeded := xs\<rparr>)" "run_ok cf N rt d (s\<lparr>sqdone := b\<rparr>)"
    "run_ok cf N rt d (s\<lparr>tasks_covered := xs\<rparr>)" "run_ok cf N rt d (s\<lparr>holdoff_tasks := zs\<rparr>)"
    "run_ok cf N rt d (s\<lparr>holdoff_need_update := b\<rparr>)"
    "run_ok cf N rt d (update_counts s)" "run_ok cf N rt d (s\<lparr>stats := taskCompleted (taskSkipped (stats s))\<rparr>)"
    "run_ok cf N rt d (s\<lparr>tasks_notcovered := ys\<rparr>)" "run_ok cf N rt d (s\<lparr>stamps_made := ys\<rparr>)"
proof -
  note view = run_ok_view [THEN iffD2, OF _ assms]
  show "run_ok cf N rt d (s\<lparr>stampcache := c\<rparr>)" "run_ok cf N rt d (s\<lparr>runq_tasksrun := xs\<rparr>)"
    "run_ok cf N rt d (s\<lparr>sq_deferred := df\<rparr>)" "run_ok cf N rt d (s\<lparr>build_stamps := bs\<rparr>)"
    "run_ok cf N rt d (s\<lparr>build_stamps2 := bs2, build_stamps := bs\<rparr>)"
    "run_ok cf N rt d (s\<lparr>updated_taskhash_queue := q\<rparr>)"
    "run_ok cf N rt d (s\<lparr>pending_migrations := xs\<rparr>)" "run_ok cf N rt d (s\<lparr>tasks_scenequeue_done := xs\<rparr>)"
    "run_ok cf N rt d (s\<lparr>scenequeue_notneeded := xs\<rparr>)" "run_ok cf N rt d (s\<lparr>sqdone := b\<rparr>)"
    "run_ok cf N rt d (s\<lparr>tasks_covered := xs\<rparr>)" "run_ok cf N rt d (s\<lparr>holdoff_tasks := zs\<rparr>)"
    "run_ok cf N rt d (s\<lparr>holdoff_need_update := b\<rparr>)"
    "run_ok cf N rt d (update_counts s)" "run_ok cf N rt d (s\<lparr>stats := taskCompleted (taskSkipped (stats s))\<rparr>)"
    "run_ok cf N rt d (s\<lparr>tasks_notcovered := ys\<rparr>)" "run_ok cf N rt d (s\<lparr>stamps_made := ys\<rparr>)"
    by (rule view, simp add: ok_view_def run_view_def update_counts_def taskCompleted_def taskSkipped_def updateCovered_def)+
qed

subsection \<open>Tasks that end\<close>

lemma ok_update_data [ok_intro]:
  "run_ok cf N rt d s \<Longrightarrow> yields (run_ok cf N rt d) (update_scenequeue_data cf wd tids s)"
  by (rule yields_run_ok_frame, assumption, rule frame_update_data, rule sq_frame_refl)

lemma ok_sq_ops [ok_intro]:
  assumes "run_ok cf N rt d s"
  shows "yields (run_ok cf N rt d) (sq_task_failoutright cf wd t s)"
    and "yields (run_ok cf N rt d) (sq_task_skip cf wd t s)"
    and "yields (run_ok cf N rt d) (sq_task_complete cf wd t s)"
    and "yields (run_ok cf N rt d) (sq_task_fail cf wd t s)"
  by (rule yields_run_ok_frame [OF assms], rule frame_sq_ops, rule sq_frame_refl)+

lemma ok_task_event [ok_intro]: "P s \<Longrightarrow> yields P (task_event t s)"
  unfolding task_event_def by (intro yields_intro)

lemma run_ok_all_complete [ok_intro]:
  "run_ok cf N rt d s \<Longrightarrow> dict_get (rt_of s) t = Inr e \<Longrightarrow> all_complete s (rt_depends e) \<Longrightarrow>
   run_ok cf N rt d (setbuildable t s)"
  by (rule run_ok_setbuildable) (simp_all add: all_complete_def entry_deps)

lemma ok_wake_revdep [ok_intro]: "run_ok cf N rt d s \<Longrightarrow> yields (run_ok cf N rt d) (wake_revdep t s)"
  unfolding wake_revdep_def
  by (auto intro!: yields_intro ok_intro)

lemma ok_buildable_now [ok_intro]: "run_ok cf N rt d s \<Longrightarrow> yields (run_ok cf N rt d) (buildable_now t s)"
  unfolding buildable_now_def
  by (auto intro!: yields_intro ok_intro)

lemma ok_undefer [ok_intro]: "run_ok cf N rt d s \<Longrightarrow> yields (run_ok cf N rt d) (undefer cf wd t u s)"
  unfolding undefer_def by (auto intro!: yields_intro ok_intro)

lemma ok_completeoutright:
  assumes "run_ok cf N rt d s" and "ExitCode t 0 \<in> set (worker_out s) \<or> (t \<in> set (runq_running s) \<and> t \<notin> set (sent_tasks False s))"
  shows "yields (run_ok cf N rt d) (task_completeoutright cf wd t s)"
  unfolding task_completeoutright_def Let_def
  using run_ok_complete [OF assms] by (auto intro!: yields_intro ok_intro)

text \<open>A task that ends leaves the workers: the count goes down by one.\<close>

lemma run_ok_ended:
  assumes "run_ok cf N rt d s"
  shows "run_ok cf N rt (d - 1) (s\<lparr>stats := taskCompleted (stats s)\<rparr>)" (is "run_ok cf N rt _ ?c")
    and "run_ok cf N rt (d - 1) (s\<lparr>stats := taskFailed (stats s), failed_tids := failed_tids s @ [t]\<rparr>)" (is "run_ok cf N rt _ ?f")
proof -
  note c = history_same [of ?c s, simplified] and f = history_same [of ?f s, simplified]
  have "sent_ok ?c = sent_ok s" "sent_ok ?f = sent_ok s" unfolding sent_ok_def c f by simp_all
  moreover have "count_ok cf rt (d - 1) ?c" "count_ok cf rt (d - 1) ?f" if "count_ok cf rt d s"
    using that unfolding count_ok_def c f by (simp_all add: busy_count_def taskCompleted_def taskFailed_def)
  ultimately show "run_ok cf N rt (d - 1) ?c" "run_ok cf N rt (d - 1) ?f"
    using assms by (simp_all add: run_ok_def ready_ok_def) (simp_all add: taskCompleted_def taskFailed_def)
qed

lemma ok_task_complete:
  assumes "run_ok cf N rt d s" and "ExitCode t 0 \<in> set (worker_out s) \<or> (t \<in> set (runq_running s) \<and> t \<notin> set (sent_tasks False s))"
  shows "yields (run_ok cf N rt (d - 1)) (task_complete cf wd t s)"
  unfolding task_complete_def
proof (rule yields_and_then)
  let ?s = "s\<lparr>stats := taskCompleted (stats s)\<rparr>"
  show "yields (\<lambda>s'. s' = ?s) (task_event t ?s)" by (intro ok_intro refl)
  fix s' assume s': "s' = ?s"
  have "ExitCode t 0 \<in> set (worker_out ?s) \<or> (t \<in> set (runq_running ?s) \<and> t \<notin> set (sent_tasks False ?s))"
    using assms(2) by (simp add: sent_tasks_def)
  with run_ok_ended(1) [OF assms(1)]
  show "yields (run_ok cf N rt (d - 1)) (and_then (task_completeoutright cf wd t s')
      (\<lambda>s. return (s\<lparr>runq_tasksrun := set_add t (runq_tasksrun s)\<rparr>)))"
    unfolding s' by (intro yields_and_then_same ok_completeoutright yields_return ok_intro)
qed

lemma run_ok_cleanup:
  assumes "run_ok cf N rt d s" and "failed_tids s \<noteq> []"
  shows "run_ok cf N rt d (s\<lparr>rqstate := QCleanUp\<rparr>)" (is "run_ok cf N rt d ?s")
proof -
  note e = history_same [of ?s s, simplified]
  have "sent_ok ?s = sent_ok s" unfolding sent_ok_def e by simp
  moreover have "count_ok cf rt d ?s" if "count_ok cf rt d s"
    using that assms(2) unfolding count_ok_def e by (simp add: busy_count_def)
  ultimately show ?thesis using assms(1) by (simp add: run_ok_def ready_ok_def)
qed

lemma ok_task_fail:
  assumes "run_ok cf N rt d s"
  shows "yields (run_ok cf N rt (d - 1)) (task_fail cf t s)"
  unfolding task_fail_def
proof (rule yields_and_then)
  let ?s = "s\<lparr>stats := taskFailed (stats s), failed_tids := failed_tids s @ [t]\<rparr>"
  show "yields (\<lambda>s'. s' = ?s) (task_event t ?s)" by (intro ok_intro refl)
  fix s' assume s': "s' = ?s"
  show "yields (run_ok cf N rt (d - 1)) (on_result (dict_get (xc_taskdata cf) []) s'
      (\<lambda>td. return (if halt td then s'\<lparr>rqstate := QCleanUp\<rparr> else s')))"
    unfolding s' using run_ok_ended(2) [OF assms]
    by (auto intro!: yields_intro run_ok_cleanup)
qed

lemma run_ok_running:
  assumes "run_ok cf N rt d s" and "t \<in> set (runq_buildable s)"
  shows "run_ok cf N rt d (s\<lparr>runq_running := set_add t (runq_running s)\<rparr>)"
proof -
  let ?s = "s\<lparr>runq_running := set_add t (runq_running s)\<rparr>"
  have "sent_tasks b ?s = sent_tasks b s" "count_ok cf rt d ?s = count_ok cf rt d s" for b
    by (simp_all add: count_ok_def sent_tasks_def exit_codes_def outstanding_def busy_count_def)
  with assms show ?thesis by (auto simp: run_ok_def ready_ok_def sent_ok_def)
qed

lemma buildable_ready: "run_ok cf N rt d s \<Longrightarrow> t \<in> set (runq_buildable s) \<Longrightarrow> set (deps_of rt t) \<subseteq> set (runq_complete s)"
  unfolding run_ok_def ready_ok_def by blast

text \<open>A task that the scheduler may hand out: buildable, and neither running nor sent before.\<close>

definition fresh :: "tid \<Rightarrow> rqexec \<Rightarrow> bool" where
  "fresh t s \<longleftrightarrow> t \<in> set (runq_buildable s) \<and> t \<notin> set (runq_running s)"

lemma fresh_not_sent: "run_ok cf N rt d s \<Longrightarrow> fresh t s \<Longrightarrow> t \<notin> set (sent_tasks False s)"
  by (auto simp: run_ok_def sent_ok_def fresh_def)

lemma ok_task_skip:
  assumes "run_ok cf N rt d s" and "fresh t s"
  shows "yields (run_ok cf N rt d) (task_skip cf wd t s)"
  unfolding task_skip_def
proof (rule yields_and_then)
  let ?r = "s\<lparr>runq_running := set_add t (runq_running s)\<rparr>"
  let ?s = "setbuildable t ?r"
  show "yields (\<lambda>s'. s' = ?s) (task_event t ?s)" by (intro ok_intro refl)
  have r: "run_ok cf N rt d ?r" using assms by (intro run_ok_running) (auto simp: fresh_def)
  have s: "run_ok cf N rt d ?s"
    using assms buildable_ready [OF assms(1)] by (intro run_ok_setbuildable [OF r]) (simp add: fresh_def)
  have n: "t \<in> set (runq_running ?s) \<and> t \<notin> set (sent_tasks False ?s)"
    using fresh_not_sent [OF assms] by (simp add: sent_tasks_def setbuildable_def)
  fix s' assume s': "s' = ?s"
  show "yields (run_ok cf N rt d) (and_then (task_completeoutright cf wd t s')
      (\<lambda>s. return (s\<lparr>stats := taskCompleted (taskSkipped (stats s))\<rparr>)))"
    unfolding s' using n
    by (intro yields_and_then_same yields_return ok_completeoutright [OF s] ok_intro disjI2)
qed

subsection \<open>Reports\<close>

lemma ok_drop_build_stamp [ok_intro]:
  "run_ok cf N rt d s \<Longrightarrow> yields (\<lambda>s'. run_ok cf N rt d s' \<and> worker_out s' = worker_out s) (drop_build_stamp t s)"
  by (auto simp: drop_build_stamp_def intro!: ok_intro split: option.split)

lemma ok_drop_live:
  assumes "run_ok cf N rt d s"
  shows "yields (run_ok cf N rt (d - 1)) (drop_live t s)"
proof (cases "t \<in> set (sq_live s)")
  case True
  let ?s = "set_setscene_active (s\<lparr>sq_live := remove1 t (sq_live s)\<rparr>)"
  have l: "length (sq_live s) = Suc (length (remove1 t (sq_live s)))"
    using True by (simp add: length_remove1) (metis Suc_pred length_pos_if_in_set)
  have "sent_tasks b ?s = sent_tasks b s" "outstanding ?s = outstanding s" "busy_count ?s = busy_count s - 1" for b
    using l by (simp_all add: sent_tasks_def exit_codes_def outstanding_def busy_count_def set_setscene_active_def
        updateActiveSetscene_def)
  with assms have "run_ok cf N rt (d - 1) ?s"
    by (auto simp: run_ok_def ready_ok_def sent_ok_def count_ok_def set_setscene_active_def updateActiveSetscene_def
        dest: notin_set_remove1 in_set_remove1)
  then show ?thesis using True by (simp add: drop_live_def)
qed (simp add: drop_live_def)

lemma ok_waitpid:
  assumes "run_ok cf N rt d s" and "c = 0 \<longrightarrow> ExitCode t c \<in> set (worker_out s)"
  shows "yields (run_ok cf N rt (d - 1)) (runqueue_process_waitpid cf wd (t, c) s)"
  unfolding runqueue_process_waitpid_def case_prod_conv
proof (rule yields_and_then [OF ok_drop_build_stamp [OF assms(1)]])
  fix s' assume "run_ok cf N rt d s' \<and> worker_out s' = worker_out s"
  then have s': "run_ok cf N rt d s'" and o: "worker_out s' = worker_out s" by blast+
  have "yields (run_ok cf N rt (d - 1)) (and_then (if c \<noteq> 0 then sq_task_fail cf wd t s' else sq_task_complete cf wd t s') (drop_live t))"
    by (rule yields_and_then [where P = "run_ok cf N rt d"])
      (auto intro!: yields_intro ok_intro ok_drop_live s')
  moreover have "yields (run_ok cf N rt (d - 1)) (task_complete cf wd t s')" if "c = 0"
    using assms(2) that by (intro ok_task_complete [OF s']) (simp add: o)
  ultimately show "yields (run_ok cf N rt (d - 1)) (if t \<in> set (sq_live s')
      then and_then (if c \<noteq> 0 then sq_task_fail cf wd t s' else sq_task_complete cf wd t s') (drop_live t)
      else if c \<noteq> 0 then task_fail cf t s' else task_complete cf wd t s')"
    using ok_task_fail [OF s'] by auto
qed

lemma run_ok_reported:
  assumes "run_ok cf N rt d s"
  shows "run_ok cf N rt (case r of ExitCode t c \<Rightarrow> d + 1 | UniHashUpdate t h \<Rightarrow> d) (s\<lparr>worker_out := worker_out s @ [r]\<rparr>)"
proof -
  let ?s = "s\<lparr>worker_out := worker_out s @ [r]\<rparr>"
  have e: "sent_tasks b ?s = sent_tasks b s" "busy_count ?s = busy_count s" for b
    by (simp_all add: sent_tasks_def busy_count_def)
  have o: "outstanding ?s = outstanding s - (case r of ExitCode t c \<Rightarrow> 1 | UniHashUpdate t h \<Rightarrow> 0)"
    by (simp add: outstanding_def e exit_codes_def split: report.split)
  show ?thesis
    using assms by (auto simp: run_ok_def ready_ok_def sent_ok_def count_ok_def e o split: report.split)
qed

lemma ok_read_workers [ok_intro]:
  assumes "run_ok cf N rt d s"
  shows "yields (run_ok cf N rt d) (read_workers cf wd reports s)"
  unfolding read_workers_def
proof (rule yields_for_each [where P = "run_ok cf N rt d", OF assms])
  fix r s assume s: "run_ok cf N rt d s"
  note r = run_ok_reported [OF s, of r]
  show "yields (run_ok cf N rt d) (process_report cf wd r s)"
  proof (cases r)
    case (ExitCode t c)
    let ?s = "s\<lparr>worker_out := worker_out s @ [r]\<rparr>"
    have "run_ok cf N rt (d + 1) ?s" using r ExitCode by simp
    then have "yields (run_ok cf N rt (d + 1 - 1)) (runqueue_process_waitpid cf wd (t, c) ?s)"
      by (rule ok_waitpid) (simp add: ExitCode)
    then show ?thesis by (simp add: process_report_def ExitCode)
  next
    case (UniHashUpdate t h)
    then show ?thesis using r by (simp add: process_report_def) (rule ok_intro, simp)
  qed
qed

subsection \<open>Rehashing\<close>

lemma run_ok_entry:
  assumes "run_ok cf N rt d s" and "set_entry t f s = Inr s'"
    and "\<And>e. rt_depends (f e) = rt_depends e" and "\<And>e. rt_revdeps (f e) = rt_revdeps e"
  shows "run_ok cf N rt d s'"
proof -
  obtain e where e: "map_of (rt_of s) t = Some e"
    and s': "s' = s\<lparr>rqd := (rqd s)\<lparr>runtaskentries := dict_set t (f e) (rt_of s)\<rparr>\<rparr>"
    using assms(2) by (auto simp: set_entry_def bindE_Inr_iff dict_get_Inr_iff)
  have "graph_of (rt_of s') = graph_of (rt_of s)"
    unfolding s' using graph_of_set [OF e assms(3,4)] by simp
  moreover have "ready_ok rt s' = ready_ok rt s" "sent_ok s' = sent_ok s" "count_ok cf rt d s' = count_ok cf rt d s"
    by (simp_all add: ready_ok_def sent_ok_def count_ok_def s' sent_tasks_def exit_codes_def
        outstanding_def busy_count_def)
  ultimately show ?thesis using assms(1) by (simp add: run_ok_def) (simp add: s')
qed

lemma ok_rehash_update:
  assumes "run_ok cf N rt d s" and "rehash_update q (s, toprocess) = Inr (s', toprocess')"
  shows "run_ok cf N rt d s'"
proof -
  obtain t u where q: "q = (t, u)" by (cases q)
  let ?s = "s\<lparr>updated_taskhash_queue := remove1 (t, u) (updated_taskhash_queue s)\<rparr>"
  have s: "run_ok cf N rt d ?s" by (intro ok_intro assms(1))
  have "run_ok cf N rt d (fst b)"
    if "foldE (\<lambda>h (s, toprocess). bindE (set_entry h (\<lambda>e. e\<lparr>rt_unihash := Some u\<rparr>) s)
        (\<lambda>s. Inr (s, set_add h toprocess))) hs (?s, toprocess) = Inr b" for hs b
    using that by (rule foldE_invariant [where P = "\<lambda>p. run_ok cf N rt d (fst p)"])
      (auto simp: s bindE_Inr_iff intro: run_ok_entry)
  then have loop: "run_ok cf N rt d s'"
    if "foldE (\<lambda>h (s, toprocess). bindE (set_entry h (\<lambda>e. e\<lparr>rt_unihash := Some u\<rparr>) s)
        (\<lambda>s. Inr (s, set_add h toprocess))) hs (?s, toprocess) = Inr (s', toprocess')" for hs
    using that by fastforce
  from assms(2) have "s' = s \<or> s' = ?s \<or> (\<exists>hs. foldE (\<lambda>h (s, toprocess). bindE (set_entry h (\<lambda>e. e\<lparr>rt_unihash := Some u\<rparr>) s)
        (\<lambda>s. Inr (s, set_add h toprocess))) hs (?s, toprocess) = Inr (s', toprocess'))"
    unfolding rehash_update_def q case_prod_conv Let_def bindE_Inr_iff by (auto simp only: bindE_Inr_iff split: if_splits)
  with assms(1) s loop show ?thesis by blast
qed

lemma ok_rehash_task:
  assumes "run_ok cf N rt d s" and "rehash_task cf wd p t (s, x) = Inr (s', x')"
  shows "run_ok cf N rt d s'"
  using assms by (auto simp: rehash_task_def bindE_Inr_iff Let_def split: if_splits prod.splits intro: run_ok_entry)

lemma ok_rehash_loop:
  "run_ok cf N rt d (fst st) \<Longrightarrow> rehash_loop n cf wd p nxt st = Some (Inr (s', changed)) \<Longrightarrow> run_ok cf N rt d s'"
proof (induction n arbitrary: nxt st)
  case (Suc n)
  show ?case
  proof (cases "nxt = []")
    case True
    then show ?thesis using Suc.prems by auto
  next
    case False
    then obtain b where b: "foldE (rehash_task cf wd p) nxt (fst st, fst (snd st), snd (snd st), []) = Inr b"
      and l: "rehash_loop n cf wd p (snd (snd (snd b))) (fst b, fst (snd b), fst (snd (snd b))) = Some (Inr (s', changed))"
      using Suc.prems(2) by (auto split: sum.splits prod.splits)
    have "run_ok cf N rt d (fst b)"
      using b by (rule foldE_invariant [where P = "\<lambda>p. run_ok cf N rt d (fst p)"])
        (use Suc.prems(1) in \<open>auto intro: ok_rehash_task\<close>)
    with l show ?thesis by (intro Suc.IH [OF _ l]) simp
  qed
qed simp

lemma ok_rehash_all:
  assumes "run_ok cf N rt d s" and "rehash_all cf wd s = Some (Inr (s', changed))"
  shows "run_ok cf N rt d s'"
proof -
  obtain u p where u: "foldE rehash_update (updated_taskhash_queue s) (s, []) = Inr (u, p)"
    and l: "\<exists>n q nxt tot. rehash_loop n cf wd q nxt (u, tot, []) = Some (Inr (s', changed))"
    using assms(2) unfolding rehash_all_def
    by (auto simp del: rehash_loop.simps revdep_closure.simps split: sum.splits prod.splits option.splits)
  have "run_ok cf N rt d (fst (u, p))"
    using u by (rule foldE_invariant [where P = "\<lambda>p. run_ok cf N rt d (fst p)"])
      (use assms(1) in \<open>auto intro: ok_rehash_update\<close>)
  then have u: "run_ok cf N rt d u" by simp
  obtain n q nxt tot where r: "rehash_loop n cf wd q nxt (u, tot, []) = Some (Inr (s', changed))"
    using l by (elim exE)
  show ?thesis using u by (intro ok_rehash_loop [OF _ r]) simp
qed

lemma sent_tasks_append:
  "sent_tasks b (s\<lparr>worker_in := worker_in s @ ms\<rparr>) = sent_tasks b s @ sent_tasks b (s\<lparr>worker_in := ms\<rparr>)"
  by (simp add: sent_tasks_def)

lemma sent_new_hash_messages: "sent_tasks b (s\<lparr>worker_in := new_hash_messages cf s'\<rparr>) = []"
  by (auto simp: sent_tasks_def new_hash_messages_def)

lemma run_ok_hash_messages:
  assumes "run_ok cf N rt d s"
  shows "run_ok cf N rt d (s\<lparr>worker_in := worker_in s @ new_hash_messages cf s\<rparr>)" (is "run_ok cf N rt d ?s")
proof -
  have e: "sent_tasks c ?s = sent_tasks c s" for c by (simp only: sent_tasks_append sent_new_hash_messages append_Nil2)
  have o: "outstanding ?s = outstanding s" by (simp add: outstanding_def e) (simp add: exit_codes_def)
  have "sent_ok ?s = sent_ok s" unfolding sent_ok_def e by simp
  moreover have "count_ok cf rt d ?s = count_ok cf rt d s" unfolding count_ok_def o by (simp add: busy_count_def)
  ultimately show ?thesis using assms by (simp add: run_ok_def ready_ok_def)
qed

lemma reset_covered_only: "\<exists>d. snd (reset_covered deps s) = s\<lparr>tasks_scenequeue_done := d\<rparr>"
proof (induction deps arbitrary: s)
  case Nil
  have "s = s\<lparr>tasks_scenequeue_done := tasks_scenequeue_done s\<rparr>" by simp
  then show ?case unfolding reset_covered.simps snd_conv by (rule exI)
next
  case (Cons dep deps)
  have same: "s = s\<lparr>tasks_scenequeue_done := tasks_scenequeue_done s\<rparr>" by simp
  obtain d where d: "snd (reset_covered deps (s\<lparr>tasks_scenequeue_done := set_diff (tasks_scenequeue_done s) [dep]\<rparr>)) =
      s\<lparr>tasks_scenequeue_done := set_diff (tasks_scenequeue_done s) [dep], tasks_scenequeue_done := d\<rparr>"
    using Cons.IH by blast
  show ?case
  proof (cases "dep \<in> set (runq_complete s) \<and> dep \<notin> set (runq_tasksrun s)")
    case True
    then show ?thesis using same by (simp only: reset_covered.simps simp_thms if_True snd_conv) (rule exI)
  next
    case False
    then show ?thesis using Cons.IH [of s] d by auto
  qed
qed

lemma run_ok_not_live:
  assumes "run_ok cf N rt d s" and "t \<notin> set (sq_live s)"
  shows "run_ok cf N rt d (s\<lparr>sq_running := set_diff (sq_running s) [t]\<rparr>)" (is "run_ok cf N rt d ?s")
proof -
  note e = history_same [of ?s s, simplified]
  have "sent_ok ?s" if "sent_ok s" using that assms(2) unfolding sent_ok_def e by auto
  moreover have "count_ok cf rt d ?s = count_ok cf rt d s" unfolding count_ok_def e by (simp add: busy_count_def)
  ultimately show ?thesis using assms(1) by (simp add: run_ok_def ready_ok_def)
qed

lemma ok_requeue:
  assumes "run_ok cf N rt d s" and "t \<notin> set (sq_live s)" and "requeue_tid cf t s = Inr (s', failed)"
  shows "run_ok cf N rt d s'"
proof -
  have "ok_view s' = ok_view (s\<lparr>sq_running := set_diff (sq_running s) [t]\<rparr>)"
    using assms(3) unfolding requeue_tid_def Let_def bindE_Inr_iff
    by (elim exE conjE) (auto simp: ok_view_def run_view_def bindE_Inr_iff split: prod.splits)
  with run_ok_not_live [OF assms(1,2)] show ?thesis using run_ok_view by blast
qed

lemma run_ok_failed:
  assumes "run_ok cf N rt d s"
  shows "run_ok cf N rt d (s\<lparr>failed_tids := failed_tids s @ [t], rqstate := QCleanUp\<rparr>)" (is "run_ok cf N rt d ?s")
proof -
  note e = history_same [of ?s s, simplified]
  have "sent_ok ?s = sent_ok s" unfolding sent_ok_def e by simp
  moreover have "count_ok cf rt d ?s" if "count_ok cf rt d s"
    using that unfolding count_ok_def e by (simp add: busy_count_def)
  ultimately show ?thesis using assms by (simp add: run_ok_def ready_ok_def)
qed

lemma ok_migrate_tids:
  assumes "\<And>upd changed s. run_ok cf N rt d s \<Longrightarrow> yields (run_ok cf N rt d) (k upd changed s)"
  shows "run_ok cf N rt d s \<Longrightarrow> yields (run_ok cf N rt d) (migrate_tids cf tids upd changed s k)"
proof (induction tids arbitrary: upd changed s)
  case (Cons t tids)
  let ?s = "s\<lparr>pending_migrations := set_diff (pending_migrations s) [t], tasks_scenequeue_done := set_diff (tasks_scenequeue_done s) [t]\<rparr>"
  have late: "yields (run_ok cf N rt d) (migrate_tids cf tids upd changed (s\<lparr>pending_migrations := xs\<rparr>) k)" for xs
    by (intro Cons.IH ok_intro Cons.prems)
  have main: "yields (run_ok cf N rt d)
      (case reset_covered cov ?s of (ok, s) \<Rightarrow>
         if \<not> ok then return (s\<lparr>failed_tids := failed_tids s @ [t], rqstate := QCleanUp\<rparr>)
         else on_result (requeue_tid cf t s) s (\<lambda>(s, failed). migrate_tids cf tids (upd @ [(t, failed)]) True s k))"
    if live: "t \<notin> set (sq_live s)" for cov
  proof -
    obtain ok s2 where r: "reset_covered cov ?s = (ok, s2)" by (cases "reset_covered cov ?s")
    obtain dn where s2: "s2 = ?s\<lparr>tasks_scenequeue_done := dn\<rparr>"
      using reset_covered_only [of cov ?s] r by auto
    have i: "run_ok cf N rt d s2" unfolding s2 by (intro ok_intro Cons.prems)
    have l: "t \<notin> set (sq_live s2)" using live by (simp add: s2)
    note run_ok_failed [OF i, of t]
    moreover have "yields (run_ok cf N rt d)
        (on_result (requeue_tid cf t s2) s2 (\<lambda>(s, failed). migrate_tids cf tids (upd @ [(t, failed)]) True s k))"
      by (auto intro!: yields_on_result Cons.IH ok_requeue [OF i l])
    ultimately show ?thesis unfolding r by simp
  qed
  show ?case
    using late Cons.IH [OF Cons.prems] main
    by (auto simp: Let_def intro!: yields_on_result)
qed (simp add: assms)

lemma ok_finish_migrations:
  assumes "run_ok cf N rt d s"
  shows "yields (run_ok cf N rt d) (finish_migrations cf wd upd changed s)"
proof -
  have re: "yields (run_ok cf N rt d) (redefer_tid cf mc t s)" if "run_ok cf N rt d s" for mc t s
    using that unfolding redefer_tid_def by (auto intro!: yields_intro ok_intro split: option.split)
  show ?thesis
    unfolding finish_migrations_def using assms
    by (auto intro!: yields_and_then_same yields_for_each yields_return re ok_intro simp: case_prod_unfold)
qed

lemma ok_migrations [ok_intro]:
  assumes "run_ok cf N rt d s"
  shows "yields (run_ok cf N rt d) (process_possible_migrations cf wd s)"
proof -
  have msg: "run_ok cf N rt d (s\<lparr>worker_in := worker_in s @ (if b then [] else new_hash_messages cf s)\<rparr>)"
    if "run_ok cf N rt d s" for s b
    using that run_ok_hash_messages [OF that] by (cases b) simp_all
  show ?thesis
    unfolding process_possible_migrations_def Let_def
    using ok_rehash_all [OF assms, of wd]
    by (auto intro!: ok_migrate_tids ok_finish_migrations run_ok_other msg run_ok_hash_messages simp del: if_split
        split: option.split sum.split prod.split)
qed

subsection \<open>The scheduler\<close>

lemma ensure_keeps: "ensure_rev_prio_map rt sc = Inr sc' \<Longrightarrow> buildable sc' = buildable sc"
  by (auto simp: ensure_rev_prio_map_def bindE_Inr_iff split: option.splits list.splits)

lemma pick_task_member:
  "pick_task sc skp used t best = Inr best' \<Longrightarrow> best' = best \<or> (\<exists>n. best' = Some (t, n))"
  by (auto simp: pick_task_def bindE_Inr_iff split: if_splits option.splits)

lemma pick_fold_member:
  assumes "foldE (pick_task sc skp used) cands None = Inr best"
  shows "set_option (map_option fst best) \<subseteq> set cands"
  using assms
proof (rule foldE_invariant [where P = "\<lambda>b. set_option (map_option fst b) \<subseteq> set cands"])
  fix t a b assume t: "t \<in> set cands" and a: "set_option (map_option fst a) \<subseteq> set cands"
    and p: "pick_task sc skp used t a = Inr b"
  from pick_task_member [OF p] t a show "set_option (map_option fst b) \<subseteq> set cands" by auto
qed simp

definition picked :: "rqexec \<Rightarrow> tid list \<Rightarrow> tid option \<times> rqexec \<Rightarrow> bool" where
  "picked s cands = (\<lambda>(r, s'). set_option r \<subseteq> set cands \<and>
     (\<exists>sc. s' = s\<lparr>sched := sc\<rparr> \<and> set (buildable sc) \<subseteq> set (buildable (sched s))))"

lemma pick_best_picked:
  assumes "pick_best rt s sc skp cands = Inr p" and "set (buildable sc) \<subseteq> set (buildable (sched s0))"
    and "s = s0\<lparr>sched := sc0\<rparr>" and "set cands \<subseteq> set cands0"
  shows "picked s0 cands0 p"
proof -
  obtain sc' best where sc': "ensure_rev_prio_map rt sc = Inr sc'"
    and best: "foldE (pick_task sc' skp (dict_values (build_stamps s))) cands None = Inr best"
    and p: "p = (map_option fst best, s\<lparr>sched := sc'\<rparr>)"
    using assms(1) by (auto simp: pick_best_def bindE_Inr_iff)
  show ?thesis
    using pick_fold_member [OF best] ensure_keeps [OF sc'] assms(2-4) unfolding p picked_def
    by (auto intro!: exI [where x = sc'])
qed

lemma pick_single_picked:
  assumes "pick_single rt s sc skp t = Inr p" and "set (buildable sc) \<subseteq> set (buildable (sched s0))"
    and "s = s0\<lparr>sched := sc0\<rparr>" and "set (buildable sc0) \<subseteq> set (buildable (sched s0))" and "t \<in> set cands0"
  shows "picked s0 cands0 p"
proof -
  have "p = (None, s) \<or> p = (Some t, s) \<or> pick_best rt s sc skp [] = Inr p"
    using assms(1) unfolding pick_single_def bindE_Inr_iff by (auto simp: bindE_Inr_iff split: if_splits)
  moreover have "picked s0 cands0 p" if "pick_best rt s sc skp [] = Inr p"
    by (rule pick_best_picked [OF that assms(2,3)]) simp
  ultimately show ?thesis using assms(3-5) unfolding picked_def by auto
qed

lemma sched_next_picked:
  assumes "sched_next nthreads pressure rt s = Inr p"
  shows "picked s (sched_candidates s) p \<and> (fst p \<noteq> None \<longrightarrow> can_start_task s)"
proof (cases "can_start_task s")
  case False
  have "p = (None, s)" using assms False by (simp add: sched_next_def)
  then show ?thesis by (auto simp: picked_def intro: exI [where x = "sched s"])
next
  case True
  define sc where "sc = (sched s)\<lparr>buildable := set_diff (buildable (sched s)) (runq_running s)\<rparr>"
  have b: "set (buildable sc) \<subseteq> set (buildable (sched s))" by (auto simp: sc_def)
  have n: "next_buildable_task nthreads pressure rt s = Inr p" using assms True by (simp add: sched_next_def)
  let ?goal = "picked s (sched_candidates s) p"
  have "p = (None, s\<lparr>sched := sc\<rparr>) \<or> (\<exists>mt skp. (case sched_candidates s of
        [t] \<Rightarrow> pick_single rt (s\<lparr>sched := sc\<lparr>skip_maxthread := mt\<rparr>\<rparr>) (sc\<lparr>skip_maxthread := mt\<rparr>) skp t
      | _ \<Rightarrow> pick_best rt (s\<lparr>sched := sc\<lparr>skip_maxthread := mt\<rparr>\<rparr>) (sc\<lparr>skip_maxthread := mt\<rparr>) skp (sched_candidates s)) = Inr p)"
    using n unfolding next_buildable_task_def Let_def sc_def [symmetric]
    by (auto simp: bindE_Inr_iff cong: list.case_cong split: if_splits)
  then have ?goal
  proof (elim disjE exE)
    assume "p = (None, s\<lparr>sched := sc\<rparr>)"
    then show ?goal using b by (auto simp: picked_def)
  next
    fix mt skp
    let ?sc = "sc\<lparr>skip_maxthread := mt\<rparr>"
    assume c: "(case sched_candidates s of
        [t] \<Rightarrow> pick_single rt (s\<lparr>sched := ?sc\<rparr>) ?sc skp t
      | _ \<Rightarrow> pick_best rt (s\<lparr>sched := ?sc\<rparr>) ?sc skp (sched_candidates s)) = Inr p"
    have b': "set (buildable ?sc) \<subseteq> set (buildable (sched s))" using b by simp
    show ?goal
    proof (cases "\<exists>t. sched_candidates s = [t]")
      case True
      then obtain t where t: "sched_candidates s = [t]" by blast
      from c have "pick_single rt (s\<lparr>sched := ?sc\<rparr>) ?sc skp t = Inr p" by (simp add: t)
      then show ?goal by (rule pick_single_picked [OF _ b' refl b']) (simp add: t)
    next
      case False
      with c have "pick_best rt (s\<lparr>sched := ?sc\<rparr>) ?sc skp (sched_candidates s) = Inr p"
        by (auto split: list.splits)
      then show ?goal by (rule pick_best_picked [OF _ b' refl]) simp
    qed
  qed
  with True show ?thesis by simp
qed

lemma run_ok_sched:
  assumes "run_ok cf N rt d s" and "set (buildable sc) \<subseteq> set (buildable (sched s))"
  shows "run_ok cf N rt d (s\<lparr>sched := sc\<rparr>)" (is "run_ok cf N rt d ?s")
proof -
  note e = history_same [of ?s s, simplified]
  have "sent_ok ?s = sent_ok s" unfolding sent_ok_def e by simp
  moreover have "count_ok cf rt d ?s = count_ok cf rt d s" unfolding count_ok_def e by (simp add: busy_count_def)
  moreover have "ready_ok rt ?s" if "ready_ok rt s" using that assms(2) by (auto simp: ready_ok_def)
  ultimately show ?thesis using assms(1) by (simp add: run_ok_def)
qed

lemma sched_next_ok:
  assumes "run_ok cf N rt d s" and "sched_next nthreads pressure rt' s = Inr (r, s')"
  shows "run_ok cf N rt d s' \<and> rqstate s' = rqstate s \<and> (\<forall>t. r = Some t \<longrightarrow> fresh t s' \<and> can_start_task s')"
proof -
  obtain sc where s': "s' = s\<lparr>sched := sc\<rparr>" and b: "set (buildable sc) \<subseteq> set (buildable (sched s))"
    and r: "set_option r \<subseteq> set (sched_candidates s)" and c: "r \<noteq> None \<longrightarrow> can_start_task s"
    using sched_next_picked [OF assms(2)] by (auto simp: picked_def)
  have "set (buildable (sched s)) \<subseteq> set (runq_buildable s)"
    using assms(1) by (simp add: run_ok_def ready_ok_def)
  with run_ok_sched [OF assms(1) b] r c show ?thesis
    by (auto simp: s' fresh_def sched_candidates_def can_start_task_def)
qed

subsection \<open>Starting tasks\<close>

lemma start_counts:
  assumes "worker_in s' = worker_in s @ [RunTask w t n f h u b tdd dry]" and "worker_out s' = worker_out s"
  shows "sent_tasks b s' = sent_tasks b s @ [t]" and "sent_tasks (\<not> b) s' = sent_tasks (\<not> b) s"
    and "outstanding s' = outstanding s + 1"
  using assms by (cases b; simp add: sent_tasks_def outstanding_def exit_codes_def)+

lemma run_ok_start_task:
  assumes "run_ok cf N rt d s" and "fresh t s" and "busy_count s < number_tasks s" and "d = 0"
    and s': "s' = mark_started t (note_stamp cf t n mc f (s\<lparr>fakeworkers := fw,
      worker_in := worker_in s @ [RunTask w t n f h u False tdd dry]\<rparr>))"
  shows "run_ok cf N rt d s'"
proof -
  have w: "worker_in s' = worker_in s @ [RunTask w t n f h u False tdd dry]" "worker_out s' = worker_out s"
    by (simp_all add: s' mark_started_def note_stamp_def Let_def)
  note c = start_counts [OF w, simplified]
  have f: "runq_buildable s' = runq_buildable s" "set (runq_running s') = insert t (set (runq_running s))"
    "runq_complete s' = runq_complete s" "sched s' = sched s" "sq_live s' = sq_live s" "sq_running s' = sq_running s"
    "rqd s' = rqd s" "st_total (stats s') = st_total (stats s)" "busy_count s' = busy_count s + 1"
    "number_tasks s' = number_tasks s" "rqstate s' = rqstate s" "failed_tids s' = failed_tids s"
    by (simp_all add: s' mark_started_def note_stamp_def Let_def taskActive_def busy_count_def)
  have "t \<notin> set (sent_tasks False s)" using assms(1,2) by (rule fresh_not_sent)
  moreover have "sent_ok s" "ready_ok rt s" "count_ok cf rt d s" using assms(1) by (simp_all add: run_ok_def)
  ultimately have "sent_ok s'" "ready_ok rt s'" "count_ok cf rt d s'"
    using assms(2-4) by (auto simp: sent_ok_def ready_ok_def count_ok_def f c w fresh_def)
  then show ?thesis using assms(1) by (simp add: run_ok_def f)
qed

lemma run_ok_start_setscene:
  assumes "run_ok cf N rt d s" and "t \<notin> set (sq_running s)" and "busy_count s < number_tasks s" and "d = 0"
    and s': "s' = note_setscene cf t n mc f (s\<lparr>fakeworkers := fw,
      worker_in := worker_in s @ [RunTask w t n f h u True tdd dry]\<rparr>)"
  shows "run_ok cf N rt d s'"
proof -
  have w: "worker_in s' = worker_in s @ [RunTask w t n f h u True tdd dry]" "worker_out s' = worker_out s"
    by (simp_all add: s' note_setscene_def set_setscene_active_def note_stamp_def Let_def)
  note c = start_counts [OF w, simplified]
  have "sent_ok s" "ready_ok rt s" "count_ok cf rt d s" using assms(1) by (simp_all add: run_ok_def)
  moreover from this have l: "sq_live s' = sq_live s @ [t]" "t \<notin> set (sq_live s)"
    using assms(2) by (auto simp: s' note_setscene_def set_setscene_active_def set_add_def sent_ok_def)
  moreover have f: "runq_buildable s' = runq_buildable s" "runq_running s' = runq_running s"
    "runq_complete s' = runq_complete s" "sched s' = sched s" "set (sq_running s') = insert t (set (sq_running s))"
    "rqd s' = rqd s" "st_total (stats s') = st_total (stats s)" "busy_count s' = busy_count s + 1"
    "number_tasks s' = number_tasks s" "rqstate s' = rqstate s" "failed_tids s' = failed_tids s"
    using l by (simp_all add: s' note_setscene_def set_setscene_active_def note_stamp_def Let_def updateActiveSetscene_def busy_count_def)
  ultimately have "sent_ok s'" "ready_ok rt s'" "count_ok cf rt d s'"
    using assms(3,4) by (auto simp: sent_ok_def ready_ok_def count_ok_def c w)
  then show ?thesis using assms(1) by (simp add: run_ok_def f)
qed

text \<open>
  After a step the count is exact again, unless a fakeroot worker could not be started, which
  ends the build.
\<close>

definition step_ok :: "exec_config \<Rightarrow> int \<Rightarrow> rtentries \<Rightarrow> rqexec \<Rightarrow> bool" where
  "step_ok cf N rt s \<longleftrightarrow> (\<exists>d. run_ok cf N rt d s \<and> (rqstate s \<noteq> QFailed \<longrightarrow> d = 0))"

lemma step_okI [intro]: "run_ok cf N rt 0 s \<Longrightarrow> step_ok cf N rt s"
  by (auto simp: step_ok_def)

lemma yields_step_ok: "yields (run_ok cf N rt 0) r \<Longrightarrow> yields (step_ok cf N rt) r"
  by (erule yields_mono) (rule step_okI)

lemma run_ok_phase:
  assumes "run_ok cf N rt d s"
  shows "run_ok cf N rt d (s\<lparr>rqstate := QFailed\<rparr>)"
    and "xc_setsceneonly cf \<or> xc_ignore cf \<noteq> None \<or> tasks rt \<subseteq> set (runq_complete s) \<Longrightarrow> run_ok cf N rt d (s\<lparr>rqstate := QComplete\<rparr>)"
proof -
  have e: "sent_tasks c (s\<lparr>rqstate := p\<rparr>) = sent_tasks c s" for c p by (simp add: sent_tasks_def)
  have o: "outstanding (s\<lparr>rqstate := p\<rparr>) = outstanding s" "busy_count (s\<lparr>rqstate := p\<rparr>) = busy_count s" for p
    by (simp_all add: outstanding_def e) (simp_all add: exit_codes_def busy_count_def)
  have v: "sent_ok (s\<lparr>rqstate := p\<rparr>) = sent_ok s" "ready_ok rt (s\<lparr>rqstate := p\<rparr>) = ready_ok rt s" for p
    unfolding sent_ok_def ready_ok_def e by simp_all
  show "run_ok cf N rt d (s\<lparr>rqstate := QFailed\<rparr>)"
    using assms unfolding run_ok_def v count_ok_def o by auto
  show "run_ok cf N rt d (s\<lparr>rqstate := QComplete\<rparr>)"
    if "xc_setsceneonly cf \<or> xc_ignore cf \<noteq> None \<or> tasks rt \<subseteq> set (runq_complete s)"
    using assms that unfolding run_ok_def v count_ok_def o by auto
qed

lemma ok_execute_idle:
  assumes "run_ok cf N rt 0 s"
  shows "yields (step_ok cf N rt) (execute_idle cf wd reports s)"
proof -
  have t: "dict_keys (rt_of s) = dict_keys rt"
    using assms graph_of_keys [of "rt_of s"] graph_of_keys [of rt] by (simp add: run_ok_def)
  have all: "tasks rt \<subseteq> set (runq_complete s)" if "\<not> never_completed s"
    using that unfolding never_completed_def t tasks_def list_ex_iff by blast
  show ?thesis
    unfolding execute_idle_def
    by (auto intro!: yields_intro yields_step_ok step_okI ok_intro run_ok_phase assms dest: all)
qed

lemma can_start: "can_start_task s \<longleftrightarrow> busy_count s < number_tasks s"
  by (simp add: can_start_task_def busy_count_def)

lemma yields_task_event: "yields P (f s) \<Longrightarrow> yields P (and_then (task_event t s) f)"
  by (rule yields_and_then [where P = "\<lambda>s'. s' = s"]) (auto intro: ok_task_event)

lemma fresh_upd [simp]:
  "fresh t (s\<lparr>stampcache := c\<rparr>) = fresh t s" "can_start_task (s\<lparr>stampcache := c\<rparr>) = can_start_task s"
  by (simp_all add: fresh_def can_start_task_def)

lemma fakeroot_failed:
  assumes "run_ok cf N rt 0 s"
  shows "step_ok cf N rt (s\<lparr>rqstate := QFailed, stats := taskFailed (stats s)\<rparr>)" (is "step_ok cf N rt ?s")
proof -
  have e: "sent_tasks c ?s = sent_tasks c s" for c by (simp add: sent_tasks_def)
  have o: "outstanding ?s = outstanding s" "busy_count ?s = busy_count s - 1"
    by (simp add: outstanding_def e) (simp_all add: exit_codes_def busy_count_def taskFailed_def)
  have v: "sent_ok ?s = sent_ok s" "ready_ok rt ?s = ready_ok rt s"
    unfolding sent_ok_def ready_ok_def e by simp_all
  have "run_ok cf N rt (- 1) ?s"
    using assms unfolding run_ok_def v count_ok_def o by (auto simp: taskFailed_def)
  then show ?thesis by (auto simp: step_ok_def)
qed

lemma ok_start_task:
  assumes "run_ok cf N rt 0 s" and "fresh t s" and "can_start_task s"
    and k: "\<And>s. run_ok cf N rt 0 s \<Longrightarrow> yields (step_ok cf N rt) (k s)"
  shows "yields (step_ok cf N rt) (start_task cf wd t n mc f td s k)"
proof -
  let ?go = "\<lambda>fw e tdd b. mark_started t (note_stamp cf t n mc f (s\<lparr>fakeworkers := fw,
      worker_in := worker_in s @ [RunTask (mc, b) t n f (rt_hash e) (rt_unihash e) False tdd (xc_enforce cf)]\<rparr>))"
  have started: "run_ok cf N rt 0 (?go fw e tdd b)" for fw e tdd b
    by (rule run_ok_start_task [OF assms(1,2) _ refl refl]) (use assms(3) in \<open>simp add: can_start\<close>)
  have plain: "run_ok cf N rt 0 (mark_started t (note_stamp cf t n mc f (s\<lparr>
      worker_in := worker_in s @ [RunTask (mc, b) t n f (rt_hash e) (rt_unihash e) False tdd (xc_enforce cf)]\<rparr>)))" for e tdd b
    by (rule run_ok_start_task [OF assms(1,2) _ refl, where fw = "fakeworkers s"])
      (use assms(3) in \<open>simp_all add: can_start\<close>)
  show ?thesis
    unfolding start_task_def send_task_def return_or_def
    by (rule yields_task_event)
      (auto intro!: yields_on_result step_okI started plain k fakeroot_failed assms(1) split: option.split sum.split)
qed

lemma ok_run_noexec:
  assumes "run_ok cf N rt 0 s" and "fresh t s"
  shows "yields (run_ok cf N rt 0) (run_noexec cf wd t n mc f s)"
proof -
  have one: "run_ok cf N rt 1 (mark_started t s)"
  proof -
    let ?s = "mark_started t s"
    have e: "sent_tasks c ?s = sent_tasks c s" for c by (simp add: sent_tasks_def mark_started_def)
    have o: "outstanding ?s = outstanding s" "busy_count ?s = busy_count s + 1"
      by (simp add: outstanding_def e) (simp_all add: exit_codes_def busy_count_def mark_started_def taskActive_def)
    have "sent_ok ?s" if "sent_ok s" using that unfolding sent_ok_def e by (auto simp: mark_started_def)
    moreover have "ready_ok rt ?s" if "ready_ok rt s"
      using that assms(2) by (auto simp: ready_ok_def mark_started_def fresh_def)
    moreover have "count_ok cf rt 1 ?s" if "count_ok cf rt 0 s"
      using that unfolding count_ok_def o by (simp add: mark_started_def)
    ultimately show ?thesis
      using assms(1) by (simp add: run_ok_def) (simp add: mark_started_def taskActive_def)
  qed
  have n: "t \<notin> set (sent_tasks False s)" using assms by (rule fresh_not_sent)
  have m: "run_ok cf N rt 1 (make_stamp cf n mc f (mark_started t s))"
    unfolding make_stamp_def by (intro ok_intro one)
  have "yields (run_ok cf N rt (1 - 1)) (task_complete cf wd t (mark_started t s))"
    using n by (intro ok_task_complete [OF one]) (simp add: sent_tasks_def mark_started_def)
  moreover have "yields (run_ok cf N rt (1 - 1)) (task_complete cf wd t (make_stamp cf n mc f (mark_started t s)))"
    using n by (intro ok_task_complete [OF m]) (simp add: sent_tasks_def mark_started_def make_stamp_def)
  ultimately show ?thesis
    unfolding run_noexec_def Let_def by (intro yields_task_event) simp
qed

lemma yields_check_ignore:
  assumes "\<And>b c. yields P (k b (s\<lparr>stampcache := c\<rparr>))" and "\<And>b. yields P (k b s)"
  shows "yields P (check_setscene_ignore_tasks cf wd t s k)"
  unfolding check_setscene_ignore_tasks_def
  by (auto intro!: yields_on_result yields_with_stamp assms simp: case_prod_unfold)

lemma ok_execute_task:
  assumes "run_ok cf N rt 0 s" and "fresh t s" and "can_start_task s"
    and k: "\<And>s. run_ok cf N rt 0 s \<Longrightarrow> yields (step_ok cf N rt) (k s)"
  shows "yields (step_ok cf N rt) (execute_task cf wd t s k)"
proof -
  have main: "yields (step_ok cf N rt) (if unexpected then task_fail cf t s
     else if t \<in> set (tasks_covered s) then task_skip cf wd t s
     else with_stamp cf wd t n False s (\<lambda>current s.
     if current then
       and_then (task_skip cf wd t s) (\<lambda>s. return (s\<lparr>runq_tasksrun := set_add t (runq_tasksrun s)\<rparr>))
     else
       on_result (dict_get (xc_caches cf) mc) s (\<lambda>dc.
       on_result (dict_get (task_deps_of dc) f) s (\<lambda>taskdep.
       if task_flag taskdep ''noexec'' n \<noteq> None then run_noexec cf wd t n mc f s
       else start_task cf wd t n mc f taskdep s k))))"
    if s: "run_ok cf N rt 0 s" "fresh t s" "can_start_task s" and u: "unexpected \<longrightarrow> xc_ignore cf \<noteq> None"
    for s unexpected n mc f
  proof -
    have i: "run_ok cf N rt 0 (s\<lparr>stampcache := c\<rparr>)" "fresh t (s\<lparr>stampcache := c\<rparr>)" "can_start_task (s\<lparr>stampcache := c\<rparr>)" for c
      using s by (simp_all add: run_ok_other)
    have skip: "yields (step_ok cf N rt) (and_then (task_skip cf wd t (s\<lparr>stampcache := c\<rparr>))
        (\<lambda>s. return (s\<lparr>runq_tasksrun := set_add t (runq_tasksrun s)\<rparr>)))" for c
      by (intro yields_step_ok yields_and_then [OF ok_task_skip [OF i(1,2)]] yields_return ok_intro)
    have fail: "yields (step_ok cf N rt) (task_fail cf t s)" if unexpected
    proof -
      have "run_ok cf N rt d s' \<Longrightarrow> run_ok cf N rt 0 s'" for d s'
        using u that by (auto simp: run_ok_def count_ok_def)
      then show ?thesis by (intro yields_mono [OF ok_task_fail [OF s(1)]] step_okI)
    qed
    show ?thesis
      using fail yields_step_ok [OF ok_task_skip [OF s(1,2)]] skip
      by (auto intro!: yields_with_stamp yields_on_result yields_step_ok [OF ok_run_noexec [OF i(1,2)]]
          ok_start_task [OF i] k)
  qed
  show ?thesis
    unfolding execute_task_def
  proof (intro yields_on_result)
    fix x :: "string \<times> string \<times> string \<times> string"
    obtain mc fn n f where x: "x = (mc, fn, n, f)" by (cases x)
    have i: "run_ok cf N rt 0 (s\<lparr>stampcache := c\<rparr>)" "fresh t (s\<lparr>stampcache := c\<rparr>)" "can_start_task (s\<lparr>stampcache := c\<rparr>)" for c
      using assms by (simp_all add: run_ok_other)
    show "yields (step_ok cf N rt) (case x of (mc, fn, n, f) \<Rightarrow>
        (if xc_ignore cf = None then (\<lambda>c. c False s) else check_setscene_ignore_tasks cf wd t s) (\<lambda>unexpected s.
         if unexpected then task_fail cf t s
         else if t \<in> set (tasks_covered s) then task_skip cf wd t s
         else with_stamp cf wd t n False s (\<lambda>current s.
         if current then
           and_then (task_skip cf wd t s) (\<lambda>s. return (s\<lparr>runq_tasksrun := set_add t (runq_tasksrun s)\<rparr>))
         else
           on_result (dict_get (xc_caches cf) mc) s (\<lambda>dc.
           on_result (dict_get (task_deps_of dc) f) s (\<lambda>taskdep.
           if task_flag taskdep ''noexec'' n \<noteq> None then run_noexec cf wd t n mc f s
           else start_task cf wd t n mc f taskdep s k)))))"
    proof (cases "xc_ignore cf = None")
      case True
      show ?thesis unfolding x case_prod_conv if_P [OF True] by (rule main [OF assms(1-3)]) simp
    next
      case False
      show ?thesis
        unfolding x case_prod_conv if_not_P [OF False]
        by (rule yields_check_ignore) (rule main; simp add: i assms(1-3) False)+
    qed
  qed
qed

lemma ok_execute_next:
  assumes "run_ok cf N rt 0 s"
  shows "yields (step_ok cf N rt) (execute_next cf wd reports s)"
  unfolding execute_next_def
proof (rule yields_on_result)
  fix x
  assume x: "(if xc_setsceneonly cf then Inr (None, s) else sched_next (xc_nthreads cf) (wd_pressure wd) (rt_of s) s) = Inr x"
  obtain r s' where rs: "x = (r, s')" by (cases x)
  have "run_ok cf N rt 0 s' \<and> (\<forall>t. r = Some t \<longrightarrow> fresh t s' \<and> can_start_task s')"
    using x assms sched_next_ok [OF assms] by (cases "xc_setsceneonly cf") (auto simp: rs)
  then show "yields (step_ok cf N rt) (case x of (task, s) \<Rightarrow> case task of
      None \<Rightarrow> execute_idle cf wd reports s | Some task \<Rightarrow> execute_task cf wd task s (execute_idle cf wd reports))"
    unfolding rs by (auto intro!: ok_execute_idle ok_execute_task split: option.split)
qed

lemma ok_update_holdoff [ok_intro]:
  assumes "run_ok cf N rt d s"
  shows "yields (run_ok cf N rt d) (update_holdofftasks s)"
  unfolding update_holdofftasks_def Let_def
  using assms by (auto intro!: yields_intro ok_intro)

lemma ok_execute_tasks:
  assumes "run_ok cf N rt 0 s"
  shows "yields (step_ok cf N rt) (execute_tasks cf wd reports s)"
  unfolding execute_tasks_def
proof (rule yields_and_then [OF ok_update_holdoff [OF assms]])
  fix s assume s: "run_ok cf N rt 0 s"
  have empty: "tasks rt \<subseteq> set (runq_complete s)" if "st_total (stats s) = 0"
    using s that by (simp add: run_ok_def tasks_def)
  have sq: "run_ok cf N rt 0 (s\<lparr>sqdone := True\<rparr>)" by (intro ok_intro s)
  note failed = step_okI [OF run_ok_phase(1) [OF s]]
  have finished: "step_ok cf N rt (s\<lparr>rqstate := QComplete\<rparr>)" if "xc_setsceneonly cf"
    using that by (intro step_okI run_ok_phase(2) [OF s]) simp
  have finished': "step_ok cf N rt (s\<lparr>sqdone := True, rqstate := QComplete\<rparr>)" if "st_total (stats s) = 0"
    using empty [OF that] by (intro step_okI run_ok_phase(2) [OF sq]) simp
  show "yields (step_ok cf N rt) (if sq_live s = [] \<and> \<not> sqdone s \<and> sq_deferred s = [] \<and> updated_taskhash_queue s = [] \<and> holdoff_tasks s = [] then
         if summarise_scenequeue_errors s then return (s\<lparr>rqstate := QFailed\<rparr>)
         else if xc_setsceneonly cf then return (s\<lparr>rqstate := QComplete\<rparr>)
         else
           let s = s\<lparr>sqdone := True\<rparr>
           in if st_total (stats s) = 0 then return (s\<lparr>rqstate := QComplete\<rparr>) else execute_next cf wd reports s
       else execute_next cf wd reports s)"
    using failed finished finished' ok_execute_next [OF s] ok_execute_next [OF sq] by (simp add: Let_def)
qed

lemma ok_start_setscene:
  assumes "run_ok cf N rt 0 s" and "t \<notin> set (sq_running s)" and "can_start_task s"
    and k: "\<And>s. run_ok cf N rt 0 s \<Longrightarrow> yields (step_ok cf N rt) (k s)"
  shows "yields (step_ok cf N rt) (start_setscene cf wd t s k)"
proof -
  let ?pre = "\<lambda>s. run_ok cf N rt 0 s \<and> t \<notin> set (sq_running s) \<and> can_start_task s"
  have upd: "?pre (s\<lparr>stampcache := c\<rparr>)" if "?pre s" for s c
    using that by (simp add: run_ok_other)
  have send: "yields (step_ok cf N rt) (send_task cf wd mc fk (raised OSError)
       (\<lambda>fakeroot. RunTask (mc, fakeroot) t n f (rt_hash e) (rt_unihash e) True tdd False) s
       (\<lambda>s. return_or k (note_setscene cf t n mc f s)))"
    if s: "?pre s" for mc fk n f e tdd s
  proof -
    have started: "run_ok cf N rt 0 (note_setscene cf t n mc f (s\<lparr>fakeworkers := fw,
        worker_in := worker_in s @ [RunTask (mc, b) t n f (rt_hash e) (rt_unihash e) True tdd False]\<rparr>))" for fw b
      by (rule run_ok_start_setscene [OF _ _ _ refl refl]) (use s in \<open>simp_all add: can_start\<close>)
    have plain: "run_ok cf N rt 0 (note_setscene cf t n mc f (s\<lparr>
        worker_in := worker_in s @ [RunTask (mc, b) t n f (rt_hash e) (rt_unihash e) True tdd False]\<rparr>))" for b
      by (rule run_ok_start_setscene [where s = s and d = 0 and fw = "fakeworkers s"]) (use s in \<open>simp_all add: can_start\<close>)
    show ?thesis
      unfolding send_task_def return_or_def using started plain by (auto intro!: step_okI k)
  qed
  have ops: "yields (step_ok cf N rt) (sq_task_failoutright cf wd t s)" "yields (step_ok cf N rt) (sq_task_skip cf wd t s)"
    if "?pre s" for s
    using that by (auto intro!: yields_step_ok ok_sq_ops)
  have launch: "yields (step_ok cf N rt) (case sq_build_taskdepdata cf (rt_of s) t of
       None \<Rightarrow> None
     | Some (Inl e) \<Rightarrow> raised e s
     | Some (Inr tdd) \<Rightarrow>
     on_result (dict_get (xc_caches cf) mc) s (\<lambda>dc.
     on_result (dict_get (task_deps_of dc) f) s (\<lambda>taskdep.
     on_result (dict_get (rt_of s) t) s (\<lambda>e.
     send_task cf wd mc (needs_fakeroot taskdep n (xc_dry_run cf)) (raised OSError)
       (\<lambda>fakeroot. RunTask (mc, fakeroot) t n f (rt_hash e) (rt_unihash e) True tdd False) s
       (\<lambda>s. return_or k (note_setscene cf t n mc f s))))))"
    if "?pre s" for mc n f s
    using send [OF that] by (auto intro!: yields_on_result split: option.split sum.split)
  have pre: "?pre s" using assms(1-3) by blast
  show ?thesis
    unfolding start_setscene_def Let_def
    by (rule yields_on_result, rename_tac x, case_tac x, simp only: prod.case)
      (auto intro!: yields_on_result yields_with_stamp yields_task_event
        launch [OF upd [OF pre]] ops [OF upd [OF pre]])
qed

lemma ok_next_setscene:
  assumes "run_ok cf N rt 0 s" and "can_start_task s"
    and "yields (step_ok cf N rt) (k None s)"
    and "\<And>t df. t \<notin> set (sq_running s) \<Longrightarrow> yields (step_ok cf N rt) (k (Some t) (s\<lparr>sq_deferred := df\<rparr>))"
  shows "yields (step_ok cf N rt) (next_setscene cf wd ts s k)"
proof (induction ts)
  case (Cons t ts)
  have some: "yields (step_ok cf N rt) (k (Some t) s)" if "t \<notin> set (sq_running s)"
    using assms(4) [OF that, of "sq_deferred s"] by simp
  have d: "run_ok cf N rt 0 (s\<lparr>sq_deferred := df\<rparr>)" for df by (intro ok_intro assms(1))
  have skip: "yields (step_ok cf N rt) (and_then (sq_task_skip cf wd t s) (\<lambda>s.
      return (s\<lparr>scenequeue_notneeded := set_add t (scenequeue_notneeded s), sq_deferred := dict_del t (sq_deferred s)\<rparr>)))"
    by (intro yields_step_ok yields_and_then_same yields_return ok_intro assms(1))
  note fail = yields_step_ok [OF ok_sq_ops(1) [OF assms(1)]] yields_step_ok [OF ok_sq_ops(1) [OF d]]
  show ?case
    using Cons.IH
    by (auto intro!: yields_on_result skip fail some assms(4) simp: Let_def split: option.split)
qed (simp add: assms(3))

lemma ok_execute:
  assumes "run_ok cf N rt 0 s"
  shows "yields (step_ok cf N rt) (execute cf wd before after s)"
proof -
  have sq: "yields (step_ok cf N rt) (execute_setscene cf wd after s)" if s: "run_ok cf N rt 0 s" for s
  proof -
    have d: "run_ok cf N rt 0 (s\<lparr>sq_deferred := df\<rparr>)" "can_start_task (s\<lparr>sq_deferred := df\<rparr>) = can_start_task s" for df
      by (intro ok_intro s) (simp add: can_start_task_def)
    show ?thesis
      unfolding execute_setscene_def
      by (auto intro!: ok_next_setscene ok_start_setscene ok_execute_tasks s d(1) simp: d(2))
  qed
  show ?thesis
    unfolding execute_def
    by (rule yields_and_then [OF ok_read_workers [OF assms]],
        rule yields_and_then [where P = "run_ok cf N rt 0"]) (auto intro!: ok_intro sq)
qed

subsection \<open>Builds\<close>

lemma ok_finish:
  assumes "step_ok cf N rt s" and "rqstate s = QCleanUp"
  shows "yields (step_ok cf N rt) (finish cf wd reports s)"
proof -
  have s: "run_ok cf N rt 0 s" using assms by (auto simp: step_ok_def)
  have same: "s\<lparr>rqstate := QCleanUp\<rparr> = s" using assms(2) by simp
  have "failed_tids s = [] \<Longrightarrow> xc_ignore cf \<noteq> None"
    using s assms(2) by (auto simp: run_ok_def count_ok_def)
  then have "step_ok cf N rt (s\<lparr>rqstate := end_phase s\<rparr>)"
    using run_ok_phase [OF s] by (auto simp: end_phase_def)
  then show ?thesis
    unfolding finish_def Let_def same
    by (auto intro: yields_step_ok ok_read_workers s)
qed

lemma ok_execute_runqueue:
  assumes "step_ok cf N rt s" and "rqstate s = QRunning \<or> rqstate s = QCleanUp"
  shows "yields (step_ok cf N rt) (execute_runqueue cf wd before after final s)"
proof -
  have s: "run_ok cf N rt 0 s" using assms by (auto simp: step_ok_def)
  have "yields (step_ok cf N rt) (if rqstate s = QRunning then execute cf wd before after s else return s)"
    using ok_execute [OF s] assms(1) by simp
  then show ?thesis
    unfolding execute_runqueue_def
    by (rule yields_and_then) (auto intro: ok_finish)
qed

lemma ok_unskippable_task:
  assumes "run_ok cf N rt d s"
  shows "yields (run_ok cf N rt d) (unskippable_task t s)"
proof -
  have sq: "run_ok cf N rt d (s\<lparr>sqd := q\<rparr>)" if "run_ok cf N rt d s" for s q
    using that by (rule run_ok_view [THEN iffD2, rotated]) (simp add: ok_view_def run_view_def)
  have "run_ok cf N rt d (setbuildable t s)" if "dict_get (rt_of s) t = Inr e" "rt_depends e = []" for e
    using entry_deps [OF assms that(1)] that(2) by (intro run_ok_setbuildable [OF assms]) simp
  then show ?thesis
    unfolding unskippable_task_def Let_def using assms by (auto intro!: yields_intro sq)
qed

lemma ok_unskippable_loop: "run_ok cf N rt d s \<Longrightarrow> yields (run_ok cf N rt d) (unskippable_loop n s)"
proof (induction n arbitrary: s)
  case (Suc n)
  then show ?case
    by (auto simp: Let_def intro!: yields_and_then_same yields_for_each ok_unskippable_task)
qed simp

lemma ok_build_scenequeue_data:
  assumes "run_ok cf N rt d s"
  shows "yields (run_ok cf N rt d) (build_scenequeue_data cf wd s)"
proof -
  have sq: "run_ok cf N rt d (s\<lparr>sqd := q\<rparr>)" "run_ok cf N rt d (s\<lparr>sqd := q, sq_buildable := b\<rparr>)"
    "run_ok cf N rt d (s\<lparr>sqd := q, sq_deferred := df\<rparr>)"
    if "run_ok cf N rt d s" for s q b df
    by (rule run_ok_view [THEN iffD2, rotated, OF that], simp add: ok_view_def run_view_def)+
  have mark: "yields (run_ok cf N rt d) (mark_unskippable s)"
    unfolding mark_unskippable_def Let_def
    by (intro yields_and_then_same ok_unskippable_loop yields_return ok_intro sq assms)
  have graph: "yields (run_ok cf N rt d) (sq_graph cf b s)" if "run_ok cf N rt d s" for b s
    unfolding sq_graph_def Let_def using that by (auto intro!: yields_intro sq simp: case_prod_unfold)
  show ?thesis
    unfolding build_scenequeue_data_def
    by (auto intro!: yields_and_then_same yields_on_result mark graph ok_intro sq split: option.split)
qed

lemma ok_start_execution:
  assumes "run_ok cf N rt 0 s" and "distinct (dict_keys rt)"
  shows "yields (run_ok cf N rt 0) (start_execution cf wd s)"
  unfolding start_execution_def
proof (rule yields_and_then [OF ok_build_scenequeue_data [OF assms(1)]], rule yields_return)
  fix s assume s: "run_ok cf N rt 0 s"
  have "dict_keys (rt_of s) = dict_keys rt"
    using s graph_of_keys [of "rt_of s"] graph_of_keys [of rt] by (simp add: run_ok_def)
  then have d: "distinct (dict_keys (rt_of s))" using assms(2) by simp
  let ?step = "\<lambda>(tid, e) s. let s = (if rt_depends e = [] then setbuildable tid s else s)
      in s\<lparr>tasks_notcovered := set_add tid (tasks_notcovered s)\<rparr>"
  have "run_ok cf N rt 0 (fold ?step (rt_of s) s)"
  proof (rule fold_invariant' [where P = "run_ok cf N rt 0", OF s])
    fix x s' assume x: "x \<in> set (rt_of s)" and s': "run_ok cf N rt 0 s'"
    obtain t e where te: "x = (t, e)" by (cases x)
    have "map_of (rt_of s) t = Some e" using x d by (simp add: te)
    then have deps: "deps_of rt t = rt_depends e"
      using s graph_eq_deps [of "rt_of s" rt t] by (simp add: run_ok_def deps_of_mem)
    have b: "run_ok cf N rt 0 (setbuildable t s')" if "rt_depends e = []"
      using that by (intro run_ok_setbuildable [OF s']) (simp add: deps)
    show "run_ok cf N rt 0 (?step x s')"
      using b s' by (auto simp: te Let_def intro!: run_ok_other)
  qed
  then show "run_ok cf N rt 0 (if setscene_tids_of s \<noteq> [] then s else (fold ?step (rt_of s) s)\<lparr>sqdone := True\<rparr>)"
    using s by (auto intro: run_ok_other)
qed

text \<open>
  The states of a build that starts in \<open>s0\<close>: after the start, and after each round of
  \<open>_execute_runqueue\<close> that does not raise. What the outside answers, and what the workers
  report, may be different in each round.
\<close>

inductive reach :: "exec_config \<Rightarrow> rqexec \<Rightarrow> rqexec \<Rightarrow> bool" for cf :: exec_config and s0 :: rqexec where
  begun: "start_execution cf wd s0 = Some (None, s) \<Longrightarrow> reach cf s0 s"
| round: "reach cf s0 s \<Longrightarrow> rqstate s = QRunning \<or> rqstate s = QCleanUp \<Longrightarrow>
    execute_runqueue cf wd before after final s = Some (None, s') \<Longrightarrow> reach cf s0 s'"

text \<open>A queue that \<open>RunQueueExecute.__init__\<close> has set up, on a graph without duplicate tasks.\<close>

definition fresh_queue :: "rqdata \<Rightarrow> int \<Rightarrow> rqexec \<Rightarrow> bool" where
  "fresh_queue rq N s0 \<longleftrightarrow> distinct (dict_keys (runtaskentries rq)) \<and>
     (\<exists>limits sc. new_rqexec rq N limits (Some sc) = Inr s0 \<and> buildable sc = [])"

lemma fresh_queue_ok:
  assumes "fresh_queue rq N s0"
  shows "run_ok cf N (runtaskentries rq) 0 s0"
proof -
  obtain limits sc where n: "new_rqexec rq N limits (Some sc) = Inr s0" and b: "buildable sc = []"
    using assms by (auto simp: fresh_queue_def)
  have f: "number_tasks s0 = N" "0 < N" "runq_buildable s0 = []" "runq_running s0 = []" "runq_complete s0 = []" "sq_live s0 = []"
    "worker_in s0 = []" "worker_out s0 = []" "rqstate s0 = QRunning" "sched s0 = sc" "rqd s0 = rq"
    "stats s0 = new_stats (int (length (runtaskentries rq))) (int (length (runq_setscene_tids rq)))"
    using n by (auto simp: new_rqexec_def split: if_splits)
  have "sent_tasks c s0 = []" "exit_codes s0 = []" for c by (simp_all add: sent_tasks_def exit_codes_def f)
  with b f show ?thesis
    by (simp add: run_ok_def ready_ok_def sent_ok_def count_ok_def outstanding_def busy_count_def new_stats_def)
qed

lemma reach_ok:
  assumes "fresh_queue rq N s0" and "reach cf s0 s"
  shows "step_ok cf N (runtaskentries rq) s"
  using assms(2)
proof induction
  case (begun wd s)
  have "yields (run_ok cf N (runtaskentries rq) 0) (start_execution cf wd s0)"
    using assms(1) fresh_queue_ok [OF assms(1)] by (intro ok_start_execution) (auto simp: fresh_queue_def)
  then show ?case using begun by (auto dest: yields_D)
next
  case (round s wd before after final s')
  show ?case by (rule yields_D [OF ok_execute_runqueue [OF round.IH round.hyps(2)] round.hyps(3)])
qed

subsection \<open>A build of two tasks\<close>

definition fetch_tid :: tid where "fetch_tid = ''a.bb:do_fetch''"
definition compile_tid :: tid where "compile_tid = ''a.bb:do_compile''"

definition two_graph :: rtentries where
  "two_graph = [(fetch_tid, new_rte\<lparr>rt_revdeps := [compile_tid]\<rparr>), (compile_tid, new_rte\<lparr>rt_depends := [fetch_tid]\<rparr>)]"

definition two_queue :: rqdata where
  "two_queue = \<lparr>runtaskentries = two_graph, runq_setscene_tids = [], target_tids = [compile_tid]\<rparr>"

definition two_cache :: data_cache where
  "two_cache = new_cache\<lparr>task_deps_of := [(''a.bb'', \<lparr>td_tasks = [''do_fetch'', ''do_compile''], td_parents = [], td_flags = []\<rparr>)],
     pkg_fn := [(''a.bb'', ''a'')], fn_provides := [(''a.bb'', [''a''])]\<rparr>"

definition two_config :: exec_config where
  "two_config = \<lparr>xc_caches = [([], two_cache)], xc_taskdata = [([], new_taskdata True False)],
     xc_force = False, xc_skipsetscene = False, xc_setsceneonly = False, xc_dry_run = False, xc_enforce = False,
     xc_ignore = None, xc_nthreads = (\<lambda>t. None), xc_stampfile = (\<lambda>t mc fn noextra. fn @ [colon] @ t)\<rparr>"

definition no_stamps :: world where
  "no_stamps = \<lparr>wd_mtime = (\<lambda>made f. None), wd_validate = None, wd_depvalid = None, wd_taskhash = (\<lambda>t deps. t),
     wd_unihash = (\<lambda>t. t), wd_pressure = False, wd_spawns = (\<lambda>mc. True)\<rparr>"

definition two_start :: "rqexec result" where
  "two_start = bindE (speed_init Inr two_graph []) (\<lambda>sc. new_rqexec two_queue 4 [] (Some sc))"

definition two_run :: "rqexec run" where
  "two_run = (case two_start of Inl e \<Rightarrow> None | Inr s0 \<Rightarrow>
     and_then (start_execution two_config no_stamps s0) (\<lambda>s.
     and_then (execute_runqueue two_config no_stamps [] [] [] s) (\<lambda>s.
       execute_runqueue two_config no_stamps [ExitCode fetch_tid 0] [] [] s)))"

definition two_done :: "rqexec run" where
  "two_done = and_then two_run (execute_runqueue two_config no_stamps [ExitCode compile_tid 0] [] [])"

lemma two_start_fresh: "two_start = Inr s0 \<Longrightarrow> fresh_queue two_queue 4 s0"
proof -
  assume "two_start = Inr s0"
  then obtain sc where sc: "speed_init Inr two_graph [] = Inr sc" "new_rqexec two_queue 4 [] (Some sc) = Inr s0"
    by (auto simp: two_start_def bindE_Inr_iff)
  have "case speed_init Inr two_graph [] of Inr sc \<Rightarrow> buildable sc = [] | Inl e \<Rightarrow> False"
    by code_simp
  with sc have "buildable sc = []" by simp
  moreover have "distinct (dict_keys (runtaskentries two_queue))" by code_simp
  ultimately show ?thesis using sc(2) by (auto simp: fresh_queue_def)
qed

lemma two_run_reach:
  assumes "two_run = Some (None, s)"
  shows "\<exists>s0. fresh_queue two_queue 4 s0 \<and> reach two_config s0 s"
proof -
  obtain s0 s1 s2 where s0: "two_start = Inr s0" and s1: "start_execution two_config no_stamps s0 = Some (None, s1)"
    and s2: "execute_runqueue two_config no_stamps [] [] [] s1 = Some (None, s2)"
    and s: "execute_runqueue two_config no_stamps [ExitCode fetch_tid 0] [] [] s2 = Some (None, s)"
    using assms by (auto simp: two_run_def and_then_None_iff split: sum.splits)
  have "case two_start of Inl e \<Rightarrow> False | Inr s0 \<Rightarrow> (case start_execution two_config no_stamps s0 of
      Some (None, s1) \<Rightarrow> rqstate s1 = QRunning \<and> (case execute_runqueue two_config no_stamps [] [] [] s1 of
        Some (None, s2) \<Rightarrow> rqstate s2 = QRunning | _ \<Rightarrow> False) | _ \<Rightarrow> False)"
    by code_simp
  then have "rqstate s1 = QRunning \<and> rqstate s2 = QRunning"
    by (simp only: s0 s1 s2 sum.case option.case prod.case)
  then have "reach two_config s0 s" by (blast intro: reach.intros s1 s2 s)
  with two_start_fresh [OF s0] show ?thesis by blast
qed

lemma two_done_reach:
  assumes "two_done = Some (None, s)"
  shows "\<exists>s0. fresh_queue two_queue 4 s0 \<and> reach two_config s0 s"
proof -
  obtain s1 where s1: "two_run = Some (None, s1)"
    and s: "execute_runqueue two_config no_stamps [ExitCode compile_tid 0] [] [] s1 = Some (None, s)"
    using assms unfolding two_done_def and_then_None_iff by (elim exE conjE) (rule that)
  have "case two_run of Some (None, s1) \<Rightarrow> rqstate s1 = QRunning | _ \<Rightarrow> False"
    by code_simp
  then have "rqstate s1 = QRunning"
    by (simp only: s1 option.case prod.case)
  then show ?thesis using two_run_reach [OF s1] by (blast intro: reach.intros s)
qed

lemma two_sent: "case two_run of Some (None, s) \<Rightarrow> compile_tid \<in> set (sent_tasks False s) \<and> fetch_tid \<in> set (sent_tasks False s) | _ \<Rightarrow> False"
  by code_simp

lemma two_complete: "case two_done of Some (None, s) \<Rightarrow> rqstate s = QComplete | _ \<Rightarrow> False"
  by code_simp

subsection \<open>Properties\<close>

text \<open>
  Property C1. A task is sent to a worker only when every task it depends on is complete, and
  those of them that were sent to a worker themselves have reported success. This holds in
  every reachable state, whatever the stamps, the hash functions and the workers answer.
\<close>

theorem task_sent_after_dependencies:
  assumes "fresh_queue rq N s0" and "reach cf s0 s"
    and "t \<in> set (sent_tasks False s)" and "d \<in> set (deps_of (runtaskentries rq) t)"
  shows "d \<in> set (runq_complete s) \<and> (d \<in> set (sent_tasks False s) \<longrightarrow> ExitCode d 0 \<in> set (worker_out s))"
proof -
  obtain k where s: "run_ok cf N (runtaskentries rq) k s"
    using reach_ok [OF assms(1,2)] by (auto simp: step_ok_def)
  have "t \<in> set (runq_buildable s)"
    using s assms(3) by (auto simp: run_ok_def ready_ok_def sent_ok_def)
  with buildable_ready [OF s] assms(4) have "d \<in> set (runq_complete s)" by blast
  with s show ?thesis by (auto simp: run_ok_def sent_ok_def)
qed

theorem task_sent_after_dependencies_witness:
  "\<exists>s. two_run = Some (None, s) \<and> fetch_tid \<in> set (runq_complete s) \<and> ExitCode fetch_tid 0 \<in> set (worker_out s)"
proof -
  obtain s where s: "two_run = Some (None, s)" and sent: "compile_tid \<in> set (sent_tasks False s)" "fetch_tid \<in> set (sent_tasks False s)"
    using two_sent by (auto split: option.splits)
  obtain s0 where "fresh_queue two_queue 4 s0" "reach two_config s0 s" using two_run_reach [OF s] by blast
  from task_sent_after_dependencies [OF this sent(1), of fetch_tid] sent(2) s show ?thesis
    by (auto simp: two_queue_def two_graph_def deps_of_def new_rte_def fetch_tid_def compile_tid_def)
qed





end
