(* ===== verification/StateRuns.thy ===== *)
theory StateRuns
  imports Prelude
begin

text \<open>
  Code that returns a value, changes a state and may raise: a computation takes the state
  and gives the exception or the value with the state it leaves, or \<^const>\<open>None\<close> when the
  fuel of its model ran out. An exception keeps the changes made before it.
\<close>

type_synonym ('s, 'a) comp = "'s \<Rightarrow> ((py_error + 'a) \<times> 's) option"

subsection \<open>Building blocks\<close>

definition ret :: "'a \<Rightarrow> ('s, 'a) comp" where
  "ret x s = Some (Inr x, s)"

definition throw :: "py_error \<Rightarrow> ('s, 'a) comp" where
  "throw e s = Some (Inl e, s)"

definition no_fuel :: "('s, 'a) comp" where
  "no_fuel s = None"

definition seq :: "('s, 'a) comp \<Rightarrow> ('a \<Rightarrow> ('s, 'b) comp) \<Rightarrow> ('s, 'b) comp" where
  "seq m f s =
     (case m s of
        None \<Rightarrow> None
      | Some (Inl e, s') \<Rightarrow> Some (Inl e, s')
      | Some (Inr x, s') \<Rightarrow> f x s')"

definition catch :: "('s, 'a) comp \<Rightarrow> (py_error \<Rightarrow> ('s, 'a) comp) \<Rightarrow> ('s, 'a) comp" where
  "catch m h s =
     (case m s of
        None \<Rightarrow> None
      | Some (Inl e, s') \<Rightarrow> h e s'
      | Some (Inr x, s') \<Rightarrow> Some (Inr x, s'))"

definition reading :: "('s \<Rightarrow> ('s, 'a) comp) \<Rightarrow> ('s, 'a) comp" where
  "reading f s = f s s"

definition change :: "('s \<Rightarrow> 's) \<Rightarrow> ('s, unit) comp" where
  "change f s = Some (Inr (), f s)"

definition of_result :: "'a result \<Rightarrow> ('s, 'a) comp" where
  "of_result r s = Some (r, s)"

definition only_if :: "bool \<Rightarrow> ('s, unit) comp \<Rightarrow> ('s, unit) comp" where
  "only_if b m = (if b then m else ret ())"

text \<open>A loop over a list that threads a local variable.\<close>

fun loop :: "('x \<Rightarrow> 'a \<Rightarrow> ('s, 'a) comp) \<Rightarrow> 'x list \<Rightarrow> 'a \<Rightarrow> ('s, 'a) comp" where
  "loop f [] a = ret a"
| "loop f (x # xs) a = seq (f x a) (loop f xs)"

lemma comp_simps [simp]:
  "ret x s = Some (Inr x, s)"
  "throw e s = Some (Inl e, s)"
  "no_fuel s = None"
  "reading f s = f s s"
  "change g s = Some (Inr (), g s)"
  "of_result r s = Some (r, s)"
  "only_if True m = m"
  "only_if False m = ret ()"
  by (simp_all add: ret_def throw_def no_fuel_def reading_def change_def of_result_def only_if_def)

lemma seq_simps [simp]:
  "m s = Some (Inr x, s') \<Longrightarrow> seq m f s = f x s'"
  "m s = Some (Inl e, s') \<Longrightarrow> seq m f s = Some (Inl e, s')"
  "m s = None \<Longrightarrow> seq m f s = None"
  by (simp_all add: seq_def)

lemma seq_Inr_iff:
  "seq m f s = Some (Inr y, s'') \<longleftrightarrow> (\<exists>x s'. m s = Some (Inr x, s') \<and> f x s' = Some (Inr y, s''))"
  by (auto simp: seq_def split: option.splits sum.splits)

lemma seq_ret [simp]: "seq (ret x) f = f x"
  by (rule ext) simp

lemma seq_assoc: "seq (seq m f) g = seq m (\<lambda>x. seq (f x) g)"
  by (rule ext) (auto simp: seq_def split: option.splits sum.splits)

subsection \<open>Computations that keep a view of the state\<close>

definition frames :: "('s \<Rightarrow> 'v) \<Rightarrow> ('s, 'a) comp \<Rightarrow> bool" where
  "frames v m \<longleftrightarrow> (\<forall>s r s'. m s = Some (r, s') \<longrightarrow> v s' = v s)"

named_theorems frames_intro \<open>rules for computations that keep a view of the state\<close>

lemma frames_D: "frames v m \<Longrightarrow> m s = Some (r, s') \<Longrightarrow> v s' = v s"
  by (simp add: frames_def)

lemma frames_I: "(\<And>s r s'. m s = Some (r, s') \<Longrightarrow> v s' = v s) \<Longrightarrow> frames v m"
  by (simp add: frames_def)

lemma frames_simple [simp, frames_intro]:
  "frames v (ret x)" "frames v (throw e)" "frames v no_fuel" "frames v (of_result r)"
  by (simp_all add: frames_def)

lemma frames_seq [frames_intro]: "frames v m \<Longrightarrow> (\<And>x. frames v (f x)) \<Longrightarrow> frames v (seq m f)"
  unfolding frames_def seq_def by (fastforce split: option.splits sum.splits)

lemma frames_catch [frames_intro]: "frames v m \<Longrightarrow> (\<And>e. frames v (h e)) \<Longrightarrow> frames v (catch m h)"
  unfolding frames_def catch_def by (fastforce split: option.splits sum.splits)

lemma frames_reading [frames_intro]: "(\<And>s. frames v (f s)) \<Longrightarrow> frames v (reading f)"
  by (simp add: frames_def)

lemma frames_change [frames_intro]: "(\<And>s. v (f s) = v s) \<Longrightarrow> frames v (change f)"
  by (simp add: frames_def)

lemma frames_only_if [frames_intro]: "(b \<Longrightarrow> frames v m) \<Longrightarrow> frames v (only_if b m)"
  by (simp add: only_if_def)

lemma frames_if [frames_intro]: "(b \<Longrightarrow> frames v m) \<Longrightarrow> (\<not> b \<Longrightarrow> frames v n) \<Longrightarrow> frames v (if b then m else n)"
  by simp

lemma frames_loop [frames_intro]:
  "(\<And>x a. frames v (f x a)) \<Longrightarrow> frames v (loop f xs a)"
  by (induction xs arbitrary: a) (auto intro: frames_intro)

text \<open>What a computation establishes when it does not raise, for invariants.\<close>

definition holds :: "('s \<Rightarrow> bool) \<Rightarrow> ('s, 'a) comp \<Rightarrow> bool" where
  "holds P m \<longleftrightarrow> (\<forall>s r s'. P s \<longrightarrow> m s = Some (r, s') \<longrightarrow> P s')"

named_theorems holds_intro \<open>rules for computations that keep an invariant\<close>

lemma holds_D: "holds P m \<Longrightarrow> P s \<Longrightarrow> m s = Some (r, s') \<Longrightarrow> P s'"
  unfolding holds_def by blast

lemma holds_simple [simp, holds_intro]:
  "holds P (ret x)" "holds P (throw e)" "holds P no_fuel" "holds P (of_result r)"
  by (simp_all add: holds_def)

lemma holds_seq [holds_intro]: "holds P m \<Longrightarrow> (\<And>x. holds P (f x)) \<Longrightarrow> holds P (seq m f)"
proof -
  assume m: "holds P m" and f: "\<And>x. holds P (f x)"
  have "P s''" if "P s" and run: "seq m f s = Some (r, s'')" for s r s''
  proof (cases "m s")
    case (Some q)
    then obtain x s' where q: "m s = Some (x, s')" by (cases q) auto
    then have "P s'" by (rule holds_D [OF m that(1)])
    with q run show ?thesis by (cases x) (auto intro: holds_D [OF f])
  qed (use run in simp)
  then show ?thesis by (auto simp: holds_def)
qed

lemma holds_catch [holds_intro]: "holds P m \<Longrightarrow> (\<And>e. holds P (h e)) \<Longrightarrow> holds P (catch m h)"
proof -
  assume m: "holds P m" and h: "\<And>e. holds P (h e)"
  have "P s''" if "P s" and run: "catch m h s = Some (r, s'')" for s r s''
  proof (cases "m s")
    case (Some q)
    then obtain x s' where q: "m s = Some (x, s')" by (cases q) auto
    then have "P s'" by (rule holds_D [OF m that(1)])
    with q run show ?thesis by (cases x) (auto simp: catch_def intro: holds_D [OF h])
  qed (use run in \<open>simp add: catch_def\<close>)
  then show ?thesis by (auto simp: holds_def)
qed

lemma holds_reading [holds_intro]: "(\<And>s. holds P (f s)) \<Longrightarrow> holds P (reading f)"
  by (simp add: holds_def)

lemma holds_change [holds_intro]: "(\<And>s. P s \<Longrightarrow> P (f s)) \<Longrightarrow> holds P (change f)"
  by (simp add: holds_def)

lemma holds_only_if [holds_intro]: "(b \<Longrightarrow> holds P m) \<Longrightarrow> holds P (only_if b m)"
  by (simp add: only_if_def)

lemma holds_if [holds_intro]: "(b \<Longrightarrow> holds P m) \<Longrightarrow> (\<not> b \<Longrightarrow> holds P n) \<Longrightarrow> holds P (if b then m else n)"
  by simp

lemma holds_loop [holds_intro]: "(\<And>x a. holds P (f x a)) \<Longrightarrow> holds P (loop f xs a)"
  by (induction xs arbitrary: a) (auto intro: holds_intro)

lemma frames_holds: "frames v m \<Longrightarrow> holds (\<lambda>s. P (v s)) m"
  unfolding frames_def holds_def by metis

lemma frames_cases [frames_intro]:
  "frames v a \<Longrightarrow> (\<And>x. frames v (f x)) \<Longrightarrow> frames v (case y of None \<Rightarrow> a | Some x \<Rightarrow> f x)"
  "(\<And>x. frames v (g x)) \<Longrightarrow> (\<And>x. frames v (h x)) \<Longrightarrow> frames v (case_sum g h z)"
  "(\<And>x y. frames v (k x y)) \<Longrightarrow> frames v (case_prod k p)"
  "frames v (l x) \<Longrightarrow> frames v (Let x l)"
  by (auto split: option.split sum.split prod.split)

lemma holds_cases [holds_intro]:
  "holds P a \<Longrightarrow> (\<And>x. holds P (f x)) \<Longrightarrow> holds P (case y of None \<Rightarrow> a | Some x \<Rightarrow> f x)"
  "(\<And>x. holds P (g x)) \<Longrightarrow> (\<And>x. holds P (h x)) \<Longrightarrow> holds P (case_sum g h z)"
  "(\<And>x y. holds P (k x y)) \<Longrightarrow> holds P (case_prod k p)"
  "holds P (l x) \<Longrightarrow> holds P (Let x l)"
  by (auto split: option.split sum.split prod.split)

text \<open>
  Partial correctness with the value: from a state with \<open>P\<close>, a run that does not raise ends
  in a state with \<open>Q\<close>.
\<close>

definition triple :: "('s \<Rightarrow> bool) \<Rightarrow> ('s, 'a) comp \<Rightarrow> ('s \<Rightarrow> bool) \<Rightarrow> bool" where
  "triple P m Q \<longleftrightarrow> (\<forall>s x s'. P s \<longrightarrow> m s = Some (Inr x, s') \<longrightarrow> Q s')"

lemma triple_D: "triple P m Q \<Longrightarrow> P s \<Longrightarrow> m s = Some (Inr x, s') \<Longrightarrow> Q s'"
  unfolding triple_def by blast

lemma triple_seq: "triple P m R \<Longrightarrow> (\<And>x. triple R (f x) Q) \<Longrightarrow> triple P (seq m f) Q"
  unfolding triple_def by (auto simp: seq_Inr_iff)

lemma triple_ret: "(\<And>s. P s \<Longrightarrow> Q s) \<Longrightarrow> triple P (ret x) Q"
  by (simp add: triple_def)

lemma triple_change: "(\<And>s. P s \<Longrightarrow> Q (f s)) \<Longrightarrow> triple P (change f) Q"
  by (simp add: triple_def)

lemma triple_throw [simp]: "triple P (throw e) Q"
  by (simp add: triple_def)

lemma triple_only_if:
  "(b \<Longrightarrow> triple P m Q) \<Longrightarrow> (\<And>s. \<not> b \<Longrightarrow> P s \<Longrightarrow> Q s) \<Longrightarrow> triple P (only_if b m) Q"
  by (cases b) (auto intro: triple_ret)

lemma triple_reading: "(\<And>s. triple (\<lambda>t. t = s \<and> P s) (f s) Q) \<Longrightarrow> triple P (reading f) Q"
  unfolding triple_def by auto

lemma triple_pre: "triple P m Q \<Longrightarrow> (\<And>s. P' s \<Longrightarrow> P s) \<Longrightarrow> triple P' m Q"
  unfolding triple_def by blast

lemma triple_frames: "frames v m \<Longrightarrow> (\<And>s s'. v s' = v s \<Longrightarrow> P s \<Longrightarrow> P s') \<Longrightarrow> triple P m P"
  unfolding triple_def frames_def by blast

lemma triple_True: "(\<And>s. Q s) \<Longrightarrow> triple P m Q"
  unfolding triple_def by blast

text \<open>
  The same with the value that is returned: from a state with \<open>P\<close>, a run that returns \<open>x\<close> ends
  in a state with \<open>Q x\<close>.
\<close>

definition gives :: "('s \<Rightarrow> bool) \<Rightarrow> ('s, 'a) comp \<Rightarrow> ('a \<Rightarrow> 's \<Rightarrow> bool) \<Rightarrow> bool" where
  "gives P m Q \<longleftrightarrow> (\<forall>s x s'. P s \<longrightarrow> m s = Some (Inr x, s') \<longrightarrow> Q x s')"

named_theorems gives_intro \<open>rules for what a computation returns and leaves\<close>

lemma gives_I: "(\<And>s x s'. P s \<Longrightarrow> m s = Some (Inr x, s') \<Longrightarrow> Q x s') \<Longrightarrow> gives P m Q"
  by (simp add: gives_def)

lemma gives_D: "gives P m Q \<Longrightarrow> P s \<Longrightarrow> m s = Some (Inr x, s') \<Longrightarrow> Q x s'"
  unfolding gives_def by blast

lemma gives_seq: "gives P m R \<Longrightarrow> (\<And>x. gives (R x) (f x) Q) \<Longrightarrow> gives P (seq m f) Q"
  unfolding gives_def seq_Inr_iff by blast

lemma gives_simple [gives_intro]:
  "(\<And>s. P s \<Longrightarrow> Q x s) \<Longrightarrow> gives P (ret x) Q"
  "gives P (throw e) Q"
  "gives P no_fuel Q"
  "(\<And>s y. P s \<Longrightarrow> r = Inr y \<Longrightarrow> Q y s) \<Longrightarrow> gives P (of_result r) Q"
  by (simp_all add: gives_def)

lemma gives_change [gives_intro]: "(\<And>s. P s \<Longrightarrow> Q () (g s)) \<Longrightarrow> gives P (change g) Q"
  by (simp add: gives_def)

lemma gives_pre: "gives P m Q \<Longrightarrow> (\<And>s. P' s \<Longrightarrow> P s) \<Longrightarrow> gives P' m Q"
  unfolding gives_def by blast

lemma gives_post: "gives P m R \<Longrightarrow> (\<And>x s. R x s \<Longrightarrow> Q x s) \<Longrightarrow> gives P m Q"
  unfolding gives_def by blast

lemma gives_reading: "(\<And>s0. P s0 \<Longrightarrow> gives (\<lambda>s. s = s0) (f s0) Q) \<Longrightarrow> gives P (reading f) Q"
  unfolding gives_def by auto

lemma gives_frames: "frames v m \<Longrightarrow> (\<And>s s'. v s' = v s \<Longrightarrow> P s \<Longrightarrow> P s') \<Longrightarrow> gives P m (\<lambda>x. P)"
  unfolding gives_def frames_def by blast

text \<open>A loop with an invariant on the elements it has seen.\<close>

lemma gives_loop:
  assumes "\<And>ys x zs a. xs = ys @ x # zs \<Longrightarrow> gives (I ys a) (f x a) (I (ys @ [x]))"
  shows "gives (I [] a) (loop f xs a) (I xs)"
proof -
  have "xs = ys @ zs \<Longrightarrow> gives (I ys a) (loop f zs a) (I xs)" for ys zs a
  proof (induction zs arbitrary: ys a)
    case Nil
    then show ?case by (simp add: gives_def)
  next
    case (Cons z zs)
    have "gives (I ys a) (f z a) (I (ys @ [z]))"
      using Cons.prems by (rule assms)
    moreover have "gives (I (ys @ [z]) b) (loop f zs b) (I xs)" for b
      using Cons.prems by (intro Cons.IH) simp
    ultimately show ?case by (simp del: comp_simps) (rule gives_seq)
  qed
  from this [of "[]" xs a] show ?thesis by simp
qed

end
