(* ===== verification/DataStore.thy ===== *)
theory DataStore
  imports PyStr StateRuns
begin

text \<open>
  The variable store of \<open>bb.data_smart.DataSmart\<close>: its values, its layers (a copy of a store
  keeps the original as a parent that is read but not written), the patterns it matches
  variable names and values with, and the bookkeeping of override names.

  Variable history is off (\<open>_tracking\<close> is false, as the class creates it), so \<open>record\<close> does
  nothing and is left out. A Python set in a variable is a value here: the sharing of the set
  \<open>__exportlist\<close> between a store and its copies is not modelled.
\<close>

named_theorems store_simps \<open>the fields of a store after an update\<close>

subsection \<open>More methods of strings\<close>

text \<open>\<open>p in s\<close> and \<open>s.replace(p, q)\<close> with \<open>p\<close> not empty.\<close>

fun str_in :: "string \<Rightarrow> string \<Rightarrow> bool" where
  "str_in p [] = (p = [])"
| "str_in p (c # s) = (startswith (c # s) p \<or> str_in p s)"

fun replace_skip :: "string \<Rightarrow> string \<Rightarrow> nat \<Rightarrow> string \<Rightarrow> string" where
  "replace_skip p q k [] = []"
| "replace_skip p q (Suc k) (c # s) = replace_skip p q k s"
| "replace_skip p q 0 (c # s) =
     (if startswith (c # s) p then q @ replace_skip p q (length p - 1) s
      else c # replace_skip p q 0 s)"

definition replace_all :: "string \<Rightarrow> string \<Rightarrow> string \<Rightarrow> string" where
  "replace_all p q s = replace_skip p q 0 s"

definition lower_char :: "char \<Rightarrow> bool" where
  "lower_char c \<longleftrightarrow> (let n = (of_char c :: nat) in
     (97 \<le> n \<and> n \<le> 122) \<or> n = 170 \<or> n = 181 \<or> n = 186 \<or> (223 \<le> n \<and> n \<le> 255 \<and> n \<noteq> 247))"

definition upper_char :: "char \<Rightarrow> bool" where
  "upper_char c \<longleftrightarrow> (let n = (of_char c :: nat) in (65 \<le> n \<and> n \<le> 90) \<or> (192 \<le> n \<and> n \<le> 222 \<and> n \<noteq> 215))"

text \<open>\<open>s.islower()\<close>.\<close>

definition islower :: "string \<Rightarrow> bool" where
  "islower s \<longleftrightarrow> list_ex lower_char s \<and> \<not> list_ex upper_char s"

text \<open>
  \<open>s[s.rfind(':')+1:]\<close> and \<open>s[:s.rfind(':')]\<close>. Without a colon \<open>rfind\<close> is -1, and the second
  slice is the string less its last character.
\<close>

definition after_colon :: "string \<Rightarrow> string" where
  "after_colon s = rev (takeWhile (\<lambda>c. c \<noteq> CHR '':'') (rev s))"

definition before_colon :: "string \<Rightarrow> string" where
  "before_colon s =
     (if CHR '':'' \<in> set s then rev (drop 1 (dropWhile (\<lambda>c. c \<noteq> CHR '':'') (rev s))) else butlast s)"

lemma colon_split:
  assumes "CHR '':'' \<notin> set b"
  shows "after_colon (a @ CHR '':'' # b) = b" and "before_colon (a @ CHR '':'' # b) = a"
proof -
  have r: "rev (a @ CHR '':'' # b) = rev b @ CHR '':'' # rev a" by simp
  have t: "takeWhile (\<lambda>c. c \<noteq> CHR '':'') (rev b @ CHR '':'' # rev a) = rev b"
    using assms by (simp add: takeWhile_append)
  have d: "dropWhile (\<lambda>c. c \<noteq> CHR '':'') (rev b @ CHR '':'' # rev a) = CHR '':'' # rev a"
    using assms by (simp add: dropWhile_append)
  show "after_colon (a @ CHR '':'' # b) = b"
    unfolding after_colon_def r t by (rule rev_rev_ident)
  have m: "CHR '':'' \<in> set (a @ CHR '':'' # b)" by simp
  show "before_colon (a @ CHR '':'' # b) = a"
    unfolding before_colon_def r d if_P [OF m] by (simp only: One_nat_def drop_Suc_Cons drop_0 rev_rev_ident)
qed

lemma before_after_colon:
  "CHR '':'' \<in> set s \<Longrightarrow> s = before_colon s @ CHR '':'' # after_colon s"
  by (drule split_list_last) (auto simp: colon_split)

lemma after_colon_none [simp]: "CHR '':'' \<notin> set s \<Longrightarrow> after_colon s = s"
proof -
  assume "CHR '':'' \<notin> set s"
  then have "takeWhile (\<lambda>c. c \<noteq> CHR '':'') (rev s) = rev s"
    by (intro takeWhile_eq_all_conv [THEN iffD2]) auto
  then show ?thesis by (simp only: after_colon_def rev_rev_ident)
qed

lemma length_before_colon: "s \<noteq> [] \<Longrightarrow> length (before_colon s) < length s"
proof (cases "CHR '':'' \<in> set s")
  case True
  have "length s = length (before_colon s @ CHR '':'' # after_colon s)"
    using before_after_colon [OF True] by simp
  then show ?thesis by simp
next
  case False
  moreover assume "s \<noteq> []"
  ultimately show ?thesis by (cases s rule: rev_cases) (simp_all add: before_colon_def)
qed

subsection \<open>Values and stores\<close>

text \<open>
  What a flag of a variable holds: a string, a Boolean (which stands for the numbers 0 and 1
  too), the pending operations of \<open>:append\<close>, \<open>:prepend\<close> and \<open>:remove\<close> as pairs of a value and
  an override, a set of names, a list of names or a dictionary.
\<close>

datatype dval =
    Text string
  | Truth bool
  | Ops "(dval \<times> string option) list"
  | Names "string list"
  | Listing "string list"
  | Table "(string \<times> dval) list"

type_synonym flags = "(string, dval) dict"
type_synonym layer = "(string, flags) dict"

record data_store =
  local_vars :: layer
  parents :: "layer list"
  overridedata :: "(string, (string \<times> string) list) dict"
  overrides :: "string list option"
  overridesset :: "string list option"
  overridevars :: "string list"
  inoverride :: bool
  expand_cache :: "(string, dval option) dict"
  var_renames :: "(string, dval) dict"

definition bitbake_renamed_vars :: "(string, dval) dict" where
  "bitbake_renamed_vars = [
     (''BB_ENV_WHITELIST'', Text ''BB_ENV_PASSTHROUGH''),
     (''BB_ENV_EXTRAWHITE'', Text ''BB_ENV_PASSTHROUGH_ADDITIONS''),
     (''BB_HASHBASE_WHITELIST'', Text ''BB_BASEHASH_IGNORE_VARS''),
     (''BB_HASHCONFIG_WHITELIST'', Text ''BB_HASHCONFIG_IGNORE_VARS''),
     (''BB_HASHTASK_WHITELIST'', Text ''BB_TASKHASH_IGNORE_TASKS''),
     (''BB_SETSCENE_ENFORCE_WHITELIST'', Text ''BB_SETSCENE_ENFORCE_IGNORE_TASKS''),
     (''MULTI_PROVIDER_WHITELIST'', Text ''BB_MULTI_PROVIDER_ALLOWED''),
     (''BB_STAMP_WHITELIST'', Text ''is a deprecated variable and support has been removed''),
     (''BB_STAMP_POLICY'', Text ''is a deprecated variable and support has been removed'')]"

definition new_store :: data_store where
  "new_store = \<lparr> local_vars = [], parents = [], overridedata = [], overrides = None,
     overridesset = None, overridevars = [''OVERRIDES'', ''FILE''], inoverride = False,
     expand_cache = [], var_renames = bitbake_renamed_vars \<rparr>"

text \<open>\<open>createCopy\<close>.\<close>

definition createCopy :: "data_store \<Rightarrow> data_store" where
  "createCopy s = new_store \<lparr> parents := local_vars s # parents s,
     overridevars := overridevars s, overridedata := overridedata s, var_renames := var_renames s \<rparr>"

fun truthy :: "dval \<Rightarrow> bool" where
  "truthy (Text t) = (t \<noteq> [])"
| "truthy (Truth b) = b"
| "truthy (Ops l) = (l \<noteq> [])"
| "truthy (Names l) = (l \<noteq> [])"
| "truthy (Listing l) = (l \<noteq> [])"
| "truthy (Table l) = (l \<noteq> [])"

text \<open>\<open>a + b\<close>.\<close>

fun py_add :: "dval \<Rightarrow> dval \<Rightarrow> dval result" where
  "py_add (Text a) (Text b) = Inr (Text (a @ b))"
| "py_add (Ops a) (Ops b) = Inr (Ops (a @ b))"
| "py_add (Listing a) (Listing b) = Inr (Listing (a @ b))"
| "py_add _ _ = Inl TypeError"

text \<open>
  The pairs \<open>for (r, o) in v\<close> goes through. A string is a pair when it has two characters.
\<close>

fun unpack_names :: "string list \<Rightarrow> (dval \<times> string option) list result" where
  "unpack_names [] = Inr []"
| "unpack_names ([a, b] # l) = bindE (unpack_names l) (\<lambda>ps. Inr ((Text [a], Some [b]) # ps))"
| "unpack_names (w # l) = Inl ValueError"

fun pairs_of :: "dval \<Rightarrow> (dval \<times> string option) list result" where
  "pairs_of (Ops l) = Inr l"
| "pairs_of (Text t) = (if t = [] then Inr [] else Inl ValueError)"
| "pairs_of (Truth b) = Inl TypeError"
| "pairs_of (Names l) = unpack_names l"
| "pairs_of (Listing l) = unpack_names l"
| "pairs_of (Table l) = unpack_names (map fst l)"

text \<open>The names \<open>for x in v\<close> goes through, and \<open>name in v\<close>.\<close>

definition name_list :: "dval option \<Rightarrow> string list result" where
  "name_list v =
     (case v of
        Some (Names l) \<Rightarrow> Inr l
      | Some (Listing l) \<Rightarrow> Inr l
      | Some (Table l) \<Rightarrow> Inr (map fst l)
      | Some (Text t) \<Rightarrow> Inr (map (\<lambda>c. [c]) t)
      | _ \<Rightarrow> Inl TypeError)"

fun name_in :: "string \<Rightarrow> dval option \<Rightarrow> bool result" where
  "name_in w (Some (Text t)) = Inr (str_in w t)"
| "name_in w (Some (Names l)) = Inr (w \<in> set l)"
| "name_in w (Some (Listing l)) = Inr (w \<in> set l)"
| "name_in w (Some (Table l)) = Inr (w \<in> set (dict_keys l))"
| "name_in w (Some (Ops l)) = Inr False"
| "name_in w _ = Inl TypeError"

subsection \<open>Looking variables up\<close>

fun find_layer :: "string \<Rightarrow> layer list \<Rightarrow> flags option" where
  "find_layer var [] = None"
| "find_layer var (l # ls) =
     (case map_of l var of Some fl \<Rightarrow> Some fl | None \<Rightarrow> find_layer var ls)"

definition findVar :: "data_store \<Rightarrow> string \<Rightarrow> flags option \<times> (string \<times> string) list option" where
  "findVar s var = (find_layer var (local_vars s # parents s), map_of (overridedata s) var)"

definition hasOverrides :: "data_store \<Rightarrow> string \<Rightarrow> bool" where
  "hasOverrides s var \<longleftrightarrow> var \<in> set (dict_keys (overridedata s))"

definition initVar :: "string \<Rightarrow> data_store \<Rightarrow> data_store" where
  "initVar var s = (let s1 = s \<lparr> expand_cache := [] \<rparr> in
     if var \<in> set (dict_keys (local_vars s1)) then s1
     else s1 \<lparr> local_vars := dict_set var [] (local_vars s1) \<rparr>)"

definition makeShadowCopy :: "string \<Rightarrow> data_store \<Rightarrow> data_store" where
  "makeShadowCopy var s =
     (if var \<in> set (dict_keys (local_vars s)) then s
      else case fst (findVar s var) of
             None \<Rightarrow> initVar var s
           | Some [] \<Rightarrow> initVar var s
           | Some fl \<Rightarrow> s \<lparr> local_vars := dict_set var fl (local_vars s) \<rparr>)"

text \<open>\<open>self.dict[var]\<close>, \<open>self.dict[var][flag] = value\<close> and \<open>del self.dict[var][flag]\<close>.\<close>

definition var_flags :: "data_store \<Rightarrow> string \<Rightarrow> flags" where
  "var_flags s var = dict_get_or [] (local_vars s) var"

definition put_flag :: "string \<Rightarrow> string \<Rightarrow> dval \<Rightarrow> data_store \<Rightarrow> data_store" where
  "put_flag var flag v s = s \<lparr> local_vars := dict_set var (dict_set flag v (var_flags s var)) (local_vars s) \<rparr>"

definition del_flag :: "string \<Rightarrow> string \<Rightarrow> data_store \<Rightarrow> data_store" where
  "del_flag var flag s = s \<lparr> local_vars := dict_set var (dict_del flag (var_flags s var)) (local_vars s) \<rparr>"

text \<open>The same with \<open>if not var in self.dict: self._makeShadowCopy(var)\<close> before it.\<close>

definition shadow_put :: "string \<Rightarrow> string \<Rightarrow> dval \<Rightarrow> data_store \<Rightarrow> data_store" where
  "shadow_put var flag v s = put_flag var flag v (makeShadowCopy var s)"

subsection \<open>Variable names with an operation\<close>

text \<open>
  \<open>__setvar_regexp__\<close>: the shortest base, a keyword and the override after it, which has no
  upper case letter. The pattern's \<open>$\<close> also accepts a newline at the end.
\<close>

definition setvar_keywords :: "string list" where
  "setvar_keywords = ['':append'', '':prepend'', '':remove'']"

definition ascii_upper :: "char \<Rightarrow> bool" where
  "ascii_upper c \<longleftrightarrow> 65 \<le> (of_char c :: nat) \<and> (of_char c :: nat) \<le> 90"

definition setvar_tail :: "string \<Rightarrow> string option option" where
  "setvar_tail t =
     (case t of
        [] \<Rightarrow> Some None
      | c # add \<Rightarrow>
          if c = CHR '':'' \<and> \<not> list_ex ascii_upper add then Some (Some add)
          else if t = [newline] then Some None
          else None)"

definition keyword_at :: "string \<Rightarrow> (string \<times> string option) option" where
  "keyword_at s =
     (case find (startswith s) setvar_keywords of
        None \<Rightarrow> None
      | Some k \<Rightarrow> map_option (Pair k) (setvar_tail (drop (length k) s)))"

fun setvar_match_from :: "string \<Rightarrow> string \<Rightarrow> (string \<times> string \<times> string option) option" where
  "setvar_match_from base s =
     (case keyword_at s of
        Some (k, add) \<Rightarrow> Some (base, k, add)
      | None \<Rightarrow>
          (case s of
             [] \<Rightarrow> None
           | c # t \<Rightarrow> if c = newline then None else setvar_match_from (base @ [c]) t))"

definition setvar_match :: "string \<Rightarrow> (string \<times> string \<times> string option) option" where
  "setvar_match var = setvar_match_from [] var"

subsection \<open>Which overrides a variable has\<close>

text \<open>\<open>__override_regexp__.match(override)\<close> looks at the first character only.\<close>

fun override_start :: "string \<Rightarrow> bool" where
  "override_start [] = False"
| "override_start (c # t) = ((97 \<le> (of_char c :: nat) \<and> (of_char c :: nat) \<le> 122) \<or> is_digit c)"

definition add_override :: "string \<Rightarrow> string \<times> string \<Rightarrow> (string, (string \<times> string) list) dict
    \<Rightarrow> (string, (string \<times> string) list) dict" where
  "add_override short entry od =
     (let od1 = (if short \<in> set (dict_keys od) then od else dict_set short [] od);
          es = dict_get_or [] od1 short
      in if entry \<in> set es then od1 else dict_set short (es @ [entry]) od1)"

function register_loop :: "string \<Rightarrow> string \<Rightarrow> string \<Rightarrow> (string, (string \<times> string) list) dict
    \<Rightarrow> (string, (string \<times> string) list) dict" where
  "register_loop var override short od =
     (if \<not> override_start override then od
      else let od1 = add_override short (var, override) od in
        if CHR '':'' \<notin> set short then od1
        else let i = length (before_colon short) in
          if take i var = [] then od1
          else register_loop var (drop (i + 1) var) (take i var) od1)"
  by auto
termination
proof (relation "measure (\<lambda>(var, override, short, od). length short)", goal_cases)
  case (2 var override short od od1 i)
  then have "short \<noteq> []" by auto
  with 2 length_before_colon [of short] show ?case by simp
qed simp

definition setvar_update_overrides :: "string \<Rightarrow> data_store \<Rightarrow> data_store" where
  "setvar_update_overrides var s =
     s \<lparr> overridedata := register_loop var (after_colon var) (before_colon var) (overridedata s) \<rparr>"

definition drop_override :: "string \<Rightarrow> string \<times> string \<Rightarrow> (string, (string \<times> string) list) dict
    \<Rightarrow> (string, (string \<times> string) list) dict" where
  "drop_override short entry od =
     (case map_of od short of None \<Rightarrow> od | Some es \<Rightarrow> dict_set short (remove1 entry es) od)"

function unregister_loop :: "string \<Rightarrow> string \<Rightarrow> string \<Rightarrow> (string, (string \<times> string) list) dict
    \<Rightarrow> (string, (string \<times> string) list) dict" where
  "unregister_loop var override short od =
     (if override = [] \<or> \<not> islower override then od
      else let od1 = drop_override short (var, override) od in
        if CHR '':'' \<notin> set short then od1
        else let i = length (before_colon short) in
          if take i var = [] then od1
          else unregister_loop var (drop (i + 1) var) (take i var) od1)"
  by auto
termination
proof (relation "measure (\<lambda>(var, override, short, od). length short)", goal_cases)
  case (2 var override short od od1 i)
  then have "short \<noteq> []" by auto
  with 2 length_before_colon [of short] show ?case by simp
qed simp

declare register_loop.simps [simp del] unregister_loop.simps [simp del]

text \<open>\<open>delVar\<close> reads nothing but the store's own tables.\<close>

definition delVar :: "string \<Rightarrow> data_store \<Rightarrow> data_store" where
  "delVar var s =
     (let s1 = s \<lparr> expand_cache := [], local_vars := dict_set var [] (local_vars s),
                    overridedata := dict_del var (overridedata s) \<rparr>
      in if CHR '':'' \<in> set var
         then s1 \<lparr> overridedata := unregister_loop var (after_colon var) (before_colon var) (overridedata s1) \<rparr>
         else s1)"

subsection \<open>Choosing between overrides\<close>

text \<open>
  An entry applies when its override is active, or all the parts of one with colons are. The
  loops of \<open>getVarFlag\<close> then take the active overrides in order: one that ends a key with
  several parts is cut off it, one that is a key gives the match. A key that is visited was in
  the dictionary when the loop over its copy began, and only its own visit deletes it.
\<close>

definition override_applies :: "string list \<Rightarrow> string \<Rightarrow> bool" where
  "override_applies os o' \<longleftrightarrow>
     o' \<in> set os \<or> (CHR '':'' \<in> set o' \<and> set (split_on CHR '':'' o') \<subseteq> set os)"

definition active_overrides :: "string list \<Rightarrow> (string \<times> string) list \<Rightarrow> (string, string) dict" where
  "active_overrides os es = fold (\<lambda>(r, o') act. if override_applies os o' then dict_set o' r act else act) es []"

type_synonym choice = "(string, string) dict \<times> bool \<times> string option"

definition visit_key :: "string \<Rightarrow> string \<Rightarrow> choice \<Rightarrow> choice" where
  "visit_key o' a = (\<lambda>(act, changed, found).
     case map_of act a of
       None \<Rightarrow> (act, changed, found)
     | Some t \<Rightarrow>
         if endswith a (CHR '':'' # o') then
           (dict_set (replace_all (CHR '':'' # o') [] a) t (dict_del a act), True, found)
         else if a = o' then (dict_del a act, changed, Some t)
         else (act, changed, found))"

definition visit_override :: "string \<Rightarrow> choice \<Rightarrow> choice" where
  "visit_override o' = (\<lambda>(act, changed, found). fold (visit_key o') (dict_keys act) (act, changed, found))"

definition override_round :: "string list \<Rightarrow> (string, string) dict \<Rightarrow> string option \<Rightarrow> choice" where
  "override_round os act found = fold visit_override os (act, False, found)"

definition key_size :: "(string, string) dict \<Rightarrow> nat" where
  "key_size act = sum_list (map length (dict_keys act))"

lemma length_replace_skip_le: "length (replace_skip p [] k s) \<le> length s"
proof (induction s arbitrary: k)
  case (Cons c s)
  then show ?case by (cases k) (auto intro: le_SucI)
qed simp

lemma replace_skip_shorter:
  "str_in p s \<Longrightarrow> p \<noteq> [] \<Longrightarrow> length (replace_skip p [] 0 s) < length s"
  by (induction s) (use length_replace_skip_le in \<open>auto simp: le_imp_less_Suc\<close>)

lemma str_in_append: "str_in p (t @ p)"
proof (induction t)
  case Nil
  then show ?case by (cases p) (auto simp: startswith_iff)
qed simp

lemma replace_all_shorter:
  "p \<noteq> [] \<Longrightarrow> endswith s p \<Longrightarrow> length (replace_all p [] s) < length s"
  unfolding replace_all_def by (auto simp: endswith_iff intro!: replace_skip_shorter str_in_append)

lemma key_size_del: "map_of act a = Some t \<Longrightarrow> key_size (dict_del a act) + length a \<le> key_size act"
proof (induction act)
  case (Cons x act)
  have le: "key_size (dict_del a act) \<le> key_size act"
    by (induction act) (auto simp: key_size_def)
  from Cons le show ?case by (cases x) (auto simp: key_size_def split: if_splits)
qed simp

lemma key_size_set: "key_size (dict_set k v act) \<le> key_size act + length k"
  by (induction act) (auto simp: key_size_def)

lemma visit_key_size:
  assumes "visit_key o' a (act, changed, found) = (act', changed', found')"
    and "key_size act \<le> n" and "changed \<Longrightarrow> key_size act < n"
  shows "key_size act' \<le> n \<and> (changed' \<longrightarrow> key_size act' < n)"
proof (cases "map_of act a")
  case (Some t)
  note d = key_size_del [OF Some]
  let ?k = "replace_all (CHR '':'' # o') [] a"
  show ?thesis
  proof (cases "endswith a (CHR '':'' # o')")
    case True
    have "key_size (dict_set ?k t (dict_del a act)) < key_size act"
      using key_size_set [of ?k t "dict_del a act"] replace_all_shorter [OF _ True] d by simp
    with True Some assms show ?thesis by (auto simp: visit_key_def)
  next
    case False
    with Some assms d show ?thesis by (auto simp: visit_key_def split: if_splits)
  qed
qed (use assms in \<open>auto simp: visit_key_def\<close>)

lemma override_round_size:
  assumes "override_round os act found = (act', True, found')"
  shows "key_size act' < key_size act"
proof -
  define P :: "choice \<Rightarrow> bool" where
    "P c \<longleftrightarrow> key_size (fst c) \<le> key_size act \<and> (fst (snd c) \<longrightarrow> key_size (fst c) < key_size act)" for c
  have k: "P (visit_key o' a c)" if "P c" for o' a c
    using visit_key_size [of o' a "fst c" "fst (snd c)" "snd (snd c)"] that
    by (cases c; cases "visit_key o' a c") (auto simp: P_def)
  have "visit_override o' c = fold (visit_key o') (dict_keys (fst c)) c" for o' c
    by (cases c) (simp add: visit_override_def)
  then have o: "P (visit_override o' c)" if "P c" for o' c
    using that by (simp only:) (intro fold_invariant' [where P = P] k)
  have "P (act, False, found)" by (simp add: P_def)
  then have "P (override_round os act found)"
    unfolding override_round_def by (rule fold_invariant' [where P = P]) (rule o)
  with assms show ?thesis by (simp add: P_def)
qed

function choose_override :: "string list \<Rightarrow> (string, string) dict \<Rightarrow> string option \<Rightarrow> string option" where
  "choose_override os act found =
     (case override_round os act found of
        (act', changed, found') \<Rightarrow> if changed then choose_override os act' found' else found')"
  by auto
termination
proof (relation "measure (\<lambda>(os, act, found). key_size act)", goal_cases)
  case 2
  then show ?case by (auto dest!: sym [of "(_, _, _)"] override_round_size)
qed simp

declare choose_override.simps [simp del]

end
