(* ===== verification/DataRead.thy ===== *)
theory DataRead
  imports DataStore
begin

text \<open>
  Reading the variable store: \<open>VariableParse\<close>, \<open>expandWithRefs\<close>, \<open>need_overrides\<close> and
  \<open>getVarFlag\<close>. Reading is not pure: it fills the cache of expanded values and works the
  active overrides out when they are not known.

  These methods call each other through \<open>getVarFlag\<close>, which may go on for ever when variables
  refer to each other in a cycle (Python ends it at its recursion limit). Each is defined over
  the \<open>getVarFlag\<close> it calls, and \<open>getVarFlag E n\<close> ties the knot with \<open>n\<close> levels of calls; a loop
  of \<open>expandWithRefs\<close> at level \<open>n\<close> has \<open>n\<close> turns.

  What an inline Python expression \<open>${@...}\<close> does is a parameter: \<open>compile\<close> gives a syntax error
  or the run of the expression, which reads variables and ends with the text of its value or an
  exception, and \<open>scan_code\<close> is what \<open>bb.codeparser.PythonParser\<close> finds in the expression: the
  variables read, the functions called and the items tested for.
\<close>

datatype pyexp =
    Result string
  | Raise py_error
  | Name string "dval option \<Rightarrow> pyexp"
  | Get string bool "dval option \<Rightarrow> pyexp"

type_synonym contains_map = "(string, string list) dict"

record python =
  compile_code :: "string \<Rightarrow> string + pyexp"
  scan_code :: "string \<Rightarrow> string list \<times> string list \<times> contains_map"

record vparse =
  pvalue :: "dval option"
  references :: "string list"
  execs :: "string list"
  contains_items :: contains_map
  removes :: "dval list option"

definition new_vparse :: "dval option \<Rightarrow> vparse" where
  "new_vparse v = \<lparr> pvalue = v, references = [], execs = [], contains_items = [], removes = None \<rparr>"

text \<open>
  A call of \<open>getVarFlag(var, flag, expand, noweakdefault, parsing, retparser)\<close> gives the value
  and the parser, which is \<^const>\<open>None\<close> when there is none or it is not asked for.
\<close>

type_synonym 'a data = "(data_store, 'a) comp"
type_synonym getter = "string \<Rightarrow> string \<Rightarrow> bool \<Rightarrow> bool \<Rightarrow> bool \<Rightarrow> bool \<Rightarrow> (dval option \<times> vparse option) data"

subsection \<open>Patterns in values\<close>

text \<open>\<open>__expand_var_regexp__\<close> at the beginning of a string.\<close>

definition key_char :: "char \<Rightarrow> bool" where
  "key_char c \<longleftrightarrow> is_letter c \<or> is_digit c \<or> c \<in> set ''-_+./~:''"

definition match_var :: "string \<Rightarrow> string option" where
  "match_var s =
     (if startswith s ''${'' then
        let key = takeWhile key_char (drop 2 s) in
        if key \<noteq> [] \<and> startswith (drop (2 + length key) s) ''}'' then Some (''${'' @ key @ ''}'') else None
      else None)"

text \<open>
  \<open>__expand_python_regexp__\<close> after its \<open>${@\<close>: as few items as possible, at least one, before a
  closing brace. An item is a group \<open>{...}\<close> of any length, the shortest first, or one
  character that is not a newline.
\<close>

fun py_item :: "string \<Rightarrow> string option" and py_more :: "string \<Rightarrow> string option"
  and py_group :: "string \<Rightarrow> string option" where
  "py_item [] = None"
| "py_item (c # s) =
     (case (if c = CHR ''{'' then py_group s else None) of
        Some r \<Rightarrow> Some (c # r)
      | None \<Rightarrow> if c = newline then None else map_option (Cons c) (py_more s))"
| "py_more [] = None"
| "py_more (c # s) = (if c = CHR ''}'' then Some [c] else py_item (c # s))"
| "py_group [] = None"
| "py_group (c # s) =
     (case (if c = CHR ''}'' then py_more s else None) of
        Some r \<Rightarrow> Some (c # r)
      | None \<Rightarrow> if c = newline then None else map_option (Cons c) (py_group s))"

definition match_py :: "string \<Rightarrow> string option" where
  "match_py s = (if startswith s ''${@'' then map_option (\<lambda>r. ''${@'' @ r) (py_item (drop 3 s)) else None)"

text \<open>The matches of a pattern from the left, with the characters between them.\<close>

datatype piece = Plain char | Hit string

fun pieces :: "(string \<Rightarrow> string option) \<Rightarrow> nat \<Rightarrow> string \<Rightarrow> piece list" where
  "pieces m k [] = []"
| "pieces m (Suc k) (c # s) = pieces m k s"
| "pieces m 0 (c # s) =
     (case m (c # s) of
        Some t \<Rightarrow> Hit t # pieces m (length t - 1) s
      | None \<Rightarrow> Plain c # pieces m 0 s)"

definition has_match :: "(string \<Rightarrow> string option) \<Rightarrow> string \<Rightarrow> bool" where
  "has_match m s \<longleftrightarrow> list_ex (\<lambda>p. case p of Hit t \<Rightarrow> True | Plain c \<Rightarrow> False) (pieces m 0 s)"

text \<open>\<open>re.sub\<close> puts the strings together at the end: another value is a type error there.\<close>

fun join_values :: "dval list \<Rightarrow> string result" where
  "join_values [] = Inr []"
| "join_values (Text t # vs) = bindE (join_values vs) (\<lambda>s. Inr (t @ s))"
| "join_values (v # vs) = Inl TypeError"

text \<open>\<open>re.split(r'(\s)')\<close>: the strings between single white space characters, and these.\<close>

fun whitespace_split :: "string \<Rightarrow> string list" where
  "whitespace_split [] = [[]]"
| "whitespace_split (c # s) =
     (if py_isspace c then [] # [c] # whitespace_split s
      else case whitespace_split s of [] \<Rightarrow> [[c]] | w # ws \<Rightarrow> (c # w) # ws)"

subsection \<open>Reading through a getter\<close>

definition get_content :: "getter \<Rightarrow> string \<Rightarrow> bool \<Rightarrow> dval option data" where
  "get_content gv var expand = seq (gv var ''_content'' expand False False False) (\<lambda>(v, p). ret v)"

definition get_flag :: "getter \<Rightarrow> string \<Rightarrow> string \<Rightarrow> bool \<Rightarrow> dval option data" where
  "get_flag gv var flag expand = seq (gv var flag expand False False False) (\<lambda>(v, p). ret v)"

text \<open>\<open>DataContext.__missing__\<close>: \<^const>\<open>None\<close> is \<open>KeyError\<close>.\<close>

definition context_missing :: "getter \<Rightarrow> string \<Rightarrow> dval option data" where
  "context_missing gv key =
     (if key \<in> set [''bb'', ''oe'', ''int'', ''bool'', ''time'', ''str'', ''os''] then ret None
      else seq (get_content gv key True) (\<lambda>value.
        case value of
          None \<Rightarrow> ret None
        | Some v \<Rightarrow> seq (get_flag gv key ''func'' False) (\<lambda>func.
            ret (if (case func of None \<Rightarrow> False | Some f \<Rightarrow> truthy f) then None else Some v))))"

primrec run_code :: "getter \<Rightarrow> pyexp \<Rightarrow> string data" where
  "run_code gv (Result t) = ret t"
| "run_code gv (Raise e) = throw e"
| "run_code gv (Name key f) = seq (context_missing gv key) (\<lambda>v. run_code gv (f v))"
| "run_code gv (Get var expand f) = seq (get_content gv var expand) (\<lambda>v. run_code gv (f v))"

text \<open>
  \<open>VariableParse.var_sub\<close> and \<open>python_sub\<close>. A name that is \<^const>\<open>None\<close> in the code is the empty
  string here; the code only asks whether it is true.
\<close>

definition var_sub :: "getter \<Rightarrow> string \<Rightarrow> string \<Rightarrow> vparse \<Rightarrow> (dval \<times> vparse) data" where
  "var_sub gv varname match p =
     (let key = butlast (drop 2 match) in
      if varname \<noteq> [] \<and> key \<noteq> [] \<and> varname = key then throw (SelfReference key)
      else seq (get_content gv key True) (\<lambda>var.
        ret (case var of None \<Rightarrow> Text match | Some v \<Rightarrow> v, p \<lparr> references := set_add key (references p) \<rparr>)))"

definition merge_contains :: "contains_map \<Rightarrow> contains_map \<Rightarrow> contains_map" where
  "merge_contains new old = fold (\<lambda>(k, items) m. dict_set k (set_union (dict_get_or [] m k) items) m) new old"

definition note_code :: "string list \<times> string list \<times> contains_map \<Rightarrow> vparse \<Rightarrow> vparse" where
  "note_code = (\<lambda>(refs, calls, tests) p. p \<lparr> references := set_union (references p) refs,
     execs := set_union (execs p) calls, contains_items := merge_contains tests (contains_items p) \<rparr>)"

text \<open>A syntax error is given back as a value: \<open>expandWithRefs\<close> goes on with what was noted so far.\<close>

definition python_sub :: "python \<Rightarrow> getter \<Rightarrow> string \<Rightarrow> string \<Rightarrow> vparse \<Rightarrow> ((string + string) \<times> vparse) data" where
  "python_sub E gv varname match p =
     (let code = butlast (drop 3 match) in
      if has_match match_var code then ret (Inr (''${@'' @ code @ ''}''), p)
      else case compile_code E (strip_ws code) of
        Inl msg \<Rightarrow> ret (Inl msg, p)
      | Inr e \<Rightarrow>
          seq (if varname \<noteq> [] then seq (get_flag gv varname ''vardeps'' True) (\<lambda>_. ret ()) else ret ()) (\<lambda>_.
          let p1 = note_code (scan_code E code) p in
          catch (seq (run_code gv e) (\<lambda>t. ret (Inr t, p1)))
            (\<lambda>err. case err of SyntaxError msg \<Rightarrow> ret (Inl msg, p1) | _ \<Rightarrow> throw err)))"

fun sub_vars :: "getter \<Rightarrow> string \<Rightarrow> piece list \<Rightarrow> vparse \<Rightarrow> (dval list \<times> vparse) data" where
  "sub_vars gv varname [] p = ret ([], p)"
| "sub_vars gv varname (Plain c # ps) p =
     seq (sub_vars gv varname ps p) (\<lambda>(vs, p'). ret (Text [c] # vs, p'))"
| "sub_vars gv varname (Hit t # ps) p =
     seq (var_sub gv varname t p) (\<lambda>(v, p1).
     seq (sub_vars gv varname ps p1) (\<lambda>(vs, p'). ret (v # vs, p')))"

fun sub_code :: "python \<Rightarrow> getter \<Rightarrow> string \<Rightarrow> piece list \<Rightarrow> vparse \<Rightarrow> ((string + string) \<times> vparse) data" where
  "sub_code E gv varname [] p = ret (Inr [], p)"
| "sub_code E gv varname (Plain c # ps) p =
     seq (sub_code E gv varname ps p) (\<lambda>(r, p'). ret (map_sum id (Cons c) r, p'))"
| "sub_code E gv varname (Hit t # ps) p =
     seq (python_sub E gv varname t p) (\<lambda>(r, p1).
       case r of
         Inl msg \<Rightarrow> ret (Inl msg, p1)
       | Inr u \<Rightarrow> seq (sub_code E gv varname ps p1) (\<lambda>(r', p'). ret (map_sum id (append u) r', p')))"

subsection \<open>Expansion\<close>

text \<open>The handlers of \<open>expandWithRefs\<close>: an expansion error collects the names on its way.\<close>

definition expansion_failure :: "string \<Rightarrow> string \<Rightarrow> py_error \<Rightarrow> py_error" where
  "expansion_failure varname s e =
     (case e of
        ExpansionError names \<Rightarrow> ExpansionError (if varname \<noteq> [] then names @ [varname] else names)
      | SkipRecipe \<Rightarrow> e
      | Fatal \<Rightarrow> e
      | _ \<Rightarrow> ExpansionError [if varname \<noteq> [] then varname else s])"

definition unterminated :: "string \<Rightarrow> bool" where
  "unterminated msg \<longleftrightarrow> msg = ''EOL while scanning string literal''
     \<or> startswith msg ''unterminated string literal''"

definition sub_vars_in :: "getter \<Rightarrow> string \<Rightarrow> string \<Rightarrow> vparse \<Rightarrow> (string \<times> vparse) data" where
  "sub_vars_in gv varname s p =
     catch (seq (sub_vars gv varname (pieces match_var 0 s) p) (\<lambda>(vs, p').
            seq (of_result (join_values vs)) (\<lambda>t. ret (t, p'))))
       (\<lambda>e. throw (expansion_failure varname s e))"

definition sub_code_in :: "python \<Rightarrow> getter \<Rightarrow> string \<Rightarrow> string \<Rightarrow> vparse \<Rightarrow> (string \<times> vparse) data" where
  "sub_code_in E gv varname s p =
     catch (seq (sub_code E gv varname (pieces match_py 0 s) p) (\<lambda>(r, p').
            case r of
              Inr t \<Rightarrow> ret (t, p')
            | Inl msg \<Rightarrow> if unterminated msg then ret (s, p') else throw (SyntaxError msg)))
       (\<lambda>e. throw (expansion_failure varname s e))"

primrec expand_loop :: "python \<Rightarrow> getter \<Rightarrow> string \<Rightarrow> nat \<Rightarrow> string \<Rightarrow> vparse \<Rightarrow> (string \<times> vparse) data" where
  "expand_loop E gv varname 0 s p = no_fuel"
| "expand_loop E gv varname (Suc k) s p =
     (if \<not> str_in ''${'' s then ret (s, p)
      else seq (sub_vars_in gv varname s p) (\<lambda>(s1, p1).
           seq (sub_code_in E gv varname s1 p1) (\<lambda>(s2, p2).
             if s2 = s then ret (s2, p2) else expand_loop E gv varname k s2 p2)))"

definition expandWithRefs :: "python \<Rightarrow> nat \<Rightarrow> getter \<Rightarrow> dval option \<Rightarrow> string \<Rightarrow> vparse data" where
  "expandWithRefs E k gv value varname =
     (case value of
        Some (Text s) \<Rightarrow>
          seq (expand_loop E gv varname k s (new_vparse None)) (\<lambda>(t, p). ret (p \<lparr> pvalue := Some (Text t) \<rparr>))
      | v \<Rightarrow> ret (new_vparse v))"

definition expand_value :: "python \<Rightarrow> nat \<Rightarrow> getter \<Rightarrow> dval option \<Rightarrow> string \<Rightarrow> dval option data" where
  "expand_value E k gv value varname = seq (expandWithRefs E k gv value varname) (\<lambda>p. ret (pvalue p))"

subsection \<open>The active overrides\<close>

text \<open>\<open>(self.getVar("OVERRIDES") or "").split(":")\<close>.\<close>

definition read_overrides :: "getter \<Rightarrow> string list data" where
  "read_overrides gv =
     seq (get_content gv ''OVERRIDES'' True) (\<lambda>v.
       case v of
         None \<Rightarrow> ret [[]]
       | Some (Text t) \<Rightarrow> ret (split_on CHR '':'' t)
       | Some w \<Rightarrow> if truthy w then throw AttributeError else ret [[]])"

definition set_overrides :: "string list \<Rightarrow> data_store \<Rightarrow> data_store" where
  "set_overrides os s = s \<lparr> overrides := Some os, overridesset := Some (remdups os) \<rparr>"

primrec stabilise_overrides :: "getter \<Rightarrow> nat \<Rightarrow> unit data" where
  "stabilise_overrides gv 0 = throw Fatal"
| "stabilise_overrides gv (Suc n) =
     seq (change (\<lambda>s. set_overrides [] (s \<lparr> inoverride := True \<rparr>))) (\<lambda>_.
     seq (read_overrides gv) (\<lambda>os.
     seq (change (\<lambda>s. (set_overrides os s) \<lparr> inoverride := False, expand_cache := [] \<rparr>)) (\<lambda>_.
     seq (read_overrides gv) (\<lambda>newoverrides.
       if newoverrides = os then ret ()
       else seq (change (set_overrides newoverrides)) (\<lambda>_. stabilise_overrides gv n)))))"

definition need_overrides :: "getter \<Rightarrow> unit data" where
  "need_overrides gv = reading (\<lambda>s.
     if overrides s \<noteq> None then ret ()
     else if inoverride s then ret ()
     else stabilise_overrides gv 5)"

definition current_overrides :: "string list data" where
  "current_overrides = reading (\<lambda>s. case overrides s of None \<Rightarrow> throw TypeError | Some os \<Rightarrow> ret os)"

definition current_overridesset :: "string list data" where
  "current_overridesset = reading (\<lambda>s. case overridesset s of None \<Rightarrow> throw AttributeError | Some os \<Rightarrow> ret os)"

subsection \<open>Reading a flag\<close>

text \<open>The name of the overriding variable, if one applies.\<close>

definition find_override :: "getter \<Rightarrow> (string \<times> string) list \<Rightarrow> string option data" where
  "find_override gv es =
     seq (need_overrides gv) (\<lambda>_.
     seq (if es = [] then ret [] else seq current_overridesset (\<lambda>os. ret (active_overrides os es))) (\<lambda>act.
     seq current_overrides (\<lambda>os.
       ret (case choose_override os act None of Some r \<Rightarrow> (if r = [] then None else Some r) | None \<Rightarrow> None))))"

text \<open>Whether an operation with override \<open>o\<close> applies.\<close>

definition op_applies :: "string option \<Rightarrow> bool data" where
  "op_applies ov =
     (case ov of
        None \<Rightarrow> ret True
      | Some o' \<Rightarrow> if o' = [] then ret True
          else seq current_overrides (\<lambda>os. ret (set (split_on CHR '':'' o') \<subseteq> set os)))"

definition fold_ops :: "(dval \<Rightarrow> 'a \<Rightarrow> 'a data) \<Rightarrow> (dval \<times> string option) list \<Rightarrow> 'a \<Rightarrow> 'a data" where
  "fold_ops f = loop (\<lambda>(r, ov) a. seq (op_applies ov) (\<lambda>m. if m then f r a else ret a))"

definition empty_or :: "dval option \<Rightarrow> dval" where
  "empty_or v = (case v of None \<Rightarrow> Text [] | Some w \<Rightarrow> w)"

definition append_op :: "dval \<Rightarrow> dval option \<Rightarrow> dval option data" where
  "append_op r v = seq (of_result (py_add (empty_or v) r)) (\<lambda>w. ret (Some w))"

definition prepend_op :: "dval \<Rightarrow> dval option \<Rightarrow> dval option data" where
  "prepend_op r v = seq (of_result (py_add r (empty_or v))) (\<lambda>w. ret (Some w))"

definition remove_op :: "dval \<Rightarrow> dval list \<Rightarrow> dval list data" where
  "remove_op r rs = (case r of Text _ \<Rightarrow> ret (set_add r rs) | Truth _ \<Rightarrow> ret (set_add r rs) | _ \<Rightarrow> throw TypeError)"

definition pending :: "getter \<Rightarrow> string \<Rightarrow> flags option \<Rightarrow> bool \<Rightarrow> (dval \<Rightarrow> 'a \<Rightarrow> 'a data) \<Rightarrow> 'a \<Rightarrow> 'a data" where
  "pending gv kw local_var skip f a =
     (case local_var of
        None \<Rightarrow> ret a
      | Some fl \<Rightarrow>
          (case map_of fl kw of
             None \<Rightarrow> ret a
           | Some ops \<Rightarrow>
               if skip then ret a
               else seq (need_overrides gv) (\<lambda>_. seq (of_result (pairs_of ops)) (\<lambda>l. fold_ops f l a))))"

text \<open>\<open>self.expand(r).split()\<close> for each removed value.\<close>

definition expand_removes :: "python \<Rightarrow> nat \<Rightarrow> getter \<Rightarrow> dval list \<Rightarrow> (dval \<times> string list) list data" where
  "expand_removes E k gv rs =
     loop (\<lambda>r acc. seq (expand_value E k gv (Some r) []) (\<lambda>v.
        case v of Some (Text t) \<Rightarrow> ret (acc @ [(r, split_ws t)]) | _ \<Rightarrow> throw AttributeError)) rs []"

definition removed_by :: "(dval \<times> string list) list \<Rightarrow> string \<Rightarrow> dval list" where
  "removed_by ers w = map fst (filter (\<lambda>(r, ws). w \<in> set ws) ers)"

definition remove_words :: "(dval \<times> string list) list \<Rightarrow> string \<Rightarrow> string" where
  "remove_words ers t = concat (filter (\<lambda>w. removed_by ers w = []) (whitespace_split t))"

definition apply_removes :: "(dval \<times> string list) list \<Rightarrow> vparse \<Rightarrow> vparse data" where
  "apply_removes ers p =
     (case pvalue p of
        Some (Text t) \<Rightarrow>
          ret (p \<lparr> pvalue := Some (Text (remove_words ers t)),
                   removes := Some (remdups (concat (map (removed_by ers) (whitespace_split t)))) \<rparr>)
      | _ \<Rightarrow> throw TypeError)"

definition is_true :: "dval option \<Rightarrow> bool" where
  "is_true v = (case v of None \<Rightarrow> False | Some w \<Rightarrow> truthy w)"

definition override_value :: "getter \<Rightarrow> (string \<times> string) list option \<Rightarrow> (dval option \<times> dval list) data" where
  "override_value gv od =
     (case od of
        None \<Rightarrow> ret (None, [])
      | Some es \<Rightarrow>
          seq (find_override gv es) (\<lambda>match.
            case match of
              None \<Rightarrow> ret (None, [])
            | Some m \<Rightarrow> seq (gv m ''_content'' False False False True) (\<lambda>(value, subparser).
                ret (value, case subparser of
                              None \<Rightarrow> []
                            | Some p \<Rightarrow> (case removes p of None \<Rightarrow> [] | Some rs \<Rightarrow> rs)))))"

definition own_value :: "flags option \<Rightarrow> string \<Rightarrow> bool \<Rightarrow> dval option" where
  "own_value local_var flag noweakdefault =
     (case local_var of
        None \<Rightarrow> None
      | Some fl \<Rightarrow>
          (case map_of fl flag of
             Some v \<Rightarrow> Some v
           | None \<Rightarrow> if flag = ''_content'' \<and> \<not> noweakdefault then map_of fl ''_defaultval'' else None))"

definition cache_name :: "string \<Rightarrow> string \<Rightarrow> string" where
  "cache_name var flag = (if flag = ''_content'' then var else var @ ''['' @ flag @ '']'')"

text \<open>From \<open>if value and flag == "_content" and ":remove" in local_var\<close> to the removal of words.\<close>

definition removal :: "python \<Rightarrow> nat \<Rightarrow> getter \<Rightarrow> flags option \<Rightarrow> bool \<Rightarrow> bool \<Rightarrow> dval list
    \<Rightarrow> dval option \<Rightarrow> vparse option \<Rightarrow> vparse option data" where
  "removal E k gv local_var content parsing rs0 value parser =
     (if \<not> (is_true value \<and> content) then ret parser
      else seq (pending gv '':remove'' local_var parsing remove_op rs0) (\<lambda>rs.
        case parser of
          None \<Rightarrow> ret None
        | Some p \<Rightarrow>
            if parsing \<or> rs = [] then ret parser
            else seq (expand_removes E k gv rs) (\<lambda>ers.
                 seq (apply_removes ers p) (\<lambda>p'. ret (Some p')))))"

definition cache_parser :: "string \<Rightarrow> vparse option \<Rightarrow> unit data" where
  "cache_parser name parser =
     (case parser of
        None \<Rightarrow> ret ()
      | Some p \<Rightarrow> change (\<lambda>s. s \<lparr> expand_cache := dict_set name (pvalue p) (expand_cache s) \<rparr>))"

definition compute_flag :: "python \<Rightarrow> nat \<Rightarrow> getter \<Rightarrow> string \<Rightarrow> string \<Rightarrow> bool \<Rightarrow> bool \<Rightarrow> bool \<Rightarrow> bool
    \<Rightarrow> flags option \<times> (string \<times> string) list option \<Rightarrow> (dval option \<times> vparse option) data" where
  "compute_flag E k gv var flag expand noweakdefault parsing retparser = (\<lambda>(local_var, od).
     let content = (flag = ''_content''); name = cache_name var flag; plain = \<not> content \<or> parsing in
     seq (override_value gv (if plain then None else od)) (\<lambda>(value0, rs0).
     let value1 = (case value0 of Some v \<Rightarrow> Some v | None \<Rightarrow> own_value local_var flag noweakdefault) in
     seq (pending gv '':append'' local_var plain append_op value1) (\<lambda>value2.
     seq (pending gv '':prepend'' local_var plain prepend_op value2) (\<lambda>value3.
     seq (if expand \<or> retparser then seq (expandWithRefs E k gv value3 name) (\<lambda>p. ret (Some p))
          else ret None) (\<lambda>parser.
     let value4 = (case parser of Some p \<Rightarrow> if expand then pvalue p else value3 | None \<Rightarrow> value3) in
     seq (removal E k gv local_var content parsing rs0 value4 parser) (\<lambda>parser'.
     seq (cache_parser name parser') (\<lambda>_.
       ret (case parser' of Some p \<Rightarrow> if expand then pvalue p else value4 | None \<Rightarrow> value4,
            if retparser then parser' else None))))))))"

definition getVarFlag_body :: "python \<Rightarrow> nat \<Rightarrow> getter \<Rightarrow> getter" where
  "getVarFlag_body E k gv var flag expand noweakdefault parsing retparser =
     (if flag = [] then ret (None, None)
      else reading (\<lambda>s.
        case (if expand then map_of (expand_cache s) (cache_name var flag) else None) of
          Some v \<Rightarrow> ret (v, None)
        | None \<Rightarrow> compute_flag E k gv var flag expand noweakdefault parsing retparser (findVar s var)))"

primrec getVarFlag :: "python \<Rightarrow> nat \<Rightarrow> getter" where
  "getVarFlag E 0 = (\<lambda>var flag expand noweakdefault parsing retparser. no_fuel)"
| "getVarFlag E (Suc n) = getVarFlag_body E n (getVarFlag E n)"

definition getVar :: "python \<Rightarrow> nat \<Rightarrow> string \<Rightarrow> bool \<Rightarrow> dval option data" where
  "getVar E n var expand = get_content (getVarFlag E n) var expand"

definition getVarFlags :: "python \<Rightarrow> nat \<Rightarrow> string \<Rightarrow> string list \<Rightarrow> bool \<Rightarrow> flags option data" where
  "getVarFlags E n var expand internalflags = reading (\<lambda>s.
     case fst (findVar s var) of
       None \<Rightarrow> ret None
     | Some fl \<Rightarrow>
         seq (loop (\<lambda>(i, v) acc.
                if (startswith i ''_'' \<or> startswith i '':'') \<and> \<not> internalflags then ret acc
                else if i \<in> set expand then
                  seq (expand_value E n (getVarFlag E n) (Some v) (var @ ''['' @ i @ '']'')) (\<lambda>w.
                    ret (acc @ [(i, empty_or w)]))
                else ret (acc @ [(i, v)])) fl []) (\<lambda>flags.
         ret (if flags = [] then None else Some flags)))"

text \<open>\<open>__getitem__\<close>.\<close>

definition getitem :: "python \<Rightarrow> nat \<Rightarrow> string \<Rightarrow> dval data" where
  "getitem E n item = seq (getVar E n item False) (\<lambda>v. case v of None \<Rightarrow> throw KeyError | Some w \<Rightarrow> ret w)"

text \<open>
  \<open>__iter__\<close>: a key is left out when a layer in front of it has it empty. The names are in the
  order of the layers; in the code they are a set.
\<close>

fun key_list :: "layer list \<Rightarrow> string list \<Rightarrow> string list \<Rightarrow> string list" where
  "key_list [] overridden deleted = []"
| "key_list (l # ls) overridden deleted =
     (let live = filter (\<lambda>k. k \<notin> set deleted \<and> k \<notin> set overridden \<and> dict_get_or [] l k \<noteq> []) (dict_keys l);
          gone = filter (\<lambda>k. dict_get_or [] l k = []) (dict_keys l)
      in set_union live (key_list ls overridden (deleted @ gone)))"

definition iter_keys :: "python \<Rightarrow> nat \<Rightarrow> string list data" where
  "iter_keys E n =
     seq (need_overrides (getVarFlag E n)) (\<lambda>_.
     reading (\<lambda>s.
       if list_ex (\<lambda>(v, es). es \<noteq> []) (overridedata s) \<and> overridesset s = None then throw AttributeError
       else let os = (case overridesset s of None \<Rightarrow> [] | Some l \<Rightarrow> l);
                overridden = map fst (filter (\<lambda>(v, es). list_ex (\<lambda>(r, o'). override_applies os o') es) (overridedata s))
            in ret (key_list (local_vars s # parents s) overridden [] @ overridden)))"

definition store_len :: "python \<Rightarrow> nat \<Rightarrow> nat data" where
  "store_len E n = seq (iter_keys E n) (\<lambda>ks. ret (length (remdups ks)))"

subsection \<open>Reading leaves the variables alone\<close>

type_synonym data_view =
  "layer \<times> layer list \<times> (string, (string \<times> string) list) dict \<times> string list \<times> (string, dval) dict"

definition data_view :: "data_store \<Rightarrow> data_view" where
  "data_view s = (local_vars s, parents s, overridedata s, overridevars s, var_renames s)"

lemma data_view_simps [simp, store_simps]:
  "data_view (s \<lparr> expand_cache := c \<rparr>) = data_view s"
  "data_view (s \<lparr> overrides := os \<rparr>) = data_view s"
  "data_view (s \<lparr> overridesset := ss \<rparr>) = data_view s"
  "data_view (s \<lparr> inoverride := b \<rparr>) = data_view s"
  "data_view (set_overrides l s) = data_view s"
  by (simp_all add: data_view_def set_overrides_def)

lemma frames_iff_holds: "frames v m \<longleftrightarrow> (\<forall>d. holds (\<lambda>s. v s = d) m)"
  unfolding frames_def holds_def by auto

lemma holds_case_dval [holds_intro]:
  "(\<And>t. holds P (f t)) \<Longrightarrow> (\<And>b. holds P (g b)) \<Longrightarrow> (\<And>l. holds P (h l)) \<Longrightarrow> (\<And>l. holds P (k l)) \<Longrightarrow>
   (\<And>l. holds P (i l)) \<Longrightarrow> (\<And>l. holds P (j l)) \<Longrightarrow>
   holds P (case x of Text t \<Rightarrow> f t | Truth b \<Rightarrow> g b | Ops l \<Rightarrow> h l | Names l \<Rightarrow> k l
      | Listing l \<Rightarrow> i l | Table l \<Rightarrow> j l)"
  by (cases x) simp_all

lemma holds_operations [holds_intro]:
  "holds P current_overrides"
  "holds P current_overridesset"
  "holds P (op_applies ov)"
  "holds P (append_op r w)"
  "holds P (prepend_op r w)"
  "holds P (remove_op r rs)"
  "holds P (apply_removes ers p)"
  unfolding current_overrides_def current_overridesset_def op_applies_def append_op_def
    prepend_op_def remove_op_def apply_removes_def
  by (auto simp del: comp_simps intro!: holds_intro)

lemma holds_fold_ops [holds_intro]:
  "(\<And>r a. holds P (f r a)) \<Longrightarrow> holds P (fold_ops f l a)"
  unfolding fold_ops_def by (auto simp del: comp_simps intro!: holds_intro)

text \<open>
  A property of the store that the readers keep: filling the cache and noting the active
  overrides are all they do.
\<close>

locale kept =
  fixes P :: "data_store \<Rightarrow> bool"
  assumes cache_kept: "P s \<Longrightarrow> P (s \<lparr> expand_cache := c \<rparr>)"
    and begin_kept: "P s \<Longrightarrow> P (set_overrides [] (s \<lparr> inoverride := True \<rparr>))"
    and known_kept: "P s \<Longrightarrow> P ((set_overrides os s) \<lparr> inoverride := False, expand_cache := [] \<rparr>)"
    and again_kept: "P s \<Longrightarrow> P (set_overrides os s)"

text \<open>
  What the readers rely on: the getter they call keeps the property. Everything the getter is
  used for then keeps it, and so does the next level of calls.
\<close>

locale reader = kept +
  fixes gv :: getter
  assumes getter_kept: "holds P (gv var flag expand noweakdefault parsing retparser)"
begin

lemma content_kept [holds_intro]: "holds P (get_content gv var expand)"
  and flag_kept [holds_intro]: "holds P (get_flag gv var flag expand)"
  unfolding get_content_def get_flag_def by (auto simp del: comp_simps intro!: holds_intro getter_kept)

lemma missing_kept [holds_intro]: "holds P (context_missing gv key)"
  unfolding context_missing_def by (auto simp del: comp_simps intro!: holds_intro content_kept flag_kept)

lemma code_kept [holds_intro]: "holds P (run_code gv e)"
  by (induction e) (auto simp del: comp_simps intro!: holds_intro missing_kept content_kept)

lemma sub_vars_kept: "holds P (sub_vars gv varname ps p)"
proof (induction ps arbitrary: p)
  case (Cons q ps)
  then show ?case
    by (cases q) (auto simp: var_sub_def simp del: comp_simps intro!: holds_intro content_kept)
qed (simp add: holds_simple del: comp_simps)

lemma python_sub_kept: "holds P (python_sub E gv varname match p)"
  unfolding python_sub_def
  by (auto simp del: comp_simps intro!: holds_intro flag_kept code_kept split: py_error.split)

lemma sub_code_kept: "holds P (sub_code E gv varname ps p)"
proof (induction ps arbitrary: p)
  case (Cons q ps)
  then show ?case
    by (cases q) (auto simp del: comp_simps intro!: holds_intro python_sub_kept)
qed (simp add: holds_simple del: comp_simps)

lemma expand_loop_kept: "holds P (expand_loop E gv varname k s p)"
  by (induction k arbitrary: s p)
    (auto simp: sub_vars_in_def sub_code_in_def simp del: comp_simps intro!: holds_intro sub_vars_kept sub_code_kept)

lemma expand_kept: "holds P (expandWithRefs E k gv value varname)"
  unfolding expandWithRefs_def by (auto simp del: comp_simps intro!: holds_intro expand_loop_kept)

lemma expand_value_kept: "holds P (expand_value E k gv value varname)"
  unfolding expand_value_def by (auto simp del: comp_simps intro!: holds_intro expand_kept)

lemma read_overrides_kept: "holds P (read_overrides gv)"
  unfolding read_overrides_def by (auto simp del: comp_simps intro!: holds_intro content_kept)

lemma stabilise_kept: "holds P (stabilise_overrides gv n)"
  by (induction n)
    (auto simp del: comp_simps intro!: holds_intro read_overrides_kept begin_kept known_kept intro: again_kept)

lemma need_overrides_kept: "holds P (need_overrides gv)"
  unfolding need_overrides_def
  by (auto simp del: stabilise_overrides.simps comp_simps intro!: holds_intro stabilise_kept)

lemma override_kept: "holds P (override_value gv od)"
  unfolding override_value_def find_override_def
  by (auto simp del: comp_simps intro!: holds_intro need_overrides_kept getter_kept)

lemma pending_kept:
  "(\<And>r a. holds P (f r a)) \<Longrightarrow> holds P (pending gv kw local_var skip f a)"
  unfolding pending_def by (auto simp del: comp_simps intro!: holds_intro need_overrides_kept)

lemma removal_kept: "holds P (removal E k gv local_var content parsing rs0 value parser)"
  unfolding removal_def expand_removes_def
  by (auto simp del: comp_simps intro!: holds_intro pending_kept expand_value_kept)

lemma cache_parser_kept: "holds P (cache_parser name q)"
  unfolding cache_parser_def by (auto simp del: comp_simps intro!: holds_intro cache_kept)

lemma next_level_kept: "holds P (getVarFlag_body E k gv var flag expand noweakdefault parsing retparser)"
  unfolding getVarFlag_body_def compute_flag_def
  by (auto simp del: comp_simps
      intro!: holds_intro override_kept pending_kept expand_kept removal_kept cache_parser_kept)

lemma next_level: "reader P (getVarFlag_body E k gv)"
  by unfold_locales (rule next_level_kept)

end

lemma getVarFlag_reader:
  assumes "kept P"
  shows "reader P (getVarFlag E n)"
proof (induction n)
  case 0
  from assms show ?case
    by (intro reader.intro reader_axioms.intro) (simp_all add: holds_simple del: comp_simps)
next
  case (Suc n)
  then show ?case using reader.next_level by simp
qed

text \<open>Reading leaves the variables alone.\<close>

interpretation view_kept: kept "\<lambda>s. data_view s = d" for d
  by unfold_locales simp_all

interpretation view_reader: reader "\<lambda>s. data_view s = d" "getVarFlag E n" for d E n
  by (rule getVarFlag_reader) unfold_locales

lemma frames_readers [frames_intro]:
  "frames data_view (getVarFlag E n var flag expand noweakdefault parsing retparser)"
  "frames data_view (get_content (getVarFlag E n) var expand)"
  "frames data_view (get_flag (getVarFlag E n) var flag expand)"
  "frames data_view (expandWithRefs E k (getVarFlag E n) value varname)"
  "frames data_view (need_overrides (getVarFlag E n))"
  unfolding frames_iff_holds
  by (intro allI view_reader.getter_kept view_reader.content_kept view_reader.flag_kept
      view_reader.expand_kept view_reader.need_overrides_kept)+

end
