(* ===== verification/DataWrite.thy ===== *)
theory DataWrite
  imports DataRead
begin

text \<open>
  Writing the variable store: \<open>setVar\<close>, \<open>setVarFlag\<close>, \<open>renameVar\<close> and the operations built on
  them, with \<open>bb.data.expandKeys\<close>. The number \<open>n\<close> bounds the levels of calls of the readers, as
  in the theory of reading, and the turns of the loop that follows the variables
  \<open>OVERRIDES\<close> depends on.
\<close>

subsection \<open>Renamed and old names\<close>

definition old_syntax :: "string \<Rightarrow> bool" where
  "old_syntax var \<longleftrightarrow> \<not> startswith var ''__anon_''
     \<and> (str_in ''_append'' var \<or> str_in ''_prepend'' var \<or> str_in ''_remove'' var)"

text \<open>\<open>_print_rename_error\<close> looks for a blank in what the table says of the name.\<close>

definition print_rename_error :: "string \<Rightarrow> unit data" where
  "print_rename_error var = reading (\<lambda>s.
     case map_of (var_renames s) var of
       None \<Rightarrow> throw KeyError
     | Some (Truth b) \<Rightarrow> throw TypeError
     | Some _ \<Rightarrow> ret ())"

definition report_renamed :: "unit data \<Rightarrow> string \<Rightarrow> unit data" where
  "report_renamed mark var = reading (\<lambda>s.
     if var \<in> set (dict_keys (var_renames s)) then seq (print_rename_error var) (\<lambda>_. mark) else ret ())"

subsection \<open>The variables the overrides depend on\<close>

definition found_names :: "vparse \<Rightarrow> string list" where
  "found_names p = set_union (references p) (dict_keys (contains_items p))"

definition names_of_vars :: "python \<Rightarrow> nat \<Rightarrow> string list \<Rightarrow> string list data" where
  "names_of_vars E n new =
     loop (\<lambda>i acc.
       seq (getVar E n i True) (\<lambda>v.
       seq (expandWithRefs E n (getVarFlag E n) v i) (\<lambda>p. ret (set_union acc (found_names p))))) new []"

primrec follow_names :: "python \<Rightarrow> nat \<Rightarrow> nat \<Rightarrow> string list \<Rightarrow> unit data" where
  "follow_names E n 0 new = no_fuel"
| "follow_names E n (Suc k) new = reading (\<lambda>s.
     if set new \<subseteq> set (overridevars s) then ret ()
     else seq (change (\<lambda>s. s \<lparr> overridevars := set_union (overridevars s) new \<rparr>)) (\<lambda>_.
          seq (names_of_vars E n new) (\<lambda>nextnew. follow_names E n k nextnew)))"

definition setvar_update_overridevars :: "python \<Rightarrow> nat \<Rightarrow> string \<Rightarrow> dval \<Rightarrow> unit data" where
  "setvar_update_overridevars E n var value =
     seq (expandWithRefs E n (getVarFlag E n) (Some value) var) (\<lambda>p.
     seq (follow_names E n n (found_names p)) (\<lambda>_.
     change (\<lambda>s. s \<lparr> overrides := None \<rparr>)))"

definition note_overridevar :: "python \<Rightarrow> nat \<Rightarrow> string \<Rightarrow> string \<Rightarrow> dval \<Rightarrow> unit data" where
  "note_overridevar E n base var value = reading (\<lambda>s.
     if base \<in> set (overridevars s) then setvar_update_overridevars E n var value else ret ())"

subsection \<open>Setting flags and variables\<close>

text \<open>\<open>mark\<close> is the call \<open>self.setVar("_FAILPARSINGERRORHANDLED", True)\<close>.\<close>

definition note_export :: "string \<Rightarrow> unit data" where
  "note_export var = reading (\<lambda>s0.
     let s = makeShadowCopy ''__exportlist'' s0 in
     case map_of (var_flags s ''__exportlist'') ''_content'' of
       None \<Rightarrow> change (\<lambda>_. put_flag ''__exportlist'' ''_content'' (Names [var]) s)
     | Some (Names l) \<Rightarrow> change (\<lambda>_. put_flag ''__exportlist'' ''_content'' (Names (set_add var l)) s)
     | Some _ \<Rightarrow> seq (change (\<lambda>_. s)) (\<lambda>_. throw AttributeError))"

definition setVarFlag_body :: "python \<Rightarrow> nat \<Rightarrow> unit data \<Rightarrow> string \<Rightarrow> string \<Rightarrow> dval \<Rightarrow> unit data" where
  "setVarFlag_body E n mark var flag value =
     seq (change (\<lambda>s. s \<lparr> expand_cache := [] \<rparr>)) (\<lambda>_.
     seq (only_if (var = ''BB_RENAMED_VARIABLES'')
            (change (\<lambda>s. s \<lparr> var_renames := dict_set flag value (var_renames s) \<rparr>))) (\<lambda>_.
     seq (report_renamed mark var) (\<lambda>_.
     seq (change (shadow_put var flag value)) (\<lambda>_.
     seq (only_if (flag = ''_defaultval'' \<and> CHR '':'' \<in> set var) (change (setvar_update_overrides var))) (\<lambda>_.
     seq (only_if (flag = ''_defaultval'') (note_overridevar E n var var value)) (\<lambda>_.
     only_if (flag = ''unexport'' \<or> flag = ''export'') (note_export var)))))))"

text \<open>
  \<open>getVarFlag(...) or []\<close> as the list that is appended to: the flags of pending operations hold
  nothing but such lists.
\<close>

definition ops_list :: "dval option \<Rightarrow> (dval \<times> string option) list result" where
  "ops_list v =
     (case v of
        Some (Ops l) \<Rightarrow> Inr l
      | Some w \<Rightarrow> if truthy w then Inl AttributeError else Inr []
      | None \<Rightarrow> Inr [])"

definition set_operation :: "python \<Rightarrow> nat \<Rightarrow> unit data \<Rightarrow> string \<Rightarrow> dval \<Rightarrow> string \<Rightarrow> string \<Rightarrow> string option \<Rightarrow> unit data" where
  "set_operation E n mark var value base keyword override =
     seq (get_flag (getVarFlag E n) base keyword False) (\<lambda>v.
     seq (of_result (ops_list v)) (\<lambda>l.
     seq (setVarFlag_body E n mark base keyword (Ops (l @ [(value, override)]))) (\<lambda>_.
     seq (only_if (CHR '':'' \<in> set var) (change (setvar_update_overrides base))) (\<lambda>_.
     note_overridevar E n base var value))))"

text \<open>What \<open>setVar\<close> clears unless a file is being parsed: the operations and the overrides.\<close>

definition clear_operations :: "string \<Rightarrow> data_store \<Rightarrow> data_store" where
  "clear_operations var s = del_flag var '':remove'' (del_flag var '':prepend'' (del_flag var '':append'' s))"

definition clear_overrides :: "python \<Rightarrow> nat \<Rightarrow> string \<Rightarrow> unit data" where
  "clear_overrides E n var = reading (\<lambda>s.
     case map_of (overridedata s) var of
       None \<Rightarrow> ret ()
     | Some es \<Rightarrow>
         seq (need_overrides (getVarFlag E n)) (\<lambda>_.
         seq (if es = [] then ret []
              else seq current_overridesset (\<lambda>os. ret (map fst (filter (\<lambda>(r, o'). override_applies os o') es)))) (\<lambda>act.
         seq (change (fold delVar act)) (\<lambda>_.
         reading (\<lambda>s'.
           if var \<in> set (dict_keys (overridedata s'))
           then change (\<lambda>s. s \<lparr> overridedata := dict_del var (overridedata s) \<rparr>)
           else throw KeyError)))))"

definition set_content :: "python \<Rightarrow> nat \<Rightarrow> string \<Rightarrow> dval \<Rightarrow> bool \<Rightarrow> unit data" where
  "set_content E n var value parsing =
     seq (change (makeShadowCopy var)) (\<lambda>_.
     seq (only_if (\<not> parsing) (seq (change (clear_operations var)) (\<lambda>_. clear_overrides E n var))) (\<lambda>_.
     seq (only_if (CHR '':'' \<in> set var) (change (setvar_update_overrides var))) (\<lambda>_.
     seq (change (put_flag var ''_content'' value)) (\<lambda>_.
     note_overridevar E n var var value))))"

definition setVar_body :: "python \<Rightarrow> nat \<Rightarrow> unit data \<Rightarrow> string \<Rightarrow> dval \<Rightarrow> bool \<Rightarrow> unit data" where
  "setVar_body E n mark var value parsing =
     (if old_syntax var then throw Fatal
      else
        seq (report_renamed mark (takeWhile (\<lambda>c. c \<noteq> CHR '':'') var)) (\<lambda>_.
        seq (change (\<lambda>s. s \<lparr> expand_cache := [] \<rparr>)) (\<lambda>_.
          case setvar_match var of
            Some (base, keyword, override) \<Rightarrow> set_operation E n mark var value base keyword override
          | None \<Rightarrow> set_content E n var value parsing)))"

primrec mark_failed :: "python \<Rightarrow> nat \<Rightarrow> nat \<Rightarrow> unit data" where
  "mark_failed E n 0 = no_fuel"
| "mark_failed E n (Suc k) =
     setVar_body E n (mark_failed E n k) ''_FAILPARSINGERRORHANDLED'' (Truth True) False"

definition setVar :: "python \<Rightarrow> nat \<Rightarrow> string \<Rightarrow> dval \<Rightarrow> bool \<Rightarrow> unit data" where
  "setVar E n = setVar_body E n (mark_failed E n n)"

definition setVarFlag :: "python \<Rightarrow> nat \<Rightarrow> string \<Rightarrow> string \<Rightarrow> dval \<Rightarrow> unit data" where
  "setVarFlag E n = setVarFlag_body E n (mark_failed E n n)"

subsection \<open>Operations built on these\<close>

definition appendVar :: "python \<Rightarrow> nat \<Rightarrow> string \<Rightarrow> dval \<Rightarrow> unit data" where
  "appendVar E n var value = setVar E n (var @ '':append'') value True"

definition prependVar :: "python \<Rightarrow> nat \<Rightarrow> string \<Rightarrow> dval \<Rightarrow> unit data" where
  "prependVar E n var value = setVar E n (var @ '':prepend'') value True"

definition or_text :: "dval option \<Rightarrow> dval" where
  "or_text v = (if is_true v then empty_or v else Text [])"

definition appendVarFlag :: "python \<Rightarrow> nat \<Rightarrow> string \<Rightarrow> string \<Rightarrow> dval \<Rightarrow> unit data" where
  "appendVarFlag E n var flag value =
     seq (get_flag (getVarFlag E n) var flag False) (\<lambda>v.
     seq (of_result (py_add (or_text v) value)) (\<lambda>w. setVarFlag E n var flag w))"

definition prependVarFlag :: "python \<Rightarrow> nat \<Rightarrow> string \<Rightarrow> string \<Rightarrow> dval \<Rightarrow> unit data" where
  "prependVarFlag E n var flag value =
     seq (get_flag (getVarFlag E n) var flag False) (\<lambda>v.
     seq (of_result (py_add value (or_text v))) (\<lambda>w. setVarFlag E n var flag w))"

definition delVarFlag :: "string \<Rightarrow> string \<Rightarrow> data_store \<Rightarrow> data_store" where
  "delVarFlag var flag s =
     (let s1 = s \<lparr> expand_cache := [] \<rparr> in
      case fst (findVar s1 var) of
        None \<Rightarrow> s1
      | Some [] \<Rightarrow> s1
      | Some fl \<Rightarrow>
          let s2 = makeShadowCopy var s1 in
          if var \<in> set (dict_keys (local_vars s2)) \<and> flag \<in> set (dict_keys (var_flags s2 var))
          then del_flag var flag s2 else s2)"

definition setVarFlags :: "string \<Rightarrow> flags \<Rightarrow> data_store \<Rightarrow> data_store" where
  "setVarFlags var fl s =
     fold (\<lambda>(i, v) s. if i = ''_content'' then s else put_flag var i v s) fl
       (makeShadowCopy var (s \<lparr> expand_cache := [] \<rparr>))"

definition delVarFlags :: "string \<Rightarrow> data_store \<Rightarrow> data_store" where
  "delVarFlags var s =
     (let s1 = makeShadowCopy var (s \<lparr> expand_cache := [] \<rparr>) in
      if var \<in> set (dict_keys (local_vars s1)) then
        (case map_of (var_flags s1 var) ''_content'' of
           Some c \<Rightarrow> s1 \<lparr> local_vars := dict_set var [(''_content'', c)] (local_vars s1) \<rparr>
         | None \<Rightarrow> s1 \<lparr> local_vars := dict_del var (local_vars s1) \<rparr>)
      else s1)"

text \<open>
  \<open>renameVar\<close>. The pending operations of the old name go behind those of the new one, each
  override entry is renamed with it, and the old name is deleted.
\<close>

definition move_operation :: "python \<Rightarrow> nat \<Rightarrow> string \<Rightarrow> string \<times> dval \<Rightarrow> unit data" where
  "move_operation E n newkey = (\<lambda>(i, src).
     if i \<notin> set setvar_keywords then ret ()
     else seq (get_flag (getVarFlag E n) newkey i False) (\<lambda>v.
          seq (of_result (ops_list v)) (\<lambda>dest.
          seq (of_result (pairs_of src)) (\<lambda>l.
          setVarFlag E n newkey i (Ops (dest @ l))))))"

definition note_renamed_override :: "string \<Rightarrow> string \<times> string \<Rightarrow> data_store \<Rightarrow> data_store" where
  "note_renamed_override newkey entry s =
     s \<lparr> overridedata := dict_set newkey (dict_get_or [] (overridedata s) newkey @ [entry]) (overridedata s) \<rparr>"

primrec renameVar :: "python \<Rightarrow> nat \<Rightarrow> nat \<Rightarrow> string \<Rightarrow> string \<Rightarrow> unit data" where
  "renameVar E n 0 key newkey = no_fuel"
| "renameVar E n (Suc k) key newkey =
     (if key = newkey then ret ()
      else
        seq (getVarFlag E n key ''_content'' False False True False) (\<lambda>(val, _).
        seq (case val of None \<Rightarrow> ret () | Some v \<Rightarrow> setVar E n newkey v True) (\<lambda>_.
        seq (getVarFlags E n key [] True) (\<lambda>srcflags.
        seq (loop (\<lambda>f _. move_operation E n newkey f) (case srcflags of None \<Rightarrow> [] | Some fl \<Rightarrow> fl) ()) (\<lambda>_.
        seq (reading (\<lambda>s. case map_of (overridedata s) key of
               None \<Rightarrow> ret ()
             | Some es \<Rightarrow>
                 seq (change (\<lambda>s. s \<lparr> overridedata := dict_set newkey [] (overridedata s) \<rparr>)) (\<lambda>_.
                 loop (\<lambda>(v, o') _.
                   seq (change (note_renamed_override newkey (replace_all key newkey v, o'))) (\<lambda>_.
                   renameVar E n k v (replace_all key newkey v))) es ()))) (\<lambda>_.
        seq (only_if (CHR '':'' \<in> set newkey \<and> val = None) (change (setvar_update_overrides newkey))) (\<lambda>_.
        change (delVar key))))))))"

text \<open>\<open>bb.data.expandKeys\<close>, reading and changing one store.\<close>

definition keys_to_expand :: "python \<Rightarrow> nat \<Rightarrow> (string, string) dict data" where
  "keys_to_expand E n =
     seq (iter_keys E n) (\<lambda>keys.
     loop (\<lambda>key todo.
       if \<not> str_in ''${'' key then ret todo
       else seq (expand_value E n (getVarFlag E n) (Some (Text key)) []) (\<lambda>v.
         case v of
           Some (Text ekey) \<Rightarrow> ret (if key = ekey then todo else dict_set key ekey todo)
         | _ \<Rightarrow> ret todo)) keys [])"

definition expandKeys :: "python \<Rightarrow> nat \<Rightarrow> unit data" where
  "expandKeys E n =
     seq (keys_to_expand E n) (\<lambda>todo.
     loop (\<lambda>key _.
       let ekey = dict_get_or [] todo key in
       seq (getVar E n ekey False) (\<lambda>newval.
       seq (if newval = None then ret None else getVar E n key False) (\<lambda>_.
       renameVar E n n key ekey))) (sort (dict_keys todo)) ())"

text \<open>\<open>bb.data.inheritFromOS\<close>: a type error leaves the variable out.\<close>

definition inheritFromOS :: "python \<Rightarrow> nat \<Rightarrow> string list \<Rightarrow> string list \<Rightarrow> (string \<Rightarrow> dval result) \<Rightarrow> string list \<Rightarrow> unit data" where
  "inheritFromOS E n exportlist savedenv value_of permitted =
     loop (\<lambda>v _.
       if v \<notin> set permitted then ret ()
       else catch
         (seq (of_result (value_of v)) (\<lambda>w.
          seq (setVar E n v w False) (\<lambda>_.
          if v \<in> set exportlist then setVarFlag E n v ''export'' (Truth True) else ret ())))
         (\<lambda>e. case e of TypeError \<Rightarrow> ret () | _ \<Rightarrow> throw e)) savedenv ()"

end
