(* ===== verification/DataLaws.thy ===== *)
theory DataLaws
  imports DataWrite
begin

text \<open>
  What the variable store promises: a variable that is set reads back, the table of overrides
  keeps its form, the override that stands last in \<open>OVERRIDES\<close> wins, and removed words are
  gone from the value.
\<close>

subsection \<open>Setting and reading back\<close>

lemma length_before_colon_less: "CHR '':'' \<in> set s \<Longrightarrow> length (before_colon s) < length s"
  by (rule length_before_colon) auto

lemma map_of_add_override [simp]:
  "k \<noteq> short \<Longrightarrow> map_of (add_override short e od) k = map_of od k"
  by (simp add: add_override_def Let_def)

lemma register_loop_longer:
  "length short < length k \<Longrightarrow> map_of (register_loop var ov short od) k = map_of od k"
proof (induction var ov short od rule: register_loop.induct)
  case (1 var ov short od)
  let ?i = "length (before_colon short)"
  have k: "k \<noteq> short" using 1(2) by auto
  show ?case
  proof (cases "override_start ov \<and> CHR '':'' \<in> set short \<and> take ?i var \<noteq> []")
    case True
    then have "length (take ?i var) < length k"
      using length_before_colon_less [of short] 1(2) by simp
    then show ?thesis
      using True k 1(1) [OF _ refl _ refl] by (subst register_loop.simps) (simp add: Let_def)
  next
    case False
    then show ?thesis using k by (subst register_loop.simps) (auto simp: Let_def)
  qed
qed

lemma update_overrides_own [simp]:
  assumes "CHR '':'' \<in> set var"
  shows "map_of (overridedata (setvar_update_overrides var s)) var = map_of (overridedata s) var"
  using length_before_colon_less [OF assms]
  by (simp add: setvar_update_overrides_def register_loop_longer)

definition no_operations :: "string \<Rightarrow> data_store \<Rightarrow> bool" where
  "no_operations var s \<longleftrightarrow> (\<exists>fl. map_of (local_vars s) var = Some fl
     \<and> (\<forall>k \<in> set setvar_keywords. map_of fl k = None))"

definition plainly :: "string \<Rightarrow> dval \<Rightarrow> data_store \<Rightarrow> bool" where
  "plainly var v s \<longleftrightarrow> (\<exists>fl. map_of (local_vars s) var = Some fl \<and> map_of fl ''_content'' = Some v
     \<and> (\<forall>k \<in> set setvar_keywords. map_of fl k = None)) \<and> map_of (overridedata s) var = None"

definition tables :: "data_store \<Rightarrow> layer \<times> (string, (string \<times> string) list) dict" where
  "tables s = (local_vars s, overridedata s)"

lemma tables_simps [simp]:
  "tables (s \<lparr> overridevars := l \<rparr>) = tables s"
  "tables (s \<lparr> overrides := os \<rparr>) = tables s"
  by (simp_all add: tables_def)

interpretation tables_kept: kept "\<lambda>s. tables s = d" for d
  by unfold_locales (simp_all add: tables_def set_overrides_def)

interpretation tables_reader: reader "\<lambda>s. tables s = d" "getVarFlag E n" for d E n
  by (rule getVarFlag_reader) unfold_locales

lemma tables_frames:
  "frames tables (need_overrides (getVarFlag E n))"
  "frames tables (expandWithRefs E k (getVarFlag E n) value varname)"
  "frames tables (getVar E n var expand)"
  unfolding frames_iff_holds getVar_def
  by (intro allI tables_reader.need_overrides_kept tables_reader.expand_kept tables_reader.content_kept)+

lemma names_of_vars_frames: "frames tables (names_of_vars E n new)"
  unfolding names_of_vars_def by (auto simp del: comp_simps intro!: frames_intro tables_frames)

lemma follow_names_frames: "frames tables (follow_names E n k new)"
  by (induction k arbitrary: new)
    (auto simp del: comp_simps intro!: frames_intro names_of_vars_frames)

lemma note_overridevar_frames: "frames tables (note_overridevar E n base var value)"
  unfolding note_overridevar_def setvar_update_overridevars_def
  by (auto simp del: comp_simps intro!: frames_intro tables_frames follow_names_frames)

lemma no_operations_tables: "tables s' = tables s \<Longrightarrow> no_operations var s \<Longrightarrow> no_operations var s'"
  by (simp add: tables_def no_operations_def)

lemma plainly_tables: "tables s' = tables s \<Longrightarrow> plainly var v s \<Longrightarrow> plainly var v s'"
  by (simp add: tables_def plainly_def)

lemma delVar_local_vars: "local_vars (delVar a s) = dict_set a [] (local_vars s)"
  by (simp add: delVar_def Let_def)

lemma no_operations_delVar: "no_operations var s \<Longrightarrow> no_operations var (delVar a s)"
  by (auto simp: no_operations_def delVar_local_vars)

lemma shadow_in_keys: "\<exists>fl. map_of (local_vars (makeShadowCopy var s)) var = Some fl"
proof (cases "var \<in> set (dict_keys (local_vars s))")
  case True
  then show ?thesis
    using map_of_None_iff [of "local_vars s" var] by (auto simp: makeShadowCopy_def)
next
  case False
  then show ?thesis
    by (auto simp: makeShadowCopy_def initVar_def Let_def split: option.split list.split)
qed

lemma local_vars_update [simp]: "local_vars (setvar_update_overrides var s) = local_vars s"
  by (simp add: setvar_update_overrides_def)

lemma clear_operations_clears: "no_operations var (clear_operations var s)"
  by (auto simp: no_operations_def clear_operations_def del_flag_def var_flags_def setvar_keywords_def)

lemma current_set_frames: "frames tables (if es = [] then ret [] else seq current_overridesset (\<lambda>os. ret (f os)))"
  unfolding current_overridesset_def by (auto simp del: comp_simps intro!: frames_intro)

lemma clear_overrides_clears:
  "triple (no_operations var) (clear_overrides E n var)
     (\<lambda>s. no_operations var s \<and> map_of (overridedata s) var = None)"
  unfolding clear_overrides_def
proof (rule triple_reading)
  fix s
  let ?Q = "\<lambda>s. no_operations var s \<and> map_of (overridedata s) var = None"
  note frame = triple_frames [where v = tables and P = "no_operations var", OF _ no_operations_tables]
  show "triple (\<lambda>t. t = s \<and> no_operations var s) (case map_of (overridedata s) var of
      None \<Rightarrow> ret ()
    | Some es \<Rightarrow>
        seq (need_overrides (getVarFlag E n)) (\<lambda>_.
        seq (if es = [] then ret []
             else seq current_overridesset (\<lambda>os. ret (map fst (filter (\<lambda>(r, o'). override_applies os o') es)))) (\<lambda>act.
        seq (change (fold delVar act)) (\<lambda>_.
        reading (\<lambda>s'.
          if var \<in> set (dict_keys (overridedata s'))
          then change (\<lambda>s. s \<lparr> overridedata := dict_del var (overridedata s) \<rparr>)
          else throw KeyError))))) ?Q"
  proof (cases "map_of (overridedata s) var")
    case None
    then show ?thesis by (auto simp del: comp_simps intro: triple_ret)
  next
    case (Some es)
    have del: "triple (no_operations var) (change (fold delVar act)) (no_operations var)" for act
      by (rule triple_change) (rule fold_invariant', auto intro: no_operations_delVar)
    have last: "triple (no_operations var) (reading (\<lambda>s'.
          if var \<in> set (dict_keys (overridedata s'))
          then change (\<lambda>s. s \<lparr> overridedata := dict_del var (overridedata s) \<rparr>)
          else throw KeyError)) ?Q"
      by (auto simp: triple_def no_operations_def split: if_splits)
    show ?thesis unfolding Some option.case
      by (rule triple_pre)
        (rule triple_seq frame tables_frames current_set_frames del last triple_seq [OF frame [OF current_set_frames]] | simp)+
  qed
qed

lemma set_content_plain: "triple (\<lambda>s. True) (set_content E n var v False) (plainly var v)"
  unfolding set_content_def
proof (simp only: not_False_eq_True comp_simps(7), intro triple_seq)
  let ?R = "\<lambda>s. no_operations var s \<and> map_of (overridedata s) var = None"
  show "triple (\<lambda>s. True) (change (makeShadowCopy var)) (\<lambda>s. True)"
    and "triple (\<lambda>s. True) (change (clear_operations var)) (no_operations var)"
    and "triple (no_operations var) (clear_overrides E n var) ?R"
    by (auto intro: triple_change clear_operations_clears clear_overrides_clears)
  show "triple ?R (only_if (CHR '':'' \<in> set var) (change (setvar_update_overrides var))) ?R"
    by (rule triple_only_if, rule triple_change)
      (auto simp: no_operations_def)
  show "triple ?R (change (put_flag var ''_content'' v)) (plainly var v)"
    by (rule triple_change)
      (auto simp: plainly_def no_operations_def put_flag_def var_flags_def dict_get_or_def setvar_keywords_def)
  show "triple (plainly var v) (note_overridevar E n var var v) (plainly var v)"
    by (rule triple_frames [OF note_overridevar_frames plainly_tables])
qed

lemma pending_none: "map_of fl kw = None \<Longrightarrow> pending gv kw (Some fl) skip f a = ret a"
  by (simp add: pending_def)

lemma getVar_plain:
  assumes "plainly var v s"
  shows "getVar E (Suc m) var False s = Some (Inr (Some v), s)"
proof -
  from assms obtain fl where f: "findVar s var = (Some fl, None)" "map_of fl ''_content'' = Some v"
      "map_of fl '':append'' = None" "map_of fl '':prepend'' = None" "map_of fl '':remove'' = None"
    by (auto simp: plainly_def findVar_def setvar_keywords_def)
  have "removal E m (getVarFlag E m) (Some fl) True False [] (Some v) None = ret None"
    by (simp add: removal_def pending_none f(5) del: comp_simps)
  then show ?thesis
    by (simp add: getVar_def get_content_def getVarFlag_body_def compute_flag_def f pending_none
        override_value_def own_value_def cache_parser_def Let_def)
qed

lemma setVar_plainly:
  assumes "setvar_match var = None"
  shows "triple (\<lambda>s. True) (setVar E n var v False) (plainly var v)"
  unfolding setVar_def setVar_body_def using assms
  by (simp add: assms del: comp_simps) (intro impI triple_seq [where R = "\<lambda>s. True"] triple_True set_content_plain, simp_all)

text \<open>
  Property C7. When \<open>setVar\<close> of a plain name returns outside parsing, \<open>getVar\<close> without
  expansion gives the value that was set, whatever operations and overrides the variable had
  before, and leaves the store as it is.
\<close>

theorem set_then_get:
  assumes "setvar_match var = None"
    and "setVar E n var v False s = Some (Inr (), s')"
  shows "getVar E (Suc m) var False s' = Some (Inr (Some v), s')"
  using triple_D [OF setVar_plainly [OF assms(1)] TrueI assms(2)] by (rule getVar_plain)


text \<open>A store with an override and an operation, and expressions that are their own value.\<close>

definition no_python :: python where
  "no_python = \<lparr> compile_code = (\<lambda>code. Inr (Result code)), scan_code = (\<lambda>code. ([], [], [])) \<rparr>"

definition demo_store :: data_store where
  "demo_store = new_store \<lparr>
     local_vars := [
       (''OVERRIDES'', [(''_content'', Text ''arm:${M}'')]),
       (''M'', [(''_content'', Text ''qemu'')]),
       (''A'', [(''_content'', Text ''x''), ('':append'', Ops [(Text '' y'', None)])]),
       (''A:arm'', [(''_content'', Text ''u'')]),
       (''A:qemu'', [(''_content'', Text ''v w'')])],
     overridedata := [(''A'', [(''A:qemu'', ''qemu''), (''A:arm'', ''arm'')])] \<rparr>"

definition gives_value :: "((py_error + 'a) \<times> data_store) option \<Rightarrow> bool" where
  "gives_value r = (case r of Some (Inr _, _) \<Rightarrow> True | _ \<Rightarrow> False)"

lemma gives_value_D: "gives_value r \<Longrightarrow> \<exists>x s'. r = Some (Inr x, s')"
  by (auto simp: gives_value_def split: option.splits prod.splits sum.splits)

theorem set_then_get_witness:
  "\<exists>s'. setVar no_python 6 ''A'' (Text ''t'') False demo_store = Some (Inr (), s')
    \<and> getVar no_python 1 ''A'' False s' = Some (Inr (Some (Text ''t'')), s')"
proof -
  have "gives_value (setVar no_python 6 ''A'' (Text ''t'') False demo_store)" by code_simp
  then obtain s' where s: "setVar no_python 6 ''A'' (Text ''t'') False demo_store = Some (Inr (), s')"
    by (auto dest: gives_value_D)
  have "setvar_match ''A'' = None" by code_simp
  from set_then_get [OF this s, of 0] s show ?thesis by auto
qed

subsection \<open>Which override wins\<close>

text \<open>
  With overrides of one part the choice is the override of the variable whose first place in
  \<open>OVERRIDES\<close> is the last, and of its entries the last one.
\<close>

definition strongest_override :: "string list \<Rightarrow> (string \<times> string) list \<Rightarrow> string option" where
  "strongest_override os es =
     (case find (\<lambda>o'. o' \<in> snd ` set es) (remdups (rev os)) of
        None \<Rightarrow> None
      | Some o' \<Rightarrow> map_of (rev (map (\<lambda>(r, o'). (o', r)) es)) o')"

definition one_part :: "string \<Rightarrow> bool" where
  "one_part o' \<longleftrightarrow> CHR '':'' \<notin> set o'"

lemma not_endswith_colon: "one_part a \<Longrightarrow> \<not> endswith a (CHR '':'' # o')"
  by (auto simp: endswith_iff one_part_def)

lemma visit_keys_one_part:
  assumes "\<forall>k \<in> set ks. one_part k"
  shows "fold (visit_key o') ks (act, ch, f) =
    (if o' \<in> set ks then case map_of act o' of None \<Rightarrow> (act, ch, f) | Some t \<Rightarrow> (dict_del o' act, ch, Some t)
     else (act, ch, f))"
  using assms
proof (induction ks arbitrary: act f)
  case (Cons k ks)
  then show ?case
    by (cases "k = o'") (auto simp: visit_key_def not_endswith_colon split: option.split)
qed simp

lemma visit_override_one_part:
  assumes "\<forall>k \<in> set (dict_keys act). one_part k"
  shows "visit_override o' (act, ch, f) =
    (case map_of act o' of None \<Rightarrow> (act, ch, f) | Some t \<Rightarrow> (dict_del o' act, ch, Some t))"
  using visit_keys_one_part [OF assms, of o' act ch f] map_of_in_keys [of act o']
  by (cases "map_of act o'") (simp_all add: visit_override_def)

lemma round_one_part:
  assumes "\<forall>k \<in> set (dict_keys act). one_part k"
  shows "\<exists>act'. override_round os act f =
      (act', False, case find (\<lambda>o'. map_of act o' \<noteq> None) (remdups (rev os)) of
         None \<Rightarrow> f | Some o' \<Rightarrow> map_of act o')
    \<and> (\<forall>k. map_of act' k = (if k \<in> set os then None else map_of act k))
    \<and> set (dict_keys act') \<subseteq> set (dict_keys act)"
proof (induction os rule: rev_induct)
  case Nil
  then show ?case by (auto simp: override_round_def)
next
  case (snoc o' os)
  then obtain act' f' where a: "override_round os act f = (act', False, f')"
      "f' = (case find (\<lambda>o'. map_of act o' \<noteq> None) (remdups (rev os)) of None \<Rightarrow> f | Some o' \<Rightarrow> map_of act o')"
      "\<forall>k. map_of act' k = (if k \<in> set os then None else map_of act k)"
      "set (dict_keys act') \<subseteq> set (dict_keys act)"
    by blast
  have one: "\<forall>k \<in> set (dict_keys act'). one_part k" using assms a(4) by blast
  have v: "visit_override o' (act', False, f') =
      (case map_of act' o' of None \<Rightarrow> (act', False, f') | Some t \<Rightarrow> (dict_del o' act', False, Some t))"
    by (rule visit_override_one_part [OF one])
  have keys: "set (dict_keys (dict_del o' act')) \<subseteq> set (dict_keys act)"
    using a(4) by (auto simp: AList.delete_eq)
  show ?case
  proof (cases "map_of act' o'")
    case None
    then show ?thesis using a v keys by (auto simp: override_round_def split: if_splits option.splits)
  next
    case (Some t)
    then have "o' \<notin> set os" "map_of act o' = Some t" using a(3) by (auto split: if_splits)
    with Some show ?thesis using a v keys by (auto simp: override_round_def)
  qed
qed

lemma choose_one_part:
  assumes "\<forall>k \<in> set (dict_keys act). one_part k"
  shows "choose_override os act f =
    (case find (\<lambda>o'. map_of act o' \<noteq> None) (remdups (rev os)) of None \<Rightarrow> f | Some o' \<Rightarrow> map_of act o')"
  using round_one_part [OF assms, of os f] by (subst choose_override.simps) auto

lemma active_one_part:
  assumes "\<forall>(r, o') \<in> set es. one_part o'"
  shows "map_of (active_overrides ss es) k =
      (if k \<in> set ss then map_of (rev (map (\<lambda>(r, o'). (o', r)) es)) k else None)"
    and "set (dict_keys (active_overrides ss es)) = snd ` set es \<inter> set ss"
proof -
  have "map_of (active_overrides ss es) k =
      (if k \<in> set ss then map_of (rev (map (\<lambda>(r, o'). (o', r)) es)) k else None)
    \<and> set (dict_keys (active_overrides ss es)) = snd ` set es \<inter> set ss"
    using assms
  proof (induction es rule: rev_induct)
    case Nil
    then show ?case by (simp add: active_overrides_def)
  next
    case (snoc e es)
    obtain r o' where e: "e = (r, o')" by (cases e)
    then have ap: "override_applies ss o' \<longleftrightarrow> o' \<in> set ss"
      using snoc.prems by (auto simp: override_applies_def one_part_def)
    have IH: "map_of (active_overrides ss es) k =
        (if k \<in> set ss then map_of (rev (map (\<lambda>(r, o'). (o', r)) es)) k else None)"
      "fst ` set (active_overrides ss es) = snd ` set es \<inter> set ss"
      using snoc by auto
    have step: "active_overrides ss (es @ [e]) =
        (if override_applies ss o' then dict_set o' r (active_overrides ss es) else active_overrides ss es)"
      by (simp add: active_overrides_def e)
    show ?case unfolding step ap using IH by (auto simp: e fst_set_keys)
  qed
  then show "map_of (active_overrides ss es) k =
      (if k \<in> set ss then map_of (rev (map (\<lambda>(r, o'). (o', r)) es)) k else None)"
    and "set (dict_keys (active_overrides ss es)) = snd ` set es \<inter> set ss" by simp_all
qed




subsection \<open>The form of the tables\<close>

text \<open>
  An entry \<open>[r, o]\<close> of a variable says that \<open>r\<close> is the variable with the override \<open>o\<close>. Code that
  appends to a name without a colon also leaves an entry for the name less its last
  character, which has no meaning. No variable has an entry twice. The set of active overrides
  is always the set of the list, and is there while the list is being worked out.
\<close>

definition entry_ok :: "string \<Rightarrow> string \<times> string \<Rightarrow> bool" where
  "entry_ok v = (\<lambda>(r, o'). r = v @ CHR '':'' # o' \<or> (one_part r \<and> o' = r \<and> v = butlast r))"

definition entries_ok :: "(string, (string \<times> string) list) dict \<Rightarrow> bool" where
  "entries_ok od \<longleftrightarrow> (\<forall>v es. map_of od v = Some es \<longrightarrow> (\<forall>e \<in> set es. entry_ok v e) \<and> distinct es)"

definition well_formed :: "data_store \<Rightarrow> bool" where
  "well_formed s \<longleftrightarrow> entries_ok (overridedata s)
     \<and> (\<forall>os. overrides s = Some os \<longrightarrow> overridesset s = Some (remdups os))
     \<and> (inoverride s \<longrightarrow> overridesset s \<noteq> None)"

lemma add_override_ok: "entries_ok od \<Longrightarrow> entry_ok short e \<Longrightarrow> entries_ok (add_override short e od)"
  unfolding entries_ok_def add_override_def Let_def
  by (cases "map_of od short") (auto simp: dict_get_or_def dest: map_of_in_keys)

lemma colon_step:
  assumes "var = short @ CHR '':'' # ov" and "CHR '':'' \<in> set short"
  shows "var = take (length (before_colon short)) var @ CHR '':'' # drop (length (before_colon short) + 1) var"
proof -
  obtain a b where ab: "before_colon short = a" "after_colon short = b" by simp
  have "short = a @ CHR '':'' # b" using before_after_colon [OF assms(2)] unfolding ab .
  then have v: "var = a @ CHR '':'' # (b @ CHR '':'' # ov)" using assms(1) by simp
  show ?thesis unfolding ab v by simp
qed

lemma register_loop_ok:
  "entries_ok od \<Longrightarrow> var = short @ CHR '':'' # ov \<or> (one_part var \<and> ov = var \<and> short = butlast var) \<Longrightarrow>
   entries_ok (register_loop var ov short od)"
proof (induction var ov short od rule: register_loop.induct)
  case (1 var ov short od)
  let ?i = "length (before_colon short)"
  have e: "entries_ok (add_override short (var, ov) od)"
    using 1(2,3) by (auto simp: entry_ok_def intro: add_override_ok)
  show ?case
  proof (cases "override_start ov \<and> CHR '':'' \<in> set short \<and> take ?i var \<noteq> []")
    case True
    then have "var = short @ CHR '':'' # ov"
      using 1(3) by (auto simp: one_part_def dest: in_set_butlastD)
    then have "var = take ?i var @ CHR '':'' # drop (?i + 1) var"
      using True by (intro colon_step) auto
    then show ?thesis
      using True 1(1) [OF _ refl _ refl _ e] by (subst register_loop.simps) (simp add: Let_def)
  next
    case False
    then show ?thesis using e 1(2) by (subst register_loop.simps) (auto simp: Let_def)
  qed
qed

lemma update_overrides_ok: "well_formed s \<Longrightarrow> well_formed (setvar_update_overrides var s)"
proof -
  have "var = before_colon var @ CHR '':'' # after_colon var
    \<or> (one_part var \<and> after_colon var = var \<and> before_colon var = butlast var)"
    using before_after_colon [of var] by (cases "CHR '':'' \<in> set var") (auto simp: one_part_def before_colon_def)
  then show "well_formed s \<Longrightarrow> well_formed (setvar_update_overrides var s)"
    by (simp add: well_formed_def setvar_update_overrides_def register_loop_ok)
qed

lemma drop_override_ok: "entries_ok od \<Longrightarrow> entries_ok (drop_override short e od)"
  by (auto simp: entries_ok_def drop_override_def split: option.split dest: notin_set_remove1
      intro: distinct_remove1 set_remove1_subset [THEN subsetD])

lemma unregister_loop_ok: "entries_ok od \<Longrightarrow> entries_ok (unregister_loop var ov short od)"
proof (induction var ov short od rule: unregister_loop.induct)
  case (1 var ov short od)
  show ?case
    using 1(1) [OF _ refl _ refl] drop_override_ok [OF 1(2), of short "(var, ov)"] 1(2)
    by (subst unregister_loop.simps) (auto simp: Let_def)
qed

lemma entries_ok_del: "entries_ok od \<Longrightarrow> entries_ok (dict_del v od)"
  by (simp add: entries_ok_def)

lemma delVar_ok: "well_formed s \<Longrightarrow> well_formed (delVar var s)"
  by (simp add: well_formed_def delVar_def Let_def unregister_loop_ok entries_ok_del)

lemma well_formed_fields [simp]:
  "well_formed (s \<lparr> expand_cache := c \<rparr>) = well_formed s"
  "well_formed (s \<lparr> local_vars := l \<rparr>) = well_formed s"
  "well_formed (s \<lparr> overridevars := ov \<rparr>) = well_formed s"
  "well_formed (s \<lparr> var_renames := rn \<rparr>) = well_formed s"
  by (simp_all add: well_formed_def)

lemma makeShadowCopy_ok [simp]: "well_formed (makeShadowCopy var s) = well_formed s"
  by (simp add: makeShadowCopy_def initVar_def Let_def split: option.split list.split)

lemma flags_ok [simp]:
  "well_formed (put_flag var flag v s) = well_formed s"
  "well_formed (del_flag var flag s) = well_formed s"
  "well_formed (shadow_put var flag v s) = well_formed s"
  "well_formed (clear_operations var s) = well_formed s"
  by (simp_all add: put_flag_def del_flag_def shadow_put_def clear_operations_def)

interpretation form_kept: kept well_formed
  by unfold_locales (simp_all add: well_formed_def set_overrides_def)

interpretation form_reader: reader well_formed "getVarFlag E n" for E n
  by (rule getVarFlag_reader) unfold_locales

lemmas form_readers [holds_intro] =
  form_reader.content_kept form_reader.flag_kept form_reader.expand_kept form_reader.need_overrides_kept

lemma form_getVar [holds_intro]: "holds well_formed (getVar E n var expand)"
  unfolding getVar_def by (rule form_reader.content_kept)

lemma form_follow_names: "holds well_formed (follow_names E n k new)"
  by (induction k arbitrary: new)
    (auto simp: names_of_vars_def simp del: comp_simps intro!: holds_intro)

lemma form_note_overridevar [holds_intro]: "holds well_formed (note_overridevar E n base var value)"
  unfolding note_overridevar_def setvar_update_overridevars_def
  by (auto simp: well_formed_def simp del: comp_simps intro!: holds_intro form_follow_names)

lemma form_note_export [holds_intro]: "holds well_formed (note_export var)"
  unfolding note_export_def
  by (auto simp: holds_def Let_def split: option.splits dval.splits)

lemma form_report [holds_intro]: "holds well_formed mark \<Longrightarrow> holds well_formed (report_renamed mark var)"
  unfolding report_renamed_def print_rename_error_def
  by (auto simp del: comp_simps intro!: holds_intro)

lemma form_setVarFlag_body:
  "holds well_formed mark \<Longrightarrow> holds well_formed (setVarFlag_body E n mark var flag value)"
  unfolding setVarFlag_body_def
  by (auto simp del: comp_simps intro!: holds_intro update_overrides_ok)

lemma form_set_operation:
  "holds well_formed mark \<Longrightarrow> holds well_formed (set_operation E n mark var value base keyword override)"
  unfolding set_operation_def
  by (auto simp del: comp_simps intro!: holds_intro form_setVarFlag_body update_overrides_ok)

lemma well_formed_del: "well_formed s \<Longrightarrow> well_formed (s \<lparr> overridedata := dict_del v (overridedata s) \<rparr>)"
  by (simp add: well_formed_def entries_ok_del)

lemma form_clear_overrides: "holds well_formed (clear_overrides E n var)"
  unfolding clear_overrides_def
  by (auto simp del: comp_simps
      intro!: holds_intro fold_invariant' [where P = well_formed] delVar_ok well_formed_del)

lemma form_set_content: "holds well_formed (set_content E n var value parsing)"
  unfolding set_content_def
  by (auto simp del: comp_simps intro!: holds_intro form_clear_overrides update_overrides_ok)

lemma form_setVar_body:
  "holds well_formed mark \<Longrightarrow> holds well_formed (setVar_body E n mark var value parsing)"
  unfolding setVar_body_def
  by (auto simp del: comp_simps intro!: holds_intro form_set_operation form_set_content)

lemma form_mark_failed: "holds well_formed (mark_failed E n k)"
  by (induction k) (auto simp del: comp_simps intro!: holds_intro form_setVar_body)

text \<open>
  Reading, setting, appending to, flagging and deleting variables and copying the
  store keep the tables well formed: every override entry names the variable it stands for, no
  entry is there twice, and the set of active overrides agrees with their list.
\<close>

theorem operations_keep_form:
  "holds well_formed (getVarFlag E n var flag expand noweakdefault parsing retparser)
   \<and> holds well_formed (setVar E n var value parsing)
   \<and> holds well_formed (setVarFlag E n var flag value)
   \<and> holds well_formed (appendVar E n var value)
   \<and> holds well_formed (prependVar E n var value)
   \<and> holds well_formed (change (delVar var))
   \<and> holds well_formed (change (delVarFlag var flag))
   \<and> holds well_formed (change (setVarFlags var fl))
   \<and> holds well_formed (change (delVarFlags var))
   \<and> holds well_formed (change createCopy)
   \<and> well_formed new_store"
proof -
  have put: "well_formed (fold (\<lambda>(i, v) s. if i = ''_content'' then s else put_flag var i v s) fl s) = well_formed s" for s
    by (induction fl arbitrary: s) (auto split: prod.split)
  have pure: "well_formed (setVarFlags var fl s)" "well_formed (delVarFlag var flag s)"
      "well_formed (delVarFlags var s)" "well_formed (createCopy s)" if "well_formed s" for s
    using that
    by (simp_all add: setVarFlags_def put delVarFlag_def delVarFlags_def Let_def split: option.split list.split)
      (simp add: createCopy_def new_store_def well_formed_def)
  have "well_formed new_store"
    by (simp add: new_store_def well_formed_def entries_ok_def)
  then show ?thesis
    unfolding appendVar_def prependVar_def setVar_def setVarFlag_def
    by (intro conjI form_reader.getter_kept form_setVar_body form_setVarFlag_body form_mark_failed
        holds_change delVar_ok pure)
qed

subsection \<open>Removed words\<close>

lemma split_kept_words:
  assumes "keep []" and "\<And>c. py_isspace c \<Longrightarrow> keep [c]"
    and "\<forall>c \<in> set v. \<not> py_isspace c"
  shows "split_ws (concat (filter keep (case whitespace_split t of [] \<Rightarrow> [] | w # ws \<Rightarrow> (v @ w) # ws))) =
    filter keep (split_ws_acc v t)"
  using assms(3)
proof (induction t arbitrary: v)
  case Nil
  then have "v = [] \<or> is_word v" by (auto simp: is_word_def)
  then show ?case using assms(1) by (auto simp: split_ws_word)
next
  case (Cons c t)
  have ne: "whitespace_split t \<noteq> []" for t by (cases t) (auto split: list.splits)
  show ?case
  proof (cases "py_isspace c")
    case True
    have "split_ws (concat (filter keep (whitespace_split t))) = filter keep (split_ws_acc [] t)"
      using Cons.IH [of "[]"] ne [of t] by (cases "whitespace_split t") auto
    moreover have "v = [] \<or> is_word v" using Cons.prems by (auto simp: is_word_def)
    ultimately show ?thesis
      using True assms(1) assms(2) [OF True] by (auto simp: split_ws_word_space)
  next
    case False
    then show ?thesis
      using Cons.IH [of "v @ [c]"] Cons.prems ne [of t] by (cases "whitespace_split t") simp_all
  qed
qed

text \<open>
  The words of a value after \<open>:remove\<close> are its words before, in their order, less
  the words of the expanded values that are removed, however the white space between them looks.
\<close>

theorem removed_words_gone:
  "split_ws (remove_words (map (\<lambda>(r, e). (r, split_ws e)) rs) t) =
   filter (\<lambda>w. w \<notin> set (concat (map (\<lambda>(r, e). split_ws e) rs))) (split_ws t)"
proof -
  let ?ers = "map (\<lambda>(r, e). (r, split_ws e)) rs"
  have k: "removed_by ?ers w = [] \<longleftrightarrow> w \<notin> set (concat (map (\<lambda>(r, e). split_ws e) rs))" for w
    by (induction rs) (auto simp: removed_by_def)
  have word: "w \<notin> set (concat (map (\<lambda>(r, e). split_ws e) rs))" if "\<not> is_word w" for w
    using that by (auto dest: split_ws_words)
  have ne: "whitespace_split t \<noteq> []" by (cases t) (auto split: list.splits)
  have sp: "\<not> is_word []" "py_isspace c \<Longrightarrow> \<not> is_word [c]" for c by (simp_all add: is_word_def)
  show ?thesis
    using split_kept_words [of "\<lambda>w. w \<notin> set (concat (map (\<lambda>(r, e). split_ws e) rs))" "[]" t, OF word word] ne sp
    unfolding remove_words_def k by (cases "whitespace_split t") (auto simp: split_ws_def)
qed

subsection \<open>Corner cases\<close>

text \<open>Setting variables one after the other, as a file that is parsed does.\<close>

definition set_all :: "(string \<times> string) list \<Rightarrow> unit data" where
  "set_all = (\<lambda>l. loop (\<lambda>(var, v) _. setVar no_python 6 var (Text v) True) l ())"

definition outcome :: "'a data \<Rightarrow> (py_error + 'a) option" where
  "outcome m = map_option fst (m new_store)"

text \<open>
  An operation on a lower case name without a colon registers that name as an override of the
  name less its last character.
\<close>

lemma spurious_override:
  "outcome (seq (set_all [(''do_install:append'', ''x'')]) (\<lambda>_. reading (\<lambda>s. ret (overridedata s)))) =
   Some (Inr [(''do_instal'', [(''do_install'', ''do_install'')])])"
  by code_simp

text \<open>
  Cutting an override off a key of several parts removes its text everywhere in the key, so a
  longer part that begins with it is spoilt, and the entry never applies.
\<close>

lemma override_inside_part:
  "choose_override [''armv7'', ''arm'', ''x''] [(''armv7:arm'', ''V:armv7:arm'')] None = Some ''V:armv7:arm''"
  "choose_override [''x'', ''armv7'', ''arm''] [(''x:armv7:arm'', ''V:x:armv7:arm'')] None = None"
  by code_simp+

text \<open>Renaming replaces the old name inside an override as well.\<close>

lemma rename_inside_override:
  "outcome (seq (set_all [(''a:arm'', ''x'')]) (\<lambda>_.
            seq (renameVar no_python 6 3 ''a'' ''b'') (\<lambda>_. reading (\<lambda>s. ret (map_of (overridedata s) ''b''))))) =
   Some (Inr (Some [(''b:brm'', ''arm''), (''b:brm'', ''brm'')]))"
  by code_simp

text \<open>
  Only the variables that \<open>OVERRIDES\<close> names itself are followed: a change of a variable that
  those depend on leaves the active overrides as they were.
\<close>

lemma indirect_override_missed:
  "outcome (seq (set_all [(''B'', ''x''), (''A'', ''${B}''), (''OVERRIDES'', ''${A}''),
                          (''V:x'', ''old''), (''V:y'', ''new'')]) (\<lambda>_.
            seq (getVar no_python 6 ''V'' True) (\<lambda>v1.
            seq (set_all [(''B'', ''y'')]) (\<lambda>_.
            seq (getVar no_python 6 ''OVERRIDES'' True) (\<lambda>os.
            seq (getVar no_python 6 ''V'' True) (\<lambda>v2. ret (v1, os, v2))))))) =
   Some (Inr (Some (Text ''old''), Some (Text ''y''), Some (Text ''old'')))"
  by code_simp

text \<open>An override without a letter is registered but not removed when its variable is deleted.\<close>

lemma digit_override_stays:
  "outcome (seq (set_all [(''V:64'', ''x'')]) (\<lambda>_.
            seq (change (delVar ''V:64'')) (\<lambda>_. reading (\<lambda>s. ret (overridedata s))))) =
   Some (Inr [(''V'', [(''V:64'', ''64'')])])"
  by code_simp

text \<open>The cache does not know how a value was read: the answer without the weak default is kept.\<close>

lemma weak_default_lost:
  "outcome (seq (setVarFlag no_python 6 ''V'' ''_defaultval'' (Text ''d'')) (\<lambda>_.
            seq (getVarFlag no_python 6 ''V'' ''_content'' True True False False) (\<lambda>_. getVar no_python 6 ''V'' True))) =
   Some (Inr None)"
  by code_simp

text \<open>
  When \<open>OVERRIDES\<close> cannot be expanded the store keeps saying that the overrides are being worked
  out: once the variable at fault is mended, every variable with overrides raises a type error.
\<close>

definition broken_overrides :: "unit data" where
  "broken_overrides =
     seq (set_all [(''OVERRIDES'', ''${A}''), (''V:x'', ''o'')]) (\<lambda>_.
     seq (catch (set_all [(''A'', ''${A}'')]) (\<lambda>_. ret ())) (\<lambda>_.
     catch (seq (getVar no_python 6 ''V'' True) (\<lambda>_. ret ())) (\<lambda>_. ret ())))"

lemma overrides_stuck:
  "outcome (seq broken_overrides (\<lambda>_. seq (set_all [(''A'', ''x'')]) (\<lambda>_. getVar no_python 6 ''V'' True))) =
     Some (Inl TypeError)"
  by code_simp

end
