(* ===== verification/VarDeps.thy ===== *)
theory VarDeps
  imports DataLaws
begin

text \<open>
  The variables a task depends on and the base hash of a task: \<open>build_dependencies\<close>,
  \<open>generate_dependencies\<close> and \<open>generate_dependency_hash\<close> of \<open>bb/data.py\<close>.

  What \<open>bb.codeparser\<close> finds in shell code and in the code of a Python function, the text
  \<open>str\<close> gives for a value that is not a string, and SHA-256 are parameters.
\<close>

record scanner =
  scan_shell :: "dval option \<Rightarrow> string list result"
  scan_function :: "dval option \<Rightarrow> (string list \<times> string list \<times> contains_map) result"
  str_of :: "dval \<Rightarrow> string"

fun py_str :: "scanner \<Rightarrow> dval \<Rightarrow> string" where
  "py_str C (Text t) = t"
| "py_str C v = str_of C v"

subsection \<open>What one variable depends on\<close>

definition words_of :: "dval option \<Rightarrow> string list result" where
  "words_of v =
     (case v of
        None \<Rightarrow> Inr []
      | Some (Text t) \<Rightarrow> Inr (split_ws t)
      | Some w \<Rightarrow> Inl AttributeError)"

text \<open>\<open>(v or "").split()\<close>.\<close>

definition true_words :: "dval option \<Rightarrow> string list result" where
  "true_words v = (if is_true v then words_of v else Inr [])"

definition contains_line :: "string list \<Rightarrow> string \<Rightarrow> string \<Rightarrow> string" where
  "contains_line l k item =
     newline # k @ ''{'' @ item @ ''}'' @ (if set (split_ws item) \<subseteq> set l then '' = Set'' else '' = Unset'')"

definition handle_contains :: "python \<Rightarrow> nat \<Rightarrow> scanner \<Rightarrow> string list \<Rightarrow> dval option \<Rightarrow> contains_map
    \<Rightarrow> string list \<Rightarrow> string data" where
  "handle_contains E n C ignored_vars value contains exclusions =
     loop (\<lambda>k newvalue.
       if k \<in> set exclusions \<or> k \<in> set ignored_vars then ret newvalue
       else seq (getVar E n k True) (\<lambda>v.
            seq (of_result (true_words v)) (\<lambda>l.
              ret (newvalue @ concat (map (contains_line l k) (sort (dict_get_or [] contains k)))))))
       (sort (dict_keys contains))
       (case value of None \<Rightarrow> [] | Some v \<Rightarrow> if truthy v then py_str C v else [])"

text \<open>
  \<open>deps |= r2.references\<close> changes the set of the caller; the assignment after it makes a set of
  its own, so of the removed values only the first adds to the dependencies.
\<close>

definition removed_texts :: "dval list \<Rightarrow> string list result" where
  "removed_texts rs = foldE (\<lambda>r acc. case r of Text t \<Rightarrow> Inr (acc @ [t]) | _ \<Rightarrow> Inl TypeError) rs []"

definition handle_remove :: "python \<Rightarrow> nat \<Rightarrow> string \<Rightarrow> string list \<Rightarrow> dval list \<Rightarrow> (string \<times> string list) data" where
  "handle_remove E n value deps rs0 =
     seq (of_result (removed_texts rs0)) (\<lambda>rs.
     seq (loop (\<lambda>r (value, deps, first).
            seq (expandWithRefs E n (getVarFlag E n) (Some (Text r)) []) (\<lambda>r2.
              ret (value @ newline # ''_remove of '' @ r,
                   if first then set_union deps (references r2) else deps, False)))
          (sort rs) (value, deps, True)) (\<lambda>(value, deps, _). ret (value, deps)))"

definition with_removes :: "python \<Rightarrow> nat \<Rightarrow> string \<Rightarrow> string list \<Rightarrow> vparse \<Rightarrow> (string \<times> string list) data" where
  "with_removes E n value deps p =
     (case removes p of None \<Rightarrow> ret (value, deps) | Some rs \<Rightarrow> handle_remove E n value deps rs)"

text \<open>A call with \<open>retparser\<close>; unpacking another answer is a type error.\<close>

definition parsed_flag :: "python \<Rightarrow> nat \<Rightarrow> string \<Rightarrow> string \<Rightarrow> (dval option \<times> vparse) data" where
  "parsed_flag E n var flag =
     seq (getVarFlag E n var flag False False False True) (\<lambda>(v, p).
       case p of None \<Rightarrow> throw TypeError | Some q \<Rightarrow> ret (v, q))"

definition flag_dependencies :: "python \<Rightarrow> nat \<Rightarrow> string list \<Rightarrow> string \<Rightarrow> (string list \<times> dval option) data" where
  "flag_dependencies E n keys key =
     (case split_on CHR ''['' (butlast key) of
        var # flag # _ \<Rightarrow>
          if flag = ''vardepvalueexclude'' then ret ([], Some (Text []))
          else seq (parsed_flag E n var flag) (\<lambda>(value, p).
               ret (set_union (references p) (set_inter keys (execs p)), value))
      | _ \<Rightarrow> throw IndexError)"

definition extra_words :: "flags \<Rightarrow> string \<Rightarrow> string list \<Rightarrow> string list data" where
  "extra_words varflags flag deps =
     (case map_of varflags flag of
        None \<Rightarrow> ret deps
      | Some v \<Rightarrow> seq (of_result (words_of (Some v))) (\<lambda>ws. ret (set_union deps ws)))"

definition function_dependencies :: "python \<Rightarrow> nat \<Rightarrow> scanner \<Rightarrow> string list \<Rightarrow> string list \<Rightarrow> string list
    \<Rightarrow> string \<Rightarrow> flags \<Rightarrow> string list \<Rightarrow> (string list \<times> dval option) data" where
  "function_dependencies E n C keys shelldeps ignored_vars key varflags exclusions =
     seq (if is_true (map_of varflags ''python'') then
            seq (get_flag (getVarFlag E n) key ''_content'' False) (\<lambda>value.
            seq (of_result (scan_function C value)) (\<lambda>(refs, calls, tests).
            seq (handle_contains E n C ignored_vars value tests exclusions) (\<lambda>value.
              ret (value, set_union refs (set_inter keys calls)))))
          else
            seq (parsed_flag E n key ''_content'') (\<lambda>(value, p).
            seq (of_result (scan_shell C (pvalue p))) (\<lambda>calls.
            let deps = set_union (set_union (set_union shelldeps (references p))
                         (set_inter keys calls)) (set_inter keys (execs p)) in
            seq (handle_contains E n C ignored_vars value (contains_items p) exclusions) (\<lambda>value.
            with_removes E n value deps p)))) (\<lambda>(value, deps).
     seq (extra_words varflags ''prefuncs'' deps) (\<lambda>deps.
     seq (extra_words varflags ''postfuncs'' deps) (\<lambda>deps.
     seq (extra_words varflags ''exports'' deps) (\<lambda>deps. ret (deps, Some (Text value))))))"

definition plain_dependencies :: "python \<Rightarrow> nat \<Rightarrow> scanner \<Rightarrow> string list \<Rightarrow> string list \<Rightarrow> string
    \<Rightarrow> string list \<Rightarrow> (string list \<times> dval option) data" where
  "plain_dependencies E n C keys ignored_vars key exclusions =
     seq (parsed_flag E n key ''_content'') (\<lambda>(value, p).
     seq (handle_contains E n C ignored_vars value (contains_items p) exclusions) (\<lambda>value.
     seq (with_removes E n value (set_union (references p) (set_inter keys (execs p))) p) (\<lambda>(value, deps).
       ret (deps, Some (Text value)))))"

definition strip_excluded :: "flags \<Rightarrow> dval option \<Rightarrow> dval option data" where
  "strip_excluded varflags value =
     (case map_of varflags ''vardepvalueexclude'' of
        None \<Rightarrow> ret value
      | Some (Text exclude) \<Rightarrow>
          loop (\<lambda>excl value.
            if excl = [] then ret value
            else case value of
                   Some (Text t) \<Rightarrow> ret (Some (Text (replace_all excl [] t)))
                 | _ \<Rightarrow> throw AttributeError) (split_on CHR ''|'' exclude) value
      | Some _ \<Rightarrow> throw AttributeError)"

text \<open>\<open>f not in varflagsexcl\<close> looks for the flag inside the string.\<close>

definition flag_deps :: "string \<Rightarrow> dval option \<Rightarrow> flags \<Rightarrow> string list data" where
  "flag_deps key varflagsexcl varflags =
     (if \<not> is_true varflagsexcl then ret []
      else case varflagsexcl of
        Some (Text excl) \<Rightarrow>
          ret (map (\<lambda>f. key @ ''['' @ f @ '']'') (filter (\<lambda>f. \<not> str_in f excl) (dict_keys varflags)))
      | _ \<Rightarrow> throw TypeError)"

definition expanded_flags :: "string list" where
  "expanded_flags = [''vardeps'', ''vardepvalue'', ''vardepsexclude'', ''exports'', ''postfuncs'',
     ''prefuncs'', ''lineno'', ''filename'']"

definition build_dependencies :: "python \<Rightarrow> nat \<Rightarrow> scanner \<Rightarrow> string list \<Rightarrow> string list \<Rightarrow> dval option
    \<Rightarrow> string list \<Rightarrow> string \<Rightarrow> (string list \<times> dval option) data" where
  "build_dependencies E n C keys shelldeps varflagsexcl ignored_vars key =
     (if key = [] then throw IndexError
      else if last key = CHR '']'' then flag_dependencies E n keys key
      else
        seq (getVarFlags E n key expanded_flags False) (\<lambda>fl.
        let varflags = (case fl of None \<Rightarrow> [] | Some l \<Rightarrow> l); vardeps = map_of varflags ''vardeps'' in
        seq (of_result (words_of (map_of varflags ''vardepsexclude''))) (\<lambda>exclusions.
        seq (case map_of varflags ''vardepvalue'' of
               Some v \<Rightarrow> ret ([], Some v)
             | None \<Rightarrow>
                 if is_true (map_of varflags ''func'')
                 then function_dependencies E n C keys shelldeps ignored_vars key varflags exclusions
                 else plain_dependencies E n C keys ignored_vars key exclusions) (\<lambda>(deps, value).
        seq (strip_excluded varflags value) (\<lambda>value.
        seq (flag_deps key varflagsexcl varflags) (\<lambda>varfdeps.
        seq (of_result (true_words vardeps)) (\<lambda>ws.
          ret (set_diff (set_union (set_union deps varfdeps) ws) exclusions, value))))))))"

subsection \<open>The dependencies of all tasks\<close>

text \<open>
  \<open>generate_dependencies\<close> follows the dependencies of each task through the variables that are
  not ignored. \<open>n\<close> also bounds its rounds: how many names there are is only known at the end.
\<close>

type_synonym dep_tables = "(string, string list) dict \<times> (string, dval option) dict"

definition visit_dep :: "(string \<Rightarrow> (string list \<times> dval option) data) \<Rightarrow> string
    \<Rightarrow> dep_tables \<times> string list \<Rightarrow> (dep_tables \<times> string list) data" where
  "visit_dep bd dep = (\<lambda>((deps, values), newdeps).
     case map_of deps dep of
       Some ds \<Rightarrow> ret ((deps, values), set_union newdeps ds)
     | None \<Rightarrow> seq (bd dep) (\<lambda>(ds, v).
         ret ((dict_set dep ds deps, dict_set dep v values), set_union newdeps ds)))"

primrec follow_deps :: "(string \<Rightarrow> (string list \<times> dval option) data) \<Rightarrow> string list \<Rightarrow> nat
    \<Rightarrow> string list \<Rightarrow> string list \<Rightarrow> dep_tables \<Rightarrow> dep_tables data" where
  "follow_deps bd ignored 0 newdeps seen tabs = no_fuel"
| "follow_deps bd ignored (Suc k) newdeps seen tabs =
     (if newdeps = [] then ret tabs
      else let nextdeps = set_diff newdeps ignored; seen' = set_union seen nextdeps in
        seq (loop (visit_dep bd) nextdeps (tabs, [])) (\<lambda>(tabs', new).
          follow_deps bd ignored k (set_diff new seen') seen' tabs'))"

definition task_dependencies :: "(string \<Rightarrow> (string list \<times> dval option) data) \<Rightarrow> string list \<Rightarrow> nat
    \<Rightarrow> string list \<Rightarrow> dep_tables data" where
  "task_dependencies bd ignored k tasklist =
     loop (\<lambda>task (deps, values).
       seq (bd task) (\<lambda>(ds, v).
         follow_deps bd ignored k ds [] (dict_set task ds deps, dict_set task v values))) tasklist ([], [])"

definition shell_exports :: "python \<Rightarrow> nat \<Rightarrow> string list data" where
  "shell_exports E n =
     seq (getVar E n ''__exportlist'' False) (\<lambda>v.
     seq (of_result (name_list v)) (\<lambda>names.
     loop (\<lambda>key acc.
       seq (get_flag (getVarFlag E n) key ''export'' False) (\<lambda>e.
       seq (if is_true e then get_flag (getVarFlag E n) key ''unexport'' False else ret None) (\<lambda>u.
         ret (if is_true e \<and> \<not> is_true u then set_add key acc else acc)))) names []))"

definition generate_dependencies :: "python \<Rightarrow> nat \<Rightarrow> scanner \<Rightarrow> string list \<Rightarrow> (string list \<times> dep_tables) data" where
  "generate_dependencies E n C ignored_vars =
     seq (iter_keys E n) (\<lambda>names.
     seq (shell_exports E n) (\<lambda>shelldeps.
     seq (getVar E n ''BB_SIGNATURE_EXCLUDE_FLAGS'' True) (\<lambda>varflagsexcl.
     seq (getVar E n ''__BBTASKS'' False) (\<lambda>tasks.
     seq (of_result (if is_true tasks then name_list tasks else Inr [])) (\<lambda>tasklist.
     let keys = filter (\<lambda>key. \<not> startswith key ''__'') names in
     seq (task_dependencies (build_dependencies E n C keys shelldeps varflagsexcl ignored_vars)
            ignored_vars n tasklist) (\<lambda>tabs.
       ret (tasklist, tabs)))))))"

subsection \<open>Base hashes\<close>

definition gather_dep :: "string list \<Rightarrow> string \<Rightarrow> (string, string list) dict \<times> string list
    \<Rightarrow> ((string, string list) dict \<times> string list) result" where
  "gather_dep ignored dep = (\<lambda>(gendeps, newdeps).
     if dep \<in> set ignored then Inr (gendeps, newdeps)
     else bindE (dict_get gendeps dep) (\<lambda>ds. let ds' = set_diff ds ignored in
       Inr (dict_set dep ds' gendeps, set_union newdeps ds')))"

fun gather_loop :: "nat \<Rightarrow> string list \<Rightarrow> string list \<Rightarrow> string list \<Rightarrow> (string, string list) dict
    \<Rightarrow> ((string, string list) dict \<times> string list) result option" where
  "gather_loop 0 ignored newdeps seen gendeps = None"
| "gather_loop (Suc k) ignored newdeps seen gendeps =
     (if newdeps = [] then Some (Inr (gendeps, seen))
      else let seen' = set_union seen newdeps in
        case foldE (gather_dep ignored) newdeps (gendeps, []) of
          Inl e \<Rightarrow> Some (Inl e)
        | Inr (gendeps', new) \<Rightarrow> gather_loop k ignored (set_diff new seen') seen' gendeps')"

definition gather_fuel :: "(string, string list) dict \<Rightarrow> nat" where
  "gather_fuel gendeps = length gendeps + 2"

text \<open>What is hashed: the value of the task, then each dependency with its value.\<close>

definition first_data :: "dval option \<Rightarrow> string result" where
  "first_data v = (case v of None \<Rightarrow> Inr [] | Some (Text t) \<Rightarrow> Inr t | Some _ \<Rightarrow> Inl TypeError)"

definition dep_data :: "scanner \<Rightarrow> (string, dval option) dict \<Rightarrow> string \<Rightarrow> string result" where
  "dep_data C lookupcache dep =
     bindE (dict_get lookupcache dep) (\<lambda>var. Inr (dep @ (case var of None \<Rightarrow> [] | Some v \<Rightarrow> py_str C v)))"

definition hash_input :: "scanner \<Rightarrow> (string, dval option) dict \<Rightarrow> string \<Rightarrow> string list \<Rightarrow> string result" where
  "hash_input C lookupcache task alldeps =
     bindE (dict_get lookupcache task) (\<lambda>v.
     bindE (foldE (\<lambda>dep acc. bindE (dep_data C lookupcache dep) (\<lambda>t. Inr (acc @ t))) alldeps []) (\<lambda>rest.
     bindE (first_data v) (\<lambda>t. Inr (t @ rest))))"

type_synonym hash_tables = "(string, string list) dict \<times> (string, string list) dict \<times> (string, string) dict"

definition hash_one_task :: "scanner \<Rightarrow> (string \<Rightarrow> string) \<Rightarrow> (string, dval option) dict \<Rightarrow> string list \<Rightarrow> string
    \<Rightarrow> string \<Rightarrow> hash_tables \<Rightarrow> hash_tables result option" where
  "hash_one_task C sha256 lookupcache ignored fn task = (\<lambda>(gendeps, taskdeps, basehash).
     case bindE (dict_get lookupcache task) (\<lambda>_. dict_get gendeps task) of
       Inl e \<Rightarrow> Some (Inl e)
     | Inr ds \<Rightarrow>
         let ds' = set_diff ds ignored; gendeps1 = dict_set task ds' gendeps in
         case gather_loop (gather_fuel gendeps1) ignored ds' [] gendeps1 of
           None \<Rightarrow> None
         | Some (Inl e) \<Rightarrow> Some (Inl e)
         | Some (Inr (gendeps2, seen)) \<Rightarrow>
             let alldeps = sort seen in
             Some (bindE (hash_input C lookupcache task alldeps) (\<lambda>data.
               Inr (gendeps2, dict_set task alldeps taskdeps,
                    dict_set (fn @ '':'' @ task) (sha256 data) basehash))))"

fun hash_each_task :: "scanner \<Rightarrow> (string \<Rightarrow> string) \<Rightarrow> (string, dval option) dict \<Rightarrow> string list \<Rightarrow> string
    \<Rightarrow> string list \<Rightarrow> hash_tables \<Rightarrow> hash_tables result option" where
  "hash_each_task C sha256 lookupcache ignored fn [] tabs = Some (Inr tabs)"
| "hash_each_task C sha256 lookupcache ignored fn (task # tasks) tabs =
     (case hash_one_task C sha256 lookupcache ignored fn task tabs of
        None \<Rightarrow> None
      | Some (Inl e) \<Rightarrow> Some (Inl e)
      | Some (Inr tabs') \<Rightarrow> hash_each_task C sha256 lookupcache ignored fn tasks tabs')"

definition generate_dependency_hash :: "scanner \<Rightarrow> (string \<Rightarrow> string) \<Rightarrow> string list
    \<Rightarrow> (string, string list) dict \<Rightarrow> (string, dval option) dict \<Rightarrow> string list \<Rightarrow> string
    \<Rightarrow> hash_tables result option" where
  "generate_dependency_hash C sha256 tasklist gendeps lookupcache ignored fn =
     hash_each_task C sha256 lookupcache ignored fn tasklist (gendeps, [], [])"

subsection \<open>What the gathering finds\<close>

definition kept_deps :: "string list \<Rightarrow> (string, string list) dict \<Rightarrow> string \<Rightarrow> string set" where
  "kept_deps ignored gendeps a = set (dict_get_or [] gendeps a) - set ignored"

definition dep_edges :: "string list \<Rightarrow> (string, string list) dict \<Rightarrow> (string \<times> string) set" where
  "dep_edges ignored gendeps = {(a, b). b \<in> kept_deps ignored gendeps a}"

text \<open>The tables agree on what is kept: gathering only drops ignored names.\<close>

definition same_kept :: "string list \<Rightarrow> (string, string list) dict \<Rightarrow> (string, string list) dict \<Rightarrow> bool" where
  "same_kept ignored g h \<longleftrightarrow> kept_deps ignored g = kept_deps ignored h \<and> fst ` set g = fst ` set h"

lemma same_kept_refl [simp]: "same_kept ignored g g"
  by (simp add: same_kept_def)

lemma same_kept_trans: "same_kept ignored g h \<Longrightarrow> same_kept ignored h k \<Longrightarrow> same_kept ignored g k"
  by (simp add: same_kept_def)

lemma same_kept_drop:
  "map_of g a = Some ds \<Longrightarrow> same_kept ignored (dict_set a (set_diff ds ignored) g) g"
  using map_of_in_keys [of g a]
  by (auto simp: same_kept_def kept_deps_def fst_set_keys dict_get_or_def fun_eq_iff)

lemma gather_deps:
  assumes "set ds \<inter> set ignored = {}"
  shows "(\<exists>g' new'. foldE (gather_dep ignored) ds (g, new) = Inr (g', new') \<and> same_kept ignored g' g
      \<and> set new' = set new \<union> (\<Union>a \<in> set ds. kept_deps ignored g a) \<and> set ds \<subseteq> fst ` set g)
    \<or> (foldE (gather_dep ignored) ds (g, new) = Inl KeyError \<and> \<not> set ds \<subseteq> fst ` set g)"
  using assms
proof (induction ds arbitrary: g new)
  case (Cons d ds)
  from Cons.prems have d: "d \<notin> set ignored" and ds: "set ds \<inter> set ignored = {}" by auto
  show ?case
  proof (cases "map_of g d")
    case None
    then have "d \<notin> fst ` set g" by (simp add: map_of_eq_None_iff)
    with None d show ?thesis by (simp add: gather_dep_def dict_get_def)
  next
    case (Some xs)
    let ?g = "dict_set d (set_diff xs ignored) g"
    have s: "same_kept ignored ?g g" by (rule same_kept_drop [OF Some])
    have mem: "d \<in> fst ` set g" using map_of_in_keys [OF Some] by simp
    have k: "kept_deps ignored g d = set (set_diff xs ignored)"
      using Some by (simp add: kept_deps_def dict_get_or_def)
    have step: "foldE (gather_dep ignored) (d # ds) (g, new) =
        foldE (gather_dep ignored) ds (?g, set_union new (set_diff xs ignored))"
      using Some d by (simp add: gather_dep_def dict_get_def Let_def)
    show ?thesis
      unfolding step
      using Cons.IH [OF ds, of ?g "set_union new (set_diff xs ignored)"] s mem k
      by (auto simp: same_kept_def)
  qed
qed simp

lemma gather_loop_exact:
  assumes "set new \<inter> set ignored = {}" and "set new \<inter> set seen = {}"
    and "\<forall>a \<in> set seen. kept_deps ignored g a \<subseteq> set seen \<union> set new"
    and "set seen \<subseteq> fst ` set g"
    and "card (fst ` set g - set seen) + 2 \<le> k" and "distinct seen"
  defines "reach \<equiv> set seen \<union> (dep_edges ignored g)\<^sup>* `` set new"
  shows "(\<exists>g' seen'. gather_loop k ignored new seen g = Some (Inr (g', seen')) \<and> same_kept ignored g' g
      \<and> set seen' = reach \<and> distinct seen' \<and> reach \<subseteq> fst ` set g)
    \<or> (gather_loop k ignored new seen g = Some (Inl KeyError) \<and> \<not> reach \<subseteq> fst ` set g)"
  using assms(1-6) unfolding reach_def
proof (induction k arbitrary: new seen g)
  case (Suc k)
  show ?case
  proof (cases "new = []")
    case True
    then show ?thesis using Suc.prems by simp
  next
    case False
    let ?E = "dep_edges ignored g"
    let ?seen = "set_union seen new"
    consider (ok) g' new' where "foldE (gather_dep ignored) new (g, []) = Inr (g', new')" "same_kept ignored g' g"
        "set new' = (\<Union>a \<in> set new. kept_deps ignored g a)" "set new \<subseteq> fst ` set g"
      | (err) "foldE (gather_dep ignored) new (g, []) = Inl KeyError" "\<not> set new \<subseteq> fst ` set g"
      using gather_deps [OF Suc.prems(1), of g "[]"] by auto
    then show ?thesis
    proof cases
      case err
      then show ?thesis using False by (auto simp: Let_def)
    next
      case ok
      let ?new = "set_diff new' ?seen"
      have E: "dep_edges ignored g' = ?E" and K: "fst ` set g' = fst ` set g"
        and kept: "kept_deps ignored g' = kept_deps ignored g"
        using ok(2) by (simp_all add: same_kept_def dep_edges_def)
      have less: "card (fst ` set g - set ?seen) < card (fst ` set g - set seen)"
        using False ok(4) Suc.prems(2) by (intro psubset_card_mono) (auto simp: neq_Nil_conv)
      have run: "gather_loop (Suc k) ignored new seen g = gather_loop k ignored ?new ?seen g'"
        using False ok(1) by (simp add: Let_def)
      have reach: "set ?seen \<union> ?E\<^sup>* `` set ?new = set seen \<union> ?E\<^sup>* `` set new"
      proof (intro equalityI subsetI)
        fix x assume "x \<in> set ?seen \<union> ?E\<^sup>* `` set ?new"
        moreover have "b \<in> ?E `` set new" if "b \<in> set ?new" for b
          using that ok(3) by (auto simp: dep_edges_def)
        ultimately show "x \<in> set seen \<union> ?E\<^sup>* `` set new"
          by (auto intro: converse_rtrancl_into_rtrancl)
      next
        fix x assume "x \<in> set seen \<union> ?E\<^sup>* `` set new"
        moreover have "x \<in> set ?seen \<union> ?E\<^sup>* `` set ?new" if "a \<in> set new" "(a, x) \<in> ?E\<^sup>*" for a
          using that(2)
        proof (induction rule: rtrancl_induct)
          case base
          then show ?case using that(1) by simp
        next
          case (step y z)
          then have z: "z \<in> kept_deps ignored g y" by (simp add: dep_edges_def)
          from step.IH show ?case
          proof (elim UnE)
            assume "y \<in> set ?seen"
            then show ?thesis using z Suc.prems(3) ok(3) by auto
          next
            assume "y \<in> ?E\<^sup>* `` set ?new"
            then show ?thesis using step.hyps(2) by (auto intro: rtrancl_into_rtrancl)
          qed
        qed
        ultimately show "x \<in> set ?seen \<union> ?E\<^sup>* `` set ?new" by auto
      qed
      have n1: "set ?new \<inter> set ignored = {}" using ok(3) by (auto simp: kept_deps_def)
      have n2: "set ?new \<inter> set ?seen = {}" by auto
      have n3: "\<forall>a \<in> set ?seen. kept_deps ignored g' a \<subseteq> set ?seen \<union> set ?new"
        using Suc.prems(3) ok(3) kept by auto
      have n4: "set ?seen \<subseteq> fst ` set g'" using Suc.prems(4) ok(4) K by simp
      have n5: "card (fst ` set g' - set ?seen) + 2 \<le> k" using less Suc.prems(5) K by simp
      have n6: "distinct ?seen" using Suc.prems(6) by simp
      show ?thesis
        unfolding run using Suc.IH [OF n1 n2 n3 n4 n5 n6] ok(2) unfolding E K reach
        by (elim disjE exE conjE) (blast intro: same_kept_trans)+
    qed
  qed
qed simp

definition reached :: "string list \<Rightarrow> (string, string list) dict \<Rightarrow> string \<Rightarrow> string set" where
  "reached ignored gendeps task = (dep_edges ignored gendeps)\<^sup>+ `` {task}"

lemma reached_kept: "reached ignored g task = (dep_edges ignored g)\<^sup>* `` kept_deps ignored g task"
  by (auto simp: reached_def dep_edges_def dest: tranclD intro: rtrancl_into_trancl2)

lemma same_kept_reached: "same_kept ignored g h \<Longrightarrow> reached ignored g = reached ignored h"
  by (simp add: same_kept_def reached_def dep_edges_def fun_eq_iff)

lemma gather_task:
  fixes ds :: "string list" and task :: string and ignored :: "string list"
  defines "g1 \<equiv> dict_set task (set_diff ds ignored)"
  assumes "map_of g task = Some ds"
  shows "(\<exists>g' seen. gather_loop (gather_fuel (g1 g)) ignored (set_diff ds ignored) [] (g1 g) = Some (Inr (g', seen))
      \<and> same_kept ignored g' g \<and> set seen = reached ignored g task \<and> distinct seen
      \<and> reached ignored g task \<subseteq> fst ` set g)
    \<or> (gather_loop (gather_fuel (g1 g)) ignored (set_diff ds ignored) [] (g1 g) = Some (Inl KeyError)
      \<and> \<not> reached ignored g task \<subseteq> fst ` set g)"
proof -
  have s: "same_kept ignored (g1 g) g" unfolding g1_def by (rule same_kept_drop [OF assms(2)])
  then have E: "dep_edges ignored (g1 g) = dep_edges ignored g" and K: "fst ` set (g1 g) = fst ` set g"
    by (simp_all add: same_kept_def dep_edges_def)
  have "card (fst ` set (g1 g)) \<le> length (g1 g)"
    by (metis card_length length_map list.set_map)
  then have f: "card (fst ` set (g1 g) - set []) + 2 \<le> gather_fuel (g1 g)"
    by (simp add: gather_fuel_def)
  have r: "set [] \<union> (dep_edges ignored g)\<^sup>* `` set (set_diff ds ignored) = reached ignored g task"
    unfolding reached_kept using assms(2) by (simp add: kept_deps_def dict_get_or_def)
  have d: "set (set_diff ds ignored) \<inter> set ignored = {}" by auto
  have n: "\<forall>a \<in> set []. kept_deps ignored (g1 g) a \<subseteq> set [] \<union> set (set_diff ds ignored)"
      "set (set_diff ds ignored) \<inter> set [] = {}" "set [] \<subseteq> fst ` set (g1 g)" "distinct ([] :: string list)"
    by simp_all
  show ?thesis
    using gather_loop_exact [OF d n(2) n(1) n(3) f n(4)] s
    unfolding E K r by (elim disjE exE conjE) (blast intro: same_kept_trans)+
qed

lemma foldE_no_key_error:
  assumes "\<forall>d \<in> set ds. d \<in> fst ` set lookupcache"
  shows "\<exists>t. foldE (\<lambda>dep acc. bindE (dep_data C lookupcache dep) (\<lambda>t. Inr (acc @ t))) ds acc = Inr t"
  using assms
proof (induction ds arbitrary: acc)
  case (Cons d ds)
  then obtain v where "map_of lookupcache d = Some v"
    using map_of_None_iff [of lookupcache d] by (cases "map_of lookupcache d") auto
  with Cons show ?case by (simp add: dep_data_def dict_get_def)
qed simp

lemma hash_input_no_key_error:
  assumes "task \<in> fst ` set lookupcache" and "\<forall>d \<in> set ds. d \<in> fst ` set lookupcache"
  shows "hash_input C lookupcache task ds \<noteq> Inl KeyError"
proof -
  obtain v where "map_of lookupcache task = Some v"
    using assms(1) map_of_None_iff [of lookupcache task] by (cases "map_of lookupcache task") auto
  moreover obtain t where "foldE (\<lambda>dep acc. bindE (dep_data C lookupcache dep) (\<lambda>t. Inr (acc @ t))) ds [] = Inr t"
    using foldE_no_key_error [OF assms(2)] by blast
  ultimately show ?thesis
    by (auto simp: hash_input_def dict_get_def first_data_def split: option.splits dval.splits)
qed

lemma hash_one_task_result:
  "\<exists>r. hash_one_task C sha256 lookupcache ignored fn task (g, td, bh) = Some r
    \<and> (r = Inl KeyError \<longrightarrow> \<not> insert task (reached ignored g task) \<subseteq> fst ` set g \<inter> fst ` set lookupcache)
    \<and> (\<forall>g' td' bh'. r = Inr (g', td', bh') \<longrightarrow> same_kept ignored g' g
         \<and> (\<exists>ds. td' = dict_set task ds td \<and> sorted ds \<and> distinct ds \<and> set ds = reached ignored g task))"
proof (cases "map_of lookupcache task = None \<or> map_of g task = None")
  case True
  then have e: "bindE (dict_get lookupcache task) (\<lambda>_. dict_get g task) = Inl KeyError"
    by (auto simp: dict_get_def split: option.split)
  have "\<not> (task \<in> fst ` set g \<and> task \<in> fst ` set lookupcache)"
    using True map_of_None_iff [of g task] map_of_None_iff [of lookupcache task] by auto
  then show ?thesis by (auto simp: hash_one_task_def e)
next
  case False
  then obtain v ds where v: "map_of lookupcache task = Some v" and ds: "map_of g task = Some ds" by auto
  let ?g = "dict_set task (set_diff ds ignored) g"
  have mem: "task \<in> fst ` set lookupcache" using map_of_in_keys [OF v] by simp
  from gather_task [OF ds, of ignored] show ?thesis
  proof (elim disjE exE conjE)
    fix g' seen
    assume run: "gather_loop (gather_fuel ?g) ignored (set_diff ds ignored) [] ?g = Some (Inr (g', seen))"
      and a: "same_kept ignored g' g" "set seen = reached ignored g task" "distinct seen"
        "reached ignored g task \<subseteq> fst ` set g"
    have "hash_input C lookupcache task (sort seen) \<noteq> Inl KeyError"
      if "insert task (reached ignored g task) \<subseteq> fst ` set lookupcache"
      using hash_input_no_key_error [OF mem, of "sort seen"] that a(2) by auto
    then show ?thesis
      using run a v ds
      by (cases "hash_input C lookupcache task (sort seen)") (auto simp: hash_one_task_def dict_get_def Let_def)
  next
    assume "gather_loop (gather_fuel ?g) ignored (set_diff ds ignored) [] ?g = Some (Inl KeyError)"
      and "\<not> reached ignored g task \<subseteq> fst ` set g"
    then show ?thesis using v ds by (auto simp: hash_one_task_def dict_get_def Let_def)
  qed
qed

definition tasks_result :: "(string, dval option) dict \<Rightarrow> string list \<Rightarrow> string list \<Rightarrow> (string, string list) dict
    \<Rightarrow> (string, string list) dict \<Rightarrow> hash_tables result \<Rightarrow> bool" where
  "tasks_result lookupcache ignored tasks g td r \<longleftrightarrow>
     (r = Inl KeyError \<longrightarrow>
        (\<exists>task \<in> set tasks. \<not> insert task (reached ignored g task) \<subseteq> fst ` set g \<inter> fst ` set lookupcache))
   \<and> (\<forall>g' td' bh'. r = Inr (g', td', bh') \<longrightarrow> same_kept ignored g' g
         \<and> (\<forall>task. task \<notin> set tasks \<longrightarrow> map_of td' task = map_of td task)
         \<and> (\<forall>task \<in> set tasks. \<exists>ds. map_of td' task = Some ds \<and> sorted ds \<and> distinct ds
              \<and> set ds = reached ignored g task))"

lemma tasks_result_step:
  assumes "same_kept ignored g1 g" and "td1 = dict_set task ds td"
    and "sorted ds" "distinct ds" "set ds = reached ignored g task"
    and "tasks_result lookupcache ignored tasks g1 td1 r"
  shows "tasks_result lookupcache ignored (task # tasks) g td r"
proof -
  have R: "reached ignored g1 = reached ignored g" by (rule same_kept_reached [OF assms(1)])
  have K: "fst ` set g1 = fst ` set g" using assms(1) by (simp add: same_kept_def)
  note c = assms(6) [unfolded tasks_result_def R K]
  show ?thesis unfolding tasks_result_def
  proof (intro conjI allI impI)
    assume "r = Inl KeyError"
    with c show "\<exists>t \<in> set (task # tasks). \<not> insert t (reached ignored g t) \<subseteq> fst ` set g \<inter> fst ` set lookupcache"
      by (simp only: list.set bex_simps) simp
  next
    fix g' td' bh' assume e: "r = Inr (g', td', bh')"
    from c e have k: "same_kept ignored g' g1" "\<forall>t. t \<notin> set tasks \<longrightarrow> map_of td' t = map_of td1 t"
      "\<forall>t \<in> set tasks. \<exists>ds. map_of td' t = Some ds \<and> sorted ds \<and> distinct ds \<and> set ds = reached ignored g t"
      by simp_all
    show "same_kept ignored g' g" using k(1) assms(1) by (rule same_kept_trans)
    show "map_of td' t = map_of td t" if "t \<notin> set (task # tasks)" for t
      using that k(2) assms(2) by simp
    show "\<forall>t \<in> set (task # tasks). \<exists>ds. map_of td' t = Some ds \<and> sorted ds \<and> distinct ds \<and> set ds = reached ignored g t"
    proof
      fix t assume "t \<in> set (task # tasks)"
      then show "\<exists>ds. map_of td' t = Some ds \<and> sorted ds \<and> distinct ds \<and> set ds = reached ignored g t"
        using k(2,3) assms(2-5) by (cases "t \<in> set tasks") auto
    qed
  qed
qed

lemma hash_each_task_result:
  "\<exists>r. hash_each_task C sha256 lookupcache ignored fn tasks (g, td, bh) = Some r
    \<and> tasks_result lookupcache ignored tasks g td r"
proof (induction tasks arbitrary: g td bh)
  case Nil
  then show ?case by (simp add: tasks_result_def)
next
  case (Cons task tasks)
  obtain r where r: "hash_one_task C sha256 lookupcache ignored fn task (g, td, bh) = Some r"
      "r = Inl KeyError \<Longrightarrow> \<not> insert task (reached ignored g task) \<subseteq> fst ` set g \<inter> fst ` set lookupcache"
      "\<And>g' td' bh'. r = Inr (g', td', bh') \<Longrightarrow> same_kept ignored g' g
         \<and> (\<exists>ds. td' = dict_set task ds td \<and> sorted ds \<and> distinct ds \<and> set ds = reached ignored g task)"
    using hash_one_task_result [of C sha256 lookupcache ignored fn task g td bh] by blast
  show ?case
  proof (cases r)
    case (Inl e)
    have "tasks_result lookupcache ignored (task # tasks) g td (Inl e)"
      using r(2) Inl by (auto simp: tasks_result_def)
    then show ?thesis using r(1) Inl by simp
  next
    case (Inr q)
    obtain g1 td1 bh1 where q: "q = (g1, td1, bh1)" by (cases q) auto
    obtain ds where s: "same_kept ignored g1 g" and ds: "td1 = dict_set task ds td" "sorted ds" "distinct ds"
        "set ds = reached ignored g task"
      using r(3) Inr q by blast
    obtain r' where "hash_each_task C sha256 lookupcache ignored fn tasks (g1, td1, bh1) = Some r'"
        "tasks_result lookupcache ignored tasks g1 td1 r'"
      using Cons.IH by blast
    then show ?thesis using tasks_result_step [OF s ds] r(1) Inr q by simp
  qed
qed

subsection \<open>The gathered tables are complete\<close>

definition results :: "('a \<Rightarrow> bool) \<Rightarrow> 'a data \<Rightarrow> bool" where
  "results Q m \<longleftrightarrow> (\<forall>s x s'. m s = Some (Inr x, s') \<longrightarrow> Q x)"

lemma results_D: "results Q m \<Longrightarrow> m s = Some (Inr x, s') \<Longrightarrow> Q x"
  unfolding results_def by blast

lemma results_seq: "(\<And>x. results Q (f x)) \<Longrightarrow> results Q (seq m f)"
  by (auto simp: results_def seq_Inr_iff)

lemma results_seq2: "results R m \<Longrightarrow> (\<And>x. R x \<Longrightarrow> results Q (f x)) \<Longrightarrow> results Q (seq m f)"
  unfolding results_def seq_Inr_iff by blast

lemma results_mono: "results R m \<Longrightarrow> (\<And>x. R x \<Longrightarrow> Q x) \<Longrightarrow> results Q m"
  unfolding results_def by blast

lemma results_ret [simp]: "results Q (ret x) = Q x"
  by (simp add: results_def)

lemma results_loop:
  "Q a \<Longrightarrow> (\<And>x a. x \<in> set xs \<Longrightarrow> Q a \<Longrightarrow> results Q (f x a)) \<Longrightarrow> results Q (loop f xs a)"
proof (induction xs arbitrary: a)
  case (Cons x xs)
  then show ?case by (auto intro!: results_seq2 [where R = Q] simp del: comp_simps)
qed simp

text \<open>\<open>tabs_in K tabs\<close>: both tables have the same names, and what these keep is in \<open>K\<close>.\<close>

definition tabs_in :: "string list \<Rightarrow> string set \<Rightarrow> dep_tables \<Rightarrow> bool" where
  "tabs_in ignored K = (\<lambda>(deps, values). fst ` set values = fst ` set deps
     \<and> (\<forall>a \<in> fst ` set deps. kept_deps ignored deps a \<subseteq> K))"

definition names_in_tabs :: "dep_tables \<Rightarrow> string set" where
  "names_in_tabs tabs = fst ` set (fst tabs)"

lemma tabs_in_add:
  assumes "tabs_in ignored K (deps, values)" and "set ds - set ignored \<subseteq> K"
  shows "tabs_in ignored K (dict_set d ds deps, dict_set d v values)"
proof -
  have "kept_deps ignored (dict_set d ds deps) a \<subseteq> K" if "a \<in> insert d (fst ` set deps)" for a
    using assms that by (cases "a = d") (auto simp: tabs_in_def kept_deps_def)
  then show ?thesis
    using assms(1) unfolding tabs_in_def prod.case fst_set_keys by (intro conjI ballI) simp_all
qed

lemma tabs_in_mono: "tabs_in ignored K tabs \<Longrightarrow> K \<subseteq> L \<Longrightarrow> tabs_in ignored L tabs"
  unfolding tabs_in_def by (cases tabs) auto

lemma visit_deps_result:
  "tabs_in ignored (K \<union> set new) tabs \<Longrightarrow>
   results (\<lambda>(tabs', new'). tabs_in ignored (K \<union> set new') tabs' \<and> set new \<subseteq> set new'
      \<and> names_in_tabs tabs \<union> set ds \<subseteq> names_in_tabs tabs') (loop (visit_dep bd) ds (tabs, new))"
proof (induction ds arbitrary: tabs new)
  case (Cons d ds)
  obtain deps vals where t: "tabs = (deps, vals)" by (cases tabs)
  let ?Q = "\<lambda>(tabs', new'). tabs_in ignored (K \<union> set new') tabs' \<and> set new \<subseteq> set new'
      \<and> insert d (names_in_tabs tabs) \<subseteq> names_in_tabs tabs'"
  have "results ?Q (visit_dep bd d (tabs, new))"
  proof (cases "map_of deps d")
    case None
    have "tabs_in ignored (K \<union> set (set_union new ds)) (dict_set d ds deps, dict_set d v vals)" for ds v
      using Cons.prems unfolding t by (intro tabs_in_add) (auto intro: tabs_in_mono)
    then show ?thesis
      using None t
      by (auto simp: visit_dep_def names_in_tabs_def fst_set_keys simp del: comp_simps intro!: results_seq split: prod.split)
  next
    case (Some xs)
    have "tabs_in ignored (K \<union> set (set_union new xs)) tabs"
      by (rule tabs_in_mono [OF Cons.prems]) auto
    then show ?thesis
      using Some t map_of_in_keys [OF Some] by (auto simp: visit_dep_def names_in_tabs_def simp del: comp_simps)
  qed
  then show ?case
    unfolding loop.simps
  proof (rule results_seq2)
    fix q assume "?Q q"
    then obtain tabs1 new1 where q: "q = (tabs1, new1)" and a: "tabs_in ignored (K \<union> set new1) tabs1"
        "set new \<subseteq> set new1" "insert d (names_in_tabs tabs) \<subseteq> names_in_tabs tabs1"
      by (cases q) auto
    show "results (\<lambda>(tabs', new'). tabs_in ignored (K \<union> set new') tabs' \<and> set new \<subseteq> set new'
      \<and> names_in_tabs tabs \<union> set (d # ds) \<subseteq> names_in_tabs tabs') (loop (visit_dep bd) ds q)"
      unfolding q by (rule results_mono [OF Cons.IH [OF a(1)]]) (use a(2,3) in auto)
  qed
qed (simp del: comp_simps)


lemma follow_deps_result:
  "tabs_in ignored (names_in_tabs tabs \<union> set newdeps) tabs \<Longrightarrow> set seen \<subseteq> names_in_tabs tabs \<Longrightarrow>
   results (\<lambda>tabs'. tabs_in ignored (names_in_tabs tabs') tabs' \<and> names_in_tabs tabs \<subseteq> names_in_tabs tabs')
     (follow_deps bd ignored k newdeps seen tabs)"
proof (induction k arbitrary: newdeps seen tabs)
  case 0
  then show ?case by (simp add: results_def)
next
  case (Suc k)
  show ?case
  proof (cases "newdeps = []")
    case True
    with Suc.prems show ?thesis by (simp del: comp_simps)
  next
    case False
    let ?next = "set_diff newdeps ignored"
    let ?K = "names_in_tabs tabs \<union> set ?next"
    let ?seen = "set_union seen ?next"
    have "tabs_in ignored (?K \<union> set []) tabs"
      using Suc.prems(1) by (cases tabs) (auto simp: tabs_in_def kept_deps_def)
    from visit_deps_result [OF this, of ?next bd]
    have v: "results (\<lambda>(tabs', new'). tabs_in ignored (?K \<union> set new') tabs' \<and> ?K \<subseteq> names_in_tabs tabs')
        (loop (visit_dep bd) ?next (tabs, []))"
      by (rule results_mono) auto
    have step: "follow_deps bd ignored (Suc k) newdeps seen tabs =
        seq (loop (visit_dep bd) ?next (tabs, []))
          (\<lambda>(tabs', new). follow_deps bd ignored k (set_diff new ?seen) ?seen tabs')"
      using False by (simp add: Let_def)
    show ?thesis unfolding step
    proof (rule results_seq2 [OF v])
      fix q
      assume "case q of (tabs', new') \<Rightarrow> tabs_in ignored (?K \<union> set new') tabs' \<and> ?K \<subseteq> names_in_tabs tabs'"
      then obtain tabs' new' where q: "q = (tabs', new')" and a: "tabs_in ignored (?K \<union> set new') tabs'"
          "?K \<subseteq> names_in_tabs tabs'"
        by (cases q) auto
      have s: "set ?seen \<subseteq> names_in_tabs tabs'" using a(2) Suc.prems(2) by auto
      have "tabs_in ignored (names_in_tabs tabs' \<union> set (set_diff new' ?seen)) tabs'"
        by (rule tabs_in_mono [OF a(1)]) (use a(2) s in auto)
      from Suc.IH [OF this s] a(2)
      show "results (\<lambda>tabs'. tabs_in ignored (names_in_tabs tabs') tabs' \<and> names_in_tabs tabs \<subseteq> names_in_tabs tabs')
          (case q of (tabs', new) \<Rightarrow> follow_deps bd ignored k (set_diff new ?seen) ?seen tabs')"
        unfolding q prod.case by (elim results_mono) auto
    qed
  qed
qed

lemma task_dependencies_result:
  "results (\<lambda>tabs. tabs_in ignored (names_in_tabs tabs) tabs \<and> set tasklist \<subseteq> names_in_tabs tabs)
     (task_dependencies bd ignored k tasklist)"
proof -
  have "results (\<lambda>tabs. tabs_in ignored (names_in_tabs tabs) tabs \<and> names_in_tabs tabs0 \<union> set tasklist \<subseteq> names_in_tabs tabs)
      (loop (\<lambda>task (deps, values).
         seq (bd task) (\<lambda>(ds, v).
           follow_deps bd ignored k ds [] (dict_set task ds deps, dict_set task v values))) tasklist tabs0)"
    if "tabs_in ignored (names_in_tabs tabs0) tabs0" for tabs0
    using that
  proof (induction tasklist arbitrary: tabs0)
    case (Cons task tasks)
    obtain deps vals where t: "tabs0 = (deps, vals)" by (cases tabs0)
    have "results (\<lambda>tabs. tabs_in ignored (names_in_tabs tabs) tabs \<and> insert task (names_in_tabs tabs0) \<subseteq> names_in_tabs tabs)
        (follow_deps bd ignored k ds [] (dict_set task ds deps, dict_set task v vals))" for ds v
    proof (rule results_mono [OF follow_deps_result])
      have n: "names_in_tabs (dict_set task ds deps, dict_set task v vals) = insert task (names_in_tabs tabs0)"
        by (simp add: names_in_tabs_def t fst_set_keys)
      show "tabs_in ignored (names_in_tabs (dict_set task ds deps, dict_set task v vals) \<union> set ds)
          (dict_set task ds deps, dict_set task v vals)"
        using Cons.prems unfolding n t by (intro tabs_in_add) (auto intro: tabs_in_mono)
      show "tabs_in ignored (names_in_tabs tabs) tabs \<and> insert task (names_in_tabs tabs0) \<subseteq> names_in_tabs tabs"
        if "tabs_in ignored (names_in_tabs tabs) tabs
          \<and> names_in_tabs (dict_set task ds deps, dict_set task v vals) \<subseteq> names_in_tabs tabs" for tabs
        using that n by simp
    qed simp
    then have s: "results (\<lambda>tabs. tabs_in ignored (names_in_tabs tabs) tabs \<and> insert task (names_in_tabs tabs0) \<subseteq> names_in_tabs tabs)
        (seq (bd task) (\<lambda>(ds, v). follow_deps bd ignored k ds [] (dict_set task ds deps, dict_set task v vals)))"
      by (intro results_seq) (simp split: prod.split)
    show ?case
      unfolding t loop.simps prod.case
      by (rule results_seq2 [OF s]) (auto elim!: results_mono [OF Cons.IH] simp: t)
  qed (simp del: comp_simps)
  from this [of "([], [])"] show ?thesis
    unfolding task_dependencies_def by (rule results_mono) (auto simp: tabs_in_def names_in_tabs_def)
qed

subsection \<open>Ignored variables do not count\<close>

definition agree :: "string list \<Rightarrow> (string, 'a) dict \<Rightarrow> (string, 'a) dict \<Rightarrow> bool" where
  "agree ignored g h \<longleftrightarrow> (\<forall>a. a \<notin> set ignored \<longrightarrow> map_of g a = map_of h a)"

definition agree_gathered :: "string list \<Rightarrow> ((string, string list) dict \<times> string list) result
    \<Rightarrow> ((string, string list) dict \<times> string list) result \<Rightarrow> bool" where
  "agree_gathered ignored r q \<longleftrightarrow>
     (case r of
        Inl e \<Rightarrow> q = Inl e
      | Inr (g, new) \<Rightarrow> \<exists>h. q = Inr (h, new) \<and> agree ignored g h)"

lemma agree_set: "agree ignored g h \<Longrightarrow> agree ignored (dict_set a x g) (dict_set a x h)"
  by (simp add: agree_def)

lemma agree_get: "agree ignored g h \<Longrightarrow> a \<notin> set ignored \<Longrightarrow> dict_get h a = dict_get g a"
  by (simp add: agree_def dict_get_def)

lemma gather_deps_agree:
  "agree ignored g h \<Longrightarrow>
   agree_gathered ignored (foldE (gather_dep ignored) ds (g, new)) (foldE (gather_dep ignored) ds (h, new))"
proof (induction ds arbitrary: g h new)
  case Nil
  then show ?case by (simp add: agree_gathered_def)
next
  case (Cons d ds)
  show ?case
  proof (cases "d \<in> set ignored")
    case True
    then show ?thesis using Cons by (simp add: gather_dep_def)
  next
    case False
    then have e: "dict_get h d = dict_get g d" using Cons.prems by (simp add: agree_get)
    show ?thesis
    proof (cases "dict_get g d")
      case (Inl x)
      then show ?thesis using False e by (simp add: gather_dep_def agree_gathered_def)
    next
      case (Inr xs)
      then show ?thesis using False e Cons.IH [OF agree_set [OF Cons.prems]]
        by (simp add: gather_dep_def Let_def)
    qed
  qed
qed

lemma gather_loop_agree:
  "agree ignored g h \<Longrightarrow> gather_loop k ignored new seen g = Some r \<Longrightarrow>
   gather_loop l ignored new seen h = Some q \<Longrightarrow> agree_gathered ignored r q"
proof (induction k arbitrary: l new seen g h)
  case (Suc k)
  then obtain l' where l: "l = Suc l'" by (cases l) auto
  show ?case
  proof (cases "new = []")
    case True
    then show ?thesis using Suc.prems l by (auto simp: agree_gathered_def)
  next
    case False
    note a = gather_deps_agree [OF Suc.prems(1), of new "[]"]
    show ?thesis
    proof (cases "foldE (gather_dep ignored) new (g, [])")
      case (Inl e)
      have h: "foldE (gather_dep ignored) new (h, []) = Inl e" using a by (simp add: agree_gathered_def Inl)
      have "r = Inl e" using Suc.prems(2) False by (simp add: Let_def Inl)
      moreover have "q = Inl e" using Suc.prems(3) False by (simp add: Let_def h l)
      ultimately show ?thesis by (simp add: agree_gathered_def)
    next
      case (Inr p)
      obtain g' new' where p: "p = (g', new')" by (cases p)
      with a Inr obtain h' where h: "foldE (gather_dep ignored) new (h, []) = Inr (h', new')" "agree ignored g' h'"
        by (auto simp: agree_gathered_def)
      show ?thesis
        using Suc.IH [OF h(2)] Suc.prems(2,3) False Inr p h(1) l by (simp add: Let_def)
    qed
  qed
qed simp

lemma hash_input_agree:
  assumes "agree ignored lk lk'" and "task \<notin> set ignored" and "set ds \<inter> set ignored = {}"
  shows "hash_input C lk' task ds = hash_input C lk task ds"
proof -
  have "foldE (\<lambda>dep acc. bindE (dep_data C lk' dep) (\<lambda>t. Inr (acc @ t))) ds acc =
      foldE (\<lambda>dep acc. bindE (dep_data C lk dep) (\<lambda>t. Inr (acc @ t))) ds acc" for acc
    using assms(3)
  proof (induction ds arbitrary: acc)
    case (Cons d ds)
    then have "dep_data C lk' d = dep_data C lk d"
      using agree_get [OF assms(1), of d] by (simp add: dep_data_def)
    with Cons show ?case by (cases "dep_data C lk d") auto
  qed simp
  then show ?thesis using agree_get [OF assms(1,2)] by (simp add: hash_input_def)
qed

definition agree_hashed :: "string list \<Rightarrow> hash_tables result \<Rightarrow> hash_tables result \<Rightarrow> bool" where
  "agree_hashed ignored r q \<longleftrightarrow>
     (case r of
        Inl e \<Rightarrow> q = Inl e
      | Inr (g, rest) \<Rightarrow> \<exists>h. q = Inr (h, rest) \<and> agree ignored g h)"

lemma hash_one_task_agree:
  assumes "agree ignored g h" and "agree ignored lk lk'" and "task \<notin> set ignored"
    and "hash_one_task C sha256 lk ignored fn task (g, td, bh) = Some r"
    and "hash_one_task C sha256 lk' ignored fn task (h, td, bh) = Some q"
  shows "agree_hashed ignored r q"
proof -
  have e: "bindE (dict_get lk' task) (\<lambda>_. dict_get h task) = bindE (dict_get lk task) (\<lambda>_. dict_get g task)"
    using assms(1-3) by (simp add: agree_get)
  show ?thesis
  proof (cases "bindE (dict_get lk task) (\<lambda>_. dict_get g task)")
    case (Inl x)
    then show ?thesis using assms(4,5) e by (auto simp: hash_one_task_def agree_hashed_def)
  next
    case (Inr ds)
    then have ds: "map_of g task = Some ds" "map_of h task = Some ds"
      using assms(1,3) by (auto simp: bindE_Inr_iff dict_get_Inr_iff agree_def)
    let ?g = "dict_set task (set_diff ds ignored) g" and ?h = "dict_set task (set_diff ds ignored) h"
    obtain x where x: "gather_loop (gather_fuel ?g) ignored (set_diff ds ignored) [] ?g = Some x"
        "\<And>g' seen. x = Inr (g', seen) \<Longrightarrow> set seen = reached ignored g task"
      using gather_task [OF ds(1), of ignored] by auto
    obtain y where y: "gather_loop (gather_fuel ?h) ignored (set_diff ds ignored) [] ?h = Some y"
      using gather_task [OF ds(2), of ignored] by auto
    have xy: "agree_gathered ignored x y"
      by (rule gather_loop_agree [OF agree_set [OF assms(1)] x(1) y])
    show ?thesis
    proof (cases x)
      case (Inl z)
      then show ?thesis using xy x(1) y assms(4,5) e Inr
        by (auto simp: hash_one_task_def agree_gathered_def agree_hashed_def Let_def)
    next
      case (Inr p)
      obtain g' seen where p: "p = (g', seen)" by (cases p)
      obtain h' where h: "y = Inr (h', seen)" "agree ignored g' h'"
        using xy Inr p by (auto simp: agree_gathered_def)
      have "set (sort seen) \<inter> set ignored = {}"
        using x(2) [of g' seen] Inr p by (auto simp: reached_def dep_edges_def kept_deps_def elim: tranclE)
      then have "hash_input C lk' task (sort seen) = hash_input C lk task (sort seen)"
        by (rule hash_input_agree [OF assms(2,3)])
      then show ?thesis
        using x(1) y h Inr p e assms(4,5) \<open>bindE (dict_get lk task) (\<lambda>_. dict_get g task) = Inr ds\<close>
        by (cases "hash_input C lk task (sort seen)") (auto simp: hash_one_task_def agree_hashed_def Let_def)
    qed
  qed
qed

lemma hash_each_task_agree:
  "agree ignored g h \<Longrightarrow> agree ignored lk lk' \<Longrightarrow> set tasks \<inter> set ignored = {} \<Longrightarrow>
   map_option (map_sum id snd) (hash_each_task C sha256 lk' ignored fn tasks (h, td, bh)) =
   map_option (map_sum id snd) (hash_each_task C sha256 lk ignored fn tasks (g, td, bh))"
proof (induction tasks arbitrary: g h td bh)
  case (Cons task tasks)
  obtain r where r: "hash_one_task C sha256 lk ignored fn task (g, td, bh) = Some r"
    using hash_one_task_result [of C sha256 lk ignored fn task g td bh] by blast
  obtain q where q: "hash_one_task C sha256 lk' ignored fn task (h, td, bh) = Some q"
    using hash_one_task_result [of C sha256 lk' ignored fn task h td bh] by blast
  have a: "agree_hashed ignored r q"
    by (rule hash_one_task_agree [OF Cons.prems(1,2) _ r q]) (use Cons.prems(3) in auto)
  show ?case
  proof (cases r)
    case (Inl e)
    then show ?thesis using a r q by (auto simp: agree_hashed_def)
  next
    case (Inr p)
    obtain g' td' bh' where p: "p = (g', td', bh')" by (cases p)
    obtain h' where h: "q = Inr (h', td', bh')" "agree ignored g' h'"
      using a Inr p by (auto simp: agree_hashed_def)
    show ?thesis using Cons.IH [OF h(2) Cons.prems(2)] Cons.prems(3) r q Inr p h(1) by simp
  qed
qed simp


subsection \<open>Properties\<close>

text \<open>
  Property C9. The dependencies recorded for a task are exactly the names it reaches through the
  tables without passing over an ignored name, each once and in order.
\<close>

theorem task_deps_exact:
  assumes "generate_dependency_hash C sha256 tasklist gendeps lookupcache ignored fn =
      Some (Inr (gendeps', taskdeps, basehash))"
    and "task \<in> set tasklist"
  shows "\<exists>ds. map_of taskdeps task = Some ds \<and> sorted ds \<and> distinct ds \<and> set ds = reached ignored gendeps task"
proof -
  obtain r where r: "hash_each_task C sha256 lookupcache ignored fn tasklist (gendeps, [], []) = Some r"
      "tasks_result lookupcache ignored tasklist gendeps [] r"
    using hash_each_task_result by blast
  have "r = Inr (gendeps', taskdeps, basehash)"
    using assms(1) r(1) by (simp add: generate_dependency_hash_def)
  with r(2) assms(2) show ?thesis by (simp add: tasks_result_def)
qed

text \<open>
  Neither the values nor the dependencies of ignored variables have any influence
  on the base hashes and the recorded dependencies of the tasks.
\<close>

theorem ignored_vars_do_not_count:
  assumes "\<forall>v. v \<notin> set ignored \<longrightarrow> map_of gendeps v = map_of gendeps' v"
    and "\<forall>v. v \<notin> set ignored \<longrightarrow> map_of lookupcache v = map_of lookupcache' v"
    and "set tasklist \<inter> set ignored = {}"
  shows "map_option (map_sum id snd) (generate_dependency_hash C sha256 tasklist gendeps' lookupcache' ignored fn) =
    map_option (map_sum id snd) (generate_dependency_hash C sha256 tasklist gendeps lookupcache ignored fn)"
  unfolding generate_dependency_hash_def
  by (rule hash_each_task_agree) (use assms in \<open>simp_all add: agree_def\<close>)

text \<open>
  Property C33. The tables \<open>generate_dependencies\<close> returns are complete: the base hashes of its
  tasks are computed from them without running into a name that is missing.
\<close>

theorem generated_tables_complete:
  assumes "generate_dependencies E n C ignored s = Some (Inr (tasklist, deps, values), s')"
  shows "\<exists>r. generate_dependency_hash C sha256 tasklist deps values ignored fn = Some r \<and> r \<noteq> Inl KeyError"
proof -
  have "results (\<lambda>(tasklist, tabs). tabs_in ignored (names_in_tabs tabs) tabs \<and> set tasklist \<subseteq> names_in_tabs tabs)
      (generate_dependencies E n C ignored)"
    unfolding generate_dependencies_def Let_def
    by (rule results_seq, rule results_seq, rule results_seq, rule results_seq, rule results_seq,
        rule results_seq2 [OF task_dependencies_result]) (simp del: comp_simps)
  from results_D [OF this assms] have t: "fst ` set values = fst ` set deps"
      "\<forall>a \<in> fst ` set deps. kept_deps ignored deps a \<subseteq> fst ` set deps" "set tasklist \<subseteq> fst ` set deps"
    by (auto simp: tabs_in_def names_in_tabs_def)
  have closed: "b \<in> fst ` set deps" if "(a, b) \<in> (dep_edges ignored deps)\<^sup>+" "a \<in> fst ` set deps" for a b
    using that by (induction rule: trancl_induct) (use t(2) in \<open>auto simp: dep_edges_def\<close>)
  have "insert task (reached ignored deps task) \<subseteq> fst ` set deps \<inter> fst ` set values"
    if "task \<in> set tasklist" for task
  proof -
    have m: "task \<in> fst ` set deps" using that t(3) by blast
    have "x \<in> fst ` set deps" if "x \<in> reached ignored deps task" for x
      using that by (intro closed [OF _ m]) (simp add: reached_def)
    with m show ?thesis unfolding t(1) by blast
  qed
  then show ?thesis
    using hash_each_task_result [of C sha256 "values" ignored fn tasklist deps "[]" "[]"]
    unfolding generate_dependency_hash_def tasks_result_def by blast
qed


text \<open>A task that uses a variable that uses another, with one that is ignored.\<close>

definition no_scan :: scanner where
  "no_scan = \<lparr> scan_shell = (\<lambda>v. Inr []), scan_function = (\<lambda>v. Inr ([], [], [])), str_of = (\<lambda>v. []) \<rparr>"

definition task_store :: data_store where
  "task_store = new_store \<lparr> local_vars := [
     (''__BBTASKS'', [(''_content'', Listing [''do_x''])]),
     (''__exportlist'', [(''_content'', Names [])]),
     (''do_x'', [(''func'', Truth True), (''_content'', Text ''run ${A} ${DATE}'')]),
     (''A'', [(''_content'', Text ''a${B}'')]),
     (''B'', [(''_content'', Text ''b'')]),
     (''DATE'', [(''_content'', Text ''today'')])] \<rparr>"

definition task_tables :: dep_tables where
  "task_tables = ([(''do_x'', [''A'', ''DATE'']), (''A'', [''B'']), (''B'', [])],
     [(''do_x'', Some (Text ''run ${A} ${DATE}'')), (''A'', Some (Text ''a${B}'')), (''B'', Some (Text ''b''))])"

lemma task_store_tables:
  "map_option fst (generate_dependencies no_python 6 no_scan [''DATE''] task_store) = Some (Inr ([''do_x''], task_tables))"
  by code_simp

theorem generated_tables_complete_witness:
  "\<exists>tabs s' r. generate_dependencies no_python 6 no_scan [''DATE''] task_store = Some (Inr ([''do_x''], tabs), s')
    \<and> generate_dependency_hash no_scan id [''do_x''] (fst tabs) (snd tabs) [''DATE''] ''r.bb'' = Some r \<and> r \<noteq> Inl KeyError"
proof -
  obtain s' where s: "generate_dependencies no_python 6 no_scan [''DATE''] task_store =
      Some (Inr ([''do_x''], fst task_tables, snd task_tables), s')"
    using task_store_tables by (auto simp: task_tables_def)
  from generated_tables_complete [OF s, of id "''r.bb''"] s show ?thesis by auto
qed

lemma task_tables_hashed:
  "generate_dependency_hash no_scan id [''do_x''] (fst task_tables) (snd task_tables) [''DATE''] ''r.bb'' =
   Some (Inr ([(''do_x'', [''A'']), (''A'', [''B'']), (''B'', [])], [(''do_x'', [''A'', ''B''])],
     [(''r.bb:do_x'', ''run ${A} ${DATE}Aa${B}Bb'')]))"
  by code_simp

theorem task_deps_exact_witness:
  "{''A'', ''B''} = reached [''DATE''] (fst task_tables) ''do_x''"
  using task_deps_exact [OF task_tables_hashed, of "''do_x''"] by simp

theorem ignored_vars_do_not_count_witness:
  "map_option (map_sum id snd) (generate_dependency_hash no_scan id [''do_x'']
     ((''DATE'', [''TZ'']) # fst task_tables) ((''DATE'', Some (Text ''tomorrow'')) # snd task_tables) [''DATE''] ''r.bb'') =
   Some (Inr ([(''do_x'', [''A'', ''B''])], [(''r.bb:do_x'', ''run ${A} ${DATE}Aa${B}Bb'')]))"
  using ignored_vars_do_not_count [of "[''DATE'']" "fst task_tables" "(''DATE'', [''TZ'']) # fst task_tables"
      "snd task_tables" "(''DATE'', Some (Text ''tomorrow'')) # snd task_tables" "[''do_x'']" no_scan id "''r.bb''"]
  by (simp add: task_tables_hashed)

end
