(* ===== verification/SigGen.thy ===== *)
theory SigGen
  imports RunQueuePrepare VarDeps
begin

text \<open>
  The signature generators of \<open>bb/siggen.py\<close>: the hash of a task from its base hash, the unihashes
  of what it depends on, the checksums of its files and its taint, and the unihashes an
  equivalence server gives. \<open>siggen\<close> is the state of \<open>SignatureGeneratorBasic\<close> with the fields of
  \<open>SignatureGeneratorUniHashMixIn\<close>; the operations give the new state and a value, or the
  exception, which ends the preparation of the build.

  Parameters, in \<open>sig_env\<close>: whether the pattern of \<open>BB_TASKHASH_IGNORE_TASKS\<close> is found in a name,
  the checksums of files, taint files, random identifiers, SHA-256, and the answers of the
  server, where \<^const>\<open>None\<close> is a \<open>ConnectionError\<close> and \<open>Some None\<close> no answer. \<open>output_hash\<close> is the
  function that \<open>SSTATE_HASHEQUIV_METHOD\<close> names.
\<close>

record siggen =
  sg_basehash :: "(tid, string) dict"
  sg_taskhash :: "(tid, string) dict"
  sg_unihash :: "(tid, string option) dict"
  sg_runtaskdeps :: "(tid, tid list) dict"
  sg_checksums :: "(tid, (string \<times> string option) list) dict"
  sg_taints :: "(tid, string) dict"
  sg_unitaskhashes :: "(string, string \<times> string) dict"
  sg_tidtopn :: "(tid, string) dict"
  sg_setscenetasks :: "tid list"
  sg_taskdeps :: "(string, (string, string list) dict) dict"
  sg_gendeps :: "(string, (string, string list) dict) dict"
  sg_lookupcache :: "(string, (string, dval option) dict) dict"

record sig_env =
  ignore_pattern :: "(string \<Rightarrow> bool) option"
  multiconfig_caches :: bool
  basehash_ignore_vars :: "string list"
  file_checksums :: "(string, (string, (string, string) dict) dict) dict"
  get_checksums :: "string \<Rightarrow> string \<Rightarrow> (string \<times> string option) list result"
  read_taint :: "string \<Rightarrow> string \<Rightarrow> string \<Rightarrow> string option"
  uuid4 :: "tid \<Rightarrow> string"
  sha256 :: "string \<Rightarrow> string"
  hash_method :: "tid \<Rightarrow> string"
  server_unihash :: "string \<Rightarrow> string \<Rightarrow> string option option"
  server_equiv :: "string \<Rightarrow> string \<Rightarrow> string \<Rightarrow> string option option"
  output_hash :: "string \<Rightarrow> string \<Rightarrow> string result"
  server_report :: "string \<Rightarrow> string \<Rightarrow> string \<Rightarrow> string \<Rightarrow> string option"

type_synonym 'a sig = "(siggen \<times> 'a) result"

subsection \<open>Paths\<close>

text \<open>The parts of a string before and after the first \<open>p\<close>, and \<open>f.split(p)[1]\<close>.\<close>

fun cut_at :: "string \<Rightarrow> string \<Rightarrow> (string \<times> string) option" where
  "cut_at p [] = (if p = [] then Some ([], []) else None)"
| "cut_at p (c # s) =
     (if startswith (c # s) p then Some ([], drop (length p) (c # s))
      else map_option (\<lambda>(a, b). (c # a, b)) (cut_at p s))"

definition before_first :: "string \<Rightarrow> string \<Rightarrow> string" where
  "before_first p s = (case cut_at p s of None \<Rightarrow> s | Some (a, b) \<Rightarrow> a)"

definition second_part :: "string \<Rightarrow> string \<Rightarrow> string option" where
  "second_part p s = map_option (\<lambda>(a, b). before_first p b) (cut_at p s)"

text \<open>\<open>basepath.rsplit("/", 2)\<close> into three parts; fewer are a \<open>ValueError\<close>.\<close>

definition rsplit_path :: "string \<Rightarrow> (string \<times> string \<times> string) result" where
  "rsplit_path s =
     (case rsplit1 slash s of
        [r, recipe_task] \<Rightarrow>
          (case rsplit1 slash r of
             [base, dir] \<Rightarrow> Inr (base, dir, recipe_task)
           | _ \<Rightarrow> Inl ValueError)
      | _ \<Rightarrow> Inl ValueError)"

definition clean_basepath :: "string \<Rightarrow> string result" where
  "clean_basepath s =
     bindE (rsplit_path s) (\<lambda>(basepath, dir, recipe_task).
     let cleaned = dir @ ''/'' @ recipe_task in
     if basepath = [] then Inl IndexError
     else if hd basepath = slash then Inr cleaned
     else
       let (mc_suffix, basepath) =
             (if is_mc basepath
              then ('':mc:'' @ split_on colon basepath ! 1, join [colon] (drop 2 (split_on colon basepath)))
              else ([], basepath)) in
       if basepath = [] then Inl IndexError
       else Inr ((if hd basepath \<noteq> slash then cleaned @ [colon] @ before_first '':/'' basepath else cleaned)
                 @ mc_suffix))"

text \<open>\<open>sorted(deps, key=clean_basepath)\<close>.\<close>

definition sort_clean :: "tid list \<Rightarrow> tid list result" where
  "sort_clean deps =
     bindE (foldE (\<lambda>d acc. bindE (clean_basepath d) (\<lambda>k. Inr (acc @ [(k, d)]))) deps []) (\<lambda>kds.
       Inr (map snd (sort_key fst kds)))"

subsection \<open>Task hashes\<close>

definition rundep_check :: "sig_env \<Rightarrow> string \<Rightarrow> string \<Rightarrow> bool" where
  "rundep_check E recipename depname =
     (case ignore_pattern E of
        None \<Rightarrow> True
      | Some found \<Rightarrow> found recipename \<or> \<not> found depname)"

type_synonym caches = "(string, data_cache) dict"

definition recipe_name :: "caches \<Rightarrow> string \<Rightarrow> string \<Rightarrow> string result" where
  "recipe_name dcs mc fn = bindE (dict_get dcs mc) (\<lambda>dc. dict_get (pkg_fn dc) fn)"

definition note_rundep :: "sig_env \<Rightarrow> caches \<Rightarrow> tid \<Rightarrow> string \<Rightarrow> string \<Rightarrow> tid \<Rightarrow> siggen \<Rightarrow> siggen result" where
  "note_rundep E dcs tid mc recipename dep g =
     bindE (split_tid_mcfn dep) (\<lambda>(depmc, _, _, depmcfn).
     bindE (recipe_name dcs depmc depmcfn) (\<lambda>depname.
     if \<not> multiconfig_caches E \<and> mc \<noteq> depmc then Inr g
     else if \<not> rundep_check E recipename depname then Inr g
     else if dep \<notin> set (dict_keys (sg_taskhash g)) then Inl Fatal
     else bindE (dict_get (sg_runtaskdeps g) tid) (\<lambda>ds.
       Inr (g\<lparr>sg_runtaskdeps := dict_set tid (ds @ [dep]) (sg_runtaskdeps g)\<rparr>))))"

definition note_nostamp :: "sig_env \<Rightarrow> task_deps \<Rightarrow> string \<Rightarrow> tid \<Rightarrow> siggen \<Rightarrow> siggen" where
  "note_nostamp E taskdep task tid g =
     (if task_flag taskdep ''nostamp'' task = None then g
      else case map_of (sg_taints g) tid of
        Some t \<Rightarrow>
          if startswith t ''nostamp:'' then g
          else g\<lparr>sg_taints := dict_set tid (''nostamp:'' @ uuid4 E tid) (sg_taints g)\<rparr>
      | None \<Rightarrow> g\<lparr>sg_taints := dict_set tid (''nostamp:'' @ uuid4 E tid) (sg_taints g)\<rparr>)"

definition note_taint :: "sig_env \<Rightarrow> string \<Rightarrow> string \<Rightarrow> string \<Rightarrow> tid \<Rightarrow> siggen \<Rightarrow> siggen" where
  "note_taint E fn task stamp tid g =
     (case read_taint E fn task stamp of
        None \<Rightarrow> g
      | Some t \<Rightarrow> if t = [] then g else g\<lparr>sg_taints := dict_set tid t (sg_taints g)\<rparr>)"

definition task_checksums :: "sig_env \<Rightarrow> string \<Rightarrow> string \<Rightarrow> string \<Rightarrow> string \<Rightarrow> (string \<times> string option) list result" where
  "task_checksums E mc fn task recipename =
     bindE (dict_get (file_checksums E) mc) (\<lambda>fcs.
     bindE (dict_get fcs fn) (\<lambda>tcs.
     case map_of tcs task of
       None \<Rightarrow> Inr []
     | Some files \<Rightarrow> get_checksums E files recipename))"

definition prep_taskhash :: "sig_env \<Rightarrow> caches \<Rightarrow> tid \<Rightarrow> tid list \<Rightarrow> siggen \<Rightarrow> siggen result" where
  "prep_taskhash E dcs tid deps g =
     bindE (split_tid_mcfn tid) (\<lambda>(mc, _, task, fn).
     bindE (dict_get dcs mc) (\<lambda>dc.
     bindE (dict_get (basetaskhash dc) tid) (\<lambda>h.
     let g1 = g\<lparr>sg_basehash := dict_set tid h (sg_basehash g),
                sg_runtaskdeps := dict_set tid [] (sg_runtaskdeps g),
                sg_checksums := dict_set tid [] (sg_checksums g)\<rparr> in
     bindE (dict_get (pkg_fn dc) fn) (\<lambda>recipename.
     let g2 = g1\<lparr>sg_tidtopn := dict_set tid recipename (sg_tidtopn g1)\<rparr> in
     bindE (sort_clean deps) (\<lambda>deps.
     bindE (foldE (note_rundep E dcs tid mc recipename) deps g2) (\<lambda>g3.
     bindE (task_checksums E mc fn task recipename) (\<lambda>checksums.
     let g4 = g3\<lparr>sg_checksums := dict_set tid (dict_get_or [] (sg_checksums g3) tid @ checksums) (sg_checksums g3)\<rparr> in
     bindE (dict_get (task_deps_of dc) fn) (\<lambda>taskdep.
     let g5 = note_nostamp E taskdep task tid g4 in
     bindE (dict_get (stamp_of dc) fn) (\<lambda>stamp.
       Inr (note_taint E fn task stamp tid g5))))))))))"

definition checksum_data :: "string \<times> string option \<Rightarrow> string" where
  "checksum_data = (\<lambda>(f, cs).
     case cs of
       None \<Rightarrow> []
     | Some c \<Rightarrow>
         if c = [] then []
         else (case second_part ''/./'' f of None \<Rightarrow> [] | Some r \<Rightarrow> ''./'' @ r) @ c)"

definition taint_data :: "string option \<Rightarrow> string" where
  "taint_data t =
     (case t of
        None \<Rightarrow> []
      | Some s \<Rightarrow> if startswith s ''nostamp:'' then drop 8 s else s)"

text \<open>\<open>get_taskhash\<close> asks the class for the unihash of each dependency.\<close>

definition get_taskhash :: "sig_env \<Rightarrow> (tid \<Rightarrow> siggen \<Rightarrow> string sig) \<Rightarrow> tid \<Rightarrow> siggen \<Rightarrow> string sig" where
  "get_taskhash E unihash_of tid g =
     bindE (dict_get (sg_basehash g) tid) (\<lambda>base.
     bindE (dict_get (sg_runtaskdeps g) tid) (\<lambda>deps.
     bindE (foldE (\<lambda>dep (g, data). bindE (unihash_of dep g) (\<lambda>(g', u). Inr (g', data @ u))) deps (g, base)) (\<lambda>(g1, data).
     bindE (dict_get (sg_checksums g1) tid) (\<lambda>checksums.
     let h = sha256 E (data @ concat (map checksum_data checksums) @ taint_data (map_of (sg_taints g1) tid))
     in Inr (g1\<lparr>sg_taskhash := dict_set tid h (sg_taskhash g1)\<rparr>, h)))))"

subsection \<open>Unihashes\<close>

text \<open>The basic generators take the task hash.\<close>

definition basic_unihash :: "tid \<Rightarrow> siggen \<Rightarrow> string sig" where
  "basic_unihash tid g = bindE (dict_get (sg_taskhash g) tid) (\<lambda>h. Inr (g, h))"

definition unihash_key :: "tid \<Rightarrow> siggen \<Rightarrow> string result" where
  "unihash_key tid g =
     bindE (split_tid_mcfn tid) (\<lambda>(mc, fn, taskname, taskfn).
     bindE (dict_get (sg_tidtopn g) tid) (\<lambda>pn. Inr (mc @ [colon] @ pn @ [colon] @ taskname)))"

definition set_unihash :: "tid \<Rightarrow> string \<Rightarrow> siggen \<Rightarrow> siggen result" where
  "set_unihash tid unihash g =
     bindE (unihash_key tid g) (\<lambda>key.
     bindE (dict_get (sg_taskhash g) tid) (\<lambda>h.
       Inr (g\<lparr>sg_unitaskhashes := dict_set key (h, unihash) (sg_unitaskhashes g),
              sg_unihash := dict_set tid (Some unihash) (sg_unihash g)\<rparr>)))"

text \<open>\<open>_get_unihash\<close>: the answer remembered for the task hash, or for \<open>checkkey\<close>.\<close>

definition cached_unihash :: "tid \<Rightarrow> string \<Rightarrow> siggen \<Rightarrow> string option result" where
  "cached_unihash tid checkkey g =
     (if tid \<notin> set (dict_keys (sg_tidtopn g)) then Inr None
      else bindE (unihash_key tid g) (\<lambda>key.
        case map_of (sg_unitaskhashes g) key of
          None \<Rightarrow> Inr None
        | Some (h, unihash) \<Rightarrow>
            bindE (if checkkey = [] then dict_get (sg_taskhash g) tid else Inr checkkey) (\<lambda>check.
              Inr (if h \<noteq> check then None else Some unihash))))"

definition get_unihash :: "sig_env \<Rightarrow> tid \<Rightarrow> siggen \<Rightarrow> string sig" where
  "get_unihash E tid g =
     bindE (dict_get (sg_taskhash g) tid) (\<lambda>taskhash.
     if sg_setscenetasks g \<noteq> [] \<and> tid \<notin> set (sg_setscenetasks g) then
       Inr (g\<lparr>sg_unihash := dict_set tid None (sg_unihash g)\<rparr>, taskhash)
     else bindE (cached_unihash tid [] g) (\<lambda>cached.
       case cached of
         Some u \<Rightarrow> Inr (g\<lparr>sg_unihash := dict_set tid (Some u) (sg_unihash g)\<rparr>, u)
       | None \<Rightarrow>
           let unihash = (case server_unihash E (hash_method E tid) taskhash of
                            Some (Some u) \<Rightarrow> if u = [] then taskhash else u
                          | _ \<Rightarrow> taskhash) in
           bindE (set_unihash tid unihash g) (\<lambda>g'.
             Inr (g'\<lparr>sg_unihash := dict_set tid (Some unihash) (sg_unihash g')\<rparr>, unihash))))"

definition report_unihash_equiv :: "sig_env \<Rightarrow> tid \<Rightarrow> string \<Rightarrow> string \<Rightarrow> string \<Rightarrow> siggen \<Rightarrow> bool sig" where
  "report_unihash_equiv E tid taskhash wanted_unihash current_unihash g =
     (case server_equiv E taskhash (hash_method E tid) wanted_unihash of
        None \<Rightarrow> Inr (g, False)
      | Some None \<Rightarrow> Inr (g, False)
      | Some (Some finalunihash) \<Rightarrow>
          if finalunihash = current_unihash then Inr (g, False)
          else if finalunihash = wanted_unihash then
            bindE (set_unihash tid finalunihash g) (\<lambda>g'. Inr (g', True))
          else Inr (g, False))"

text \<open>
  \<open>report_unihash\<close>, called when a task has run: it checks that the unihash in the datastore is the
  cached one, has the server told what the task produced, and takes over the unihash the
  server answers, which it gives with the task for the event. The file that lists the output
  is part of \<open>output_hash\<close>.
\<close>

definition text_of :: "dval option \<Rightarrow> string result" where
  "text_of v = (case v of Some (Text t) \<Rightarrow> Inr t | _ \<Rightarrow> Inl TypeError)"

definition checked_unihash :: "tid \<Rightarrow> string \<Rightarrow> dval option \<Rightarrow> siggen \<Rightarrow> string result" where
  "checked_unihash tid taskhash unihash g =
     bindE (cached_unihash tid taskhash g) (\<lambda>c.
       case c of
         None \<Rightarrow> Inl Fatal
       | Some u \<Rightarrow> if Some (Text u) \<noteq> unihash then Inl Fatal else Inr u)"

definition read_extra_data :: "python \<Rightarrow> nat \<Rightarrow> bool \<Rightarrow> unit data" where
  "read_extra_data P n report_taskdata =
     loop (\<lambda>v _. seq (getVar P n v True) (\<lambda>_. ret ()))
       (''SSTATE_HASHEQUIV_OWNER'' # (if report_taskdata then [''PN'', ''PV'', ''PR''] else [])) ()"

definition report_unihash :: "sig_env \<Rightarrow> python \<Rightarrow> nat \<Rightarrow> string \<Rightarrow> string \<Rightarrow> siggen \<Rightarrow> (siggen \<times> (tid \<times> string) option) data" where
  "report_unihash E P n path task g =
     seq (getVar P n ''BB_TASKHASH'' True) (\<lambda>taskhash.
     seq (getVar P n ''BB_UNIHASH'' True) (\<lambda>unihash.
     seq (getVar P n ''SSTATE_HASHEQUIV_REPORT_TASKDATA'' True) (\<lambda>report_taskdata.
     seq (getVar P n ''T'' True) (\<lambda>tempdir.
     seq (getVar P n ''BB_FILENAME'' True) (\<lambda>fn.
     seq (of_result (text_of fn)) (\<lambda>fn.
     seq (of_result (text_of taskhash)) (\<lambda>taskhash.
     let tid = fn @ '':do_'' @ task in
     if sg_setscenetasks g \<noteq> [] \<and> tid \<notin> set (sg_setscenetasks g) then ret (g, None)
     else seq (of_result (dict_get (sg_taskhash g) tid)) (\<lambda>h.
       if taskhash \<noteq> h then ret (g, None)
       else seq (of_result (checked_unihash tid taskhash unihash g)) (\<lambda>u.
       seq (of_result (output_hash E path task)) (\<lambda>outhash.
       seq (read_extra_data P n (report_taskdata = Some (Text ''1''))) (\<lambda>_.
       case server_report E taskhash (hash_method E tid) outhash u of
         None \<Rightarrow> ret (g, None)
       | Some new_unihash \<Rightarrow>
           if new_unihash = u then ret (g, None)
           else seq (of_result (set_unihash tid new_unihash g)) (\<lambda>g'.
                seq (setVar P n ''BB_UNIHASH'' (Text new_unihash) False) (\<lambda>_.
                  ret (g', Some (tid, new_unihash)))))))))))))))"

text \<open>What the run queue asks of the generator for one task.\<close>

definition siggen_hasher :: "sig_env \<Rightarrow> caches \<Rightarrow> (tid \<Rightarrow> siggen \<Rightarrow> string sig) \<Rightarrow> siggen hasher" where
  "siggen_hasher E dcs unihash_of = (\<lambda>g tid deps.
     bindE (prep_taskhash E dcs tid deps g) (\<lambda>g1.
     bindE (get_taskhash E unihash_of tid g1) (\<lambda>(g2, h).
     bindE (unihash_of tid g2) (\<lambda>(g3, u). Inr (g3, h, u)))))"

definition set_setscene_tasks :: "tid list \<Rightarrow> siggen \<Rightarrow> siggen" where
  "set_setscene_tasks tids g = g\<lparr>sg_setscenetasks := remdups tids\<rparr>"

subsection \<open>Stamp names\<close>

definition rstrip_dots :: "string \<Rightarrow> string" where
  "rstrip_dots s = rev (dropWhile (\<lambda>c. c = CHR ''.'') (rev s))"

definition plain_stamp_hash :: "tid \<Rightarrow> siggen \<Rightarrow> string result" where
  "plain_stamp_hash tid g =
     (case map_of (sg_taskhash g) tid of Some h \<Rightarrow> Inr h | None \<Rightarrow> dict_get (sg_basehash g) tid)"

definition unihash_stamp_hash :: "tid \<Rightarrow> siggen \<Rightarrow> string result" where
  "unihash_stamp_hash tid g =
     bindE (if tid \<in> set (dict_keys (sg_taskhash g)) then cached_unihash tid [] g else Inr None) (\<lambda>u.
       case u of Some h \<Rightarrow> Inr h | None \<Rightarrow> plain_stamp_hash tid g)"

definition join_stamp :: "string list \<Rightarrow> string" where
  "join_stamp parts = rstrip_dots (join ''.'' parts)"

definition noop_stampfile :: "string \<Rightarrow> string \<Rightarrow> string \<Rightarrow> string" where
  "noop_stampfile stampbase taskname extrainfo = join_stamp [stampbase, taskname, extrainfo]"

definition stamp_tid :: "string \<Rightarrow> string \<Rightarrow> tid" where
  "stamp_tid fn taskname =
     fn @ [colon] @ (if taskname \<noteq> ''do_setscene'' \<and> endswith taskname ''_setscene''
                     then take (length taskname - 9) taskname else taskname)"

definition stampfile :: "(tid \<Rightarrow> siggen \<Rightarrow> string result) \<Rightarrow> string \<Rightarrow> string \<Rightarrow> string \<Rightarrow> string \<Rightarrow> bool \<Rightarrow> siggen \<Rightarrow> string result" where
  "stampfile stamp_hash stampbase fn taskname extrainfo clean g =
     bindE (if clean then Inr ''*'' else stamp_hash (stamp_tid fn taskname) g) (\<lambda>h.
       Inr (join_stamp [stampbase, taskname, h, extrainfo]))"

definition stampcleanmask :: "(tid \<Rightarrow> siggen \<Rightarrow> string result) \<Rightarrow> string \<Rightarrow> string \<Rightarrow> string \<Rightarrow> string \<Rightarrow> siggen \<Rightarrow> string result" where
  "stampcleanmask stamp_hash stampbase fn taskname extrainfo g = stampfile stamp_hash stampbase fn taskname extrainfo True g"

subsection \<open>Base hashes of a recipe\<close>

definition of_outcome :: "'a result option \<Rightarrow> ('s, 'a) comp" where
  "of_outcome r s = map_option (\<lambda>x. (x, s)) r"

text \<open>A changed base hash is only reported; the report reads \<open>PN\<close>.\<close>

definition note_basehash :: "python \<Rightarrow> nat \<Rightarrow> bool \<Rightarrow> string \<Rightarrow> (string, string) dict \<Rightarrow> string \<Rightarrow> siggen \<Rightarrow> siggen data" where
  "note_basehash P n ignore_mismatch fn basehash task g =
     (let tid = fn @ [colon] @ task in
      seq (of_result (dict_get basehash tid)) (\<lambda>h.
      seq (only_if (\<not> ignore_mismatch \<and> map_of (sg_basehash g) tid \<noteq> None \<and> map_of (sg_basehash g) tid \<noteq> Some h)
             (seq (getVar P n ''PN'' True) (\<lambda>_. ret ()))) (\<lambda>_.
        ret (g\<lparr>sg_basehash := dict_set tid h (sg_basehash g)\<rparr>))))"

definition build_data :: "sig_env \<Rightarrow> python \<Rightarrow> nat \<Rightarrow> scanner \<Rightarrow> string \<Rightarrow> siggen \<Rightarrow> (siggen \<times> (string, string list) dict) data" where
  "build_data E P n C fn g =
     seq (getVar P n ''BB_HASH_IGNORE_MISMATCH'' True) (\<lambda>v.
     seq (generate_dependencies P n C (basehash_ignore_vars E)) (\<lambda>(tasklist, gendeps, lookupcache).
     seq (of_outcome (generate_dependency_hash C (sha256 E) tasklist gendeps lookupcache (basehash_ignore_vars E) fn))
       (\<lambda>(gendeps, taskdeps, basehash).
     seq (loop (note_basehash P n (v = Some (Text ''1'')) fn basehash) tasklist g) (\<lambda>g.
       ret (g\<lparr>sg_taskdeps := dict_set fn taskdeps (sg_taskdeps g),
              sg_gendeps := dict_set fn gendeps (sg_gendeps g),
              sg_lookupcache := dict_set fn lookupcache (sg_lookupcache g)\<rparr>, taskdeps)))))"

definition text_or_empty :: "dval option \<Rightarrow> string result" where
  "text_or_empty v =
     (if \<not> is_true v then Inr [] else case v of Some (Text t) \<Rightarrow> Inr t | _ \<Rightarrow> Inl TypeError)"

definition finalise :: "sig_env \<Rightarrow> python \<Rightarrow> nat \<Rightarrow> scanner \<Rightarrow> string \<Rightarrow> string \<Rightarrow> siggen \<Rightarrow> siggen data" where
  "finalise E P n C fn variant g =
     seq (getVar P n ''__BBMULTICONFIG'' False) (\<lambda>v.
     seq (of_result (text_or_empty v)) (\<lambda>mc.
     let vfn = realfn2virtual fn variant mc in
     seq (build_data E P n C vfn g) (\<lambda>(g, taskdeps).
     loop (\<lambda>task g.
       seq (of_result (dict_get (sg_basehash g) (vfn @ [colon] @ task))) (\<lambda>h.
       seq (setVar P n (''BB_BASEHASH:task-'' @ task) (Text h) False) (\<lambda>_. ret g))) (dict_keys taskdeps) g)))"

definition postparsing_clean_cache :: "siggen \<Rightarrow> siggen" where
  "postparsing_clean_cache g = g\<lparr>sg_gendeps := [], sg_lookupcache := [], sg_taskdeps := []\<rparr>"

subsection \<open>Answering for a task\<close>

text \<open>What the generator has to know of a task before anything can ask for its unihash.\<close>

definition hashed_task :: "siggen \<Rightarrow> tid \<Rightarrow> bool" where
  "hashed_task g t \<longleftrightarrow>
     map_of (sg_taskhash g) t \<noteq> None \<and> map_of (sg_tidtopn g) t \<noteq> None \<and> \<not> isl (split_tid_mcfn t)"

text \<open>What asking for a unihash leaves alone.\<close>

definition hash_view where
  "hash_view g = (sg_basehash g, sg_taskhash g, sg_runtaskdeps g, sg_checksums g, sg_taints g, sg_tidtopn g, sg_setscenetasks g)"

text \<open>The caches have all that \<open>prep_taskhash\<close> reads of a task.\<close>

definition sig_known :: "sig_env \<Rightarrow> caches \<Rightarrow> tid \<Rightarrow> bool" where
  "sig_known E dcs tid \<longleftrightarrow> \<not> isl (
     bindE (split_tid_mcfn tid) (\<lambda>(mc, _, task, fn).
     bindE (clean_basepath tid) (\<lambda>_.
     bindE (dict_get dcs mc) (\<lambda>dc.
     bindE (dict_get (basetaskhash dc) tid) (\<lambda>_.
     bindE (dict_get (pkg_fn dc) fn) (\<lambda>recipename.
     bindE (task_checksums E mc fn task recipename) (\<lambda>_.
     bindE (dict_get (task_deps_of dc) fn) (\<lambda>_. dict_get (stamp_of dc) fn))))))))"

lemma sig_knownE:
  assumes "sig_known E dcs tid"
  obtains mc bfn task fn k dc h pn cs tdp st where "split_tid_mcfn tid = Inr (mc, bfn, task, fn)"
    "clean_basepath tid = Inr k" "dict_get dcs mc = Inr dc" "dict_get (basetaskhash dc) tid = Inr h"
    "dict_get (pkg_fn dc) fn = Inr pn" "task_checksums E mc fn task pn = Inr cs"
    "dict_get (task_deps_of dc) fn = Inr tdp" "dict_get (stamp_of dc) fn = Inr st"
  using assms unfolding sig_known_def not_isl by (auto simp: bindE_Inr_iff)

lemma sort_clean_ok:
  assumes "\<forall>d \<in> set ds. \<not> isl (clean_basepath d)"
  shows "\<exists>ds'. sort_clean ds = Inr ds' \<and> set ds' = set ds"
proof -
  have "\<exists>kds. foldE (\<lambda>d acc. bindE (clean_basepath d) (\<lambda>k. Inr (acc @ [(k, d)]))) ds acc = Inr kds
      \<and> snd ` set kds = snd ` set acc \<union> set ds" for acc
    using assms
  proof (induction ds arbitrary: acc)
    case (Cons d ds)
    then obtain k where k: "clean_basepath d = Inr k" by (auto simp: not_isl)
    from Cons.IH [of "acc @ [(k, d)]"] Cons.prems k show ?case by auto
  qed simp
  from this [of "[]"] show ?thesis by (auto simp: sort_clean_def)
qed

text \<open>Noting the dependencies changes nothing but their list.\<close>

lemma note_rundeps_ok:
  assumes "\<forall>d \<in> set ds. sig_known E dcs d \<and> d \<in> set (dict_keys (sg_taskhash g))"
    and "map_of (sg_runtaskdeps g) tid = Some rs"
  shows "\<exists>g' rs'. foldE (note_rundep E dcs tid mc pn) ds g = Inr g' \<and> g' = g\<lparr>sg_runtaskdeps := sg_runtaskdeps g'\<rparr>
    \<and> map_of (sg_runtaskdeps g') tid = Some rs' \<and> set rs' \<subseteq> set rs \<union> set ds"
  using assms
proof (induction ds arbitrary: g rs)
  case (Cons d ds)
  from Cons.prems(1) have d: "sig_known E dcs d" "d \<in> set (dict_keys (sg_taskhash g))" by auto
  have n: "note_rundep E dcs tid mc pn d g = Inr g
      \<or> note_rundep E dcs tid mc pn d g = Inr (g\<lparr>sg_runtaskdeps := dict_set tid (rs @ [d]) (sg_runtaskdeps g)\<rparr>)"
    by (rule sig_knownE [OF d(1)])
       (use d(2) Cons.prems(2) in \<open>simp add: note_rundep_def recipe_name_def dict_get_def\<close>)
  then have "\<exists>rd rs1. note_rundep E dcs tid mc pn d g = Inr (g\<lparr>sg_runtaskdeps := rd\<rparr>)
      \<and> map_of rd tid = Some rs1 \<and> set rs1 \<subseteq> insert d (set rs)"
  proof
    assume "note_rundep E dcs tid mc pn d g = Inr g"
    then show ?thesis using Cons.prems(2) by (intro exI [of _ "sg_runtaskdeps g"] exI [of _ rs]) auto
  next
    assume "note_rundep E dcs tid mc pn d g = Inr (g\<lparr>sg_runtaskdeps := dict_set tid (rs @ [d]) (sg_runtaskdeps g)\<rparr>)"
    then show ?thesis
      by (intro exI [of _ "dict_set tid (rs @ [d]) (sg_runtaskdeps g)"] exI [of _ "rs @ [d]"]) auto
  qed
  then obtain rd rs1 where r: "note_rundep E dcs tid mc pn d g = Inr (g\<lparr>sg_runtaskdeps := rd\<rparr>)"
      "map_of rd tid = Some rs1" "set rs1 \<subseteq> insert d (set rs)" by blast
  have "\<exists>g' rs'. foldE (note_rundep E dcs tid mc pn) ds (g\<lparr>sg_runtaskdeps := rd\<rparr>) = Inr g'
      \<and> g' = g\<lparr>sg_runtaskdeps := rd\<rparr>\<lparr>sg_runtaskdeps := sg_runtaskdeps g'\<rparr>
      \<and> map_of (sg_runtaskdeps g') tid = Some rs' \<and> set rs' \<subseteq> set rs1 \<union> set ds"
    by (rule Cons.IH) (use Cons.prems(1) r(2) in simp_all)
  then show ?case using r by auto
qed auto

lemma prep_taskhash_ok:
  assumes "sig_known E dcs tid" and "\<forall>d \<in> set deps. sig_known E dcs d \<and> d \<in> set (dict_keys (sg_taskhash g))"
  shows "\<exists>g' h ds cs pn. prep_taskhash E dcs tid deps g = Inr g' \<and> sg_taskhash g' = sg_taskhash g
    \<and> map_of (sg_basehash g') tid = Some h \<and> map_of (sg_runtaskdeps g') tid = Some ds \<and> set ds \<subseteq> set deps
    \<and> map_of (sg_checksums g') tid = Some cs
    \<and> map_of (sg_tidtopn g') = (map_of (sg_tidtopn g))(tid \<mapsto> pn)"
proof -
  obtain mc bfn task fn k dc h pn cs tdp st where t: "split_tid_mcfn tid = Inr (mc, bfn, task, fn)"
    "dict_get dcs mc = Inr dc" "dict_get (basetaskhash dc) tid = Inr h"
    "dict_get (pkg_fn dc) fn = Inr pn" "task_checksums E mc fn task pn = Inr cs"
    "dict_get (task_deps_of dc) fn = Inr tdp" "dict_get (stamp_of dc) fn = Inr st"
    by (rule sig_knownE [OF assms(1)])
  have "\<forall>d \<in> set deps. \<not> isl (clean_basepath d)"
    using assms(2) by (fastforce elim: sig_knownE simp: not_isl)
  from sort_clean_ok [OF this] obtain ds where ds: "sort_clean deps = Inr ds" "set ds = set deps" by blast
  let ?g2 = "g\<lparr>sg_basehash := dict_set tid h (sg_basehash g), sg_runtaskdeps := dict_set tid [] (sg_runtaskdeps g),
      sg_checksums := dict_set tid [] (sg_checksums g), sg_tidtopn := dict_set tid pn (sg_tidtopn g)\<rparr>"
  have "\<exists>g' rs'. foldE (note_rundep E dcs tid mc pn) ds ?g2 = Inr g' \<and> g' = ?g2\<lparr>sg_runtaskdeps := sg_runtaskdeps g'\<rparr>
    \<and> map_of (sg_runtaskdeps g') tid = Some rs' \<and> set rs' \<subseteq> set [] \<union> set ds"
    by (rule note_rundeps_ok) (use assms(2) ds(2) in simp_all)
  then obtain g3 rs where g3: "foldE (note_rundep E dcs tid mc pn) ds ?g2 = Inr g3"
    "g3 = ?g2\<lparr>sg_runtaskdeps := sg_runtaskdeps g3\<rparr>" "map_of (sg_runtaskdeps g3) tid = Some rs" "set rs \<subseteq> set deps"
    using ds(2) by auto
  have f: "sg_taskhash g3 = sg_taskhash g" "sg_basehash g3 = dict_set tid h (sg_basehash g)"
    "sg_tidtopn g3 = dict_set tid pn (sg_tidtopn g)" by (subst g3(2); simp)+
  have s: "sg_taskhash (note_taint E fn task st tid (note_nostamp E tdp task tid x)) = sg_taskhash x"
    "sg_basehash (note_taint E fn task st tid (note_nostamp E tdp task tid x)) = sg_basehash x"
    "sg_runtaskdeps (note_taint E fn task st tid (note_nostamp E tdp task tid x)) = sg_runtaskdeps x"
    "sg_checksums (note_taint E fn task st tid (note_nostamp E tdp task tid x)) = sg_checksums x"
    "sg_tidtopn (note_taint E fn task st tid (note_nostamp E tdp task tid x)) = sg_tidtopn x" for x
    by (simp_all add: note_taint_def note_nostamp_def split: option.split)
  show ?thesis
    using g3(1,3,4) ds(1) t f
    by (auto simp: prep_taskhash_def Let_def s fun_eq_iff)
qed

subsection \<open>The class method for unihashes\<close>

text \<open>
  \<open>get_unihash\<close> is a method that the classes override. The hashing of the tasks relies on two laws:
  it answers for every task that has been hashed, and it changes nothing that hashing reads.
\<close>

locale unihash_source =
  fixes unihash_of :: "tid \<Rightarrow> siggen \<Rightarrow> string sig"
  assumes answers: "hashed_task g t \<Longrightarrow> \<exists>g' u. unihash_of t g = Inr (g', u)"
    and keeps_hashes: "unihash_of t g = Inr (g', u) \<Longrightarrow> hash_view g' = hash_view g"
begin

lemma view_hashed: "hash_view g' = hash_view g \<Longrightarrow> hashed_task g' = hashed_task g"
  by (simp add: hash_view_def hashed_task_def fun_eq_iff)

lemma unihashes_answer:
  assumes "\<forall>d \<in> set ds. hashed_task g d"
  shows "\<exists>g' data'. foldE (\<lambda>dep (g, data). bindE (unihash_of dep g) (\<lambda>(g', u). Inr (g', data @ u))) ds (g, data) =
    Inr (g', data') \<and> hash_view g' = hash_view g"
  using assms
proof (induction ds arbitrary: g data)
  case (Cons d ds)
  from Cons.prems obtain g1 u where u: "unihash_of d g = Inr (g1, u)" using answers by fastforce
  note v = keeps_hashes [OF u]
  with Cons.IH [of g1 "data @ u"] Cons.prems u view_hashed [OF v] show ?case by auto
qed simp

lemma get_taskhash_answers:
  assumes "map_of (sg_basehash g) tid = Some b" and "map_of (sg_runtaskdeps g) tid = Some ds"
    and "map_of (sg_checksums g) tid = Some cs" and "\<forall>d \<in> set ds. hashed_task g d"
  shows "\<exists>g' h. get_taskhash E unihash_of tid g = Inr (g', h) \<and> map_of (sg_taskhash g') = (map_of (sg_taskhash g))(tid \<mapsto> h)
    \<and> sg_tidtopn g' = sg_tidtopn g"
proof -
  obtain g1 data where g1: "foldE (\<lambda>dep (g, data). bindE (unihash_of dep g) (\<lambda>(g', u). Inr (g', data @ u))) ds (g, b) =
      Inr (g1, data)" "hash_view g1 = hash_view g"
    using unihashes_answer [OF assms(4)] by blast
  then show ?thesis
    using assms(1-3)
    by (intro exI [of _ "g1\<lparr>sg_taskhash := dict_set tid (sha256 E (data @ concat (map checksum_data cs)
          @ taint_data (map_of (sg_taints g1) tid))) (sg_taskhash g1)\<rparr>"] exI)
       (auto simp: get_taskhash_def dict_get_def hash_view_def Let_def fun_eq_iff)
qed

text \<open>A task whose dependencies are hashed can be hashed.\<close>

lemma hasher_answers:
  assumes "sig_known E dcs tid" and "\<forall>d \<in> set deps. sig_known E dcs d \<and> hashed_task g d"
  shows "\<exists>g' h u. siggen_hasher E dcs unihash_of g tid deps = Inr (g', h, u)
    \<and> map_of (sg_taskhash g') = (map_of (sg_taskhash g))(tid \<mapsto> h)
    \<and> hashed_task g' tid \<and> (\<forall>t. hashed_task g t \<longrightarrow> hashed_task g' t)"
proof -
  have "\<forall>d \<in> set deps. sig_known E dcs d \<and> d \<in> set (dict_keys (sg_taskhash g))"
    using assms(2) by (fastforce simp: hashed_task_def simp del: set_map dest: map_of_in_keys)
  from prep_taskhash_ok [OF assms(1) this] obtain g1 b ds cs pn where g1: "prep_taskhash E dcs tid deps g = Inr g1"
    "sg_taskhash g1 = sg_taskhash g" "map_of (sg_basehash g1) tid = Some b" "map_of (sg_runtaskdeps g1) tid = Some ds"
    "set ds \<subseteq> set deps" "map_of (sg_checksums g1) tid = Some cs"
    "map_of (sg_tidtopn g1) = (map_of (sg_tidtopn g))(tid \<mapsto> pn)"
    by blast
  have "\<forall>d \<in> set ds. hashed_task g1 d"
    using g1(2,5,7) assms(2) by (auto simp: hashed_task_def)
  from get_taskhash_answers [OF g1(3,4,6) this] obtain g2 h where g2: "get_taskhash E unihash_of tid g1 = Inr (g2, h)"
    "map_of (sg_taskhash g2) = (map_of (sg_taskhash g1))(tid \<mapsto> h)" "sg_tidtopn g2 = sg_tidtopn g1"
    by blast
  have "\<not> isl (split_tid_mcfn tid)" using assms(1) by (auto elim: sig_knownE)
  then have t: "hashed_task g2 tid" "\<forall>t. hashed_task g t \<longrightarrow> hashed_task g2 t"
    using g1(2,7) g2(2,3) by (auto simp: hashed_task_def)
  from answers [OF t(1)] obtain g3 u where g3: "unihash_of tid g2 = Inr (g3, u)" by blast
  note v = keeps_hashes [OF g3]
  show ?thesis
    using g1(1,2) g2(1,2) g3 t view_hashed [OF v] v by (auto simp: siggen_hasher_def hash_view_def)
qed

end

interpretation basic: unihash_source basic_unihash
  by unfold_locales (auto simp: basic_unihash_def hashed_task_def dict_get_def bindE_Inr_iff)

lemma set_unihash_view: "set_unihash t u g = Inr g' \<Longrightarrow> hash_view g' = hash_view g"
  by (auto simp: set_unihash_def bindE_Inr_iff hash_view_def)

lemma unihash_key_ok: "hashed_task g t \<Longrightarrow> \<exists>k. unihash_key t g = Inr k"
  by (auto simp: hashed_task_def unihash_key_def dict_get_def not_isl)

lemma cached_unihash_ok:
  assumes "hashed_task g t"
  shows "\<exists>u. cached_unihash t [] g = Inr u"
proof -
  obtain k where "unihash_key t g = Inr k" using unihash_key_ok [OF assms] by blast
  with assms show ?thesis
    by (auto simp: cached_unihash_def hashed_task_def dict_get_def split: option.split prod.split)
qed

interpretation equiv: unihash_source "get_unihash E" for E
proof
  fix g t
  assume h: "hashed_task g t"
  obtain k where k: "unihash_key t g = Inr k" using unihash_key_ok [OF h] by blast
  obtain c where c: "cached_unihash t [] g = Inr c" using cached_unihash_ok [OF h] by blast
  obtain th where "map_of (sg_taskhash g) t = Some th" using h by (auto simp: hashed_task_def)
  with k c show "\<exists>g' u. get_unihash E t g = Inr (g', u)"
    by (cases c) (auto simp: get_unihash_def dict_get_def set_unihash_def Let_def)
next
  fix t g g' u
  assume a: "get_unihash E t g = Inr (g', u)"
  have v: "hash_view (x\<lparr>sg_unihash := d\<rparr>) = hash_view x" for x :: siggen and d by (simp add: hash_view_def)
  obtain th where th: "dict_get (sg_taskhash g) t = Inr th"
    using a by (cases "dict_get (sg_taskhash g) t") (simp_all add: get_unihash_def)
  show "hash_view g' = hash_view g"
  proof (cases "sg_setscenetasks g \<noteq> [] \<and> t \<notin> set (sg_setscenetasks g)")
    case True
    with a th v show ?thesis by (auto simp: get_unihash_def)
  next
    case False
    with a th obtain c where c: "cached_unihash t [] g = Inr c"
      by (cases "cached_unihash t [] g") (simp_all add: get_unihash_def)
    show ?thesis
    proof (cases c)
      case None
      with a th False c obtain w g1 where "set_unihash t w g = Inr g1" "g' = g1\<lparr>sg_unihash := dict_set t (Some w) (sg_unihash g1)\<rparr>"
        by (auto simp: get_unihash_def Let_def bindE_Inr_iff)
      then show ?thesis using set_unihash_view [of t w g g1] v by simp
    next
      case (Some w)
      with a th False c v show ?thesis by (auto simp: get_unihash_def)
    qed
  qed
qed

subsection \<open>Hashing a whole run queue\<close>

text \<open>After some tasks: they are hashed, and their entries hold the hash and a unihash.\<close>

definition hashed_rt :: "rtentries \<Rightarrow> tid list \<Rightarrow> rtentries \<times> siggen \<Rightarrow> bool" where
  "hashed_rt rt0 us = (\<lambda>(rt, g).
     dict_keys rt = dict_keys rt0 \<and> deps_of rt = deps_of rt0 \<and>
     (\<forall>t \<in> set us. hashed_task g t \<and>
        (\<exists>e. map_of rt t = Some e \<and> rt_hash e = map_of (sg_taskhash g) t \<and> rt_unihash e \<noteq> None)))"

context unihash_source
begin

lemma hashed_rt_step:
  assumes "hashed_rt rt0 us (rt, g)" and "t \<notin> set us" and "t \<in> tasks rt0" and "set (deps_of rt0 t) \<subseteq> set us"
    and "sig_known E dcs t" and "\<forall>u \<in> set us. sig_known E dcs u"
  shows "\<exists>rt' g'. prepare_task_hash (siggen_hasher E dcs unihash_of) t (rt, g) = Inr (rt', g')
    \<and> hashed_rt rt0 (us @ [t]) (rt', g')"
proof -
  have r: "dict_keys rt = dict_keys rt0" "deps_of rt = deps_of rt0" using assms(1) by (simp_all add: hashed_rt_def)
  have "t \<in> set (dict_keys rt)" unfolding r(1) using assms(3) by (simp add: tasks_def)
  then obtain e where e: "map_of rt t = Some e" using map_of_None_iff [of rt t] by (cases "map_of rt t") auto
  have "rt_depends e = deps_of rt0 t" using e r(2) by (metis deps_of_def option.case(2))
  then have "\<forall>d \<in> set (rt_depends e). sig_known E dcs d \<and> hashed_task g d"
    using assms(1,4,6) by (auto simp: hashed_rt_def)
  from hasher_answers [OF assms(5) this] obtain g' h u where
    g': "siggen_hasher E dcs unihash_of g t (rt_depends e) = Inr (g', h, u)"
      "map_of (sg_taskhash g') = (map_of (sg_taskhash g))(t \<mapsto> h)" "hashed_task g' t"
      "\<forall>s. hashed_task g s \<longrightarrow> hashed_task g' s"
    by blast
  let ?rt = "dict_set t (e\<lparr>rt_hash := Some h, rt_unihash := Some u\<rparr>) rt"
  have p: "prepare_task_hash (siggen_hasher E dcs unihash_of) t (rt, g) = Inr (?rt, g')"
    using e g'(1) by (simp add: prepare_task_hash_def dict_get_def)
  from prepare_task_hash_same [OF p] r have k: "dict_keys ?rt = dict_keys rt0" "deps_of ?rt = deps_of rt0" by metis+
  have "\<forall>s \<in> set (us @ [t]). hashed_task g' s \<and>
      (\<exists>e. map_of ?rt s = Some e \<and> rt_hash e = map_of (sg_taskhash g') s \<and> rt_unihash e \<noteq> None)"
    using assms(1,2) g'(2-4) by (auto simp: hashed_rt_def)
  with p k show ?thesis unfolding hashed_rt_def by blast
qed

lemma order_hashed:
  assumes "topological (deps_of rt0) order" and "distinct order" and "set order \<subseteq> tasks rt0"
    and "\<forall>t \<in> set order. sig_known E dcs t"
  shows "\<exists>rt g'. foldE (prepare_task_hash (siggen_hasher E dcs unihash_of)) order (rt0, g) = Inr (rt, g')
    \<and> hashed_rt rt0 order (rt, g')"
  using assms
proof (induction order rule: rev_induct)
  case Nil
  then show ?case by (simp add: hashed_rt_def)
next
  case (snoc t order)
  have "topological (deps_of rt0) order"
    using snoc.prems(1) unfolding topological_def by (metis append_Cons append_assoc)
  then have "\<exists>rt g'. foldE (prepare_task_hash (siggen_hasher E dcs unihash_of)) order (rt0, g) = Inr (rt, g')
      \<and> hashed_rt rt0 order (rt, g')"
    by (rule snoc.IH) (use snoc.prems in simp_all)
  then obtain rt g' where i: "foldE (prepare_task_hash (siggen_hasher E dcs unihash_of)) order (rt0, g) = Inr (rt, g')"
    "hashed_rt rt0 order (rt, g')" by blast
  have "set (deps_of rt0 t) \<subseteq> set order"
    using snoc.prems(1) unfolding topological_def by blast
  then have "\<exists>rt' g''. prepare_task_hash (siggen_hasher E dcs unihash_of) t (rt, g') = Inr (rt', g'')
      \<and> hashed_rt rt0 (order @ [t]) (rt', g'')"
    by (intro hashed_rt_step [OF i(2)]) (use snoc.prems in auto)
  with i(1) show ?case by (auto simp: foldE_append)
qed

lemma run_queue_hashed:
  assumes "wf_graph rt" and "acyclic (dep_rel rt)" and "\<forall>t \<in> tasks rt. sig_known E dcs t"
  shows "\<exists>rt' g'. hash_tasks (siggen_hasher E dcs unihash_of) rt g = Some (Inr (rt', g'))
    \<and> (\<forall>t \<in> tasks rt. \<exists>e h. map_of rt' t = Some e \<and> rt_hash e = Some h \<and> map_of (sg_taskhash g') t = Some h
         \<and> rt_unihash e \<noteq> None)"
proof -
  obtain order where o: "hash_tasks (siggen_hasher E dcs unihash_of) rt g =
      Some (foldE (prepare_task_hash (siggen_hasher E dcs unihash_of)) order (rt, g))"
    "distinct order" "set order = tasks rt" "topological (deps_of rt) order"
    by (rule hash_tasks_order [OF assms(1,2)])
  from order_hashed [OF o(4,2), of E dcs g] o(3) assms(3) obtain rt' g' where
    r: "foldE (prepare_task_hash (siggen_hasher E dcs unihash_of)) order (rt, g) = Inr (rt', g')" "hashed_rt rt order (rt', g')"
    by auto
  from r(2) o(3) have "\<forall>t \<in> tasks rt. \<exists>e h. map_of rt' t = Some e \<and> rt_hash e = Some h \<and> map_of (sg_taskhash g') t = Some h
         \<and> rt_unihash e \<noteq> None"
    by (auto simp: hashed_rt_def hashed_task_def)
  with o(1) r(1) show ?thesis by auto
qed

end

subsection \<open>Properties\<close>

text \<open>
  Property C16. The signatures of a run queue can always be computed: on an acyclic graph whose tasks
  the caches know, hashing ends without an exception, in particular without finding a dependency that
  has no hash yet, and every task gets the hash that the generator keeps and a unihash.
\<close>

theorem signatures_computed:
  assumes "wf_graph rt" and "acyclic (dep_rel rt)" and "\<forall>t \<in> tasks rt. sig_known E dcs t"
  shows "\<exists>rt' g'. hash_tasks (siggen_hasher E dcs (get_unihash E)) rt g = Some (Inr (rt', g'))
    \<and> (\<forall>t \<in> tasks rt. \<exists>e h. map_of rt' t = Some e \<and> rt_hash e = Some h \<and> map_of (sg_taskhash g') t = Some h
         \<and> rt_unihash e \<noteq> None)"
  by (rule equiv.run_queue_hashed [OF assms])

lemma dict_set_again: "map_of d k = Some v \<Longrightarrow> dict_set k v d = d"
  by (induction d) auto

lemma dict_set_twice [simp]: "dict_set k v (dict_set k w d) = dict_set k v d"
  by (induction d) auto

lemma cached_unihash_keep [simp]: "cached_unihash t c (g\<lparr>sg_unihash := d\<rparr>) = cached_unihash t c g"
  by (simp add: cached_unihash_def unihash_key_def split: option.split cong: option.case_cong)

text \<open>What \<open>set_unihash\<close> records is found again for the task.\<close>

lemma set_unihash_cached:
  assumes "set_unihash t u g = Inr g'"
  shows "cached_unihash t [] g' = Inr (Some u)" and "map_of (sg_unihash g') t = Some (Some u)"
proof -
  obtain k h where k: "unihash_key t g = Inr k" and h: "map_of (sg_taskhash g) t = Some h"
    and g': "g' = g\<lparr>sg_unitaskhashes := dict_set k (h, u) (sg_unitaskhashes g), sg_unihash := dict_set t (Some u) (sg_unihash g)\<rparr>"
    using assms by (auto simp: set_unihash_def bindE_Inr_iff dict_get_Inr_iff)
  from k have n: "t \<in> set (dict_keys (sg_tidtopn g))"
    by (auto simp: unihash_key_def bindE_Inr_iff dict_get_Inr_iff simp del: set_map dest: map_of_in_keys)
  have "unihash_key t g' = Inr k" using k by (simp add: g' unihash_key_def)
  with n h show "cached_unihash t [] g' = Inr (Some u)" by (simp add: cached_unihash_def g' dict_get_def)
  show "map_of (sg_unihash g') t = Some (Some u)" by (simp add: g')
qed

lemma get_unihash_cached:
  assumes "cached_unihash t [] g = Inr (Some u)" and "map_of (sg_unihash g) t = Some (Some u)"
    and "map_of (sg_taskhash g) t = Some h" and "sg_setscenetasks g = [] \<or> t \<in> set (sg_setscenetasks g)"
  shows "get_unihash E t g = Inr (g, u)"
  using assms by (auto simp: get_unihash_def dict_get_def dict_set_again)


text \<open>
  When the server accepts the unihash that the run queue wants for a task, the task has
  that unihash from then on.
\<close>

theorem accepted_unihash_used:
  assumes "report_unihash_equiv E t taskhash wanted current g = Inr (g', True)"
    and "sg_setscenetasks g = [] \<or> t \<in> set (sg_setscenetasks g)"
  shows "wanted \<noteq> current \<and> get_unihash E' t g' = Inr (g', wanted)"
proof -
  have s: "set_unihash t wanted g = Inr g'" and "wanted \<noteq> current"
    using assms(1) by (auto simp: report_unihash_equiv_def bindE_Inr_iff split: option.splits if_splits)
  obtain h where "map_of (sg_taskhash g) t = Some h"
    using s by (auto simp: set_unihash_def bindE_Inr_iff dict_get_Inr_iff)
  moreover have "sg_taskhash g' = sg_taskhash g" "sg_setscenetasks g' = sg_setscenetasks g"
    using set_unihash_view [OF s] by (simp_all add: hash_view_def)
  ultimately show ?thesis
    using assms(2) \<open>wanted \<noteq> current\<close> set_unihash_cached [OF s] by (simp add: get_unihash_cached)
qed

text \<open>A unihash that the server sends back for a task that has run is used in the same way.\<close>

lemma reported_unihash_used:
  assumes "report_unihash E P n path task g s = Some (Inr (g', Some (tid, u)), s')"
    and "sg_setscenetasks g = [] \<or> tid \<in> set (sg_setscenetasks g)"
  shows "get_unihash E' tid g' = Inr (g', u)"
proof -
  have s: "set_unihash tid u g = Inr g'"
    using assms(1) by (auto simp: report_unihash_def seq_Inr_iff Let_def split: if_splits option.splits)
  obtain h where "map_of (sg_taskhash g) tid = Some h"
    using s by (auto simp: set_unihash_def bindE_Inr_iff dict_get_Inr_iff)
  moreover have "sg_taskhash g' = sg_taskhash g" "sg_setscenetasks g' = sg_setscenetasks g"
    using set_unihash_view [OF s] by (simp_all add: hash_view_def)
  ultimately show ?thesis
    using assms(2) set_unihash_cached [OF s] by (simp add: get_unihash_cached)
qed

subsection \<open>Examples\<close>

text \<open>A program whose task depends on the task of a library, hashed with a server that knows the library.\<close>

definition lib_task :: tid where "lib_task = ''/meta/lib/lib.bb:do_x''"
definition prog_task :: tid where "prog_task = ''/meta/prog/prog.bb:do_y''"

definition no_flags :: task_deps where
  "no_flags = \<lparr>td_tasks = [], td_parents = [], td_flags = []\<rparr>"

definition two_caches :: caches where
  "two_caches = [([], new_cache
     \<lparr>task_deps_of := [(''/meta/lib/lib.bb'', no_flags), (''/meta/prog/prog.bb'', no_flags)],
      pkg_fn := [(''/meta/lib/lib.bb'', ''lib''), (''/meta/prog/prog.bb'', ''prog'')],
      stamp_of := [(''/meta/lib/lib.bb'', ''s1''), (''/meta/prog/prog.bb'', ''s2'')],
      basetaskhash := [(lib_task, ''L''), (prog_task, ''P'')]\<rparr>)]"

definition two_env :: sig_env where
  "two_env = \<lparr>ignore_pattern = None, multiconfig_caches = False, basehash_ignore_vars = [],
     file_checksums = [([], [(''/meta/lib/lib.bb'', []), (''/meta/prog/prog.bb'', [(''do_y'', ''f'')])])],
     get_checksums = (\<lambda>files pn. Inr [(''/w/./src/f.c'', Some ''c1''), (''/w/gone'', None)]),
     read_taint = (\<lambda>fn task stamp. None), uuid4 = (\<lambda>t. ''uuid''), sha256 = (\<lambda>s. ''#'' @ s),
     hash_method = (\<lambda>t. ''method''), server_unihash = (\<lambda>m h. if h = ''#L'' then Some (Some ''U'') else Some None),
     server_equiv = (\<lambda>h m u. Some (Some u)), output_hash = (\<lambda>p t. Inr ''out''), server_report = (\<lambda>h m o' u. Some u)\<rparr>"

definition new_siggen :: siggen where
  "new_siggen = \<lparr>sg_basehash = [], sg_taskhash = [], sg_unihash = [], sg_runtaskdeps = [], sg_checksums = [],
     sg_taints = [], sg_unitaskhashes = [], sg_tidtopn = [], sg_setscenetasks = [], sg_taskdeps = [],
     sg_gendeps = [], sg_lookupcache = []\<rparr>"

definition two_tasks :: rtentries where
  "two_tasks = [(prog_task, new_rte\<lparr>rt_depends := [lib_task]\<rparr>), (lib_task, new_rte\<lparr>rt_revdeps := [prog_task]\<rparr>)]"

lemma two_tasks_ok: "wf_graph two_tasks" "acyclic (dep_rel two_tasks)" "\<forall>t \<in> tasks two_tasks. sig_known two_env two_caches t"
proof -
  have d: "lib_task \<noteq> prog_task" by (simp add: lib_task_def prog_task_def)
  then show "wf_graph two_tasks"
    by (auto simp: wf_graph_def two_tasks_def tasks_def deps_of_def revdeps_of_def new_rte_def)
  have "dep_rel two_tasks = {(prog_task, lib_task)}"
    using d by (auto simp: dep_rel_def two_tasks_def deps_of_def new_rte_def split: if_splits)
  then show "acyclic (dep_rel two_tasks)" using d by (simp add: acyclic_insert wf_acyclic)
  have "sig_known two_env two_caches prog_task" "sig_known two_env two_caches lib_task" by code_simp+
  then show "\<forall>t \<in> tasks two_tasks. sig_known two_env two_caches t" by (simp add: tasks_def two_tasks_def)
qed

lemma two_tasks_hashes:
  "map_option (map_sum id (map (\<lambda>(t, e). (rt_hash e, rt_unihash e)) \<circ> fst))
     (hash_tasks (siggen_hasher two_env two_caches (get_unihash two_env)) two_tasks new_siggen) =
   Some (Inr [(Some ''#PU./src/f.cc1'', Some ''#PU./src/f.cc1''), (Some ''#L'', Some ''U'')])"
  by code_simp

theorem signatures_computed_witness:
  "\<exists>rt' g' e. hash_tasks (siggen_hasher two_env two_caches (get_unihash two_env)) two_tasks new_siggen = Some (Inr (rt', g'))
    \<and> map_of rt' prog_task = Some e \<and> rt_hash e = map_of (sg_taskhash g') prog_task \<and> rt_hash e \<noteq> None"
  using signatures_computed [OF two_tasks_ok, of new_siggen] by (fastforce simp: tasks_def two_tasks_def)

definition lib_hashed :: siggen where
  "lib_hashed = new_siggen\<lparr>sg_taskhash := [(lib_task, ''#L'')], sg_tidtopn := [(lib_task, ''lib'')]\<rparr>"

definition lib_answered :: siggen where
  "lib_answered = lib_hashed\<lparr>sg_unihash := [(lib_task, Some ''U'')], sg_unitaskhashes := [('':lib:do_x'', (''#L'', ''U''))]\<rparr>"


theorem accepted_unihash_used_witness:
  "\<exists>g'. report_unihash_equiv two_env lib_task ''#L'' ''V'' ''U'' lib_answered = Inr (g', True) \<and>
     get_unihash two_env lib_task g' = Inr (g', ''V'')"
proof -
  obtain g' where g': "report_unihash_equiv two_env lib_task ''#L'' ''V'' ''U'' lib_answered = Inr (g', True)"
    "sg_setscenetasks lib_answered = []"
  proof -
    have "case report_unihash_equiv two_env lib_task ''#L'' ''V'' ''U'' lib_answered of Inr (g', b) \<Rightarrow> b | Inl _ \<Rightarrow> False"
      "sg_setscenetasks lib_answered = []"
      by code_simp+
    with that show ?thesis by (auto split: sum.splits)
  qed
  from accepted_unihash_used [OF g'(1), of two_env] g' show ?thesis by blast
qed

text \<open>
  Two recipe files of the same name share an entry for their unihashes: asking for one forgets what
  an accepted report recorded for the other.
\<close>

lemma shared_unihash_entry:
  "let a = ''/meta/lib/lib_1.bb:do_x''; b = ''/meta/lib/lib_2.bb:do_x'';
       g = new_siggen\<lparr>sg_taskhash := [(a, ''#A''), (b, ''#B'')], sg_tidtopn := [(a, ''lib''), (b, ''lib'')]\<rparr> in
   case report_unihash_equiv two_env a ''#A'' ''V'' ''#A'' g of
     Inl _ \<Rightarrow> False
   | Inr (g1, ok) \<Rightarrow> ok \<and> (case get_unihash two_env b g1 of
       Inl _ \<Rightarrow> False
     | Inr (g2, _) \<Rightarrow> map_sum id snd (get_unihash two_env a g1) = Inr ''V'' \<and> map_sum id snd (get_unihash two_env a g2) = Inr ''#A'')"
  by code_simp

end
