(* ===== verification/SigDump.thy ===== *)
theory SigDump
  imports SigGen
begin

text \<open>
  Signature files: what \<open>dump_sigtask\<close> of \<open>bb/siggen.py\<close> writes for a task, and \<open>calc_basehash\<close> and
  \<open>calc_taskhash\<close>, which work the two hashes out again from what was written. The hashes are
  computed twice by different code; the theorems say when the results agree. Writing the file
  is left out: the operation gives its name and contents.
\<close>

subsection \<open>What is written\<close>

record sig_data =
  sd_task :: string
  sd_taskdeps :: "string list"
  sd_basehash :: string
  sd_gendeps :: "(string, string list) dict"
  sd_varvals :: "(string, dval option) dict"
  sd_runtaskdeps :: "tid list"
  sd_file_checksums :: "(string \<times> string option) list"
  sd_runtaskhashes :: "(tid, string) dict"
  sd_taskhash :: string
  sd_unihash :: string
  sd_taint :: "string option"

text \<open>The part about variables, for the task \<open>task\<close> of the file \<open>fn\<close>.\<close>

definition dump_dep :: "string list \<Rightarrow> (string, string list) dict \<Rightarrow> (string, dval option) dict \<Rightarrow> string
    \<Rightarrow> sig_data \<Rightarrow> sig_data result" where
  "dump_dep ignored gendeps lookupcache dep sd =
     (if dep \<in> set ignored then Inr sd
      else bindE (dict_get gendeps dep) (\<lambda>ds.
        bindE (dict_get lookupcache dep) (\<lambda>v.
          Inr (sd\<lparr>sd_gendeps := dict_set dep ds (sd_gendeps sd), sd_varvals := dict_set dep v (sd_varvals sd)\<rparr>))))"

definition dump_vars :: "sig_env \<Rightarrow> string \<Rightarrow> string \<Rightarrow> siggen \<Rightarrow> sig_data result" where
  "dump_vars E fn task g =
     bindE (dict_get (sg_taskdeps g) fn) (\<lambda>tds.
     bindE (dict_get tds task) (\<lambda>taskdeps.
     bindE (dict_get (sg_basehash g) (fn @ [colon] @ task)) (\<lambda>basehash.
     bindE (dict_get (sg_lookupcache g) fn) (\<lambda>lookupcache.
     bindE (dict_get lookupcache task) (\<lambda>v.
       let gendeps = dict_get_or [] (sg_gendeps g) fn;
           sd = \<lparr>sd_task = task, sd_taskdeps = taskdeps, sd_basehash = basehash, sd_gendeps = [],
                 sd_varvals = [(task, v)], sd_runtaskdeps = [], sd_file_checksums = [], sd_runtaskhashes = [],
                 sd_taskhash = [], sd_unihash = [], sd_taint = None\<rparr> in
       foldE (dump_dep (basehash_ignore_vars E) gendeps lookupcache) taskdeps sd)))))"

definition dump_checksum :: "string \<times> string option \<Rightarrow> string \<times> string option" where
  "dump_checksum = (\<lambda>(f, cs).
     (case second_part ''/./'' f of Some r \<Rightarrow> ''./'' @ r | None \<Rightarrow> basename f, cs))"

definition dump_runtime :: "(tid \<Rightarrow> siggen \<Rightarrow> string sig) \<Rightarrow> tid \<Rightarrow> sig_data \<Rightarrow> siggen \<Rightarrow> sig_data sig" where
  "dump_runtime unihash_of tid sd g =
     bindE (dict_get (sg_runtaskdeps g) tid) (\<lambda>deps.
     bindE (dict_get (sg_checksums g) tid) (\<lambda>checksums.
     bindE (foldE (\<lambda>dep (g, hs). bindE (unihash_of dep g) (\<lambda>(g', u). Inr (g', dict_set dep u hs))) deps (g, [])) (\<lambda>(g1, hs).
     bindE (dict_get (sg_taskhash g1) tid) (\<lambda>h.
     bindE (unihash_of tid g1) (\<lambda>(g2, u).
       Inr (g2, sd\<lparr>sd_runtaskdeps := deps, sd_file_checksums := map dump_checksum checksums, sd_runtaskhashes := hs,
                   sd_taskhash := h, sd_unihash := u\<rparr>))))))"

text \<open>A taint file, and over it an implicit taint of the session.\<close>

definition dump_taint :: "string option \<Rightarrow> bool \<Rightarrow> string option \<Rightarrow> string option" where
  "dump_taint file runtime taint =
     (case taint of
        Some t \<Rightarrow> if runtime \<and> str_in ''nostamp:'' t then Some t
                  else (case file of Some f \<Rightarrow> if f = [] then None else Some f | None \<Rightarrow> None)
      | None \<Rightarrow> (case file of Some f \<Rightarrow> if f = [] then None else Some f | None \<Rightarrow> None))"

subsection \<open>Working the hashes out again\<close>

definition calc_basehash :: "scanner \<Rightarrow> (string \<Rightarrow> string) \<Rightarrow> sig_data \<Rightarrow> string result" where
  "calc_basehash C sha sd =
     bindE (dict_get (sd_varvals sd) (sd_task sd)) (\<lambda>v.
     bindE (case v of
              None \<Rightarrow> Inr []
            | Some (Text t) \<Rightarrow> Inr t
            | Some _ \<Rightarrow> Inl (if sd_taskdeps sd = [] then AttributeError else TypeError)) (\<lambda>basedata.
     bindE (foldE (\<lambda>dep basedata. bindE (dict_get (sd_varvals sd) dep) (\<lambda>val.
              Inr (basedata @ dep @ (case val of None \<Rightarrow> [] | Some w \<Rightarrow> py_str C w)))) (sd_taskdeps sd) basedata) (\<lambda>basedata.
       Inr (sha basedata))))"

definition calc_checksum :: "string \<times> string option \<Rightarrow> string" where
  "calc_checksum = (\<lambda>(f, cs).
     case cs of
       None \<Rightarrow> []
     | Some c \<Rightarrow> if c = [] then [] else (if str_in ''./'' f then f else []) @ c)"

definition calc_taint :: "string option \<Rightarrow> string" where
  "calc_taint t = (case t of None \<Rightarrow> [] | Some s \<Rightarrow> if str_in ''nostamp:'' s then drop 8 s else s)"

definition calc_taskhash :: "(string \<Rightarrow> string) \<Rightarrow> sig_data \<Rightarrow> string result" where
  "calc_taskhash sha sd =
     bindE (foldE (\<lambda>dep data. bindE (dict_get (sd_runtaskhashes sd) dep) (\<lambda>h. Inr (data @ h)))
              (sd_runtaskdeps sd) (sd_basehash sd)) (\<lambda>data.
       Inr (sha (data @ concat (map calc_checksum (sd_file_checksums sd)) @ calc_taint (sd_taint sd))))"

subsection \<open>Dumping a task\<close>

datatype dump_mode = Dump_base | Dump_runtime | Dump_custom string

definition is_runtime :: "dump_mode \<Rightarrow> bool" where
  "is_runtime mode = (mode \<noteq> Dump_base)"

text \<open>The result has the name of the file, what is written, and whether a hash came out different.\<close>

record sig_file =
  sf_name :: string
  sf_data :: sig_data
  sf_base_mismatch :: bool
  sf_task_mismatch :: bool

definition sigfile_name :: "(tid \<Rightarrow> siggen \<Rightarrow> string sig) \<Rightarrow> tid \<Rightarrow> string \<Rightarrow> string \<Rightarrow> dump_mode \<Rightarrow> siggen \<Rightarrow> string sig" where
  "sigfile_name unihash_of tid task stampbase mode g =
     (case mode of
        Dump_custom ref \<Rightarrow> Inr (g, stampbase)
      | Dump_runtime \<Rightarrow>
          if tid \<in> set (dict_keys (sg_taskhash g)) then
            bindE (unihash_of tid g) (\<lambda>(g', u). Inr (g', stampbase @ ''.'' @ task @ ''.sigdata.'' @ u))
          else bindE (dict_get (sg_basehash g) tid) (\<lambda>h. Inr (g, stampbase @ ''.'' @ task @ ''.sigbasedata.'' @ h))
      | Dump_base \<Rightarrow> bindE (dict_get (sg_basehash g) tid) (\<lambda>h. Inr (g, stampbase @ ''.'' @ task @ ''.sigbasedata.'' @ h)))"

definition dump_sigtask :: "sig_env \<Rightarrow> scanner \<Rightarrow> (tid \<Rightarrow> siggen \<Rightarrow> string sig) \<Rightarrow> string \<Rightarrow> string \<Rightarrow> string
    \<Rightarrow> dump_mode \<Rightarrow> siggen \<Rightarrow> sig_file sig" where
  "dump_sigtask E C unihash_of fn task stampbase mode g =
     (let tid = fn @ [colon] @ task;
          referencestamp = (case mode of Dump_custom ref \<Rightarrow> ref | _ \<Rightarrow> stampbase) in
      bindE (sigfile_name unihash_of tid task stampbase mode g) (\<lambda>(g, sigfile).
      bindE (dump_vars E fn task g) (\<lambda>sd.
      let hashed = is_runtime mode \<and> tid \<in> set (dict_keys (sg_taskhash g)) in
      bindE (if hashed then dump_runtime unihash_of tid sd g else Inr (g, sd)) (\<lambda>(g, sd).
      let sd = sd\<lparr>sd_taint := dump_taint (read_taint E fn task referencestamp) (is_runtime mode) (map_of (sg_taints g) tid)\<rparr> in
      bindE (calc_basehash C (sha256 E) sd) (\<lambda>base.
      bindE (if hashed then bindE (calc_taskhash (sha256 E) sd) (\<lambda>h. Inr (Some h)) else Inr None) (\<lambda>computed.
      let changed = (case computed of None \<Rightarrow> False | Some h \<Rightarrow> h \<noteq> sd_taskhash sd) in
        Inr (g, \<lparr>sf_name = (case computed of
                    Some h \<Rightarrow> if changed then replace_all (sd_taskhash sd) h sigfile else sigfile
                  | None \<Rightarrow> sigfile),
                sf_data = sd, sf_base_mismatch = (base \<noteq> sd_basehash sd), sf_task_mismatch = changed\<rparr>)))))))"

subsection \<open>Base hashes\<close>

text \<open>What the tables of \<open>generate_dependency_hash\<close> say about each task they hold.\<close>

definition hashed_tabs :: "scanner \<Rightarrow> (string \<Rightarrow> string) \<Rightarrow> (string, dval option) dict \<Rightarrow> string list \<Rightarrow> string
    \<Rightarrow> hash_tables \<Rightarrow> bool" where
  "hashed_tabs C sha lookupcache ignored fn = (\<lambda>(gendeps, taskdeps, basehash).
     \<forall>task ds. map_of taskdeps task = Some ds \<longrightarrow>
       (\<exists>data. hash_input C lookupcache task ds = Inr data \<and> map_of basehash (fn @ [colon] @ task) = Some (sha data)) \<and>
       set ds \<inter> set ignored = {} \<and> set ds \<subseteq> fst ` set gendeps)"

lemma hash_one_task_hashed:
  assumes "hash_one_task C sha lk ignored fn task (g, td, bh) = Some (Inr (g', td', bh'))"
  shows "\<exists>ds data. td' = dict_set task ds td \<and> bh' = dict_set (fn @ [colon] @ task) (sha data) bh
    \<and> hash_input C lk task ds = Inr data \<and> set ds \<inter> set ignored = {} \<and> set ds \<subseteq> fst ` set g' \<and> fst ` set g' = fst ` set g"
proof -
  obtain ds where "bindE (dict_get lk task) (\<lambda>_. dict_get g task) = Inr ds"
    using assms by (cases "bindE (dict_get lk task) (\<lambda>_. dict_get g task)") (simp_all add: hash_one_task_def)
  note e = this
  then have ds: "map_of g task = Some ds" by (auto simp: bindE_Inr_iff dict_get_Inr_iff)
  let ?g = "dict_set task (set_diff ds ignored) g"
  from gather_task [OF ds, of ignored] show ?thesis
  proof (elim disjE exE conjE)
    fix g2 seen
    assume run: "gather_loop (gather_fuel ?g) ignored (set_diff ds ignored) [] ?g = Some (Inr (g2, seen))"
      and a: "same_kept ignored g2 g" "set seen = reached ignored g task" "reached ignored g task \<subseteq> fst ` set g"
    have "set seen \<inter> set ignored = {}"
      using a(2) by (auto simp: reached_def dep_edges_def kept_deps_def elim: tranclE)
    moreover obtain data where "hash_input C lk task (sort seen) = Inr data" "g' = g2" "td' = dict_set task (sort seen) td"
      "bh' = dict_set (fn @ [colon] @ task) (sha data) bh"
      using assms e run by (auto simp: hash_one_task_def Let_def bindE_Inr_iff)
    ultimately show ?thesis using a by (intro exI [of _ "sort seen"] exI [of _ data]) (simp add: same_kept_def)
  next
    assume "gather_loop (gather_fuel ?g) ignored (set_diff ds ignored) [] ?g = Some (Inl KeyError)"
    then show ?thesis using assms e by (simp add: hash_one_task_def Let_def)
  qed
qed

lemma hash_each_task_hashed:
  "hash_each_task C sha lk ignored fn ts tabs = Some (Inr (g', td', bh')) \<Longrightarrow> hashed_tabs C sha lk ignored fn tabs \<Longrightarrow>
   hashed_tabs C sha lk ignored fn (g', td', bh') \<and> fst ` set td' = fst ` set (fst (snd tabs)) \<union> set ts"
proof (induction ts arbitrary: tabs)
  case (Cons task ts)
  obtain g td bh where tabs: "tabs = (g, td, bh)" by (cases tabs)
  obtain g1 td1 bh1 where one: "hash_one_task C sha lk ignored fn task (g, td, bh) = Some (Inr (g1, td1, bh1))"
    and rest: "hash_each_task C sha lk ignored fn ts (g1, td1, bh1) = Some (Inr (g', td', bh'))"
    using Cons.prems(1) tabs by (auto split: option.splits sum.splits)
  obtain ds data where h: "td1 = dict_set task ds td" "bh1 = dict_set (fn @ [colon] @ task) (sha data) bh"
    "hash_input C lk task ds = Inr data" "set ds \<inter> set ignored = {}" "set ds \<subseteq> fst ` set g1" "fst ` set g1 = fst ` set g"
    using hash_one_task_hashed [OF one] by blast
  have "hashed_tabs C sha lk ignored fn (g1, td1, bh1)"
    using Cons.prems(2) h(3-6) unfolding hashed_tabs_def tabs h(1,2) by auto
  from Cons.IH [OF rest this] show ?case by (simp add: tabs h(1) fst_set_keys)
qed simp

lemma noted_basehashes:
  "loop (note_basehash P n b fn bh) ts g s = Some (Inr g', s') \<Longrightarrow>
   (\<forall>tid. map_of (sg_basehash g') tid =
     (if tid \<in> (\<lambda>task. fn @ [colon] @ task) ` set ts then map_of bh tid else map_of (sg_basehash g) tid))"
proof (induction ts arbitrary: g s)
  case (Cons task ts)
  obtain g1 s1 where one: "note_basehash P n b fn bh task g s = Some (Inr g1, s1)"
    and rest: "loop (note_basehash P n b fn bh) ts g1 s1 = Some (Inr g', s')"
    using Cons.prems by (auto simp: seq_Inr_iff)
  obtain h where "map_of bh (fn @ [colon] @ task) = Some h"
    "g1 = g\<lparr>sg_basehash := dict_set (fn @ [colon] @ task) h (sg_basehash g)\<rparr>"
    using one by (auto simp: note_basehash_def Let_def seq_Inr_iff dict_get_Inr_iff)
  with Cons.IH [OF rest] show ?case by auto
qed simp

lemma dumped_deps:
  assumes "\<forall>d \<in> set ds. d \<notin> set ignored \<and> d \<in> fst ` set gendeps \<and> d \<in> fst ` set lk"
  shows "\<exists>sd'. foldE (dump_dep ignored gendeps lk) ds sd = Inr sd' \<and> sd_task sd' = sd_task sd
    \<and> sd_taskdeps sd' = sd_taskdeps sd \<and> sd_basehash sd' = sd_basehash sd
    \<and> (\<forall>d. map_of (sd_varvals sd') d = (if d \<in> set ds then map_of lk d else map_of (sd_varvals sd) d))"
  using assms
proof (induction ds arbitrary: sd)
  case (Cons d ds)
  then obtain x v where "map_of gendeps d = Some x" "map_of lk d = Some v"
    using map_of_None_iff [of gendeps d] map_of_None_iff [of lk d]
    by (cases "map_of gendeps d"; cases "map_of lk d") auto
  note xv = this
  let ?sd = "sd\<lparr>sd_gendeps := dict_set d x (sd_gendeps sd), sd_varvals := dict_set d v (sd_varvals sd)\<rparr>"
  have one: "dump_dep ignored gendeps lk d sd = Inr ?sd"
    using Cons.prems xv by (simp add: dump_dep_def dict_get_def)
  obtain sd' where "foldE (dump_dep ignored gendeps lk) ds ?sd = Inr sd'" "sd_task sd' = sd_task ?sd"
    "sd_taskdeps sd' = sd_taskdeps ?sd" "sd_basehash sd' = sd_basehash ?sd"
    "\<forall>e. map_of (sd_varvals sd') e = (if e \<in> set ds then map_of lk e else map_of (sd_varvals ?sd) e)"
    using Cons.IH [of ?sd] Cons.prems by auto
  with one xv show ?case by auto
qed simp

lemma hash_input_keys:
  assumes "hash_input C lk task ds = Inr data"
  shows "task \<in> fst ` set lk" and "set ds \<subseteq> fst ` set lk"
proof -
  have "set ds \<subseteq> fst ` set lk" if "foldE (\<lambda>dep acc. bindE (dep_data C lk dep) (\<lambda>t. Inr (acc @ t))) ds acc = Inr r" for acc r
    using that
  proof (induction ds arbitrary: acc)
    case (Cons d ds)
    then have "map_of lk d \<noteq> None" by (auto simp: bindE_Inr_iff dep_data_def dict_get_Inr_iff)
    then have "d \<in> fst ` set lk" using map_of_None_iff [of lk d] by auto
    with Cons show ?case by (auto simp: bindE_Inr_iff)
  qed simp
  then show "set ds \<subseteq> fst ` set lk" using assms by (auto simp: hash_input_def bindE_Inr_iff)
  have "map_of lk task \<noteq> None" using assms by (auto simp: hash_input_def bindE_Inr_iff dict_get_Inr_iff)
  then show "task \<in> fst ` set lk" using map_of_None_iff [of lk task] by auto
qed

text \<open>On the same values the second computation hashes the same text.\<close>

lemma calc_basehash_hash_input:
  assumes "hash_input C lk (sd_task sd) (sd_taskdeps sd) = Inr data"
    and "\<forall>d \<in> insert (sd_task sd) (set (sd_taskdeps sd)). map_of (sd_varvals sd) d = map_of lk d"
  shows "calc_basehash C sha sd = Inr (sha data)"
proof -
  have f: "foldE (\<lambda>dep basedata. bindE (dict_get (sd_varvals sd) dep) (\<lambda>val.
        Inr (basedata @ dep @ (case val of None \<Rightarrow> [] | Some w \<Rightarrow> py_str C w)))) ds (base @ acc) = Inr (base @ r)"
    if "foldE (\<lambda>dep acc. bindE (dep_data C lk dep) (\<lambda>t. Inr (acc @ t))) ds acc = Inr r"
      and "\<forall>d \<in> set ds. map_of (sd_varvals sd) d = map_of lk d" for ds base acc r
    using that
  proof (induction ds arbitrary: acc)
    case (Cons d ds)
    obtain v where v: "map_of lk d = Some v" using Cons.prems(1) by (auto simp: bindE_Inr_iff dep_data_def dict_get_Inr_iff)
    with Cons show ?case by (simp add: dep_data_def dict_get_def)
  qed simp
  obtain v rest t where v: "map_of lk (sd_task sd) = Some v"
    "foldE (\<lambda>dep acc. bindE (dep_data C lk dep) (\<lambda>t. Inr (acc @ t))) (sd_taskdeps sd) [] = Inr rest"
    "first_data v = Inr t" "data = t @ rest"
    using assms(1) by (auto simp: hash_input_def bindE_Inr_iff dict_get_Inr_iff)
  have "map_of (sd_varvals sd) (sd_task sd) = Some v" using assms(2) v(1) by simp
  moreover have "v = None \<and> t = [] \<or> v = Some (Text t)"
    using v(3) by (auto simp: first_data_def split: option.splits dval.splits)
  moreover have "\<forall>d \<in> set (sd_taskdeps sd). map_of (sd_varvals sd) d = map_of lk d" using assms(2) by blast
  ultimately show ?thesis
    using f [OF v(2), of t] v(4) by (auto simp: calc_basehash_def dict_get_def)
qed

subsection \<open>Task hashes\<close>

lemma str_in_prefix: "str_in p (p @ s)"
proof (cases "p @ s")
  case (Cons c r)
  have "startswith (p @ s) p" by (simp add: startswith_iff)
  with Cons show ?thesis by (simp add: Cons)
qed simp

lemma startswith_in: "startswith s p \<Longrightarrow> str_in p s"
  by (cases s) (auto simp: startswith_iff)

lemma str_in_set: "str_in p s \<Longrightarrow> set p \<subseteq> set s"
proof (induction s)
  case (Cons c s)
  show ?case
  proof (cases "startswith (c # s) p")
    case True
    then obtain t where "c # s = p @ t" by (auto simp: startswith_iff)
    then show ?thesis by (metis set_append Un_upper1)
  next
    case False
    with Cons show ?thesis by auto
  qed
qed simp

lemma calc_dump_checksum: "calc_checksum (dump_checksum x) = checksum_data x"
proof -
  obtain f cs where x: "x = (f, cs)" by force
  have "slash \<notin> set (basename f)" by (auto simp: basename_def dest: set_takeWhileD)
  then have b: "\<not> str_in ''./'' (basename f)" using str_in_set [of "''./''" "basename f"] by (auto simp: slash_def)
  show ?thesis
    using b str_in_prefix [of "''./''"]
    by (cases cs; cases "second_part ''/./'' f") (auto simp: x calc_checksum_def dump_checksum_def checksum_data_def)
qed

text \<open>A taint that mentions \<open>nostamp:\<close> only at its start is read back as it was hashed.\<close>

lemma calc_dump_taint:
  assumes "\<forall>t. taint = Some t \<longrightarrow> startswith t ''nostamp:'' \<or> (\<not> str_in ''nostamp:'' t \<and> file = Some t \<and> t \<noteq> [])"
    and "taint = None \<longrightarrow> file = None \<or> file = Some []"
  shows "calc_taint (dump_taint file True taint) = taint_data taint"
proof (cases taint)
  case None
  with assms(2) show ?thesis by (auto simp: calc_taint_def dump_taint_def taint_data_def)
next
  case (Some t)
  with assms(1) have "startswith t ''nostamp:'' \<or> (\<not> str_in ''nostamp:'' t \<and> file = Some t \<and> t \<noteq> [])" by blast
  then show ?thesis
  proof
    assume a: "startswith t ''nostamp:''"
    with Some startswith_in [OF a] show ?thesis by (simp add: calc_taint_def dump_taint_def taint_data_def)
  next
    assume a: "\<not> str_in ''nostamp:'' t \<and> file = Some t \<and> t \<noteq> []"
    then have "\<not> startswith t ''nostamp:''" using startswith_in by blast
    with Some a show ?thesis by (simp add: calc_taint_def dump_taint_def taint_data_def)
  qed
qed

lemma prep_taskhash_taint:
  assumes "prep_taskhash E dcs tid deps g = Inr g'" and "split_tid_mcfn tid = Inr (mc, b, task, fn)"
    and "dict_get dcs mc = Inr dc" and "dict_get (stamp_of dc) fn = Inr stamp"
    and "\<forall>t. map_of (sg_taints g) tid = Some t \<longrightarrow> startswith t ''nostamp:''"
  shows "case read_taint E fn task stamp of
      Some t \<Rightarrow> if t = [] then \<forall>t. map_of (sg_taints g') tid = Some t \<longrightarrow> startswith t ''nostamp:''
                else map_of (sg_taints g') tid = Some t
    | None \<Rightarrow> \<forall>t. map_of (sg_taints g') tid = Some t \<longrightarrow> startswith t ''nostamp:''"
proof -
  obtain tdp g4 where g4: "sg_taints g4 = sg_taints g" "g' = note_taint E fn task stamp tid (note_nostamp E tdp task tid g4)"
  proof -
    obtain h pn ds g3 cs tdp where p: "foldE (note_rundep E dcs tid mc pn) ds (g\<lparr>sg_basehash := dict_set tid h (sg_basehash g),
          sg_runtaskdeps := dict_set tid [] (sg_runtaskdeps g), sg_checksums := dict_set tid [] (sg_checksums g),
          sg_tidtopn := dict_set tid pn (sg_tidtopn g)\<rparr>) = Inr g3"
      "g' = note_taint E fn task stamp tid (note_nostamp E tdp task tid
          (g3\<lparr>sg_checksums := dict_set tid (dict_get_or [] (sg_checksums g3) tid @ cs) (sg_checksums g3)\<rparr>))"
      using assms(1-4) by (auto simp: prep_taskhash_def Let_def bindE_Inr_iff)
    have "sg_taints g3 = sg_taints g"
      by (rule foldE_invariant [OF p(1), where P = "\<lambda>x. sg_taints x = sg_taints g"])
         (auto simp: note_rundep_def bindE_Inr_iff split: if_splits)
    then show ?thesis by (intro that [OF _ p(2)]) simp
  qed
  have n: "\<forall>t. map_of (sg_taints (note_nostamp E tdp task tid g4)) tid = Some t \<longrightarrow> startswith t ''nostamp:''"
    using assms(5) unfolding g4(1) [symmetric]
    by (auto simp: note_nostamp_def startswith_iff split: option.splits if_splits)
  show ?thesis
    using n by (auto simp: g4(2) note_taint_def split: option.splits)
qed

lemma basic_unihashes:
  "foldE (\<lambda>dep (g, x). bindE (basic_unihash dep g) (\<lambda>(g', u). Inr (g', f dep u x))) ds (g, x) = Inr (g', x') \<Longrightarrow>
   g' = g \<and> (\<forall>d \<in> set ds. map_of (sg_taskhash g) d \<noteq> None) \<and>
   x' = fold (\<lambda>d. f d (the (map_of (sg_taskhash g) d))) ds x"
  by (induction ds arbitrary: x) (auto simp: basic_unihash_def bindE_Inr_iff dict_get_Inr_iff)

lemma fold_dict_set:
  "map_of (fold (\<lambda>d. dict_set d (f d)) ds x) k = (if k \<in> set ds then Some (f k) else map_of x k)"
  by (induction ds arbitrary: x) auto

lemma fold_data: "fold (\<lambda>d acc. acc @ f d) ds (x :: string) = x @ concat (map f ds)"
  by (induction ds arbitrary: x) auto

lemma foldE_lookups:
  "\<forall>d \<in> set ds. map_of hs d = Some (f d) \<Longrightarrow>
   foldE (\<lambda>dep data. bindE (dict_get hs dep) (\<lambda>h. Inr (data @ h))) ds x = Inr (x @ concat (map f ds))"
  by (induction ds arbitrary: x) (auto simp: dict_get_def)

text \<open>The task hash, and the same worked out from what is dumped right after it.\<close>

lemma get_taskhash_basic:
  assumes "get_taskhash E basic_unihash tid g = Inr (g', h)"
  obtains base ds cs where "map_of (sg_basehash g) tid = Some base" "map_of (sg_runtaskdeps g) tid = Some ds"
    "map_of (sg_checksums g) tid = Some cs" "\<forall>d \<in> set ds. map_of (sg_taskhash g) d \<noteq> None"
    "g' = g\<lparr>sg_taskhash := dict_set tid h (sg_taskhash g)\<rparr>"
    "h = sha256 E (base @ concat (map (\<lambda>d. the (map_of (sg_taskhash g) d)) ds)
           @ concat (map checksum_data cs) @ taint_data (map_of (sg_taints g) tid))"
proof -
  obtain base ds g1 data cs where a: "map_of (sg_basehash g) tid = Some base" "map_of (sg_runtaskdeps g) tid = Some ds"
    "foldE (\<lambda>dep (g, data). bindE (basic_unihash dep g) (\<lambda>(g', u). Inr (g', data @ u))) ds (g, base) = Inr (g1, data)"
    "map_of (sg_checksums g1) tid = Some cs"
    "h = sha256 E (data @ concat (map checksum_data cs) @ taint_data (map_of (sg_taints g1) tid))"
    "g' = g1\<lparr>sg_taskhash := dict_set tid h (sg_taskhash g1)\<rparr>"
    using assms by (auto simp: get_taskhash_def bindE_Inr_iff dict_get_Inr_iff Let_def)
  from basic_unihashes [OF a(3)] have b: "g1 = g" "\<forall>d \<in> set ds. map_of (sg_taskhash g) d \<noteq> None"
    "data = base @ concat (map (\<lambda>d. the (map_of (sg_taskhash g) d)) ds)"
    by (auto simp: fold_data)
  show ?thesis by (rule that [OF a(1,2)]) (use a(4-6) b in simp_all)
qed

lemma dump_runtime_basic:
  assumes "dump_runtime basic_unihash tid sd g = Inr (g', sd')"
  obtains ds cs h where "g' = g" "map_of (sg_runtaskdeps g) tid = Some ds" "map_of (sg_checksums g) tid = Some cs"
    "map_of (sg_taskhash g) tid = Some h"
    "\<And>sha t. calc_taskhash sha (sd'\<lparr>sd_taint := t\<rparr>) = Inr (sha (sd_basehash sd @
        concat (map (\<lambda>d. the (map_of (sg_taskhash g) d)) ds) @ concat (map checksum_data cs) @ calc_taint t))"
    "sd_taskhash sd' = h"
proof -
  obtain ds cs g1 hs h g2 u where a: "map_of (sg_runtaskdeps g) tid = Some ds" "map_of (sg_checksums g) tid = Some cs"
    "foldE (\<lambda>dep (g, hs). bindE (basic_unihash dep g) (\<lambda>(g', u). Inr (g', dict_set dep u hs))) ds (g, []) = Inr (g1, hs)"
    "map_of (sg_taskhash g1) tid = Some h" "basic_unihash tid g1 = Inr (g2, u)" "g' = g2"
    "sd' = sd\<lparr>sd_runtaskdeps := ds, sd_file_checksums := map dump_checksum cs, sd_runtaskhashes := hs,
                   sd_taskhash := h, sd_unihash := u\<rparr>"
    using assms by (auto simp: dump_runtime_def bindE_Inr_iff dict_get_Inr_iff)
  from basic_unihashes [OF a(3)] have g1: "g1 = g"
    and hs: "hs = fold (\<lambda>d. dict_set d (the (map_of (sg_taskhash g) d))) ds []" by blast+
  have l: "\<forall>d \<in> set ds. map_of hs d = Some (the (map_of (sg_taskhash g) d))"
    unfolding hs fold_dict_set by simp
  have c: "concat (map (calc_checksum \<circ> dump_checksum) cs) = concat (map checksum_data cs)"
    by (simp add: comp_def calc_dump_checksum)
  have "g2 = g" using a(5) g1 by (auto simp: basic_unihash_def bindE_Inr_iff)
  show ?thesis
    by (rule that [of ds cs h])
       (use a g1 \<open>g2 = g\<close> c in \<open>simp_all add: calc_taskhash_def foldE_lookups [OF l]\<close>)
qed

lemma dumped_deps_keep:
  "foldE (dump_dep ignored gendeps lk) ds sd = Inr sd' \<Longrightarrow> sd_basehash sd' = sd_basehash sd"
  by (induction ds arbitrary: sd) (auto simp: dump_dep_def bindE_Inr_iff split: if_splits)

lemma dump_vars_basehash:
  assumes "dump_vars E fn task g = Inr sd"
  shows "map_of (sg_basehash g) (fn @ [colon] @ task) = Some (sd_basehash sd)"
  using assms dumped_deps_keep by (fastforce simp: dump_vars_def bindE_Inr_iff dict_get_Inr_iff Let_def)

lemma dump_sigtask_runtime:
  assumes "dump_sigtask E C unihash_of fn task stampbase Dump_runtime g = Inr (g', sf)"
    and "sigfile_name unihash_of (fn @ [colon] @ task) task stampbase Dump_runtime g = Inr (g1, name)"
    and "fn @ [colon] @ task \<in> set (dict_keys (sg_taskhash g1))"
  obtains sd g2 sd' computed where "dump_vars E fn task g1 = Inr sd"
    "dump_runtime unihash_of (fn @ [colon] @ task) sd g1 = Inr (g2, sd')"
    "calc_taskhash (sha256 E) (sd'\<lparr>sd_taint := dump_taint (read_taint E fn task stampbase) True
        (map_of (sg_taints g2) (fn @ [colon] @ task))\<rparr>) = Inr computed"
    "sf_data sf = sd'\<lparr>sd_taint := dump_taint (read_taint E fn task stampbase) True
        (map_of (sg_taints g2) (fn @ [colon] @ task))\<rparr>"
    "sf_task_mismatch sf = (computed \<noteq> sd_taskhash sd')"
proof -
  obtain sd where sd: "dump_vars E fn task g1 = Inr sd"
    using assms by (cases "dump_vars E fn task g1") (simp_all add: dump_sigtask_def)
  obtain g2 sd' where r: "dump_runtime unihash_of (fn @ [colon] @ task) sd g1 = Inr (g2, sd')"
    using assms sd by (cases "dump_runtime unihash_of (fn @ [colon] @ task) sd g1")
      (auto simp: dump_sigtask_def is_runtime_def simp del: set_map)
  let ?sd = "sd'\<lparr>sd_taint := dump_taint (read_taint E fn task stampbase) True
        (map_of (sg_taints g2) (fn @ [colon] @ task))\<rparr>"
  obtain c where c: "calc_taskhash (sha256 E) ?sd = Inr c"
    using assms sd r by (cases "calc_taskhash (sha256 E) ?sd")
      (auto simp: dump_sigtask_def is_runtime_def bindE_Inr_iff Let_def simp del: set_map)
  have "sf_data sf = ?sd" "sf_task_mismatch sf = (c \<noteq> sd_taskhash sd')"
    using assms sd r c by (auto simp: dump_sigtask_def is_runtime_def bindE_Inr_iff Let_def simp del: set_map)
  then show ?thesis by (rule that [OF sd r c])
qed

subsection \<open>Properties\<close>

text \<open>
  Property C35. The base hash that \<open>dump_sigtask\<close> works out again from what it writes is the one that
  was computed when the recipe was parsed: right after \<open>_build_data\<close>, every task can be dumped and
  its two base hashes agree.
\<close>

theorem dumped_basehash_agrees:
  assumes "build_data E P n C fn g s = Some (Inr (g', taskdeps), s')" and "task \<in> set (dict_keys taskdeps)"
  shows "\<exists>sd. dump_vars E fn task g' = Inr sd \<and> calc_basehash C (sha256 E) sd = Inr (sd_basehash sd)"
proof -
  obtain v tasklist gd lk gendeps bh g1 s1 s2 s3 where b:
    "generate_dependency_hash C (sha256 E) tasklist gd lk (basehash_ignore_vars E) fn = Some (Inr (gendeps, taskdeps, bh))"
    "loop (note_basehash P n (v = Some (Text ''1'')) fn bh) tasklist g s2 = Some (Inr g1, s3)"
    "g' = g1\<lparr>sg_taskdeps := dict_set fn taskdeps (sg_taskdeps g1), sg_gendeps := dict_set fn gendeps (sg_gendeps g1),
             sg_lookupcache := dict_set fn lk (sg_lookupcache g1)\<rparr>"
    using assms(1) by (auto simp: build_data_def seq_Inr_iff of_outcome_def)
  have "hashed_tabs C (sha256 E) lk (basehash_ignore_vars E) fn (gd, [], [])" by (simp add: hashed_tabs_def)
  from hash_each_task_hashed [OF b(1) [unfolded generate_dependency_hash_def] this]
  have t: "hashed_tabs C (sha256 E) lk (basehash_ignore_vars E) fn (gendeps, taskdeps, bh)"
    "fst ` set taskdeps = set tasklist" by auto
  obtain ds where ds: "map_of taskdeps task = Some ds"
    using assms(2) map_of_None_iff [of taskdeps task] by (cases "map_of taskdeps task") auto
  with t(1) obtain data where d: "hash_input C lk task ds = Inr data" "map_of bh (fn @ [colon] @ task) = Some (sha256 E data)"
    "set ds \<inter> set (basehash_ignore_vars E) = {}" "set ds \<subseteq> fst ` set gendeps"
    unfolding hashed_tabs_def prod.case by meson
  note k = hash_input_keys [OF d(1)]
  obtain v' where v': "map_of lk task = Some v'" using k(1) map_of_None_iff [of lk task] by (cases "map_of lk task") auto
  have "task \<in> set tasklist" using assms(2) t(2) by simp
  with noted_basehashes [OF b(2)] d(2) have h: "map_of (sg_basehash g') (fn @ [colon] @ task) = Some (sha256 E data)"
    by (simp add: b(3))
  let ?sd = "\<lparr>sd_task = task, sd_taskdeps = ds, sd_basehash = sha256 E data, sd_gendeps = [],
                 sd_varvals = [(task, v')], sd_runtaskdeps = [], sd_file_checksums = [], sd_runtaskhashes = [],
                 sd_taskhash = [], sd_unihash = [], sd_taint = None\<rparr>"
  have "\<forall>x \<in> set ds. x \<notin> set (basehash_ignore_vars E) \<and> x \<in> fst ` set gendeps \<and> x \<in> fst ` set lk"
    using d(3,4) k(2) by auto
  from dumped_deps [OF this, of ?sd] obtain sd' where
    s: "foldE (dump_dep (basehash_ignore_vars E) gendeps lk) ds ?sd = Inr sd'" "sd_task sd' = task" "sd_taskdeps sd' = ds"
      "sd_basehash sd' = sha256 E data"
      "\<forall>x. map_of (sd_varvals sd') x = (if x \<in> set ds then map_of lk x else map_of (sd_varvals ?sd) x)"
    by auto
  have "dump_vars E fn task g' = Inr sd'"
    using s(1) ds h v' by (simp add: dump_vars_def b(3) dict_get_def dict_get_or_def)
  moreover have "calc_basehash C (sha256 E) sd' = Inr (sd_basehash sd')"
    unfolding s(4) by (rule calc_basehash_hash_input [where lk = lk]) (use s d(1) v' in simp_all)
  ultimately show ?thesis by blast
qed


subsection \<open>Examples\<close>

text \<open>The task of \<open>task_store\<close>, which has an ignored variable, parsed and dumped.\<close>

definition date_env :: sig_env where
  "date_env = two_env\<lparr>basehash_ignore_vars := [''DATE'']\<rparr>"

lemma parsed_task:
  obtains g' s' where "build_data date_env no_python 6 no_scan ''/meta/lib/lib.bb'' new_siggen task_store =
    Some (Inr (g', [(''do_x'', [''A'', ''B''])]), s')"
    and "sg_basehash g' = [(lib_task, ''#run ${A} ${DATE}Aa${B}Bb'')]"
proof -
  have "case build_data date_env no_python 6 no_scan ''/meta/lib/lib.bb'' new_siggen task_store of
      Some (Inr (g', taskdeps), s') \<Rightarrow> taskdeps = [(''do_x'', [''A'', ''B''])] \<and>
        sg_basehash g' = [(lib_task, ''#run ${A} ${DATE}Aa${B}Bb'')]
    | _ \<Rightarrow> False"
    by code_simp
  then show ?thesis using that by (auto split: option.splits sum.splits)
qed

theorem dumped_basehash_agrees_witness:
  "\<exists>g' taskdeps s' sd. build_data date_env no_python 6 no_scan ''/meta/lib/lib.bb'' new_siggen task_store =
      Some (Inr (g', taskdeps), s') \<and> dump_vars date_env ''/meta/lib/lib.bb'' ''do_x'' g' = Inr sd \<and>
    calc_basehash no_scan (sha256 date_env) sd = Inr (sd_basehash sd)"
proof -
  obtain g' s' where b: "build_data date_env no_python 6 no_scan ''/meta/lib/lib.bb'' new_siggen task_store =
      Some (Inr (g', [(''do_x'', [''A'', ''B''])]), s')"
    by (rule parsed_task)
  from dumped_basehash_agrees [OF b, of "''do_x''"] b show ?thesis by auto
qed

text \<open>The program of \<open>two_tasks\<close> after its library was hashed, and after it was hashed itself.\<close>

definition lib_known :: siggen where
  "lib_known = lib_hashed
     \<lparr>sg_taskdeps := [(''/meta/prog/prog.bb'', [(''do_y'', [])])],
      sg_lookupcache := [(''/meta/prog/prog.bb'', [(''do_y'', Some (Text ''P''))])]\<rparr>"

definition prog_known :: siggen where
  "prog_known = lib_known
     \<lparr>sg_basehash := [(prog_task, ''P'')], sg_runtaskdeps := [(prog_task, [lib_task])],
      sg_checksums := [(prog_task, [(''/w/./src/f.c'', Some ''c1''), (''/w/gone'', None)])],
      sg_tidtopn := [(lib_task, ''lib''), (prog_task, ''prog'')]\<rparr>"

definition prog_dump :: "sig_file sig" where
  "prog_dump = dump_sigtask two_env no_scan basic_unihash ''/meta/prog/prog.bb'' ''do_y'' ''s2'' Dump_runtime
     (prog_known\<lparr>sg_taskhash := [(lib_task, ''#L''), (prog_task, ''#P#L./src/f.cc1'')]\<rparr>)"


text \<open>
  A taint file that mentions \<open>nostamp:\<close> further on loses its first eight characters when the hash is
  worked out again.
\<close>

lemma taint_mentions_nostamp:
  "let E = two_env\<lparr>read_taint := \<lambda>fn task stamp. Some ''was nostamp:1''\<rparr> in
   case prep_taskhash E two_caches prog_task [lib_task] lib_known of
     Inl _ \<Rightarrow> False
   | Inr g1 \<Rightarrow> (case get_taskhash E basic_unihash prog_task g1 of
       Inl _ \<Rightarrow> False
     | Inr (g2, h) \<Rightarrow> h = ''#P#L./src/f.cc1was nostamp:1'' \<and>
         (case dump_sigtask E no_scan basic_unihash ''/meta/prog/prog.bb'' ''do_y'' ''s2'' Dump_runtime g2 of
            Inl _ \<Rightarrow> False
          | Inr (g3, sf) \<Rightarrow> sf_task_mismatch sf \<and> calc_taskhash (sha256 E) (sf_data sf) = Inr ''#P#L./src/f.cc1amp:1''))"
  by code_simp

text \<open>The text that is hashed has no separators: different dependencies can give the same text.\<close>

lemma base_hash_ambiguous:
  "hash_input no_scan [(''do_x'', Some (Text ''t'')), (''A'', Some (Text ''xBy''))] ''do_x'' [''A''] =
   hash_input no_scan [(''do_x'', Some (Text ''t'')), (''A'', Some (Text ''x'')), (''B'', Some (Text ''y''))] ''do_x'' [''A'', ''B'']"
  by code_simp

end
