(* ===== verification/AsyncRpc.thy ===== *)
theory AsyncRpc
  imports StateRuns PyStr
begin

text \<open>
  The message layer of \<open>bitbake/lib/bb/asyncrpc\<close>, which carries the requests of the revision service
  and of the hash equivalence server: \<open>chunkify\<close>, the greeting of a connection, and the two ends
  that read lines, of \<open>AsyncServerConnection\<close> and \<open>AsyncClient\<close>. A connection is the text that
  is still to be read; at its end the other side has closed it.

  JSON is a parameter: how a message is printed and parsed, whether it has a key, and the
  message that announces chunks.
\<close>

record 'm codec =
  dumps :: "'m \<Rightarrow> string"
  loads :: "string \<Rightarrow> 'm result"
  has_key :: "string \<Rightarrow> 'm \<Rightarrow> bool"
  is_empty :: "'m \<Rightarrow> bool"
  chunk_stream :: 'm

subsection \<open>Writing\<close>

fun text_pieces :: "nat \<Rightarrow> string \<Rightarrow> string list" where
  "text_pieces n [] = []"
| "text_pieces 0 (c # s) = []"
| "text_pieces (Suc n) (c # s) = (c # take n s) # text_pieces (Suc n) (drop n s)"

definition chunkify :: "'m codec \<Rightarrow> string \<Rightarrow> int \<Rightarrow> string list" where
  "chunkify C msg max_chunk =
     (if int (length msg) < max_chunk - 1 then [msg @ [newline]]
      else (dumps C (chunk_stream C) @ [newline]) #
        map (\<lambda>m. m @ [newline]) (text_pieces (nat (max_chunk - 1)) msg) @ [[newline]])"

definition message_text :: "'m codec \<Rightarrow> int \<Rightarrow> 'm \<Rightarrow> string" where
  "message_text C max_chunk m = concat (chunkify C (dumps C m) max_chunk)"

subsection \<open>Reading lines\<close>

text \<open>\<open>readline\<close>: up to the end of the line, or the rest when the connection was closed.\<close>

fun readline :: "string \<Rightarrow> string \<times> string" where
  "readline [] = ([], [])"
| "readline (c # s) = (if c = newline then ([c], s) else (case readline s of (l, r) \<Rightarrow> (c # l, r)))"

definition rstrip_newlines :: "string \<Rightarrow> string" where
  "rstrip_newlines l = rev (dropWhile (\<lambda>c. c = newline) (rev l))"

lemma readline_append: "fst (readline s) @ snd (readline s) = s"
  by (induction s) (auto split: prod.splits)

lemma readline_empty: "fst (readline s) = [] \<longleftrightarrow> s = []"
  by (cases s) (auto split: prod.splits)

lemma readline_shorter: "s \<noteq> [] \<Longrightarrow> length (snd (readline s)) < length s"
  using arg_cong [OF readline_append [of s], of length] readline_empty [of s] by (cases "fst (readline s)") auto

lemma readline_line: "newline \<notin> set l \<Longrightarrow> readline (l @ newline # r) = (l @ [newline], r)"
  by (induction l) auto

subsection \<open>The server's end\<close>

text \<open>The lines of a chunked message, up to an empty line or the end.\<close>

function chunk_lines :: "string \<Rightarrow> string list \<times> string" where
  "chunk_lines buf =
     (let (l, rest) = readline buf; t = rstrip_newlines l in
      if t = [] then ([], rest)
      else (case chunk_lines rest of (ls, rest') \<Rightarrow> (t # ls, rest')))"
  by auto

termination
proof (relation "measure length")
  fix buf x l rest t
  assume "x = readline buf" "(l, rest) = x" "t = rstrip_newlines l" "t \<noteq> []"
  then have "buf \<noteq> []" by (auto simp: rstrip_newlines_def)
  with \<open>x = readline buf\<close> \<open>(l, rest) = x\<close> readline_shorter [of buf] show "(rest, buf) \<in> measure length"
    by (metis in_measure snd_conv)
qed simp

declare chunk_lines.simps [simp del]

definition handle_chunk :: "'m codec \<Rightarrow> string \<Rightarrow> ('m \<times> string) result" where
  "handle_chunk C buf =
     (case chunk_lines buf of (lines, rest) \<Rightarrow>
        bindE (loads C (concat lines)) (\<lambda>msg.
          if has_key C ''chunk-stream'' msg then Inl Fatal else Inr (msg, rest)))"

text \<open>
  \<open>read_message\<close>, with the chunks that may follow: \<open>chunk-stream\<close> is the first handler, so it is
  looked for first. \<^const>\<open>None\<close> ends the connection.
\<close>

definition receive :: "'m codec \<Rightarrow> string \<Rightarrow> ('m \<times> string) option result" where
  "receive C buf =
     (case readline buf of (l, rest) \<Rightarrow>
        if l = [] then Inr None
        else if last l \<noteq> newline then Inr None
        else bindE (loads C l) (\<lambda>msg.
          if has_key C ''chunk-stream'' msg
          then bindE (handle_chunk C rest) (\<lambda>r. Inr (Some r))
          else Inr (Some (msg, rest))))"

lemma chunk_lines_shorter: "length (snd (chunk_lines buf)) \<le> length buf"
proof (induction buf rule: chunk_lines.induct)
  case (1 buf)
  obtain l rest where l: "readline buf = (l, rest)" by force
  have r: "length rest \<le> length buf" using arg_cong [OF readline_append [of buf], of length] l by simp
  show ?case
  proof (cases "rstrip_newlines l = []")
    case True
    with l r show ?thesis by (subst chunk_lines.simps) simp
  next
    case False
    with l r 1 [of "(l, rest)" l rest "rstrip_newlines l"] show ?thesis
      by (subst chunk_lines.simps) (auto split: prod.splits)
  qed
qed

lemma receive_shorter: "receive C buf = Inr (Some (m, rest)) \<Longrightarrow> length rest < length buf"
proof -
  assume a: "receive C buf = Inr (Some (m, rest))"
  obtain l r where l: "readline buf = (l, r)" by force
  with a have "l \<noteq> []" by (auto simp: receive_def)
  then have "buf \<noteq> []" using l readline_empty [of buf] by auto
  then have r: "length r < length buf" using readline_shorter [of buf] l by simp
  from a l have "rest = r \<or> rest = snd (chunk_lines r)"
    by (auto simp: receive_def handle_chunk_def bindE_Inr_iff split: if_splits prod.splits)
  with r chunk_lines_shorter [of r] show ?thesis by auto
qed

text \<open>
  The loop over the messages: what is written and the state of the server when it ends, with the
  exception that ended it.
\<close>

function process_messages :: "'m codec \<Rightarrow> int \<Rightarrow> ('m \<Rightarrow> ('s, 'm list) comp) \<Rightarrow> string \<Rightarrow> string \<Rightarrow> 's
    \<Rightarrow> (string \<times> 's \<times> py_error option) option" where
  "process_messages C max_chunk dispatch buf out s =
     (case receive C buf of
        Inl e \<Rightarrow> Some (out, s, Some e)
      | Inr None \<Rightarrow> Some (out, s, None)
      | Inr (Some (m, rest)) \<Rightarrow>
          (case dispatch m s of
             None \<Rightarrow> None
           | Some (Inl e, s') \<Rightarrow> Some (out, s', Some e)
           | Some (Inr replies, s') \<Rightarrow>
               process_messages C max_chunk dispatch rest (out @ concat (map (message_text C max_chunk) replies)) s'))"
  by auto

termination
  by (relation "measure (\<lambda>(C, k, d, buf, out, s). length buf)") (auto dest: receive_shorter)

declare process_messages.simps [simp del]

subsection \<open>The greeting\<close>

definition setup_connection :: "string \<Rightarrow> string \<Rightarrow> string" where
  "setup_connection proto_name proto_version = proto_name @ '' '' @ proto_version @ [newline, newline]"

text \<open>Comparison of tuples of numbers.\<close>

fun tuple_less :: "int list \<Rightarrow> int list \<Rightarrow> bool" where
  "tuple_less [] ys = (ys \<noteq> [])"
| "tuple_less (x # xs) [] = False"
| "tuple_less (x # xs) (y # ys) = (x < y \<or> (x = y \<and> tuple_less xs ys))"

definition hash_version_ok :: "int list \<Rightarrow> bool" where
  "hash_version_ok v \<longleftrightarrow> tuple_less [1, 0] v \<and> \<not> tuple_less [1, 1] v"

definition pr_version_ok :: "int list \<Rightarrow> bool" where
  "pr_version_ok v \<longleftrightarrow> v = [1, 0]"

definition parse_version :: "string \<Rightarrow> int list result" where
  "parse_version v = foldE (\<lambda>w acc. case py_int w of None \<Rightarrow> Inl ValueError | Some n \<Rightarrow> Inr (acc @ [n])) (split_on CHR ''.'' v) []"

text \<open>The headers end with an empty line; there are none so far.\<close>

function skip_headers :: "string \<Rightarrow> string option" where
  "skip_headers buf =
     (let (l, rest) = readline buf in
      if l = [] then None
      else if rstrip_ws l = [] then Some rest
      else skip_headers rest)"
  by auto

termination
proof (relation "measure length")
  fix buf x l rest
  assume x: "x = readline buf" "(l, rest) = x" "l \<noteq> []"
  then have "buf \<noteq> []" by auto
  with x readline_shorter [of buf] show "(rest, buf) \<in> measure length" by (metis in_measure snd_conv)
qed simp

declare skip_headers.simps [simp del]

definition accept_greeting :: "string \<Rightarrow> (int list \<Rightarrow> bool) \<Rightarrow> string \<Rightarrow> string option result" where
  "accept_greeting proto_name version_ok buf =
     (case readline buf of (l, rest) \<Rightarrow>
        if l = [] then Inr None
        else (case split_ws (rstrip_ws l) of
                [name, version] \<Rightarrow>
                  if name \<noteq> proto_name then Inr None
                  else bindE (parse_version version) (\<lambda>v.
                    if version_ok v then Inr (skip_headers rest) else Inr None)
              | _ \<Rightarrow> Inl ValueError))"

definition process_requests :: "'m codec \<Rightarrow> string \<Rightarrow> (int list \<Rightarrow> bool) \<Rightarrow> int \<Rightarrow> ('m \<Rightarrow> ('s, 'm list) comp) \<Rightarrow> string \<Rightarrow> 's
    \<Rightarrow> (string \<times> 's \<times> py_error option) option" where
  "process_requests C proto_name version_ok max_chunk dispatch buf s =
     (case accept_greeting proto_name version_ok buf of
        Inl e \<Rightarrow> Some ([], s, Some e)
      | Inr None \<Rightarrow> Some ([], s, None)
      | Inr (Some rest) \<Rightarrow> process_messages C max_chunk dispatch rest [] s)"

subsection \<open>The client's end\<close>

definition get_line :: "string \<Rightarrow> (string \<times> string) result" where
  "get_line buf =
     (case readline buf of (l, rest) \<Rightarrow>
        if l = [] \<or> last l \<noteq> newline then Inl OSError else Inr (l, rest))"

function answer_lines :: "string \<Rightarrow> (string list \<times> string) result" where
  "answer_lines buf =
     (case get_line buf of
        Inl e \<Rightarrow> Inl e
      | Inr (l, rest) \<Rightarrow>
          if rstrip_newlines l = [] then Inr ([], rest)
          else bindE (answer_lines rest) (\<lambda>(ls, rest'). Inr (rstrip_newlines l # ls, rest')))"
  by auto

termination
proof (relation "measure length")
  fix buf p l rest
  assume "get_line buf = Inr p" "(l, rest) = p" "rstrip_newlines l \<noteq> []"
  then have x: "readline buf = (l, rest)" "l \<noteq> []" by (auto simp: get_line_def split: prod.splits if_splits)
  then have "buf \<noteq> []" by auto
  with x readline_shorter [of buf] show "(rest, buf) \<in> measure length" by simp
qed simp

declare answer_lines.simps [simp del]

definition read_answer :: "'m codec \<Rightarrow> string \<Rightarrow> ('m \<times> string) result" where
  "read_answer C buf =
     bindE (get_line buf) (\<lambda>(l, rest).
     bindE (loads C l) (\<lambda>m.
       if \<not> is_empty C m \<and> has_key C ''chunk-stream'' m then
         bindE (answer_lines rest) (\<lambda>(lines, rest').
         bindE (loads C (concat lines)) (\<lambda>m. Inr (m, rest')))
       else Inr (m, rest)))"

text \<open>
  \<open>_send_wrapper\<close>: a connection error, a bad answer or undecodable text leads to a new connection,
  four times at most. \<open>attempt\<close> gives the outcome of each attempt.
\<close>

function send_wrapper :: "(nat \<Rightarrow> 'a result) \<Rightarrow> nat \<Rightarrow> 'a result" where
  "send_wrapper attempt tries =
     (case attempt tries of
        Inr x \<Rightarrow> Inr x
      | Inl e \<Rightarrow>
          if e \<in> {OSError, ValueError}
          then (if tries \<ge> 3 then Inl OSError else send_wrapper attempt (Suc tries))
          else Inl e)"
  by auto

termination
  by (relation "measure (\<lambda>(f, n). 4 - n)") auto

declare send_wrapper.simps [simp del]

subsection \<open>What is sent arrives\<close>

text \<open>JSON prints a message on one line and reads it back, with or without the end of the line.\<close>

definition codec_ok :: "'m codec \<Rightarrow> bool" where
  "codec_ok C \<longleftrightarrow>
     (\<forall>m. newline \<notin> set (dumps C m) \<and> loads C (dumps C m) = Inr m \<and> loads C (dumps C m @ [newline]) = Inr m) \<and>
     has_key C ''chunk-stream'' (chunk_stream C) \<and> \<not> is_empty C (chunk_stream C)"

lemma pieces_text: "concat (text_pieces (Suc n) s) = s"
  by (induction "Suc n" s arbitrary: n rule: text_pieces.induct) auto

lemma pieces_parts: "p \<in> set (text_pieces n s) \<Longrightarrow> p \<noteq> [] \<and> set p \<subseteq> set s"
proof (induction n s rule: text_pieces.induct)
  case (3 n c s)
  then show ?case by (auto dest: in_set_takeD in_set_dropD)
qed auto

lemma rstrip_line: "newline \<notin> set l \<Longrightarrow> rstrip_newlines (l @ [newline]) = l"
  by (cases l rule: rev_cases) (auto simp: rstrip_newlines_def)

lemma chunk_lines_sent:
  "\<forall>p \<in> set ps. p \<noteq> [] \<and> newline \<notin> set p \<Longrightarrow>
   chunk_lines (concat (map (\<lambda>m. m @ [newline]) ps) @ newline # rest) = (ps, rest)"
proof (induction ps)
  case Nil
  then show ?case by (subst chunk_lines.simps) (simp add: rstrip_newlines_def)
next
  case (Cons p ps)
  then show ?case
    by (subst chunk_lines.simps) (simp add: readline_line rstrip_line)
qed

lemma answer_lines_sent:
  "\<forall>p \<in> set ps. p \<noteq> [] \<and> newline \<notin> set p \<Longrightarrow>
   answer_lines (concat (map (\<lambda>m. m @ [newline]) ps) @ newline # rest) = Inr (ps, rest)"
proof (induction ps)
  case Nil
  then show ?case by (subst answer_lines.simps) (simp add: get_line_def rstrip_newlines_def)
next
  case (Cons p ps)
  then show ?case
    by (subst answer_lines.simps) (simp add: get_line_def readline_line rstrip_line)
qed

lemma message_text_cases:
  assumes "codec_ok C" and "2 \<le> max_chunk"
  obtains (line) "message_text C max_chunk m = dumps C m @ [newline]"
  | (chunks) ps where "message_text C max_chunk m =
        dumps C (chunk_stream C) @ newline # concat (map (\<lambda>m. m @ [newline]) ps) @ [newline]"
      and "\<forall>p \<in> set ps. p \<noteq> [] \<and> newline \<notin> set p" and "concat ps = dumps C m"
proof (cases "int (length (dumps C m)) < max_chunk - 1")
  case True
  then show ?thesis by (intro line) (simp add: message_text_def chunkify_def)
next
  case False
  obtain n where n: "nat (max_chunk - 1) = Suc n" using assms(2) by (cases "nat (max_chunk - 1)") auto
  have "newline \<notin> set (dumps C m)" using assms(1) by (simp add: codec_ok_def)
  then have "\<forall>p \<in> set (text_pieces (Suc n) (dumps C m)). p \<noteq> [] \<and> newline \<notin> set p" using pieces_parts by blast
  then show ?thesis
    using False by (intro chunks [of "text_pieces (Suc n) (dumps C m)"]) (simp_all add: message_text_def chunkify_def n pieces_text)
qed

lemma codec_okD:
  assumes "codec_ok C"
  shows "newline \<notin> set (dumps C m)" and "loads C (dumps C m) = Inr m" and "loads C (dumps C m @ [newline]) = Inr m"
    and "has_key C ''chunk-stream'' (chunk_stream C)" and "\<not> is_empty C (chunk_stream C)"
  using assms by (simp_all add: codec_ok_def)

lemma received:
  assumes "codec_ok C" and "2 \<le> max_chunk" and "\<not> has_key C ''chunk-stream'' m"
  shows "receive C (message_text C max_chunk m @ rest) = Inr (Some (m, rest))"
proof -
  note ok = codec_okD [OF assms(1)]
  show ?thesis
  proof (cases rule: message_text_cases [OF assms(1,2), of m])
    case 1
    then show ?thesis using ok assms(3) by (simp add: receive_def readline_line)
  next
    case (2 ps)
    then show ?thesis
      using ok assms(3) chunk_lines_sent [OF 2(2), of rest]
      by (simp add: receive_def readline_line handle_chunk_def)
  qed
qed

fun serve_all :: "('m \<Rightarrow> ('s, 'm list) comp) \<Rightarrow> 'm list \<Rightarrow> 's \<Rightarrow> ('m list \<times> 's \<times> py_error option) option" where
  "serve_all dispatch [] s = Some ([], s, None)"
| "serve_all dispatch (m # ms) s =
     (case dispatch m s of
        None \<Rightarrow> None
      | Some (Inl e, s') \<Rightarrow> Some ([], s', Some e)
      | Some (Inr rs, s') \<Rightarrow> map_option (\<lambda>(out, s'', e). (rs @ out, s'', e)) (serve_all dispatch ms s'))"

text \<open>The text of replies, and what a run of messages leaves.\<close>

definition replies_text :: "'m codec \<Rightarrow> int \<Rightarrow> 'm list \<Rightarrow> string" where
  "replies_text C max_chunk rs = concat (map (message_text C max_chunk) rs)"

lemma process_messages_sent:
  assumes "codec_ok C" and "2 \<le> max_client"
  shows "\<forall>m \<in> set ms. \<not> has_key C ''chunk-stream'' m \<Longrightarrow>
    process_messages C max_server dispatch (concat (map (message_text C max_client) ms)) out s =
    map_option (\<lambda>(rs, s', e). (out @ replies_text C max_server rs, s', e)) (serve_all dispatch ms s)"
proof (induction ms arbitrary: out s)
  case Nil
  have "receive C [] = Inr None" by (simp add: receive_def)
  then show ?case by (subst process_messages.simps) (simp add: replies_text_def)
next
  case (Cons m ms)
  have r: "receive C (message_text C max_client m @ concat (map (message_text C max_client) ms)) =
      Inr (Some (m, concat (map (message_text C max_client) ms)))"
    by (rule received [OF assms]) (use Cons.prems in simp)
  show ?case
    using Cons r
    by (subst process_messages.simps)
       (auto simp: replies_text_def option.map_comp comp_def case_prod_unfold split: option.splits sum.splits prod.splits)
qed

definition greeting_ok :: "string \<Rightarrow> (int list \<Rightarrow> bool) \<Rightarrow> string \<Rightarrow> bool" where
  "greeting_ok proto_name version_ok version \<longleftrightarrow>
     newline \<notin> set (proto_name @ version) \<and>
     split_ws (rstrip_ws (proto_name @ '' '' @ version @ [newline])) = [proto_name, version] \<and>
     (case parse_version version of Inl e \<Rightarrow> False | Inr v \<Rightarrow> version_ok v)"

lemma greeting_accepted:
  assumes "greeting_ok proto_name version_ok version"
  shows "accept_greeting proto_name version_ok (setup_connection proto_name version @ rest) = Inr (Some rest)"
proof -
  have "readline ((proto_name @ '' '' @ version) @ newline # newline # rest) =
      ((proto_name @ '' '' @ version) @ [newline], newline # rest)"
    by (rule readline_line) (use assms in \<open>simp add: greeting_ok_def\<close>)
  moreover have "skip_headers (newline # rest) = Some rest"
    by (subst skip_headers.simps) (simp add: rstrip_ws_def py_isspace_def)
  ultimately show ?thesis
    using assms by (auto simp: accept_greeting_def setup_connection_def greeting_ok_def split: sum.splits)
qed

subsection \<open>Properties\<close>


text \<open>
  Property C37. A reply reads back as the message that was written, whatever its length and the size
  of the chunks, and the reader stops where the next reply begins.
\<close>

theorem reply_read_back:
  assumes "codec_ok C" and "2 \<le> max_chunk" and "\<not> has_key C ''chunk-stream'' m"
  shows "read_answer C (message_text C max_chunk m @ rest) = Inr (m, rest)"
proof -
  note ok = codec_okD [OF assms(1)]
  show ?thesis
  proof (cases rule: message_text_cases [OF assms(1,2), of m])
    case 1
    then show ?thesis using ok assms(3) by (simp add: read_answer_def get_line_def readline_line)
  next
    case (2 ps)
    then show ?thesis
      using ok answer_lines_sent [OF 2(2), of rest]
      by (simp add: read_answer_def get_line_def readline_line)
  qed
qed

lemma send_wrapper_retries:
  assumes "\<forall>i. k \<le> i \<and> i < n \<longrightarrow> attempt i \<in> {Inl OSError, Inl ValueError}" and "k \<le> n" and "n \<le> 3"
  shows "send_wrapper attempt k = send_wrapper attempt n"
  using assms
proof (induction "n - k" arbitrary: k)
  case (Suc d)
  then have "k < n" by simp
  then have "attempt k = Inl OSError \<or> attempt k = Inl ValueError" "k < 3" using Suc.prems by auto
  moreover have "send_wrapper attempt (Suc k) = send_wrapper attempt n"
    by (rule Suc.hyps(1)) (use Suc.hyps(2) Suc.prems \<open>k < n\<close> in auto)
  ultimately show ?case by (subst send_wrapper.simps) auto
qed simp

lemma send_wrapper_gives_up:
  assumes "\<forall>i \<le> 3. attempt i \<in> {Inl OSError, Inl ValueError}"
  shows "send_wrapper attempt 0 = Inl OSError"
proof -
  have "send_wrapper attempt 0 = send_wrapper attempt 3" by (rule send_wrapper_retries) (use assms in auto)
  moreover have "attempt 3 = Inl OSError \<or> attempt 3 = Inl ValueError" using assms by auto
  ultimately show ?thesis by (subst (asm) (2) send_wrapper.simps) auto
qed

subsection \<open>Examples\<close>

text \<open>Numbers in unary as messages, with zero as the announcement of chunks, and a server that adds.\<close>

definition unary :: "nat codec" where
  "unary = \<lparr>dumps = (\<lambda>n. replicate n CHR ''1'' @ ''.''), loads = (\<lambda>s. Inr (length (takeWhile (\<lambda>c. c = CHR ''1'') s))),
     has_key = (\<lambda>k n. k = ''chunk-stream'' \<and> n = 0), is_empty = (\<lambda>n. False), chunk_stream = 0\<rparr>"

definition add_up :: "nat \<Rightarrow> (nat, nat list) comp" where
  "add_up m = reading (\<lambda>s. if m = 9 then throw Fatal else seq (change (\<lambda>s. s + m)) (\<lambda>_. ret [s + m]))"

lemma unary_ok: "codec_ok unary"
  by (simp add: codec_ok_def unary_def takeWhile_append)

lemma unary_served: "serve_all add_up [3, 5, 9, 2] 0 = Some ([3, 8], 8, Some Fatal)"
  by code_simp


theorem reply_read_back_witness:
  "message_text unary 3 4 = ''.'' @ [newline] @ ''11'' @ [newline] @ ''11'' @ [newline] @ ''.'' @ [newline, newline] \<and>
   read_answer unary (message_text unary 3 4 @ ''next'') = Inr (4, ''next'')"
proof -
  have "message_text unary 3 4 = ''.'' @ [newline] @ ''11'' @ [newline] @ ''11'' @ [newline] @ ''.'' @ [newline, newline]"
    by code_simp
  moreover have "\<not> has_key unary ''chunk-stream'' 4" by (simp add: unary_def)
  ultimately show ?thesis using reply_read_back [OF unary_ok, of 3 4 "''next''"] by simp
qed

text \<open>With a chunk size of one there is no room for text: the message is lost.\<close>

lemma chunk_of_nothing: "message_text unary 1 4 = ''.'' @ [newline, newline]"
  by code_simp

end
