(* ===== verification/HashServ.thy ===== *)
theory HashServ
  imports StateRuns Stores PyStr
begin

text \<open>
  The hash equivalence server of \<open>bitbake/lib/hashserv/server.py\<close>: the tables of unihashes and
  output hashes, the handlers of \<open>ServerClient\<close> and the worker that copies what a stream got from
  the upstream server. Times and the answers of the upstream server are the world of a session:
  \<open>hs_upstream\<close> has the answers at each time, and every event takes one unit of time. An error
  ends a connection, and what was written before it stays in the tables of the shared database.
  The statistics of requests are left out.
\<close>

subsection \<open>Tables\<close>

record outhash_row =
  oh_method :: string
  oh_taskhash :: string
  oh_outhash :: string
  oh_created :: nat
  oh_extra :: "(string, string) dict"

type_synonym unihash_table = "(string \<times> string, string) dict"
type_synonym full_row = "outhash_row \<times> string"

text \<open>What the client of the upstream server answers, or its exception.\<close>

record upstream =
  up_taskhash :: "string \<Rightarrow> string \<Rightarrow> string option result"
  up_all :: "string \<Rightarrow> string \<Rightarrow> full_row option result"
  up_outhash :: "string \<Rightarrow> string \<Rightarrow> string \<Rightarrow> full_row option result"
  up_unihash :: "string \<Rightarrow> string \<Rightarrow> string option result"

record hash_server =
  hs_unihashes :: unihash_table
  hs_outhashes :: "outhash_row list"
  hs_saved :: "unihash_table \<times> outhash_row list"
  hs_queue :: "(string \<times> string) list"
  hs_worker :: bool
  hs_time :: nat
  hs_upstream :: "(nat \<Rightarrow> upstream) option"
  hs_read_only :: bool

type_synonym 'a serving = "(hash_server, 'a) comp"

definition new_server :: "(nat \<Rightarrow> upstream) option \<Rightarrow> bool \<Rightarrow> hash_server result" where
  "new_server upstream read_only =
     (if upstream \<noteq> None \<and> read_only then Inl Fatal
      else Inr \<lparr>hs_unihashes = [], hs_outhashes = [], hs_saved = ([], []), hs_queue = [], hs_worker = (upstream \<noteq> None),
                hs_time = 0, hs_upstream = upstream, hs_read_only = read_only\<rparr>)"

text \<open>The unique key of the output hashes.\<close>

definition oh_key :: "outhash_row \<Rightarrow> string \<times> string \<times> string" where
  "oh_key r = (oh_method r, oh_taskhash r, oh_outhash r)"

text \<open>\<open>INSERT OR IGNORE\<close>; the second also says whether a row was inserted.\<close>

definition insert_unihash :: "string \<Rightarrow> string \<Rightarrow> string \<Rightarrow> unit serving" where
  "insert_unihash method taskhash unihash = change (\<lambda>s.
     if map_of (hs_unihashes s) (method, taskhash) = None
     then s\<lparr>hs_unihashes := hs_unihashes s @ [((method, taskhash), unihash)]\<rparr> else s)"

definition insert_outhash :: "outhash_row \<Rightarrow> bool serving" where
  "insert_outhash row = reading (\<lambda>s.
     if oh_key row \<in> set (map oh_key (hs_outhashes s)) then ret False
     else seq (change (\<lambda>s. s\<lparr>hs_outhashes := hs_outhashes s @ [row]\<rparr>)) (\<lambda>_. ret True))"

definition commit :: "unit serving" where
  "commit = change (\<lambda>s. s\<lparr>hs_saved := (hs_unihashes s, hs_outhashes s)\<rparr>)"

definition query_equivalent :: "string \<Rightarrow> string \<Rightarrow> hash_server \<Rightarrow> string option" where
  "query_equivalent method taskhash s = map_of (hs_unihashes s) (method, taskhash)"

text \<open>
  The rows of the join of both tables that satisfy a condition, and the oldest of them: of rows
  of the same time the first that was inserted.
\<close>

definition joined :: "(outhash_row \<Rightarrow> bool) \<Rightarrow> hash_server \<Rightarrow> full_row list" where
  "joined P s = concat (map (\<lambda>r.
     case map_of (hs_unihashes s) (oh_method r, oh_taskhash r) of
       None \<Rightarrow> []
     | Some u \<Rightarrow> [(r, u)]) (filter P (hs_outhashes s)))"

definition oldest :: "(outhash_row \<Rightarrow> bool) \<Rightarrow> hash_server \<Rightarrow> full_row option" where
  "oldest P s = (case sort_key (\<lambda>x. oh_created (fst x)) (joined P s) of [] \<Rightarrow> None | x # _ \<Rightarrow> Some x)"

definition update_unified :: "full_row option \<Rightarrow> unit serving" where
  "update_unified data =
     (case data of
        None \<Rightarrow> ret ()
      | Some (row, unihash) \<Rightarrow>
          seq (insert_unihash (oh_method row) (oh_taskhash row) unihash) (\<lambda>_.
          seq (insert_outhash row) (\<lambda>_. ret ())))"

definition upstream_now :: "hash_server \<Rightarrow> upstream option" where
  "upstream_now s = map_option (\<lambda>f. f (hs_time s)) (hs_upstream s)"

subsection \<open>Handlers\<close>

text \<open>The upstream answer is used as a dictionary even when there is none.\<close>

definition get_unihash_row :: "string \<Rightarrow> string \<Rightarrow> string option serving" where
  "get_unihash_row method taskhash = reading (\<lambda>s.
     case query_equivalent method taskhash s of
       Some u \<Rightarrow> ret (Some u)
     | None \<Rightarrow>
         (case upstream_now s of
            None \<Rightarrow> ret None
          | Some up \<Rightarrow>
              seq (of_result (up_taskhash up method taskhash)) (\<lambda>d.
              case d of
                None \<Rightarrow> throw AttributeError
              | Some u \<Rightarrow>
                  seq (insert_unihash method taskhash u) (\<lambda>_.
                  seq commit (\<lambda>_. ret (Some u))))))"

definition from_upstream :: "(upstream \<Rightarrow> full_row option result) \<Rightarrow> full_row option serving" where
  "from_upstream ask = reading (\<lambda>s.
     case upstream_now s of
       None \<Rightarrow> ret None
     | Some up \<Rightarrow>
         seq (of_result (ask up)) (\<lambda>d.
         seq (update_unified d) (\<lambda>_.
         seq commit (\<lambda>_. ret d))))"

definition get_unihash_all :: "string \<Rightarrow> string \<Rightarrow> full_row option serving" where
  "get_unihash_all method taskhash = reading (\<lambda>s.
     case oldest (\<lambda>r. oh_method r = method \<and> oh_taskhash r = taskhash) s of
       Some d \<Rightarrow> ret (Some d)
     | None \<Rightarrow> from_upstream (\<lambda>up. up_all up method taskhash))"

definition get_outhash :: "string \<Rightarrow> string \<Rightarrow> string \<Rightarrow> full_row option serving" where
  "get_outhash method outhash taskhash = reading (\<lambda>s.
     case oldest (\<lambda>r. oh_method r = method \<and> oh_outhash r = outhash) s of
       Some d \<Rightarrow> ret (Some d)
     | None \<Rightarrow> from_upstream (\<lambda>up. up_outhash up method outhash taskhash))"

record report_data =
  rp_method :: string
  rp_taskhash :: string
  rp_outhash :: string
  rp_unihash :: string
  rp_extra :: "(string, string) dict"

definition optional_fields :: "string list" where
  "optional_fields = [''owner'', ''PN'', ''PV'', ''PR'', ''task'', ''outhash_siginfo'']"

definition report_row :: "report_data \<Rightarrow> nat \<Rightarrow> outhash_row" where
  "report_row d now = \<lparr>oh_method = rp_method d, oh_taskhash = rp_taskhash d, oh_outhash = rp_outhash d, oh_created = now,
     oh_extra = concat (map (\<lambda>k. case map_of (rp_extra d) k of None \<Rightarrow> [] | Some v \<Rightarrow> [(k, v)]) optional_fields)\<rparr>"

definition chosen_unihash :: "report_data \<Rightarrow> string serving" where
  "chosen_unihash d = reading (\<lambda>s.
     case oldest (\<lambda>r. oh_method r = rp_method d \<and> oh_outhash r = rp_outhash d \<and> oh_taskhash r \<noteq> rp_taskhash d) s of
       Some (row, unihash) \<Rightarrow> ret unihash
     | None \<Rightarrow>
         (case upstream_now s of
            None \<Rightarrow> ret (rp_unihash d)
          | Some up \<Rightarrow>
              seq (of_result (up_outhash up (rp_method d) (rp_outhash d) (rp_taskhash d))) (\<lambda>x.
              ret (case x of None \<Rightarrow> rp_unihash d | Some (row, unihash) \<Rightarrow> unihash))))"

definition handle_report :: "report_data \<Rightarrow> string serving" where
  "handle_report d = reading (\<lambda>s.
     seq (insert_outhash (report_row d (hs_time s))) (\<lambda>inserted.
     seq (only_if inserted
            (seq (chosen_unihash d) (\<lambda>unihash. insert_unihash (rp_method d) (rp_taskhash d) unihash))) (\<lambda>_.
     seq (get_unihash_row (rp_method d) (rp_taskhash d)) (\<lambda>u.
     seq commit (\<lambda>_. ret (case u of None \<Rightarrow> rp_unihash d | Some unihash \<Rightarrow> unihash))))))"

definition handle_equivreport :: "string \<Rightarrow> string \<Rightarrow> string \<Rightarrow> string serving" where
  "handle_equivreport method taskhash unihash =
     seq (insert_unihash method taskhash unihash) (\<lambda>_.
     seq commit (\<lambda>_.
     reading (\<lambda>s.
       case query_equivalent method taskhash s of
         None \<Rightarrow> throw TypeError
       | Some u \<Rightarrow> ret u)))"

text \<open>One line of a stream, without the white space at its end: the answer, and an entry in the queue when it came from upstream.\<close>

definition stream_line :: "string \<Rightarrow> string option serving" where
  "stream_line l =
     (case split_ws l of
        [method, taskhash] \<Rightarrow> reading (\<lambda>s.
          case query_equivalent method taskhash s of
            Some u \<Rightarrow> ret (Some u)
          | None \<Rightarrow>
              (case upstream_now s of
                 None \<Rightarrow> ret None
               | Some up \<Rightarrow>
                   seq (of_result (up_unihash up method taskhash)) (\<lambda>x.
                   case x of
                     None \<Rightarrow> ret None
                   | Some u \<Rightarrow>
                       seq (change (\<lambda>s. s\<lparr>hs_queue := hs_queue s @ [(method, taskhash)]\<rparr>)) (\<lambda>_.
                         ret (if u = [] then None else Some u)))))
      | _ \<Rightarrow> throw ValueError)"

text \<open>\<open>copy_unihash_from_upstream\<close> for the next entry of the queue; an exception ends the worker.\<close>

definition copy_unihash_from_upstream :: "upstream \<Rightarrow> string \<Rightarrow> string \<Rightarrow> unit serving" where
  "copy_unihash_from_upstream up method taskhash =
     seq (of_result (up_taskhash up method taskhash)) (\<lambda>d.
       case d of
         None \<Rightarrow> ret ()
       | Some u \<Rightarrow> seq (insert_unihash method taskhash u) (\<lambda>_. commit))"

definition backfill_step :: "unit serving" where
  "backfill_step = reading (\<lambda>s.
     case (hs_queue s, upstream_now s) of
       ((method, taskhash) # queue, Some up) \<Rightarrow>
         if hs_worker s then
           seq (change (\<lambda>s. s\<lparr>hs_queue := queue\<rparr>)) (\<lambda>_.
           catch (copy_unihash_from_upstream up method taskhash) (\<lambda>e.
             seq (change (\<lambda>s. s\<lparr>hs_worker := False\<rparr>)) (\<lambda>_. throw e)))
         else ret ()
     | _ \<Rightarrow> ret ())"

subsection \<open>Sessions\<close>

datatype hash_event =
    Get string string
  | GetAll string string
  | GetOuthash string string string
  | StreamLine string
  | Report report_data
  | ReportEquiv string string string
  | Backfill

datatype hash_reply =
    Unihash "string option"
  | Row "full_row option"
  | Finished
  | Failed py_error
  | Stuck

text \<open>A read-only server has no handlers for reports; an unknown command is a \<open>ClientError\<close>.\<close>

definition handle_event :: "hash_event \<Rightarrow> hash_reply serving" where
  "handle_event e = reading (\<lambda>s.
     case e of
       Get m t \<Rightarrow> seq (get_unihash_row m t) (\<lambda>u. ret (Unihash u))
     | GetAll m t \<Rightarrow> seq (get_unihash_all m t) (\<lambda>r. ret (Row r))
     | GetOuthash m ou t \<Rightarrow> seq (get_outhash m ou t) (\<lambda>r. ret (Row r))
     | StreamLine l \<Rightarrow> if l = ''END'' then ret Finished else seq (stream_line l) (\<lambda>u. ret (Unihash u))
     | Report d \<Rightarrow> if hs_read_only s then throw Fatal else seq (handle_report d) (\<lambda>u. ret (Unihash (Some u)))
     | ReportEquiv m t u \<Rightarrow> if hs_read_only s then throw Fatal else seq (handle_equivreport m t u) (\<lambda>u. ret (Unihash (Some u)))
     | Backfill \<Rightarrow> seq backfill_step (\<lambda>_. ret Finished))"

definition tick :: "hash_server \<Rightarrow> hash_server" where
  "tick s = s\<lparr>hs_time := Suc (hs_time s)\<rparr>"

definition serve_event :: "hash_event \<Rightarrow> hash_server \<Rightarrow> hash_server \<times> hash_reply" where
  "serve_event e s =
     (case handle_event e s of
        None \<Rightarrow> (s, Stuck)
      | Some (Inl x, s') \<Rightarrow> (tick s', Failed x)
      | Some (Inr r, s') \<Rightarrow> (tick s', r))"

subsection \<open>What stays\<close>

definition has_unihash :: "hash_server \<Rightarrow> string \<Rightarrow> string \<Rightarrow> bool" where
  "has_unihash s m t \<longleftrightarrow> map_of (hs_unihashes s) (m, t) \<noteq> None"

text \<open>Every output hash has a unihash, and the keys are unique.\<close>

definition tables_ok :: "hash_server \<Rightarrow> bool" where
  "tables_ok s \<longleftrightarrow> distinct (dict_keys (hs_unihashes s)) \<and> distinct (map oh_key (hs_outhashes s)) \<and>
     (\<forall>r \<in> set (hs_outhashes s). has_unihash s (oh_method r) (oh_taskhash r))"

definition reliable :: "hash_server \<Rightarrow> bool" where
  "reliable s \<longleftrightarrow> (\<forall>f n m ou t. hs_upstream s = Some f \<longrightarrow> \<not> isl (up_outhash (f n) m ou t))"

definition server_inv :: "hash_server \<Rightarrow> bool" where
  "server_inv s \<longleftrightarrow> tables_ok s \<and> reliable s"

lemma insert_unihash_run:
  "insert_unihash m t u s = Some (Inr (), if has_unihash s m t then s else s\<lparr>hs_unihashes := hs_unihashes s @ [((m, t), u)]\<rparr>)"
  by (simp add: insert_unihash_def has_unihash_def)

lemma insert_outhash_run:
  "insert_outhash r s =
     (if oh_key r \<in> set (map oh_key (hs_outhashes s)) then Some (Inr False, s)
      else Some (Inr True, s\<lparr>hs_outhashes := hs_outhashes s @ [r]\<rparr>))"
  by (simp add: insert_outhash_def)

text \<open>All operations keep a stored unihash and the upstream server.\<close>

lemma events_keep:
  "holds (\<lambda>s. map_of (hs_unihashes s) k = Some x) (handle_event e)"
  "holds reliable (handle_event e)"
proof -
  have c: "holds (\<lambda>s. map_of (hs_unihashes s) k = Some x) commit" "holds reliable commit"
    by (auto simp: commit_def reliable_def intro!: holds_change)
  have i: "holds (\<lambda>s. map_of (hs_unihashes s) k = Some x) (insert_unihash m t u)" "holds reliable (insert_unihash m t u)" for m t u
    by (auto simp: insert_unihash_def reliable_def intro!: holds_change)
  have o: "holds (\<lambda>s. map_of (hs_unihashes s) k = Some x) (insert_outhash r)" "holds reliable (insert_outhash r)" for r
    by (auto simp: insert_outhash_def reliable_def simp del: comp_simps intro!: holds_intro)
  have q: "holds (\<lambda>s. map_of (hs_unihashes s) k = Some x) (change (\<lambda>s. s\<lparr>hs_queue := f s\<rparr>))"
    "holds reliable (change (\<lambda>s. s\<lparr>hs_queue := f s\<rparr>))"
    "holds (\<lambda>s. map_of (hs_unihashes s) k = Some x) (change (\<lambda>s. s\<lparr>hs_worker := False\<rparr>))"
    "holds reliable (change (\<lambda>s. s\<lparr>hs_worker := False\<rparr>))" for f
    by (auto simp: reliable_def intro!: holds_change)
  note d = handle_event_def get_unihash_row_def get_unihash_all_def get_outhash_def from_upstream_def update_unified_def
    stream_line_def handle_report_def chosen_unihash_def handle_equivreport_def backfill_step_def copy_unihash_from_upstream_def
  show "holds (\<lambda>s. map_of (hs_unihashes s) k = Some x) (handle_event e)"
    unfolding d by (auto simp del: comp_simps intro!: holds_intro c(1) i(1) o(1) q(1,3) split: hash_event.split list.split option.split prod.split)
  show "holds reliable (handle_event e)"
    unfolding d by (auto simp del: comp_simps intro!: holds_intro c(2) i(2) o(2) q(2,4) split: hash_event.split list.split option.split prod.split)
qed

lemma tables_ok_unihash: "holds tables_ok (insert_unihash m t u)"
  unfolding insert_unihash_def
proof (rule holds_change)
  show "tables_ok (if map_of (hs_unihashes s) (m, t) = None then s\<lparr>hs_unihashes := hs_unihashes s @ [((m, t), u)]\<rparr> else s)"
    if "tables_ok s" for s
  proof (cases "map_of (hs_unihashes s) (m, t) = None")
    case True
    then have "(m, t) \<notin> set (dict_keys (hs_unihashes s))" unfolding map_of_None_iff .
    with that True show ?thesis by (auto simp: tables_ok_def has_unihash_def map_add_Some_iff split: option.splits)
  next
    case False
    with that show ?thesis by (simp only: if_False)
  qed
qed

lemma tables_ok_outhash:
  "tables_ok s \<Longrightarrow> has_unihash s (oh_method r) (oh_taskhash r) \<Longrightarrow> oh_key r \<notin> set (map oh_key (hs_outhashes s)) \<Longrightarrow>
   tables_ok (s\<lparr>hs_outhashes := hs_outhashes s @ [r]\<rparr>)"
  by (auto simp: tables_ok_def has_unihash_def)

lemma tables_ok_unified: "holds tables_ok (update_unified d)"
proof -
  have "tables_ok s'" if "tables_ok s" "update_unified (Some (r, u)) s = Some (x, s')" for s r u x s'
  proof -
    obtain s1 where s1: "insert_unihash (oh_method r) (oh_taskhash r) u s = Some (Inr (), s1)"
      by (simp add: insert_unihash_run)
    have ok: "tables_ok s1" by (rule holds_D [OF tables_ok_unihash that(1) s1])
    have "has_unihash s1 (oh_method r) (oh_taskhash r)"
      using s1 by (auto simp: insert_unihash_run has_unihash_def map_add_def split: if_splits option.splits)
    with ok tables_ok_outhash [OF ok] that(2) s1 show ?thesis
      by (auto simp: update_unified_def insert_outhash_run seq_def split: if_splits)
  qed
  then show ?thesis by (cases d) (auto simp: holds_def update_unified_def)
qed

lemma tables_ok_basics:
  "holds tables_ok commit" "holds tables_ok (get_unihash_row m t)" "holds tables_ok (from_upstream ask)"
proof -
  show c: "holds tables_ok commit"
    by (auto simp: commit_def tables_ok_def has_unihash_def intro!: holds_change)
  show "holds tables_ok (get_unihash_row m t)"
    unfolding get_unihash_row_def by (auto simp del: comp_simps intro!: holds_intro tables_ok_unihash c)
  show "holds tables_ok (from_upstream ask)"
    unfolding from_upstream_def by (auto simp del: comp_simps intro!: holds_intro tables_ok_unified c)
qed

text \<open>With a reliable upstream server a report always finds a unihash for a new row.\<close>

lemma chosen_unihash_run:
  assumes "reliable s"
  shows "\<exists>u. chosen_unihash d s = Some (Inr u, s)"
proof -
  have "\<not> isl (up_outhash up (rp_method d) (rp_outhash d) (rp_taskhash d))" if "upstream_now s = Some up" for up
    using assms that by (auto simp: reliable_def upstream_now_def)
  then show ?thesis
    by (auto simp: chosen_unihash_def not_isl split: option.splits) 
qed

lemma tables_ok_report:
  assumes "server_inv s" and "handle_report d s = Some (r, s')"
  shows "tables_ok s'"
proof -
  have ok: "tables_ok s" and rel: "reliable s" using assms(1) by (simp_all add: server_inv_def)
  let ?row = "report_row d (hs_time s)"
  have rest: "holds tables_ok (seq (get_unihash_row (rp_method d) (rp_taskhash d)) (\<lambda>u.
     seq commit (\<lambda>_. ret (case u of None \<Rightarrow> rp_unihash d | Some unihash \<Rightarrow> unihash))))"
    by (auto simp del: comp_simps intro!: holds_intro tables_ok_basics)
  show ?thesis
  proof (cases "oh_key ?row \<in> set (map oh_key (hs_outhashes s))")
    case True
    with assms(2) show ?thesis
      by (intro holds_D [OF rest ok, of r]) (simp add: handle_report_def insert_outhash_run seq_def)
  next
    case False
    let ?s1 = "s\<lparr>hs_outhashes := hs_outhashes s @ [?row]\<rparr>"
    have "reliable ?s1" using rel by (simp add: reliable_def)
    then obtain u where u: "chosen_unihash d ?s1 = Some (Inr u, ?s1)" using chosen_unihash_run by blast
    let ?s2 = "if has_unihash ?s1 (rp_method d) (rp_taskhash d) then ?s1
       else ?s1\<lparr>hs_unihashes := hs_unihashes ?s1 @ [((rp_method d, rp_taskhash d), u)]\<rparr>"
    have i: "insert_unihash (rp_method d) (rp_taskhash d) u ?s1 = Some (Inr (), ?s2)" by (rule insert_unihash_run)
    let ?t = "if has_unihash s (rp_method d) (rp_taskhash d) then s
       else s\<lparr>hs_unihashes := hs_unihashes s @ [((rp_method d, rp_taskhash d), u)]\<rparr>"
    have "tables_ok ?t"
      by (rule holds_D [OF tables_ok_unihash ok insert_unihash_run])
    then have "tables_ok (?t\<lparr>hs_outhashes := hs_outhashes ?t @ [?row]\<rparr>)"
      by (rule tables_ok_outhash) (use False in \<open>auto simp: report_row_def has_unihash_def\<close>)
    also have "?t\<lparr>hs_outhashes := hs_outhashes ?t @ [?row]\<rparr> = ?s2" by (simp add: has_unihash_def)
    finally have "tables_ok ?s2" .
    moreover have "handle_report d s = seq (get_unihash_row (rp_method d) (rp_taskhash d)) (\<lambda>u.
       seq commit (\<lambda>_. ret (case u of None \<Rightarrow> rp_unihash d | Some unihash \<Rightarrow> unihash))) ?s2"
    proof -
      have "insert_outhash ?row s = Some (Inr True, ?s1)" using False by (simp add: insert_outhash_run)
      moreover have "seq (chosen_unihash d) (\<lambda>unihash. insert_unihash (rp_method d) (rp_taskhash d) unihash) ?s1 = Some (Inr (), ?s2)"
        using u i by (simp only: seq_def option.case prod.case sum.case)
      ultimately show ?thesis by (simp only: handle_report_def comp_simps seq_def [of "insert_outhash ?row"]
            seq_def [of "seq (chosen_unihash d) f" for f] option.case prod.case sum.case)
    qed
    ultimately show ?thesis using holds_D [OF rest] assms(2) by metis
  qed
qed

lemma event_inv:
  assumes "server_inv s" and "handle_event e s = Some (r, s')"
  shows "server_inv s'"
proof -
  have "reliable s'" by (rule holds_D [OF events_keep(2) _ assms(2)]) (use assms(1) in \<open>simp add: server_inv_def\<close>)
  moreover have "tables_ok s'"
  proof (cases "\<exists>d. e = Report d \<and> \<not> hs_read_only s")
    case True
    then obtain d where d: "e = Report d" "\<not> hs_read_only s" by blast
    then obtain r' where "handle_report d s = Some (r', s')"
      using assms(2) by (auto simp: handle_event_def seq_def split: option.splits sum.splits)
    with assms(1) show ?thesis by (rule tables_ok_report)
  next
    case False
    have q: "holds tables_ok (change (\<lambda>s. s\<lparr>hs_queue := f s\<rparr>))" "holds tables_ok (change (\<lambda>s. s\<lparr>hs_worker := False\<rparr>))" for f
      by (auto simp: tables_ok_def has_unihash_def intro!: holds_change)
    note d = get_unihash_all_def get_outhash_def stream_line_def handle_equivreport_def
      backfill_step_def copy_unihash_from_upstream_def
    have "holds tables_ok (case e of
       Get m t \<Rightarrow> seq (get_unihash_row m t) (\<lambda>u. ret (Unihash u))
     | GetAll m t \<Rightarrow> seq (get_unihash_all m t) (\<lambda>r. ret (Row r))
     | GetOuthash m ou t \<Rightarrow> seq (get_outhash m ou t) (\<lambda>r. ret (Row r))
     | StreamLine l \<Rightarrow> if l = ''END'' then ret Finished else seq (stream_line l) (\<lambda>u. ret (Unihash u))
     | Report d \<Rightarrow> throw Fatal
     | ReportEquiv m t u \<Rightarrow> if hs_read_only s then throw Fatal else seq (handle_equivreport m t u) (\<lambda>u. ret (Unihash (Some u)))
     | Backfill \<Rightarrow> seq backfill_step (\<lambda>_. ret Finished))"
      unfolding d
      by (auto simp del: comp_simps intro!: holds_intro tables_ok_basics tables_ok_unihash q
            split: hash_event.split list.split option.split prod.split)
    from holds_D [OF this, of s r s'] show ?thesis
      using assms False by (simp add: server_inv_def handle_event_def split: hash_event.splits)
  qed
  ultimately show ?thesis by (simp add: server_inv_def)
qed

subsection \<open>What a report does\<close>

text \<open>The tables after the insertions of a report, before it looks up its answer.\<close>

definition reported :: "report_data \<Rightarrow> string \<Rightarrow> hash_server \<Rightarrow> hash_server" where
  "reported d u s =
     (let s1 = s\<lparr>hs_outhashes := hs_outhashes s @ [report_row d (hs_time s)]\<rparr> in
      if has_unihash s (rp_method d) (rp_taskhash d) then s1
      else s1\<lparr>hs_unihashes := hs_unihashes s @ [((rp_method d, rp_taskhash d), u)]\<rparr>)"

lemma commit_run: "commit s = Some (Inr (), s\<lparr>hs_saved := (hs_unihashes s, hs_outhashes s)\<rparr>)"
  by (simp add: commit_def)

lemma get_unihash_row_known:
  "map_of (hs_unihashes s) (m, t) = Some u \<Longrightarrow> get_unihash_row m t s = Some (Inr (Some u), s)"
  by (simp add: get_unihash_row_def query_equivalent_def)

lemma get_unihash_row_answer:
  assumes "get_unihash_row m t s = Some (Inr (Some u), s')"
  shows "map_of (hs_unihashes s') (m, t) = Some u"
proof (cases "map_of (hs_unihashes s) (m, t)")
  case None
  then show ?thesis
    using assms
    by (auto simp: get_unihash_row_def query_equivalent_def seq_Inr_iff insert_unihash_def commit_def map_add_def
        split: option.splits)
qed (use assms in \<open>auto simp: get_unihash_row_known\<close>)

lemma report_known:
  assumes "server_inv s" and "oh_key (report_row d (hs_time s)) \<in> set (map oh_key (hs_outhashes s))"
  obtains u where "map_of (hs_unihashes s) (rp_method d, rp_taskhash d) = Some u"
    and "handle_report d s = Some (Inr u, s\<lparr>hs_saved := (hs_unihashes s, hs_outhashes s)\<rparr>)"
proof -
  obtain r where "r \<in> set (hs_outhashes s)" "oh_method r = rp_method d" "oh_taskhash r = rp_taskhash d"
    using assms(2) by (auto simp: oh_key_def report_row_def)
  then obtain u where u: "map_of (hs_unihashes s) (rp_method d, rp_taskhash d) = Some u"
    using assms(1) by (fastforce simp: server_inv_def tables_ok_def has_unihash_def)
  show ?thesis
  proof (rule that [OF u])
    show "handle_report d s = Some (Inr u, s\<lparr>hs_saved := (hs_unihashes s, hs_outhashes s)\<rparr>)"
      using assms(2) get_unihash_row_known [OF u]
      by (simp add: handle_report_def insert_outhash_run seq_def commit_def)
  qed
qed

lemma report_new:
  assumes "server_inv s" and "oh_key (report_row d (hs_time s)) \<notin> set (map oh_key (hs_outhashes s))"
  obtains c u where "chosen_unihash d (s\<lparr>hs_outhashes := hs_outhashes s @ [report_row d (hs_time s)]\<rparr>) =
      Some (Inr c, s\<lparr>hs_outhashes := hs_outhashes s @ [report_row d (hs_time s)]\<rparr>)"
    and "map_of (hs_unihashes (reported d c s)) (rp_method d, rp_taskhash d) = Some u"
    and "handle_report d s = Some (Inr u, (reported d c s)\<lparr>hs_saved := (hs_unihashes (reported d c s), hs_outhashes (reported d c s))\<rparr>)"
proof -
  let ?s1 = "s\<lparr>hs_outhashes := hs_outhashes s @ [report_row d (hs_time s)]\<rparr>"
  have "reliable ?s1" using assms(1) by (simp add: server_inv_def reliable_def)
  then obtain c where c: "chosen_unihash d ?s1 = Some (Inr c, ?s1)" using chosen_unihash_run by blast
  let ?s2 = "reported d c s"
  have i: "insert_unihash (rp_method d) (rp_taskhash d) c ?s1 = Some (Inr (), ?s2)"
    by (simp add: insert_unihash_run reported_def Let_def has_unihash_def)
  obtain u where u: "map_of (hs_unihashes ?s2) (rp_method d, rp_taskhash d) = Some u"
    by (fastforce simp: reported_def Let_def has_unihash_def map_add_def split: option.splits if_splits)
  have o: "insert_outhash (report_row d (hs_time s)) s = Some (Inr True, ?s1)" using assms(2) by (simp add: insert_outhash_run)
  have "seq (chosen_unihash d) (\<lambda>unihash. insert_unihash (rp_method d) (rp_taskhash d) unihash) ?s1 = Some (Inr (), ?s2)"
    using c i by (simp only: seq_def option.case prod.case sum.case)
  then have "handle_report d s = Some (Inr u, ?s2\<lparr>hs_saved := (hs_unihashes ?s2, hs_outhashes ?s2)\<rparr>)"
    using o get_unihash_row_known [OF u]
    by (simp only: handle_report_def comp_simps seq_def [of "insert_outhash r" for r]
          seq_def [of "seq (chosen_unihash d) f" for f] seq_def [of "get_unihash_row m t" for m t] seq_def [of commit]
          option.case prod.case sum.case commit_run)
  then show ?thesis by (rule that [OF c u])
qed

lemma report_answer:
  assumes "server_inv s" and "handle_report d s = Some (Inr u, s')"
  shows "map_of (hs_unihashes s') (rp_method d, rp_taskhash d) = Some u"
proof (cases "oh_key (report_row d (hs_time s)) \<in> set (map oh_key (hs_outhashes s))")
  case True
  from report_known [OF assms(1) this] assms(2) show ?thesis by fastforce
next
  case False
  from report_new [OF assms(1) this] assms(2) show ?thesis by fastforce
qed

subsection \<open>The server as a store of unihashes\<close>

definition hash_answer :: "hash_event \<Rightarrow> hash_reply \<Rightarrow> ((string \<times> string) \<times> string) option" where
  "hash_answer e r =
     (case (e, r) of
        (Get m t, Unihash (Some u)) \<Rightarrow> Some ((m, t), u)
      | (Report d, Unihash (Some u)) \<Rightarrow> Some ((rp_method d, rp_taskhash d), u)
      | (ReportEquiv m t w, Unihash (Some u)) \<Rightarrow> Some ((m, t), u)
      | _ \<Rightarrow> None)"

lemma tick_keeps [simp]: "server_inv (tick s) = server_inv s" "hs_unihashes (tick s) = hs_unihashes s"
  by (simp_all add: tick_def server_inv_def tables_ok_def reliable_def has_unihash_def)

lemma serve_event_cases:
  assumes "serve_event e s = (s', r)"
  obtains "handle_event e s = None" "s' = s" "r = Stuck"
  | x s1 where "handle_event e s = Some (x, s1)" "s' = tick s1" "r = (case x of Inl y \<Rightarrow> Failed y | Inr q \<Rightarrow> q)"
  using assms by (auto simp: serve_event_def split: option.splits sum.splits)

lemma serve_answer:
  assumes "server_inv s" and "serve_event e s = (s', r)" and "hash_answer e r = Some (k, u)"
  shows "map_of (hs_unihashes s') k = Some u"
proof -
  have "\<exists>s1. handle_event e s = Some (Inr r, s1) \<and> s' = tick s1"
    by (rule serve_event_cases [OF assms(2)])
       (use assms(3) in \<open>auto simp: hash_answer_def split: hash_event.splits sum.splits\<close>)
  then obtain s1 where s1: "handle_event e s = Some (Inr r, s1)" "s' = tick s1" by blast
  consider m t where "e = Get m t" "k = (m, t)" "r = Unihash (Some u)"
    | d where "e = Report d" "k = (rp_method d, rp_taskhash d)" "r = Unihash (Some u)"
    | m t w where "e = ReportEquiv m t w" "k = (m, t)" "r = Unihash (Some u)"
    using assms(3) by (auto simp: hash_answer_def split: hash_event.splits hash_reply.splits option.splits)
  then show ?thesis
  proof cases
    case 1
    with s1 have "get_unihash_row m t s = Some (Inr (Some u), s1)" by (auto simp: handle_event_def seq_Inr_iff)
    from get_unihash_row_answer [OF this] show ?thesis using s1(2) 1 by simp
  next
    case 2
    with s1 have "handle_report d s = Some (Inr u, s1)" by (auto simp: handle_event_def seq_Inr_iff split: if_splits)
    from report_answer [OF assms(1) this] show ?thesis using s1(2) 2 by simp
  next
    case 3
    with s1 have "handle_equivreport m t w s = Some (Inr u, s1)" by (auto simp: handle_event_def seq_Inr_iff split: if_splits)
    then show ?thesis
      using s1(2) 3 by (auto simp: handle_equivreport_def seq_Inr_iff query_equivalent_def split: option.splits)
  qed
qed

interpretation unihashes: sticky_store serve_event server_inv hash_answer "\<lambda>s. map_of (hs_unihashes s)"
proof
  fix s e s' r
  assume i: "server_inv s" and run: "serve_event e s = (s', r)"
  show "server_inv s'" by (rule serve_event_cases [OF run]) (use i event_inv [OF i] in auto)
  show "map_of (hs_unihashes s') k = Some x" if "map_of (hs_unihashes s) k = Some x" for k x
    by (rule serve_event_cases [OF run]) (use that holds_D [OF events_keep(1) that] in auto)
  show "map_of (hs_unihashes s') k = Some x" if "hash_answer e r = Some (k, x)" for k x
    by (rule serve_answer [OF i run that])
qed

subsection \<open>The oldest row\<close>

lemma joined_set:
  "set (joined P s) = {(r, u). r \<in> set (hs_outhashes s) \<and> P r \<and> map_of (hs_unihashes s) (oh_method r, oh_taskhash r) = Some u}"
  by (auto simp: joined_def split: option.splits)

lemma oldest_Some:
  assumes "oldest P s = Some (r, u)"
  shows "r \<in> set (hs_outhashes s)" and "P r" and "map_of (hs_unihashes s) (oh_method r, oh_taskhash r) = Some u"
    and "\<forall>(q, w) \<in> set (joined P s). oh_created r \<le> oh_created q"
proof -
  obtain rest where o: "sort_key (\<lambda>x. oh_created (fst x)) (joined P s) = (r, u) # rest"
    using assms by (auto simp: oldest_def split: list.splits)
  have m: "set (joined P s) = insert (r, u) (set rest)" using arg_cong [OF o, of set] by simp
  have "sorted (map (\<lambda>x. oh_created (fst x)) ((r, u) # rest))" unfolding o [symmetric] by (rule sorted_sort_key)
  then show "\<forall>(q, w) \<in> set (joined P s). oh_created r \<le> oh_created q" unfolding m by auto
  have "(r, u) \<in> set (joined P s)" unfolding m by simp
  then show "r \<in> set (hs_outhashes s)" "P r" "map_of (hs_unihashes s) (oh_method r, oh_taskhash r) = Some u"
    by (simp_all add: joined_set)
qed

lemma oldest_ex:
  assumes "r \<in> set (hs_outhashes s)" and "P r" and "has_unihash s (oh_method r) (oh_taskhash r)"
  shows "\<exists>x. oldest P s = Some x"
proof -
  have "joined P s \<noteq> []"
    using assms joined_set [of P s] by (fastforce simp: has_unihash_def)
  then show ?thesis
    by (cases "sort_key (\<lambda>x. oh_created (fst x)) (joined P s)") (auto simp: oldest_def dest: arg_cong [of _ _ length])
qed

text \<open>A report of a task looks for other tasks with the same output.\<close>

definition same_output :: "report_data \<Rightarrow> outhash_row \<Rightarrow> bool" where
  "same_output d r \<longleftrightarrow> oh_method r = rp_method d \<and> oh_outhash r = rp_outhash d \<and> oh_taskhash r \<noteq> rp_taskhash d"

lemma oldest_new_row:
  "oldest (same_output d) (s\<lparr>hs_outhashes := hs_outhashes s @ [report_row d now]\<rparr>) = oldest (same_output d) s"
  by (simp add: oldest_def joined_def same_output_def report_row_def)

subsection \<open>Properties\<close>



subsection \<open>Examples\<close>

definition plain_server :: hash_server where
  "plain_server = \<lparr>hs_unihashes = [], hs_outhashes = [], hs_saved = ([], []), hs_queue = [], hs_worker = False,
     hs_time = 0, hs_upstream = None, hs_read_only = False\<rparr>"

definition report_of :: "string \<Rightarrow> string \<Rightarrow> string \<Rightarrow> report_data" where
  "report_of taskhash outhash unihash = \<lparr>rp_method = ''m'', rp_taskhash = taskhash, rp_outhash = outhash,
     rp_unihash = unihash, rp_extra = [(''PN'', ''zlib''), (''other'', ''x'')]\<rparr>"

lemma plain_server_inv: "server_inv plain_server"
  by (simp add: server_inv_def tables_ok_def reliable_def plain_server_def)

definition two_reports :: "hash_event list" where
  "two_reports = [Report (report_of ''t1'' ''out'' ''u1''), Report (report_of ''t2'' ''out'' ''u2''), Get ''m'' ''t2'',
     ReportEquiv ''m'' ''t2'' ''u3'']"

lemma two_reports_served:
  "snd (run_steps serve_event two_reports plain_server) =
   [Unihash (Some ''u1''), Unihash (Some ''u1''), Unihash (Some ''u1''), Unihash (Some ''u1'')]"
  by code_simp


definition one_reported :: hash_server where
  "one_reported = fst (serve_event (Report (report_of ''t1'' ''out'' ''u1'')) plain_server)"


text \<open>An upstream server that knows nothing, or only the unihash of \<open>t\<close>, or does not answer.\<close>

definition silent_upstream :: upstream where
  "silent_upstream = \<lparr>up_taskhash = (\<lambda>m t. Inr None), up_all = (\<lambda>m t. Inr None), up_outhash = (\<lambda>m ou t. Inr None),
     up_unihash = (\<lambda>m t. Inr None)\<rparr>"

definition knowing_upstream :: upstream where
  "knowing_upstream = silent_upstream\<lparr>up_taskhash := \<lambda>m t. Inr (Some ''U''), up_unihash := \<lambda>m t. Inr (Some ''U''),
     up_all := \<lambda>m t. Inr (Some (\<lparr>oh_method = m, oh_taskhash = t, oh_outhash = ''out'', oh_created = 0, oh_extra = []\<rparr>, ''U''))\<rparr>"

definition broken_upstream :: upstream where
  "broken_upstream = silent_upstream\<lparr>up_outhash := \<lambda>m ou t. Inl OSError\<rparr>"

definition with_upstream :: "upstream \<Rightarrow> hash_server" where
  "with_upstream up = plain_server\<lparr>hs_upstream := Some (\<lambda>n. up), hs_worker := True\<rparr>"

text \<open>A question that the upstream server cannot answer either ends the connection with an exception.\<close>

lemma unknown_upstream_fails:
  "snd (serve_event (Get ''m'' ''t'') (with_upstream silent_upstream)) = Failed AttributeError"
  by code_simp

text \<open>
  What a stream got from the upstream server is stored only later: a report in between gets another
  unihash stored, which later answers then name.
\<close>

lemma streamed_answer_lost:
  "snd (run_steps serve_event [StreamLine ''m t'', Report (report_of ''t'' ''out'' ''L''), Backfill, StreamLine ''m t'']
     (with_upstream knowing_upstream)) =
   [Unihash (Some ''U''), Unihash (Some ''L''), Finished, Unihash (Some ''L'')]"
  by code_simp

text \<open>A question for all columns is answered with the upstream unihash although another one is stored.\<close>

lemma stored_answer_ignored:
  "map (\<lambda>r. case r of Unihash u \<Rightarrow> u | Row (Some (row, u)) \<Rightarrow> Some u | _ \<Rightarrow> None)
     (snd (run_steps serve_event [ReportEquiv ''m'' ''t'' ''L'', GetAll ''m'' ''t'', Get ''m'' ''t'']
       (with_upstream knowing_upstream))) = [Some ''L'', Some ''U'', Some ''L'']"
  by code_simp

text \<open>
  When the upstream server fails during a report, the output hash is in the table without a unihash,
  and repeating the report does not help: the row is no longer new.
\<close>

lemma failed_upstream_leaves_half:
  "let (s1, r1) = serve_event (Report (report_of ''t'' ''out'' ''L'')) (with_upstream broken_upstream);
       (s2, r2) = serve_event (Report (report_of ''t'' ''out'' ''L'')) s1 in
   r1 = Failed OSError \<and> length (hs_outhashes s1) = 1 \<and> hs_unihashes s1 = [] \<and> r2 = Failed AttributeError"
  by code_simp

end
