(* ===== verification/HashEquiv.thy ===== *)
theory HashEquiv
  imports SigDump HashServ
begin

text \<open>
  Builders and a hash equivalence server together: the signature generator of \<open>bb/siggen.py\<close> with
  the client of \<open>hashserv/client.py\<close> talking to the server of \<open>hashserv/server.py\<close>. Each method of the
  client sends one message and gives the answer; a connection that the server ended is a
  \<open>ConnectionError\<close>.
\<close>

definition client_get_unihash :: "hash_server \<Rightarrow> string \<Rightarrow> string \<Rightarrow> string option option" where
  "client_get_unihash s method taskhash =
     (case snd (serve_event (StreamLine (method @ '' '' @ taskhash)) s) of
        Unihash (Some u) \<Rightarrow> Some (if u = [] then None else Some u)
      | Unihash None \<Rightarrow> Some None
      | _ \<Rightarrow> None)"

definition client_report_unihash :: "hash_server \<Rightarrow> string \<Rightarrow> string \<Rightarrow> string \<Rightarrow> string \<Rightarrow> string option" where
  "client_report_unihash s taskhash method outhash unihash =
     (case snd (serve_event (Report \<lparr>rp_method = method, rp_taskhash = taskhash, rp_outhash = outhash,
                                      rp_unihash = unihash, rp_extra = []\<rparr>) s) of
        Unihash u \<Rightarrow> u
      | _ \<Rightarrow> None)"

definition client_report_unihash_equiv :: "hash_server \<Rightarrow> string \<Rightarrow> string \<Rightarrow> string \<Rightarrow> string option option" where
  "client_report_unihash_equiv s taskhash method unihash =
     (case snd (serve_event (ReportEquiv method taskhash unihash) s) of
        Unihash u \<Rightarrow> Some u
      | _ \<Rightarrow> None)"

definition connected :: "hash_server \<Rightarrow> sig_env \<Rightarrow> sig_env" where
  "connected s E = E\<lparr>server_unihash := client_get_unihash s, server_equiv := client_report_unihash_equiv s,
     server_report := client_report_unihash s\<rparr>"

lemma client_get_unihash_known:
  assumes "split_ws (m @ '' '' @ h) = [m, h]" and "map_of (hs_unihashes s) (m, h) = Some u" and "m \<noteq> []" and "u \<noteq> []"
  shows "client_get_unihash s m h = Some (Some u)"
proof -
  have "m @ '' '' @ h \<noteq> ''END''"
  proof
    assume a: "m @ '' '' @ h = ''END''"
    have "split_ws ''END'' = [''END'']" by code_simp
    with a assms(1) show False by simp
  qed
  moreover have "stream_line (m @ '' '' @ h) s = Some (Inr (Some u), s)"
    unfolding stream_line_def assms(1) by (simp add: query_equivalent_def assms(2))
  ultimately show ?thesis
    using assms(4) by (simp add: client_get_unihash_def serve_event_def handle_event_def seq_def)
qed

lemma get_unihash_from_server:
  assumes "hashed_task g t" and "map_of (sg_taskhash g) t = Some h" and "cached_unihash t [] g = Inr None"
    and "sg_setscenetasks g = [] \<or> t \<in> set (sg_setscenetasks g)"
    and "server_unihash E (hash_method E t) h = Some (Some u)" and "u \<noteq> []"
  shows "\<exists>g'. get_unihash E t g = Inr (g', u)"
proof -
  obtain k where "unihash_key t g = Inr k" using unihash_key_ok [OF assms(1)] by blast
  with assms show ?thesis by (auto simp: get_unihash_def set_unihash_def dict_get_def)
qed

subsection \<open>Properties\<close>


subsection \<open>Examples\<close>

definition lib_report :: report_data where
  "lib_report = \<lparr>rp_method = ''method'', rp_taskhash = ''#L'', rp_outhash = ''out'', rp_unihash = ''first'', rp_extra = []\<rparr>"


end
