(* ===== verification/PyRegex.thy ===== *)
theory PyRegex
  imports PyStr
begin

text \<open>
  The regular expressions of the parser, as Python's \<open>re\<close> matches them: by backtracking, the
  alternatives from left to right, a greedy repetition as often as possible first and a lazy one
  as seldom. A match carries the named groups; a group keeps its last text.

  An expression that is repeated here never matches the empty string, so the rule for such
  repetitions (a turn has to use up a character) does not matter.
\<close>

datatype regex =
    Eps
  | Lit string
  | Chars "char \<Rightarrow> bool"
  | Cat regex regex
  | Alt regex regex
  | Star bool regex
  | Group string regex
  | Same string
  | Look bool regex
  | End

text \<open>What is captured and the rest of the string, and what is to be matched next.\<close>

type_synonym groups = "(string, string) dict"
type_synonym 'r matcher = "(groups \<times> string \<Rightarrow> 'r option) \<Rightarrow> groups \<times> string \<Rightarrow> 'r option"

definition or_else :: "'r option \<Rightarrow> 'r option \<Rightarrow> 'r option" where
  "or_else a b = (case a of Some r \<Rightarrow> Some r | None \<Rightarrow> b)"

lemma or_else_simps [simp]: "or_else (Some r) b = Some r" "or_else None b = b"
  by (simp_all add: or_else_def)

function repeat :: "bool \<Rightarrow> 'r matcher \<Rightarrow> 'r matcher" where
  "repeat greedy m k st =
     (let more = m (\<lambda>st'. if length (snd st') < length (snd st) then repeat greedy m k st' else None) in
      if greedy then or_else (more st) (k st) else or_else (k st) (more st))"
  by auto
termination by (relation "measure (\<lambda>(greedy, m, k, st). length (snd st))") auto

declare repeat.simps [simp del]

definition one_char :: "(char \<Rightarrow> bool) \<Rightarrow> 'r matcher" where
  "one_char p k st = (case snd st of c # s \<Rightarrow> if p c then k (fst st, s) else None | [] \<Rightarrow> None)"

lemma one_char_simps [simp]:
  "one_char p k (g, []) = None"
  "one_char p k (g, c # s) = (if p c then k (g, s) else None)"
  by (simp_all add: one_char_def)

definition captured :: "string \<Rightarrow> string \<Rightarrow> (groups \<times> string \<Rightarrow> 'r option) \<Rightarrow> groups \<times> string \<Rightarrow> 'r option" where
  "captured name s k st' = k (dict_set name (take (length s - length (snd st')) s) (fst st'), snd st')"

lemma captured_simps [simp]:
  "captured name (w @ u) k (g, u) = k (dict_set name w g, u)"
  "captured name w k (g, []) = k (dict_set name w g, [])"
  "captured name (c # u) k (g, u) = k (dict_set name [c] g, u)"
  by (simp_all add: captured_def)

definition no_more :: "string \<Rightarrow> bool" where
  "no_more s \<longleftrightarrow> s = [] \<or> s = [newline]"

primrec run_regex :: "regex \<Rightarrow> (groups \<times> string) matcher" where
  "run_regex Eps k st = k st"
| "run_regex (Lit t) k st = (if startswith (snd st) t then k (fst st, drop (length t) (snd st)) else None)"
| "run_regex (Chars p) k st = one_char p k st"
| "run_regex (Cat a b) k st = run_regex a (run_regex b k) st"
| "run_regex (Alt a b) k st = or_else (run_regex a k st) (run_regex b k st)"
| "run_regex (Star greedy r) k st = repeat greedy (run_regex r) k st"
| "run_regex (Group name r) k st =
     run_regex r (captured name (snd st) k) st"
| "run_regex (Same name) k st =
     (case map_of (fst st) name of
        None \<Rightarrow> None
      | Some t \<Rightarrow> if startswith (snd st) t then k (fst st, drop (length t) (snd st)) else None)"
| "run_regex (Look want r) k st =
     (case run_regex r Some st of
        None \<Rightarrow> if want then None else k st
      | Some st' \<Rightarrow> if want then k (fst st', snd st) else None)"
| "run_regex End k st = (if no_more (snd st) then k st else None)"

text \<open>\<open>r.match(s)\<close>: the groups, and the text after the match.\<close>

definition re_match :: "regex \<Rightarrow> string \<Rightarrow> (groups \<times> string) option" where
  "re_match r s = run_regex r Some ([], s)"

text \<open>\<open>r+\<close>, \<open>r?\<close> and a sequence.\<close>

definition some_of :: "bool \<Rightarrow> regex \<Rightarrow> regex" where
  "some_of greedy r = Cat r (Star greedy r)"

definition maybe :: "regex \<Rightarrow> regex" where
  "maybe r = Alt r Eps"

definition cats :: "regex list \<Rightarrow> regex" where
  "cats rs = foldr Cat rs Eps"

definition alts :: "regex list \<Rightarrow> regex" where
  "alts rs = foldr Alt (butlast rs) (last rs)"

text \<open>The classes \<open>\w\<close> and \<open>.\<close>.\<close>

definition word_char :: "char \<Rightarrow> bool" where
  "word_char c \<longleftrightarrow> (let n = (of_char c :: nat) in
     is_letter c \<or> is_digit c \<or> n = 95 \<or> n \<in> {170, 178, 179, 181, 185, 186, 188, 189, 190}
     \<or> (192 \<le> n \<and> n \<noteq> 215 \<and> n \<noteq> 247))"

definition not_newline :: "char \<Rightarrow> bool" where
  "not_newline c \<longleftrightarrow> c \<noteq> newline"

abbreviation spaces :: regex where
  "spaces \<equiv> Star True (Chars py_isspace)"

abbreviation blank :: regex where
  "blank \<equiv> some_of True (Chars py_isspace)"

named_theorems regex_simps \<open>matching of the parts of an expression\<close>

lemma run_derived [regex_simps]:
  "run_regex (cats []) k = k"
  "run_regex (cats (r # rs)) k = run_regex r (run_regex (cats rs) k)"
  "run_regex (some_of greedy r) k st = run_regex r (repeat greedy (run_regex r) k) st"
  "run_regex (maybe r) k st = or_else (run_regex r k st) (k st)"
  "run_regex (alts [r]) k st = run_regex r k st"
  "run_regex (alts (r # r' # rs)) k st = or_else (run_regex r k st) (run_regex (alts (r' # rs)) k st)"
proof -
  have star: "run_regex (Star greedy r) k = repeat greedy (run_regex r) k" by (rule ext) simp
  show "run_regex (some_of greedy r) k st = run_regex r (repeat greedy (run_regex r) k) st"
    by (simp add: some_of_def star)
qed (auto simp: cats_def maybe_def alts_def fun_eq_iff)

subsection \<open>Repeating a class of characters\<close>

lemma repeat_chars:
  "repeat True (one_char p) k (g, []) = k (g, [])"
  "repeat True (one_char p) k (g, c # s) =
     (if p c then or_else (repeat True (one_char p) k (g, s)) (k (g, c # s)) else k (g, c # s))"
  "repeat False (one_char p) k (g, []) = k (g, [])"
  "repeat False (one_char p) k (g, c # s) =
     (if p c then or_else (k (g, c # s)) (repeat False (one_char p) k (g, s)) else k (g, c # s))"
  by (subst repeat.simps; simp add: or_else_def split: option.split)+

text \<open>A greedy repetition ends at the last place from which the rest matches, a lazy one at the first.\<close>

lemma greedy_ends:
  assumes "list_all p w" and "k (g, u) = Some r"
    and "\<And>a b. u = a @ b \<Longrightarrow> a \<noteq> [] \<Longrightarrow> list_all p a \<Longrightarrow> k (g, b) = None"
  shows "repeat True (one_char p) k (g, w @ u) = Some r"
proof -
  have later: "repeat True (one_char p) k (g, b) = None"
    if "u = a @ b" "a \<noteq> []" "list_all p a" for a b
    using that
  proof (induction b arbitrary: a)
    case Nil
    then show ?case using assms(3) [of a "[]"] by (simp add: repeat_chars)
  next
    case (Cons c b)
    then have "k (g, c # b) = None" using assms(3) by blast
    moreover have "repeat True (one_char p) k (g, b) = None" if "p c"
      using Cons.IH [of "a @ [c]"] Cons.prems that by simp
    ultimately show ?case by (simp add: repeat_chars)
  qed
  have here: "repeat True (one_char p) k (g, u) = Some r"
  proof (cases u)
    case Nil
    then show ?thesis using assms(2) by (simp add: repeat_chars)
  next
    case (Cons c b)
    then show ?thesis using assms(2) later [of "[c]" b] by (simp add: repeat_chars)
  qed
  show ?thesis using assms(1) here by (induction w) (simp_all add: repeat_chars)
qed

lemma greedy_word:
  assumes "list_all p w" and "u = [] \<or> \<not> p (hd u)" and "k (g, u) = Some r"
  shows "repeat True (one_char p) k (g, w @ u) = Some r"
proof (rule greedy_ends [where k = k, OF assms(1,3)])
  fix a b
  assume "u = a @ b" "a \<noteq> []" "list_all p a"
  with assms(2) show "k (g, b) = None" by (cases a) simp_all
qed

lemma lazy_ends:
  assumes "list_all p w" and "k (g, u) = Some r"
    and "\<And>a b. w = a @ b \<Longrightarrow> b \<noteq> [] \<Longrightarrow> k (g, b @ u) = None"
  shows "repeat False (one_char p) k (g, w @ u) = Some r"
  using assms
proof (induction w)
  case Nil
  then show ?case by (cases u) (simp_all add: repeat_chars)
next
  case (Cons c w)
  have "k (g, c # w @ u) = None" using Cons.prems(3) [of "[]" "c # w"] by simp
  moreover have "repeat False (one_char p) k (g, w @ u) = Some r"
    using Cons.prems by (intro Cons.IH) (auto intro: Cons.prems(3) [of "c # _"])
  ultimately show ?case using Cons.prems(1) by (simp add: repeat_chars)
qed

lemma repeat_none:
  assumes "\<And>a b. s = a @ b \<Longrightarrow> list_all p a \<Longrightarrow> k (g, b) = None"
  shows "repeat greedy (one_char p) k (g, s) = None"
  using assms
proof (induction s)
  case Nil
  then show ?case by (cases greedy) (simp_all add: repeat_chars)
next
  case (Cons c s)
  have "k (g, c # s) = None" using Cons.prems [of "[]"] by simp
  moreover have "repeat greedy (one_char p) k (g, s) = None" if "p c"
    using that by (intro Cons.IH) (auto intro: Cons.prems [of "c # _"])
  ultimately show ?case by (cases greedy) (simp_all add: repeat_chars)
qed

lemma run_chars [simp]: "run_regex (Chars p) = one_char p"
  by (rule ext)+ simp

end
