(* ===== verification/DataPlain.thy ===== *)
theory DataPlain
  imports DataLaws
begin

text \<open>
  The operations of the store on plain variables: names without an override, that are not
  renamed and that the overrides do not depend on. Reading and writing them is a matter of the
  flags alone, and each operation ends with a known store. The theories of tasks and
  statements rest on these equations.
\<close>

named_theorems plain_simps \<open>operations on plain variables\<close>

subsection \<open>The flags a store shows\<close>

definition flag_of :: "data_store \<Rightarrow> string \<Rightarrow> string \<Rightarrow> dval option" where
  "flag_of s var flag = (case fst (findVar s var) of None \<Rightarrow> None | Some fl \<Rightarrow> map_of fl flag)"

definition plain_name :: "data_store \<Rightarrow> string \<Rightarrow> bool" where
  "plain_name s var \<longleftrightarrow> CHR '':'' \<notin> set var \<and> var \<noteq> ''BB_RENAMED_VARIABLES''
     \<and> var \<notin> set (dict_keys (var_renames s)) \<and> var \<notin> set (overridevars s)
     \<and> map_of (overridedata s) var = None"

definition plain_var :: "data_store \<Rightarrow> string \<Rightarrow> bool" where
  "plain_var s var \<longleftrightarrow> plain_name s var \<and> (\<forall>kw \<in> set setvar_keywords. flag_of s var kw = None)"

definition plain_flag :: "string \<Rightarrow> bool" where
  "plain_flag flag \<longleftrightarrow> flag \<noteq> [] \<and> flag \<noteq> ''_content'' \<and> flag \<noteq> ''_defaultval''
     \<and> flag \<noteq> ''export'' \<and> flag \<noteq> ''unexport'' \<and> flag \<notin> set setvar_keywords"

text \<open>What decides whether a name is plain is left alone by all the writes below.\<close>

definition name_tables :: "data_store \<Rightarrow> (string, dval) dict \<times> string list \<times> (string, (string \<times> string) list) dict" where
  "name_tables s = (var_renames s, overridevars s, overridedata s)"

lemma plain_name_tables: "name_tables s' = name_tables s \<Longrightarrow> plain_name s' var = plain_name s var"
  by (simp add: name_tables_def plain_name_def)

lemma find_layer_Cons [simp]:
  "find_layer var (dict_set v fl l # ls) = (if var = v then Some fl else find_layer var (l # ls))"
  by simp

lemma flag_of_cache [simp]: "flag_of (s \<lparr> expand_cache := c \<rparr>) = flag_of s"
  by (rule ext)+ (simp add: flag_of_def findVar_def)

lemma flag_of_shadow [simp]: "flag_of (makeShadowCopy v s) var flag = flag_of s var flag"
proof (cases "v \<in> set (dict_keys (local_vars s))")
  case True
  then show ?thesis by (simp add: makeShadowCopy_def)
next
  case False
  then have n: "map_of (local_vars s) v = None" by (simp add: map_of_None_iff)
  then show ?thesis using False
    by (auto simp: makeShadowCopy_def initVar_def flag_of_def findVar_def Let_def
        split: option.splits list.splits)
qed

lemma shadow_flags: "map_of (local_vars (makeShadowCopy v s)) v = Some (var_flags (makeShadowCopy v s) v)"
  using shadow_in_keys [of v s] by (auto simp: var_flags_def dict_get_or_def)

lemma flag_of_put:
  assumes "map_of (local_vars s) v = Some fl"
  shows "flag_of (put_flag v f x s) var flag = (if var = v \<and> flag = f then Some x else flag_of s var flag)"
  using assms by (auto simp: put_flag_def flag_of_def findVar_def var_flags_def dict_get_or_def)

lemma flag_of_del:
  assumes "map_of (local_vars s) v = Some fl"
  shows "flag_of (del_flag v f s) var flag = (if var = v \<and> flag = f then None else flag_of s var flag)"
  using assms by (auto simp: del_flag_def flag_of_def findVar_def var_flags_def dict_get_or_def map_of_dict_del)

lemma name_tables_simps [simp]:
  "name_tables (s \<lparr> expand_cache := c \<rparr>) = name_tables s"
  "name_tables (makeShadowCopy v s) = name_tables s"
  "name_tables (put_flag v f x s) = name_tables s"
  "name_tables (del_flag v f s) = name_tables s"
  by (auto simp: name_tables_def makeShadowCopy_def initVar_def put_flag_def del_flag_def Let_def
      split: option.splits list.splits)

subsection \<open>Reading\<close>

lemma get_plain_flag [plain_simps]:
  assumes "flag \<noteq> []" and "flag \<noteq> ''_content''"
  shows "getVarFlag E (Suc m) var flag False noweak parsing False s = Some (Inr (flag_of s var flag, None), s)"
  using assms
  by (auto simp: getVarFlag_body_def compute_flag_def override_value_def own_value_def pending_def
      removal_def cache_parser_def Let_def flag_of_def split: prod.split option.splits)

lemma get_flag_plain [plain_simps]:
  assumes "flag \<noteq> []" and "flag \<noteq> ''_content''"
  shows "get_flag (getVarFlag E (Suc m)) var flag False s = Some (Inr (flag_of s var flag), s)"
  using get_plain_flag [OF assms] by (simp add: get_flag_def)

definition plain_value :: "data_store \<Rightarrow> string \<Rightarrow> dval option" where
  "plain_value s var = (case flag_of s var ''_content'' of Some v \<Rightarrow> Some v | None \<Rightarrow> flag_of s var ''_defaultval'')"

lemma no_pending:
  assumes "\<forall>kw \<in> set setvar_keywords. flag_of s var kw = None" and "findVar s var = (local_var, od)"
    and "kw \<in> set setvar_keywords"
  shows "pending gv kw local_var skip f a = ret a"
  using assms by (auto simp: pending_def flag_of_def split: option.split)

lemma get_plain_content [plain_simps]:
  assumes "plain_var s var"
  shows "getVarFlag E (Suc m) var ''_content'' False noweak parsing False s =
     Some (Inr (if noweak then flag_of s var ''_content'' else plain_value s var, None), s)"
proof -
  obtain lv od where f: "findVar s var = (lv, od)" by (cases "findVar s var")
  with assms have od: "od = None" and ops: "\<forall>kw \<in> set setvar_keywords. flag_of s var kw = None"
    by (auto simp: plain_var_def plain_name_def findVar_def)
  note p = no_pending [OF ops f]
  have own: "own_value lv ''_content'' noweak = (if noweak then flag_of s var ''_content'' else plain_value s var)"
    using f by (auto simp: own_value_def flag_of_def plain_value_def split: option.split)
  show ?thesis
    by (simp add: getVarFlag_body_def compute_flag_def f od override_value_def p setvar_keywords_def own
        removal_def cache_parser_def Let_def)
qed

lemma getVar_plain_var [plain_simps]:
  assumes "plain_var s var"
  shows "getVar E (Suc m) var False s = Some (Inr (plain_value s var), s)"
  using get_plain_content [OF assms] by (simp add: getVar_def get_content_def)

subsection \<open>Writing\<close>

lemma report_plain: "plain_name s var \<Longrightarrow> report_renamed mark var s = ret () s"
  by (simp add: report_renamed_def plain_name_def)

lemma note_plain: "plain_name s var \<Longrightarrow> note_overridevar E n var v x s = ret () s"
  by (simp add: note_overridevar_def plain_name_def)

lemma plain_name_kept:
  "plain_name (s \<lparr> expand_cache := c \<rparr>) var = plain_name s var"
  "plain_name (makeShadowCopy v s) var = plain_name s var"
  "plain_name (put_flag v f x s) var = plain_name s var"
  "plain_name (del_flag v f s) var = plain_name s var"
  by (rule plain_name_tables, simp)+

declare plain_name_kept [simp]

definition flag_written :: "string \<Rightarrow> string \<Rightarrow> dval \<Rightarrow> data_store \<Rightarrow> data_store" where
  "flag_written var flag v s = shadow_put var flag v (s \<lparr> expand_cache := [] \<rparr>)"

lemma set_plain_flag [plain_simps]:
  assumes "plain_name s var" and "plain_flag flag"
  shows "setVarFlag E n var flag v s = Some (Inr (), flag_written var flag v s)"
proof -
  have r: "report_renamed mark var (s \<lparr> expand_cache := [] \<rparr>) = Some (Inr (), s \<lparr> expand_cache := [] \<rparr>)" for mark
    using report_plain [of "s \<lparr> expand_cache := [] \<rparr>" var mark] assms by simp
  have v: "var \<noteq> ''BB_RENAMED_VARIABLES''" using assms by (simp add: plain_name_def)
  show ?thesis
    using assms(2) unfolding setVarFlag_def setVarFlag_body_def plain_flag_def
    by (simp add: r v seq_def flag_written_def)
qed

definition content_written :: "string \<Rightarrow> dval \<Rightarrow> bool \<Rightarrow> data_store \<Rightarrow> data_store" where
  "content_written var v parsing s =
     (let s1 = makeShadowCopy var (s \<lparr> expand_cache := [] \<rparr>) in
      put_flag var ''_content'' v (if parsing then s1 else clear_operations var s1))"

lemma clear_plain: "plain_name s var \<Longrightarrow> clear_overrides E n var s = ret () s"
  by (simp add: clear_overrides_def plain_name_def)

lemma no_colon_takeWhile: "CHR '':'' \<notin> set var \<Longrightarrow> takeWhile (\<lambda>c. c \<noteq> CHR '':'') var = var"
  by (rule takeWhile_eq_all_conv [THEN iffD2]) auto

lemma set_plain_var [plain_simps]:
  assumes "plain_name s var" and "\<not> old_syntax var" and "setvar_match var = None"
  shows "setVar E n var v parsing s = Some (Inr (), content_written var v parsing s)"
proof -
  have c: "CHR '':'' \<notin> set var" using assms(1) by (simp add: plain_name_def)
  have p: "plain_name (clear_operations var (makeShadowCopy var (s \<lparr> expand_cache := [] \<rparr>))) var"
    using assms(1) by (simp add: clear_operations_def)
  show ?thesis
    using assms unfolding setVar_def setVar_body_def set_content_def content_written_def
    by (cases parsing) (simp_all add: no_colon_takeWhile [OF c] report_plain seq_def c clear_plain p note_plain Let_def)
qed

lemma flag_of_written:
  "flag_of (flag_written v f x s) var flag = (if var = v \<and> flag = f then Some x else flag_of s var flag)"
  by (simp add: flag_written_def shadow_put_def flag_of_put [OF shadow_flags])

lemma del_flag_keys: "\<exists>fl. map_of (local_vars (del_flag v f s)) v = Some fl"
  by (simp add: del_flag_def)

lemma flag_of_clear:
  assumes "map_of (local_vars s) v = Some fl"
  shows "flag_of (clear_operations v s) var flag =
    (if var = v \<and> flag \<in> set setvar_keywords then None else flag_of s var flag)"
  using flag_of_del [OF assms] del_flag_keys [of v "'':append''" s]
    del_flag_keys [of v "'':prepend''" "del_flag v '':append'' s"]
  by (auto simp: clear_operations_def setvar_keywords_def flag_of_del)

lemma clear_operations_keys: "\<exists>fl. map_of (local_vars (clear_operations v s)) v = Some fl"
  by (simp add: clear_operations_def del_flag_keys)

lemma flag_of_content_written:
  "flag_of (content_written v x parsing s) var flag =
    (if var = v \<and> flag = ''_content'' then Some x
     else if var = v \<and> \<not> parsing \<and> flag \<in> set setvar_keywords then None else flag_of s var flag)"
  using clear_operations_keys [of v "makeShadowCopy v (s \<lparr> expand_cache := [] \<rparr>)"]
  by (auto simp: content_written_def Let_def flag_of_put [OF shadow_flags] flag_of_put
      flag_of_clear [OF shadow_flags] setvar_keywords_def)

lemma written_tables [simp]:
  "name_tables (flag_written v f x s) = name_tables s"
  "name_tables (content_written v x parsing s) = name_tables s"
  by (simp_all add: flag_written_def shadow_put_def content_written_def clear_operations_def Let_def)

lemma plain_name_written [simp]:
  "plain_name (flag_written v f x s) var = plain_name s var"
  "plain_name (content_written v x parsing s) var = plain_name s var"
  by (rule plain_name_tables, simp)+

text \<open>\<open>delVarFlag\<close> takes one flag away, if the variable has it.\<close>

lemma del_flag_written [simp]:
  "flag_of (delVarFlag v f s) var flag = (if var = v \<and> flag = f then None else flag_of s var flag)"
  "name_tables (delVarFlag v f s) = name_tables s"
  "plain_name (delVarFlag v f s) var = plain_name s var"
proof -
  let ?s1 = "s \<lparr> expand_cache := [] \<rparr>"
  let ?s2 = "makeShadowCopy v ?s1"
  have gone: "flag_of ?s1 v f = None" if "fst (findVar ?s1 v) = None \<or> fst (findVar ?s1 v) = Some []"
    using that by (auto simp: flag_of_def simp del: flag_of_cache)
  have none: "flag_of ?s1 v f = None" if "f \<notin> set (dict_keys (var_flags ?s2 v))"
  proof -
    have "flag_of ?s2 v f = None"
      using that shadow_flags [of v ?s1]
      by (auto simp: flag_of_def findVar_def map_of_None_iff split: option.split)
    then show ?thesis by simp
  qed
  have keys: "v \<in> set (dict_keys (local_vars ?s2))"
    by (rule map_of_in_keys) (rule shadow_flags)
  have "delVarFlag v f s = ?s1 \<and> flag_of ?s1 v f = None \<or>
      delVarFlag v f s = ?s2 \<and> flag_of ?s1 v f = None \<or> delVarFlag v f s = del_flag v f ?s2"
    using gone none keys by (auto simp: delVarFlag_def Let_def split: option.split list.split)
  then show "flag_of (delVarFlag v f s) var flag = (if var = v \<and> flag = f then None else flag_of s var flag)"
    and t: "name_tables (delVarFlag v f s) = name_tables s"
    by (auto simp: flag_of_del [OF shadow_flags])
  show "plain_name (delVarFlag v f s) var = plain_name s var"
    by (rule plain_name_tables) (rule t)
qed

lemma plain_value_cong:
  "flag_of s' var ''_content'' = flag_of s var ''_content'' \<Longrightarrow>
   flag_of s' var ''_defaultval'' = flag_of s var ''_defaultval'' \<Longrightarrow> plain_value s' var = plain_value s var"
  by (simp only: plain_value_def)

lemma plain_var_cong:
  assumes "name_tables s' = name_tables s"
    and "\<And>kw. kw \<in> set setvar_keywords \<Longrightarrow> flag_of s' var kw = flag_of s var kw"
  shows "plain_var s' var = plain_var s var"
  using plain_name_tables [OF assms(1)] assms(2) by (auto simp: plain_var_def)

text \<open>Writing or deleting a flag that is plain does not touch the value of any variable.\<close>

lemma flag_written_value [simp]:
  assumes "plain_flag f"
  shows "plain_value (flag_written v f x s) var = plain_value s var"
    and "plain_var (flag_written v f x s) var = plain_var s var"
    and "plain_value (delVarFlag v f s) var = plain_value s var"
    and "plain_var (delVarFlag v f s) var = plain_var s var"
  using assms unfolding plain_flag_def
  by (intro plain_value_cong plain_var_cong; fastforce simp: flag_of_written)+

lemma content_written_value [simp]:
  "plain_value (content_written v x parsing s) var = (if var = v then Some x else plain_value s var)"
  by (auto simp: flag_of_content_written setvar_keywords_def plain_value_def split: option.split)

lemma content_written_var:
  assumes "plain_var s var"
  shows "plain_var (content_written v x parsing s) var"
  using assms by (auto simp: plain_var_def flag_of_content_written setvar_keywords_def)

end
