(* ===== verification/RecipeTasks.thy ===== *)
theory RecipeTasks
  imports DataPlain
begin

text \<open>
  The tasks of a recipe: \<open>addtask\<close>, \<open>deltask\<close>, \<open>add_tasks\<close> and \<open>preceedtask\<close> of
  \<open>bb/build.py\<close>. The variable \<open>__BBTASKS\<close> lists the tasks, the flag \<open>deps\<close> of a task the tasks
  before it, and \<open>add_tasks\<close> collects what the other recipes need to know in \<open>_task_deps\<close>.
  The lists in a store are copied when they are read; the dictionary in \<open>_task_deps\<close> is copied
  at its top level only, and that its lists are shared with a store it was copied to is left out.
\<close>

subsection \<open>Adding and deleting tasks\<close>

text \<open>\<open>getVar(...) or []\<close> as the list that is changed. A value of another type has no \<open>append\<close>.\<close>

definition list_or_empty :: "dval option \<Rightarrow> string list result" where
  "list_or_empty v =
     (case v of
        Some (Listing l) \<Rightarrow> Inr l
      | Some w \<Rightarrow> if truthy w then Inl AttributeError else Inr []
      | None \<Rightarrow> Inr [])"

definition do_prefix :: "string \<Rightarrow> string" where
  "do_prefix task = (if take 3 task = ''do_'' then task else ''do_'' @ task)"

definition get_tasks :: "python \<Rightarrow> nat \<Rightarrow> string list data" where
  "get_tasks E n = seq (getVar E n ''__BBTASKS'' False) (\<lambda>v. of_result (list_or_empty v))"

definition get_deps :: "python \<Rightarrow> nat \<Rightarrow> string \<Rightarrow> string list data" where
  "get_deps E n task = seq (get_flag (getVarFlag E n) task ''deps'' False) (\<lambda>v. of_result (list_or_empty v))"

definition depend_before :: "python \<Rightarrow> nat \<Rightarrow> string \<Rightarrow> string \<Rightarrow> unit data" where
  "depend_before E n task entry =
     seq (get_deps E n entry) (\<lambda>existing.
     if task \<in> set existing then ret () else setVarFlag E n entry ''deps'' (Listing (task # existing)))"

definition addtask :: "python \<Rightarrow> nat \<Rightarrow> string \<Rightarrow> string option \<Rightarrow> string option \<Rightarrow> unit data" where
  "addtask E n task0 before after =
     (let task = do_prefix task0 in
      seq (setVarFlag E n task ''task'' (Truth True)) (\<lambda>_.
      seq (get_tasks E n) (\<lambda>bbtasks.
      seq (setVar E n ''__BBTASKS'' (Listing (set_add task bbtasks)) False) (\<lambda>_.
      seq (get_deps E n task) (\<lambda>existing.
      seq (setVarFlag E n task ''deps''
             (Listing (case after of None \<Rightarrow> existing | Some a \<Rightarrow> set_union existing (split_ws a)))) (\<lambda>_.
      case before of
        None \<Rightarrow> ret ()
      | Some b \<Rightarrow> loop (\<lambda>entry _. depend_before E n task entry) (split_ws b) ()))))))"

definition undepend :: "python \<Rightarrow> nat \<Rightarrow> string \<Rightarrow> string \<Rightarrow> unit data" where
  "undepend E n task bbtask =
     seq (get_deps E n bbtask) (\<lambda>deps.
     if task \<in> set deps then setVarFlag E n bbtask ''deps'' (Listing (remove1 task deps)) else ret ())"

definition deltask :: "python \<Rightarrow> nat \<Rightarrow> string \<Rightarrow> unit data" where
  "deltask E n task0 =
     (let task = do_prefix task0 in
      seq (get_tasks E n) (\<lambda>bbtasks.
      seq (if task \<in> set bbtasks
           then seq (change (delVarFlag task ''task'')) (\<lambda>_.
                setVar E n ''__BBTASKS'' (Listing (remove1 task bbtasks)) False)
           else ret ()) (\<lambda>_.
      seq (change (delVarFlag task ''deps'')) (\<lambda>_.
      seq (get_tasks E n) (\<lambda>bbtasks'.
      loop (\<lambda>bbtask _. undepend E n task bbtask) bbtasks' ())))))"

text \<open>The statements \<open>addtask\<close> and \<open>deltask\<close> of a recipe in the order they are evaluated.\<close>

datatype task_op =
    AddTask string "string option" "string option"
  | DelTask string

fun run_task_op :: "python \<Rightarrow> nat \<Rightarrow> task_op \<Rightarrow> unit data" where
  "run_task_op E n (AddTask task before after) = addtask E n task before after"
| "run_task_op E n (DelTask task) = deltask E n task"

definition task_ops :: "python \<Rightarrow> nat \<Rightarrow> task_op list \<Rightarrow> unit data" where
  "task_ops E n ops = loop (\<lambda>op _. run_task_op E n op) ops ()"

subsection \<open>What the operations promise\<close>

text \<open>A table of tasks: the listed ones and what each name depends on.\<close>

type_synonym task_table = "string list \<times> (string \<Rightarrow> string list)"

definition dep_before :: "string \<Rightarrow> string \<Rightarrow> (string \<Rightarrow> string list) \<Rightarrow> (string \<Rightarrow> string list)" where
  "dep_before task entry deps = (if task \<in> set (deps entry) then deps else deps (entry := task # deps entry))"

definition table_add :: "string \<Rightarrow> string list \<Rightarrow> string list \<Rightarrow> task_table \<Rightarrow> task_table" where
  "table_add task before after = (\<lambda>(listed, deps).
     (set_add task listed, fold (dep_before task) before (deps (task := set_union (deps task) after))))"

definition table_del :: "string \<Rightarrow> task_table \<Rightarrow> task_table" where
  "table_del task = (\<lambda>(listed, deps).
     let listed' = remove1 task listed in
     (listed', \<lambda>x. if x = task then [] else if x \<in> set listed' then remove1 task (deps x) else deps x))"

definition clause_words :: "string option \<Rightarrow> string list" where
  "clause_words w = (case w of None \<Rightarrow> [] | Some t \<Rightarrow> split_ws t)"

fun table_op :: "task_op \<Rightarrow> task_table \<Rightarrow> task_table" where
  "table_op (AddTask task before after) = table_add (do_prefix task) (clause_words before) (clause_words after)"
| "table_op (DelTask task) = table_del (do_prefix task)"

text \<open>The table a store holds, and the stores that hold one.\<close>

definition task_list :: "dval option \<Rightarrow> string list" where
  "task_list v = (case v of Some (Listing l) \<Rightarrow> l | _ \<Rightarrow> [])"

definition tasks_in :: "data_store \<Rightarrow> task_table" where
  "tasks_in s = (task_list (plain_value s ''__BBTASKS''), \<lambda>t. task_list (flag_of s t ''deps''))"

definition holds_tasks :: "data_store \<Rightarrow> bool" where
  "holds_tasks s \<longleftrightarrow> plain_var s ''__BBTASKS''
     \<and> list_or_empty (plain_value s ''__BBTASKS'') = Inr (fst (tasks_in s))
     \<and> (\<forall>t. list_or_empty (flag_of s t ''deps'') = Inr (snd (tasks_in s) t))
     \<and> distinct (fst (tasks_in s)) \<and> (\<forall>t \<in> set (fst (tasks_in s)). plain_name s t)"

fun op_names :: "task_op \<Rightarrow> string list" where
  "op_names (AddTask task before after) = do_prefix task # clause_words before"
| "op_names (DelTask task) = [do_prefix task]"

lemma tasks_name: "setvar_match ''__BBTASKS'' = None" "\<not> old_syntax ''__BBTASKS''"
  by code_simp+

lemma deps_flag [simp]: "plain_flag ''deps''" "plain_flag ''task''"
  by (simp_all add: plain_flag_def setvar_keywords_def)

lemma list_or_empty_Listing [simp]: "list_or_empty (Some (Listing l)) = Inr l" "list_or_empty None = Inr []"
  by (simp_all add: list_or_empty_def)

text \<open>A step from a store that holds tasks to one that holds the table \<open>T\<close>.\<close>

definition task_step :: "data_store \<Rightarrow> task_table \<Rightarrow> data_store \<Rightarrow> bool" where
  "task_step s T s' \<longleftrightarrow> holds_tasks s' \<and> tasks_in s' = T \<and> name_tables s' = name_tables s"

lemma get_tasks_run:
  assumes "holds_tasks s"
  shows "get_tasks E (Suc m) s = Some (Inr (fst (tasks_in s)), s)"
  using assms getVar_plain_var [of s "''__BBTASKS''" E m] by (simp add: get_tasks_def holds_tasks_def)

lemma get_deps_run:
  assumes "holds_tasks s"
  shows "get_deps E (Suc m) t s = Some (Inr (snd (tasks_in s) t), s)"
  using assms get_flag_plain [of "''deps''" E m t s] by (simp add: get_deps_def holds_tasks_def)

lemma write_deps:
  assumes "holds_tasks s"
  shows "task_step s (fst (tasks_in s), (snd (tasks_in s)) (t := l)) (flag_written t ''deps'' (Listing l) s)"
  using assms by (auto simp: task_step_def holds_tasks_def tasks_in_def flag_of_written task_list_def)

lemma write_task:
  assumes "holds_tasks s"
  shows "task_step s (tasks_in s) (flag_written t ''task'' v s)"
  using assms by (auto simp: task_step_def holds_tasks_def tasks_in_def flag_of_written task_list_def)

lemma write_listed:
  assumes "holds_tasks s" and "distinct l" and "\<forall>t \<in> set l. plain_name s t"
  shows "task_step s (l, snd (tasks_in s)) (content_written ''__BBTASKS'' (Listing l) False s)"
  using assms
  by (auto simp: task_step_def holds_tasks_def tasks_in_def flag_of_content_written task_list_def
      content_written_var setvar_keywords_def)

lemma forget_flag:
  assumes "holds_tasks s"
  shows "task_step s (tasks_in s) (delVarFlag t ''task'' s)"
    and "task_step s (fst (tasks_in s), (snd (tasks_in s)) (t := [])) (delVarFlag t ''deps'' s)"
  using assms
  by (auto simp: task_step_def holds_tasks_def tasks_in_def task_list_def)

lemma loop_follows:
  assumes step: "\<And>x s. x \<in> set xs \<Longrightarrow> holds_tasks s \<Longrightarrow> name_tables s = nt \<Longrightarrow>
      \<exists>s'. f x () s = Some (Inr (), s') \<and> task_step s (g x (tasks_in s)) s'"
    and "holds_tasks s" and "name_tables s = nt"
  shows "\<exists>s'. loop f xs () s = Some (Inr (), s') \<and> task_step s (fold g xs (tasks_in s)) s'"
  using assms
proof (induction xs arbitrary: s)
  case Nil
  then show ?case by (simp add: task_step_def)
next
  case (Cons x xs)
  from Cons.prems(1) [of x s] Cons.prems(2,3) obtain s1 where
    f: "f x () s = Some (Inr (), s1)" and t: "task_step s (g x (tasks_in s)) s1" by auto
  from t have "holds_tasks s1" "name_tables s1 = nt" "tasks_in s1 = g x (tasks_in s)"
    using Cons.prems(3) by (auto simp: task_step_def)
  with Cons.IH [of s1] Cons.prems(1) obtain s' where
    "loop f xs () s1 = Some (Inr (), s')" "task_step s1 (fold g xs (g x (tasks_in s))) s'" by auto
  with f t show ?case by (auto simp: task_step_def)
qed

lemma depend_before_run:
  assumes "holds_tasks s" and "plain_name s entry"
  shows "\<exists>s'. depend_before E (Suc m) task entry s = Some (Inr (), s')
     \<and> task_step s (apsnd (dep_before task entry) (tasks_in s)) s'"
proof (cases "task \<in> set (snd (tasks_in s) entry)")
  case True
  with assms show ?thesis
    by (cases "tasks_in s") (auto simp: depend_before_def get_deps_run task_step_def dep_before_def)
next
  case False
  with assms write_deps [OF assms(1), of entry "task # snd (tasks_in s) entry"] show ?thesis
    by (cases "tasks_in s") (auto simp: depend_before_def get_deps_run dep_before_def set_plain_flag)
qed

lemma undepend_run:
  assumes "holds_tasks s" and "plain_name s x"
  shows "\<exists>s'. undepend E (Suc m) task x s = Some (Inr (), s')
     \<and> task_step s (apsnd (\<lambda>d. d (x := remove1 task (d x))) (tasks_in s)) s'"
proof (cases "task \<in> set (snd (tasks_in s) x)")
  case True
  with assms write_deps [OF assms(1), of x "remove1 task (snd (tasks_in s) x)"] show ?thesis
    by (cases "tasks_in s") (auto simp: undepend_def get_deps_run set_plain_flag)
next
  case False
  with assms show ?thesis
    by (cases "tasks_in s") (auto simp: undepend_def get_deps_run task_step_def remove1_idem)
qed

lemma fold_apsnd: "fold (\<lambda>x. apsnd (f x)) xs (a, d) = (a, fold f xs d)"
  by (induction xs arbitrary: d) simp_all

lemma fold_remove:
  "distinct xs \<Longrightarrow> fold (\<lambda>x d. d (x := remove1 task (d x))) xs deps =
     (\<lambda>x. if x \<in> set xs then remove1 task (deps x) else deps x)"
  by (induction xs arbitrary: deps) (auto simp: fun_eq_iff)

lemma task_step_trans:
  "task_step s T s1 \<Longrightarrow> task_step s1 T' s2 \<Longrightarrow> task_step s T' s2"
  by (simp add: task_step_def)

lemma task_stepD:
  "task_step s T s' \<Longrightarrow> holds_tasks s'"
  "task_step s T s' \<Longrightarrow> tasks_in s' = T"
  "task_step s T s' \<Longrightarrow> name_tables s' = name_tables s"
  "task_step s T s' \<Longrightarrow> plain_name s' x = plain_name s x"
  by (simp_all only: task_step_def plain_name_tables [of s' s x] simp_thms)

lemma set_tasks_run:
  assumes "holds_tasks s" and "distinct l" and "\<forall>t \<in> set l. plain_name s t"
  shows "\<exists>s'. setVar E n ''__BBTASKS'' (Listing l) False s = Some (Inr (), s')
     \<and> task_step s (l, snd (tasks_in s)) s'"
  using write_listed [OF assms] assms(1) tasks_name by (auto simp: set_plain_var holds_tasks_def plain_var_def)

lemma before_loop_run:
  assumes "holds_tasks s" and "\<forall>e \<in> set es. plain_name s e"
  shows "\<exists>s'. loop (\<lambda>entry _. depend_before E (Suc m) task entry) es () s = Some (Inr (), s')
     \<and> task_step s (fst (tasks_in s), fold (dep_before task) es (snd (tasks_in s))) s'"
proof -
  have "\<exists>s'. loop (\<lambda>entry _. depend_before E (Suc m) task entry) es () s = Some (Inr (), s')
     \<and> task_step s (fold (\<lambda>e. apsnd (dep_before task e)) es (tasks_in s)) s'"
    by (rule loop_follows [where nt = "name_tables s"])
      (use assms plain_name_tables depend_before_run in blast)+
  then show ?thesis by (cases "tasks_in s") (simp add: fold_apsnd)
qed

lemma addtask_run:
  assumes "holds_tasks s" and "\<forall>t \<in> set (op_names (AddTask task0 before after)). plain_name s t"
  shows "\<exists>s'. addtask E (Suc m) task0 before after s = Some (Inr (), s')
     \<and> task_step s (table_add (do_prefix task0) (clause_words before) (clause_words after) (tasks_in s)) s'"
proof -
  let ?t = "do_prefix task0"
  obtain listed deps where T: "tasks_in s = (listed, deps)" by (cases "tasks_in s")
  from assms(2) have p: "plain_name s ?t" "\<forall>e \<in> set (clause_words before). plain_name s e" by auto
  define s1 where "s1 = flag_written ?t ''task'' (Truth True) s"
  have r1: "setVarFlag E (Suc m) ?t ''task'' (Truth True) s = Some (Inr (), s1)"
    unfolding s1_def by (rule set_plain_flag) (simp_all add: p)
  have t1: "task_step s (listed, deps) s1"
    using write_task [OF assms(1), of ?t] by (simp add: s1_def T)
  note h1 = task_stepD [OF t1]
  have l1: "distinct (set_add ?t listed)" "\<forall>t \<in> set (set_add ?t listed). plain_name s1 t"
    using assms(1) p(1) by (auto simp: holds_tasks_def T h1(4))
  from set_tasks_run [OF h1(1) l1, of E "Suc m"] obtain s2 where
    r2: "setVar E (Suc m) ''__BBTASKS'' (Listing (set_add ?t listed)) False s1 = Some (Inr (), s2)"
    and t2: "task_step s1 (set_add ?t listed, deps) s2" using h1(2) by auto
  note h2 = task_stepD [OF t2]
  let ?l = "set_union (deps ?t) (clause_words after)"
  define s3 where "s3 = flag_written ?t ''deps'' (Listing ?l) s2"
  have r3: "setVarFlag E (Suc m) ?t ''deps'' (Listing ?l) s2 = Some (Inr (), s3)"
    unfolding s3_def by (rule set_plain_flag) (simp_all add: p h2(4) h1(4))
  have t3: "task_step s2 (set_add ?t listed, deps (?t := ?l)) s3"
    using write_deps [OF h2(1), of ?t ?l] h2(2) by (simp add: s3_def)
  note h3 = task_stepD [OF t3]
  have "\<forall>e \<in> set (clause_words before). plain_name s3 e"
    using p(2) by (simp add: h1(4) h2(4) h3(4))
  from before_loop_run [OF h3(1) this, of E m ?t] obtain s4 where
    r4: "loop (\<lambda>entry _. depend_before E (Suc m) ?t entry) (clause_words before) () s3 = Some (Inr (), s4)"
    and t4: "task_step s3 (table_add ?t (clause_words before) (clause_words after) (tasks_in s)) s4"
    by (auto simp: h3(2) table_add_def T)
  have l: "(case after of None \<Rightarrow> deps ?t | Some a \<Rightarrow> set_union (deps ?t) (split_ws a)) = ?l"
    by (cases after) (simp_all add: clause_words_def set_union_def)
  have b: "(case before of None \<Rightarrow> ret ()
      | Some b \<Rightarrow> loop (\<lambda>entry _. depend_before E (Suc m) ?t entry) (split_ws b) ()) s3 = Some (Inr (), s4)"
    using r4 by (cases before) (simp_all add: clause_words_def)
  have "addtask E (Suc m) task0 before after s = Some (Inr (), s4)"
    unfolding addtask_def Let_def
    by (simp add: r1 get_tasks_run h1 r2 get_deps_run h2 l r3 b del: loop.simps)
  with t1 t2 t3 t4 show ?thesis by (blast intro: task_step_trans)
qed

lemma deltask_run:
  assumes "holds_tasks s" and "plain_name s (do_prefix task0)"
  shows "\<exists>s'. deltask E (Suc m) task0 s = Some (Inr (), s')
     \<and> task_step s (table_del (do_prefix task0) (tasks_in s)) s'"
proof -
  let ?t = "do_prefix task0"
  obtain listed deps where T: "tasks_in s = (listed, deps)" by (cases "tasks_in s")
  have d: "distinct listed" "\<forall>t \<in> set listed. plain_name s t"
    using assms(1) by (auto simp: holds_tasks_def T)
  have "\<exists>s1. (if ?t \<in> set listed
       then seq (change (delVarFlag ?t ''task'')) (\<lambda>_. setVar E (Suc m) ''__BBTASKS'' (Listing (remove1 ?t listed)) False)
       else ret ()) s = Some (Inr (), s1) \<and> task_step s (remove1 ?t listed, deps) s1"
  proof (cases "?t \<in> set listed")
    case True
    note f = forget_flag(1) [OF assms(1), of ?t]
    note h = task_stepD [OF f]
    have "\<forall>t \<in> set (remove1 ?t listed). plain_name (delVarFlag ?t ''task'' s) t" "distinct (remove1 ?t listed)"
      using d by (auto dest: notin_set_remove1 set_remove1_subset [THEN subsetD])
    from set_tasks_run [OF h(1) this(2,1), of E "Suc m"] True f h(2) T show ?thesis
      by (auto intro: task_step_trans)
  next
    case False
    then show ?thesis using assms(1) T by (simp add: task_step_def remove1_idem)
  qed
  then obtain s1 where r1: "(if ?t \<in> set listed
       then seq (change (delVarFlag ?t ''task'')) (\<lambda>_. setVar E (Suc m) ''__BBTASKS'' (Listing (remove1 ?t listed)) False)
       else ret ()) s = Some (Inr (), s1)" and t1: "task_step s (remove1 ?t listed, deps) s1" by blast
  note h1 = task_stepD [OF t1]
  have t2: "task_step s1 (remove1 ?t listed, deps (?t := [])) (delVarFlag ?t ''deps'' s1)"
    using forget_flag(2) [OF h1(1), of ?t] h1(2) by simp
  note h2 = task_stepD [OF t2]
  let ?s2 = "delVarFlag ?t ''deps'' s1"
  have "\<forall>x \<in> set (remove1 ?t listed). plain_name ?s2 x"
    using d by (auto simp: h1(4) dest: set_remove1_subset [THEN subsetD])
  then have "\<exists>s'. loop (\<lambda>x _. undepend E (Suc m) ?t x) (remove1 ?t listed) () ?s2 = Some (Inr (), s')
     \<and> task_step ?s2 (fold (\<lambda>x. apsnd (\<lambda>d. d (x := remove1 ?t (d x)))) (remove1 ?t listed) (tasks_in ?s2)) s'"
    by (intro loop_follows [where nt = "name_tables ?s2"]) (use h2(1) plain_name_tables undepend_run in blast)+
  then obtain s3 where r3: "loop (\<lambda>x _. undepend E (Suc m) ?t x) (remove1 ?t listed) () ?s2 = Some (Inr (), s3)"
    and t3: "task_step ?s2 (remove1 ?t listed, fold (\<lambda>x d. d (x := remove1 ?t (d x))) (remove1 ?t listed) (deps (?t := []))) s3"
    by (auto simp: h2(2) fold_apsnd)
  have "table_del ?t (tasks_in s) = (remove1 ?t listed,
      fold (\<lambda>x d. d (x := remove1 ?t (d x))) (remove1 ?t listed) (deps (?t := [])))"
    using d(1) by (auto simp: table_del_def T Let_def fold_remove fun_eq_iff)
  moreover have "deltask E (Suc m) task0 s = Some (Inr (), s3)"
    using get_tasks_run [OF h2(1), of E m] h2(2)
    unfolding deltask_def Let_def
    by (simp add: get_tasks_run assms(1) T r1 r3 del: loop.simps)
  ultimately show ?thesis using task_step_trans [OF t1 task_step_trans [OF t2 t3]] by simp
qed

lemma task_statements_run:
  assumes "holds_tasks s" and "\<forall>op \<in> set ops. \<forall>t \<in> set (op_names op). plain_name s t"
  shows "\<exists>s'. task_ops E (Suc m) ops s = Some (Inr (), s') \<and> task_step s (fold table_op ops (tasks_in s)) s'"
  unfolding task_ops_def
proof (rule loop_follows [where nt = "name_tables s", OF _ assms(1) refl])
    fix op s1
    assume op: "op \<in> set ops" and h: "holds_tasks s1" and n: "name_tables s1 = name_tables s"
    have p: "\<forall>t \<in> set (op_names op). plain_name s1 t"
      using assms(2) op plain_name_tables [OF n] by blast
    then show "\<exists>s'. run_task_op E (Suc m) op s1 = Some (Inr (), s') \<and> task_step s1 (table_op op (tasks_in s1)) s'"
      using addtask_run [OF h] deltask_run [OF h] by (cases op) auto
qed

text \<open>
  Property C23. Whatever tasks a recipe adds and deletes, in any order, the statements end without
  an exception, and the store then holds the table that the abstract operations give: each
  task is listed once, and depends on what the statements said.
\<close>

theorem task_statements_refine:
  assumes "holds_tasks s" and "\<forall>op \<in> set ops. \<forall>t \<in> set (op_names op). plain_name s t"
  shows "\<exists>s'. task_ops E (Suc m) ops s = Some (Inr (), s') \<and> holds_tasks s'
     \<and> tasks_in s' = fold table_op ops (tasks_in s)"
  using task_statements_run [OF assms] by (auto simp: task_step_def)

definition table_ok :: "task_table \<Rightarrow> bool" where
  "table_ok T \<longleftrightarrow> distinct (fst T) \<and> (\<forall>x. distinct (snd T x))"

lemma table_ok_before:
  "\<forall>x. distinct (deps x) \<Longrightarrow> distinct (fold (dep_before task) before deps x)"
  by (induction before arbitrary: deps) (simp_all add: dep_before_def)

lemma table_ok_op: "table_ok T \<Longrightarrow> table_ok (table_op op T)"
  by (cases op; cases T)
    (auto simp: table_ok_def table_add_def table_del_def Let_def intro!: table_ok_before)

lemma table_ok_ops: "table_ok T \<Longrightarrow> table_ok (fold table_op ops T)"
  by (induction ops arbitrary: T) (simp_all add: table_ok_op)

text \<open>
  A task that was deleted last is not listed any more, and no listed task depends
  on it, whatever the statements before it were.
\<close>

theorem deleted_task_unused:
  assumes "holds_tasks s" and "table_ok (tasks_in s)"
    and "\<forall>op \<in> set (ops @ [DelTask t]). \<forall>t \<in> set (op_names op). plain_name s t"
    and "task_ops E (Suc m) (ops @ [DelTask t]) s = Some (r, s')"
  shows "do_prefix t \<notin> set (fst (tasks_in s'))
    \<and> (\<forall>x \<in> set (fst (tasks_in s')). do_prefix t \<notin> set (snd (tasks_in s') x))"
proof -
  let ?T = "fold table_op ops (tasks_in s)"
  have T: "tasks_in s' = table_del (do_prefix t) ?T"
    using task_statements_run [OF assms(1,3), where E = E and m = m] assms(4) by (auto simp: task_step_def)
  have d: "table_ok ?T" using assms(2) by (rule table_ok_ops)
  with d show ?thesis
    by (cases ?T) (auto simp: T table_del_def Let_def table_ok_def)
qed

text \<open>\<open>deltask\<close> visits the listed tasks only: a dependency of a task that is added later stays.\<close>

lemma dependency_of_later_task_stays:
  "fold table_op [AddTask ''a'' (Some ''do_b'') None, DelTask ''a'', AddTask ''b'' None None] ([], \<lambda>x. []) =
     ([''do_b''], (\<lambda>x. []) (''do_b'' := [''do_a'']))"
  by (simp add: table_add_def table_del_def Let_def do_prefix_def clause_words_def dep_before_def
      split_ws_def py_isspace_def set_add_def set_union_def fun_eq_iff)

subsection \<open>What a recipe tells the others: \<open>add_tasks\<close>\<close>

text \<open>
  \<open>_task_deps\<close> is a dictionary: \<open>tasks\<close> lists the tasks, \<open>parents\<close> gives what each depends on in
  the recipe, and under the name of each of the flags below the value of that flag for every
  task that has it.
\<close>

definition task_flags :: "string list" where
  "task_flags = [''mcdepends'', ''depends'', ''rdepends'', ''deptask'', ''rdeptask'', ''recrdeptask'',
     ''recideptask'', ''nostamp'', ''fakeroot'', ''noexec'', ''umask'']"

definition table_or_empty :: "dval option \<Rightarrow> (string, dval) dict result" where
  "table_or_empty v =
     (case v of
        Some (Table l) \<Rightarrow> Inr l
      | Some w \<Rightarrow> if truthy w then Inl TypeError else Inr []
      | None \<Rightarrow> Inr [])"

definition default_entry :: "string \<Rightarrow> dval \<Rightarrow> (string, dval) dict \<Rightarrow> (string, dval) dict" where
  "default_entry key v td = (if key \<in> set (dict_keys td) then td else dict_set key v td)"

definition listing_at :: "string \<Rightarrow> (string, dval) dict \<Rightarrow> string list" where
  "listing_at key td = (case map_of td key of Some (Listing l) \<Rightarrow> l | _ \<Rightarrow> [])"

definition table_at :: "string \<Rightarrow> (string, dval) dict \<Rightarrow> (string, dval) dict" where
  "table_at key td = (case map_of td key of Some (Table t) \<Rightarrow> t | _ \<Rightarrow> [])"

definition put_entry :: "string \<Rightarrow> string \<Rightarrow> dval \<Rightarrow> (string, dval) dict \<Rightarrow> (string, dval) dict" where
  "put_entry key task v td = dict_set key (Table (dict_set task v (table_at key td))) td"

text \<open>\<open>d.expand\<close> of a name, which stays a string.\<close>

definition expand_name :: "python \<Rightarrow> nat \<Rightarrow> string \<Rightarrow> string data" where
  "expand_name E n name =
     seq (expand_value E n (getVarFlag E n) (Some (Text name)) []) (\<lambda>v.
     case v of Some (Text t) \<Rightarrow> ret t | _ \<Rightarrow> throw TypeError)"

definition get_task_flag :: "python \<Rightarrow> nat \<Rightarrow> string \<Rightarrow> flags \<Rightarrow> string \<Rightarrow> (string, dval) dict \<Rightarrow> (string, dval) dict data" where
  "get_task_flag E n task fl name td =
     (let td1 = default_entry name (Table []) td in
      case map_of fl name of
        None \<Rightarrow> ret td1
      | Some w \<Rightarrow>
          seq (expand_value E n (getVarFlag E n) (Some w) []) (\<lambda>v. ret (put_entry name task (empty_or v) td1)))"

definition add_parent :: "python \<Rightarrow> nat \<Rightarrow> string \<Rightarrow> string \<Rightarrow> (string, dval) dict \<Rightarrow> (string, dval) dict data" where
  "add_parent E n task dep td =
     seq (expand_name E n dep) (\<lambda>dep'.
     ret (put_entry ''parents'' task (Listing (listing_at task (table_at ''parents'' td) @ [dep'])) td))"

definition add_one_task :: "python \<Rightarrow> nat \<Rightarrow> string \<Rightarrow> (string, dval) dict \<Rightarrow> (string, dval) dict data" where
  "add_one_task E n task0 td =
     seq (expand_name E n task0) (\<lambda>task.
     seq (setVarFlag E n task ''task'' (Truth True)) (\<lambda>_.
     let td1 = dict_set ''tasks'' (Listing (set_add task (listing_at ''tasks'' td))) td in
     seq (getVarFlags E n task [] False) (\<lambda>flags.
     case flags of
       None \<Rightarrow> throw TypeError
     | Some fl \<Rightarrow>
         seq (loop (get_task_flag E n task fl) task_flags td1) (\<lambda>td2.
         let td3 = put_entry ''parents'' task (Listing []) td2 in
         case map_of fl ''deps'' of
           None \<Rightarrow> ret td3
         | Some v \<Rightarrow> seq (of_result (name_list (Some v))) (\<lambda>deps. loop (add_parent E n task) deps td3)))))"

definition build_add_tasks :: "python \<Rightarrow> nat \<Rightarrow> string list \<Rightarrow> unit data" where
  "build_add_tasks E n tasklist =
     seq (getVar E n ''_task_deps'' False) (\<lambda>v.
     seq (of_result (table_or_empty v)) (\<lambda>td.
     seq (loop (add_one_task E n) tasklist (default_entry ''parents'' (Table []) (default_entry ''tasks'' (Listing []) td))) (\<lambda>td'.
     setVar E n ''_task_deps'' (Table td') False)))"

text \<open>\<open>preceedtask\<close>: a task that is not listed has nothing before it.\<close>

definition preceedtask :: "python \<Rightarrow> nat \<Rightarrow> string \<Rightarrow> bool \<Rightarrow> string list data" where
  "preceedtask E n task with_recrdeptasks =
     seq (getVar E n ''__BBTASKS'' False) (\<lambda>v.
     seq (of_result (name_in task v)) (\<lambda>listed.
     if \<not> listed then ret []
     else
       seq (get_flag (getVarFlag E n) task ''deps'' True) (\<lambda>deps.
       seq (of_result (if is_true deps then name_list deps else Inr [])) (\<lambda>preceed.
       if \<not> with_recrdeptasks then ret (remdups preceed)
       else seq (get_flag (getVarFlag E n) task ''recrdeptask'' True) (\<lambda>recrdeptask.
         case recrdeptask of
           None \<Rightarrow> ret (remdups preceed)
         | Some (Text t) \<Rightarrow> ret (set_union (remdups preceed) (split_ws t))
         | Some w \<Rightarrow> if truthy w then throw AttributeError else ret (remdups preceed))))))"

text \<open>A name without a reference is its own expansion.\<close>

lemma expand_name_plain:
  assumes "\<not> str_in ''${'' name"
  shows "expand_name E (Suc m) name s = Some (Inr name, s)"
  using assms by (simp add: expand_name_def expand_value_def expandWithRefs_def new_vparse_def)

lemma getVarFlags_plain:
  "getVarFlags E n var [] False s =
     Some (Inr (case fst (findVar s var) of None \<Rightarrow> None | Some fl \<Rightarrow>
       let fl' = filter (\<lambda>(i, v). \<not> startswith i ''_'' \<and> \<not> startswith i '':'') fl in
       if fl' = [] then None else Some fl'), s)"
proof -
  have "loop (\<lambda>(i, v) acc.
      if (startswith i ''_'' \<or> startswith i '':'') \<and> \<not> False then ret acc
      else if i \<in> set [] then
        seq (expand_value E n (getVarFlag E n) (Some v) (var @ ''['' @ i @ '']'')) (\<lambda>w. ret (acc @ [(i, empty_or w)]))
      else ret (acc @ [(i, v)])) fl acc =
    ret (acc @ filter (\<lambda>(i, v). \<not> startswith i ''_'' \<and> \<not> startswith i '':'') fl)" for fl acc
    by (induction fl arbitrary: acc) (auto simp del: comp_simps)
  then show ?thesis by (simp add: getVarFlags_def Let_def split: option.split)
qed

lemma map_of_visible:
  "\<not> startswith i ''_'' \<Longrightarrow> \<not> startswith i '':'' \<Longrightarrow>
   map_of (filter (\<lambda>(i, v). \<not> startswith i ''_'' \<and> \<not> startswith i '':'') fl) i = map_of fl i"
  by (induction fl) auto

subsection \<open>What \<open>add_tasks\<close> records\<close>

text \<open>The store while tasks are added: the flags of \<open>s\<close>, the flag \<open>task\<close> apart.\<close>

definition same_deps :: "data_store \<Rightarrow> data_store \<Rightarrow> bool" where
  "same_deps s s' \<longleftrightarrow> name_tables s' = name_tables s
     \<and> (\<forall>v f. f \<noteq> ''task'' \<longrightarrow> flag_of s' v f = flag_of s v f)"

definition recorded :: "(string \<Rightarrow> string list) \<Rightarrow> string list \<Rightarrow> (string, dval) dict \<Rightarrow> bool" where
  "recorded deps ts td \<longleftrightarrow> listing_at ''tasks'' td = ts \<and> dict_keys (table_at ''parents'' td) = ts
     \<and> (\<forall>t \<in> set ts. map_of (table_at ''parents'' td) t = Some (Listing (deps t)))"

lemma flag_of_view: "data_view s' = data_view s \<Longrightarrow> flag_of s' v f = flag_of s v f"
  by (simp add: data_view_def flag_of_def findVar_def)

lemma name_tables_view: "data_view s' = data_view s \<Longrightarrow> name_tables s' = name_tables s"
  by (simp add: data_view_def name_tables_def)

lemma same_deps_view: "data_view s2 = data_view s1 \<Longrightarrow> same_deps s s1 \<Longrightarrow> same_deps s s2"
  using name_tables_view [of s2 s1] flag_of_view [of s2 s1] by (simp add: same_deps_def)

lemma expand_value_frames: "frames data_view (expand_value E k (getVarFlag E n) v name)"
  unfolding expand_value_def by (auto simp del: comp_simps intro!: frames_intro)

lemma table_at_put [simp]:
  "table_at k (put_entry key t v td) = (if k = key then dict_set t v (table_at key td) else table_at k td)"
  by (simp add: table_at_def put_entry_def)

lemma listing_at_put [simp]: "k \<noteq> key \<Longrightarrow> listing_at k (put_entry key t v td) = listing_at k td"
  by (simp add: listing_at_def put_entry_def)

lemma at_default [simp]:
  "k \<noteq> key \<Longrightarrow> table_at k (default_entry key v td) = table_at k td"
  "k \<noteq> key \<Longrightarrow> listing_at k (default_entry key v td) = listing_at k td"
  by (simp_all add: table_at_def listing_at_def default_entry_def)

lemma at_set [simp]:
  "listing_at k (dict_set key (Listing l) td) = (if k = key then l else listing_at k td)"
  "k \<noteq> key \<Longrightarrow> table_at k (dict_set key v td) = table_at k td"
  by (simp_all add: table_at_def listing_at_def)

text \<open>Reading the other flags of a task leaves its name and its parents alone.\<close>

definition same_names :: "(string, dval) dict \<Rightarrow> (string, dval) dict \<Rightarrow> bool" where
  "same_names td td' \<longleftrightarrow> listing_at ''tasks'' td' = listing_at ''tasks'' td
     \<and> table_at ''parents'' td' = table_at ''parents'' td"

lemma get_task_flags_gives:
  "gives (same_deps s) (loop (get_task_flag E n task fl) task_flags td) (\<lambda>td' s1. same_deps s s1 \<and> same_names td td')"
proof -
  let ?I = "\<lambda>ys td' s1. same_deps s s1 \<and> same_names td td'"
  have "gives (?I [] td) (loop (get_task_flag E n task fl) task_flags td) (?I task_flags)"
  proof (rule gives_loop)
    fix ys name zs td1
    assume "task_flags = ys @ name # zs"
    then have "name \<in> set task_flags" by (metis in_set_conv_decomp)
    then have n: "name \<noteq> ''tasks''" "name \<noteq> ''parents''" by (auto simp: task_flags_def)
    have e: "gives (?I ys td1) (expand_value E n (getVarFlag E n) (Some w) []) (\<lambda>x. ?I ys td1)" for w
      by (rule gives_frames [OF expand_value_frames]) (auto intro: same_deps_view)
    show "gives (?I ys td1) (get_task_flag E n task fl name td1) (?I (ys @ [name]))"
    proof (cases "map_of fl name")
      case None
      then show ?thesis
        using n by (auto simp: get_task_flag_def same_names_def intro!: gives_intro simp del: comp_simps)
    next
      case (Some w)
      then show ?thesis
        using n by (simp add: get_task_flag_def Let_def del: comp_simps)
          (rule gives_seq [OF e], rule gives_intro, simp add: same_names_def)
    qed
  qed
  then show ?thesis by (simp add: same_names_def)
qed
lemma add_parents_gives:
  assumes "\<forall>d \<in> set deps. \<not> str_in ''${'' d"
  shows "gives (\<lambda>s1. same_deps s s1 \<and> P td) (loop (add_parent E (Suc m) t) deps (put_entry ''parents'' t (Listing []) td))
     (\<lambda>td' s1. same_deps s s1 \<and> listing_at ''tasks'' td' = listing_at ''tasks'' td
        \<and> table_at ''parents'' td' = dict_set t (Listing deps) (table_at ''parents'' td))"
proof -
  let ?I = "\<lambda>ys td' s1. same_deps s s1 \<and> listing_at ''tasks'' td' = listing_at ''tasks'' td
    \<and> table_at ''parents'' td' = dict_set t (Listing ys) (table_at ''parents'' td)"
  have "gives (?I [] (put_entry ''parents'' t (Listing []) td))
      (loop (add_parent E (Suc m) t) deps (put_entry ''parents'' t (Listing []) td)) (?I deps)"
  proof (rule gives_loop)
    fix ys d zs td1
    assume "deps = ys @ d # zs"
    then have "expand_name E (Suc m) d s1 = Some (Inr d, s1)" for s1
      using assms by (intro expand_name_plain) simp
    then show "gives (?I ys td1) (add_parent E (Suc m) t d td1) (?I (ys @ [d]))"
      by (intro gives_I) (auto simp: add_parent_def listing_at_def [of t] update_Some_unfold)
  qed
  then show ?thesis by (rule gives_pre) simp
qed

lemma add_one_task_gives:
  assumes "holds_tasks s" and "plain_name s t" and "t \<notin> set ys" and "\<not> str_in ''${'' t"
    and "\<forall>d \<in> set (snd (tasks_in s) t). \<not> str_in ''${'' d"
  shows "gives (\<lambda>s1. same_deps s s1 \<and> recorded (snd (tasks_in s)) ys td) (add_one_task E (Suc m) t td)
     (\<lambda>td' s1. same_deps s s1 \<and> recorded (snd (tasks_in s)) (ys @ [t]) td')"
proof (rule gives_I, elim conjE)
  fix s1 td' s2
  assume s1: "same_deps s s1" and rec: "recorded (snd (tasks_in s)) ys td"
    and run: "add_one_task E (Suc m) t td s1 = Some (Inr td', s2)"
  define s3 where "s3 = flag_written t ''task'' (Truth True) s1"
  have "plain_name s1 t" using assms(2) s1 by (simp add: same_deps_def plain_name_tables [of s1 s])
  then have w: "setVarFlag E (Suc m) t ''task'' (Truth True) s1 = Some (Inr (), s3)"
    unfolding s3_def by (rule set_plain_flag) simp
  have s3: "same_deps s s3" using s1 by (simp add: same_deps_def s3_def flag_of_written)
  let ?td1 = "dict_set ''tasks'' (Listing (set_add t (listing_at ''tasks'' td))) td"
  have td1: "listing_at ''tasks'' ?td1 = ys @ [t]" "table_at ''parents'' ?td1 = table_at ''parents'' td"
    using rec assms(3) by (simp_all add: recorded_def set_add_def)
  obtain fl where f: "fst (findVar s3 t) = Some fl" and "map_of fl ''task'' = Some (Truth True)"
    using flag_of_written [of t "''task''" "Truth True" s1 t "''task''"]
    by (auto simp: s3_def flag_of_def split: option.splits)
  let ?fl = "filter (\<lambda>(i, v). \<not> startswith i ''_'' \<and> \<not> startswith i '':'') fl"
  have vis: "map_of ?fl ''task'' = map_of fl ''task''" "map_of ?fl ''deps'' = map_of fl ''deps''"
    by (rule map_of_visible; simp)+
  then have ne: "?fl \<noteq> []" using \<open>map_of fl ''task'' = Some (Truth True)\<close> by auto
  have deps: "map_of ?fl ''deps'' = flag_of s t ''deps''"
  proof -
    have "flag_of s3 t ''deps'' = flag_of s t ''deps''" using s3 by (simp add: same_deps_def)
    then show ?thesis by (simp add: vis(2) flag_of_def [of s3] f)
  qed
  from run w ne obtain td2 s4 where
    l: "loop (get_task_flag E (Suc m) t ?fl) task_flags ?td1 s3 = Some (Inr td2, s4)"
    and c: "(case flag_of s t ''deps'' of
         None \<Rightarrow> ret (put_entry ''parents'' t (Listing []) td2)
       | Some v \<Rightarrow> seq (of_result (name_list (Some v))) (\<lambda>deps. loop (add_parent E (Suc m) t) deps
            (put_entry ''parents'' t (Listing []) td2))) s4 = Some (Inr td', s2)"
    by (auto simp: add_one_task_def expand_name_plain [OF assms(4)] getVarFlags_plain f Let_def deps seq_Inr_iff
        simp del: loop.simps split: option.splits)
  from gives_D [OF get_task_flags_gives s3 l] have s4: "same_deps s s4" and td2: "same_names ?td1 td2" by auto
  have "same_deps s s2 \<and> listing_at ''tasks'' td' = listing_at ''tasks'' td2
        \<and> table_at ''parents'' td' = dict_set t (Listing (snd (tasks_in s) t)) (table_at ''parents'' td2)"
  proof (cases "flag_of s t ''deps''")
    case None
    then show ?thesis using c s4 by (auto simp: tasks_in_def task_list_def)
  next
    case (Some v)
    then obtain ds where d: "name_list (Some v) = Inr ds"
        "loop (add_parent E (Suc m) t) ds (put_entry ''parents'' t (Listing []) td2) s4 = Some (Inr td', s2)"
      using c by (auto simp: seq_Inr_iff simp del: loop.simps)
    have "list_or_empty (Some v) = Inr (snd (tasks_in s) t)"
      using assms(1) Some by (metis holds_tasks_def)
    with d(1) have "ds = snd (tasks_in s) t"
      by (cases v) (auto simp: list_or_empty_def name_list_def split: if_splits)
    with gives_D [OF add_parents_gives, of ds s s4 "\<lambda>_. True", OF _ _ d(2)] assms(5) s4 show ?thesis by auto
  qed
  moreover have "dict_keys (dict_set t v (table_at ''parents'' td)) = ys @ [t]" for v
    using rec assms(3) by (simp add: recorded_def dict_set_new_key)
  ultimately show "same_deps s s2 \<and> recorded (snd (tasks_in s)) (ys @ [t]) td'"
    using td1 td2 rec by (auto simp: recorded_def same_names_def)
qed

definition no_refs :: "task_table \<Rightarrow> bool" where
  "no_refs T \<longleftrightarrow> (\<forall>t \<in> set (fst T). \<not> str_in ''${'' t \<and> (\<forall>d \<in> set (snd T t). \<not> str_in ''${'' d))"

lemma deps_name: "setvar_match ''_task_deps'' = None" "\<not> old_syntax ''_task_deps''"
  by code_simp+

text \<open>
  Property C38. When \<open>add_tasks\<close> returns for the tasks of a recipe, \<open>_task_deps\<close> lists exactly
  these tasks, in their order, and gives each of them the tasks it depends on in the recipe.
\<close>

theorem task_deps_recorded:
  assumes "holds_tasks s" and "no_refs (tasks_in s)"
    and "plain_var s ''_task_deps''" and "plain_value s ''_task_deps'' = None"
    and "build_add_tasks E (Suc m) (fst (tasks_in s)) s = Some (Inr (), s')"
  shows "\<exists>td. plain_value s' ''_task_deps'' = Some (Table td)
    \<and> recorded (snd (tasks_in s)) (fst (tasks_in s)) td"
proof -
  let ?td0 = "default_entry ''parents'' (Table []) (default_entry ''tasks'' (Listing []) [])"
  let ?I = "\<lambda>ys td s1. same_deps s s1 \<and> recorded (snd (tasks_in s)) ys td"
  have start: "?I [] ?td0 s"
    by (simp add: same_deps_def recorded_def default_entry_def listing_at_def table_at_def)
  obtain td s1 where
    l: "loop (add_one_task E (Suc m)) (fst (tasks_in s)) ?td0 s = Some (Inr td, s1)"
    and w: "setVar E (Suc m) ''_task_deps'' (Table td) False s1 = Some (Inr (), s')"
    using assms(5) getVar_plain_var [OF assms(3), of E m] assms(4)
    by (auto simp: build_add_tasks_def table_or_empty_def seq_Inr_iff simp del: loop.simps)
  have "gives (?I [] ?td0) (loop (add_one_task E (Suc m)) (fst (tasks_in s)) ?td0) (?I (fst (tasks_in s)))"
  proof (rule gives_loop)
    fix ys t zs td
    assume x: "fst (tasks_in s) = ys @ t # zs"
    have "distinct (fst (tasks_in s))" "\<forall>t \<in> set (fst (tasks_in s)). plain_name s t"
      using assms(1) by (auto simp: holds_tasks_def)
    with x show "gives (?I ys td) (add_one_task E (Suc m) t td) (?I (ys @ [t]))"
      using assms(2) by (intro add_one_task_gives assms(1)) (auto simp: no_refs_def)
  qed
  from gives_D [OF this start l] have s1: "same_deps s s1"
    and rec: "recorded (snd (tasks_in s)) (fst (tasks_in s)) td" by auto
  have "plain_name s1 ''_task_deps''"
    using assms(3) s1 by (simp add: same_deps_def plain_var_def plain_name_tables [of s1 s])
  from set_plain_var [OF this deps_name(2,1)] w
  have "s' = content_written ''_task_deps'' (Table td) False s1" by simp
  with rec show ?thesis by auto
qed

subsection \<open>Recipes that fit\<close>

definition recipe_store :: data_store where
  "recipe_store = new_store \<lparr> local_vars := [
     (''__BBTASKS'', [(''_content'', Listing [''do_a'', ''do_b''])]),
     (''do_a'', [(''task'', Truth True), (''deps'', Listing []), (''depends'', Text ''${P}:do_c'')]),
     (''do_b'', [(''task'', Truth True), (''deps'', Listing [''do_a''])])] \<rparr>"

definition recipe_table :: task_table where
  "recipe_table = ([''do_a'', ''do_b''], (\<lambda>x. []) (''do_b'' := [''do_a'']))"

lemma recipe_store_tasks: "tasks_in recipe_store = recipe_table"
  by (auto simp: tasks_in_def recipe_table_def recipe_store_def new_store_def task_list_def plain_value_def
      flag_of_def findVar_def fun_eq_iff)

lemma recipe_plain: "list_all (plain_name recipe_store) [''__BBTASKS'', ''_task_deps'', ''do_a'', ''do_b'', ''do_d'']"
  by code_simp

lemma recipe_store_holds: "holds_tasks recipe_store"
proof -
  have "plain_var recipe_store ''__BBTASKS''"
    using recipe_plain
    by (simp add: plain_var_def) (simp add: flag_of_def findVar_def recipe_store_def new_store_def setvar_keywords_def)
  moreover have "list_or_empty (plain_value recipe_store ''__BBTASKS'') = Inr (fst recipe_table)"
    by code_simp
  moreover have "list_or_empty (flag_of recipe_store t ''deps'') = Inr (snd recipe_table t)" for t
    by (simp add: flag_of_def findVar_def recipe_store_def new_store_def recipe_table_def)
  moreover have "distinct (fst recipe_table)" "\<forall>t \<in> set (fst recipe_table). plain_name recipe_store t"
    using recipe_plain by (simp_all add: recipe_table_def)
  ultimately show ?thesis by (simp add: holds_tasks_def recipe_store_tasks)
qed

definition recipe_ops :: "task_op list" where
  "recipe_ops = [AddTask ''d'' (Some ''do_b'') (Some ''do_a''), DelTask ''do_a'']"

lemma recipe_ops_plain: "\<forall>op \<in> set recipe_ops. \<forall>t \<in> set (op_names op). plain_name recipe_store t"
proof -
  have "list_all (\<lambda>op. list_all (plain_name recipe_store) (op_names op)) recipe_ops" by code_simp
  then show ?thesis by (simp add: list_all_iff)
qed

theorem task_statements_refine_witness:
  "\<exists>s'. task_ops no_python 1 recipe_ops recipe_store = Some (Inr (), s') \<and> holds_tasks s'
     \<and> tasks_in s' = fold table_op recipe_ops recipe_table"
  using task_statements_refine [OF recipe_store_holds recipe_ops_plain, of no_python 0]
  by (simp add: recipe_store_tasks)

theorem deleted_task_unused_witness:
  "\<exists>s'. task_ops no_python 1 recipe_ops recipe_store = Some (Inr (), s')
    \<and> ''do_a'' \<notin> set (fst (tasks_in s')) \<and> (\<forall>x \<in> set (fst (tasks_in s')). ''do_a'' \<notin> set (snd (tasks_in s') x))"
proof -
  obtain s' where r: "task_ops no_python (Suc 0) recipe_ops recipe_store = Some (Inr (), s')"
    using task_statements_run [OF recipe_store_holds recipe_ops_plain, of no_python 0] by auto
  have t: "table_ok (tasks_in recipe_store)"
    by (simp add: table_ok_def recipe_store_tasks recipe_table_def)
  have ops: "recipe_ops = [AddTask ''d'' (Some ''do_b'') (Some ''do_a'')] @ [DelTask ''do_a'']"
    by (simp add: recipe_ops_def)
  have "do_prefix ''do_a'' = ''do_a''" by code_simp
  with deleted_task_unused [OF recipe_store_holds t recipe_ops_plain [unfolded ops] r [unfolded ops]] r
  show ?thesis by auto
qed

theorem task_deps_recorded_witness:
  "\<exists>s' td. build_add_tasks no_python 6 [''do_a'', ''do_b''] recipe_store = Some (Inr (), s')
    \<and> plain_value s' ''_task_deps'' = Some (Table td)
    \<and> recorded (snd recipe_table) [''do_a'', ''do_b''] td"
proof -
  have "gives_value (build_add_tasks no_python 6 [''do_a'', ''do_b''] recipe_store)" by code_simp
  then obtain s' where r: "build_add_tasks no_python 6 [''do_a'', ''do_b''] recipe_store = Some (Inr (), s')"
    by (auto dest: gives_value_D)
  have n: "no_refs (tasks_in recipe_store)"
    by (simp add: no_refs_def recipe_store_tasks recipe_table_def)
  have v: "plain_var recipe_store ''_task_deps''"
    using recipe_plain
    by (simp add: plain_var_def) (simp add: flag_of_def findVar_def recipe_store_def new_store_def)
  have "plain_value recipe_store ''_task_deps'' = None" by code_simp
  from task_deps_recorded [OF recipe_store_holds n v this, of no_python 5 s'] r
  show ?thesis by (auto simp: recipe_store_tasks recipe_table_def)
qed

end
