(* ===== verification/Statements.thy ===== *)
theory Statements
  imports RecipeTasks
begin

text \<open>
  The statements of recipes and configuration files (\<open>bb/parse/ast.py\<close>) and what evaluating one
  does to the variable store. The statements that read other files, \<open>include\<close>, \<open>require\<close> and
  \<open>inherit\<close>, are evaluated in the theory of recipe files.

  What \<open>str()\<close> gives for a value that is not a string is the parameter \<open>sh\<close>, and whether the code
  of a Python function can be loaded the parameter \<open>load\<close>: the functions it defines are not
  part of the store. The warnings are left out.
\<close>

subsection \<open>Statements\<close>

datatype node =
    IncludeNode string bool
  | ExportNode string
  | UnsetNode string
  | UnsetFlagNode string string
  | DataNode "(string, string) dict"
  | MethodNode string "string list" bool bool
  | PythonMethodNode string string "string list"
  | ExportFuncsNode "string list" string
  | AddTaskNode string "string option" "string option"
  | DelTaskNode string
  | BBHandlerNode "string list"
  | InheritNode string

record statement =
  filename :: string
  lineno :: int
  node :: node

type_synonym loader = "string \<Rightarrow> string \<Rightarrow> string \<Rightarrow> int \<Rightarrow> unit result"

text \<open>\<open>str(n)\<close> of a number.\<close>

fun digits_of :: "nat \<Rightarrow> string" where
  "digits_of n = (if n < 10 then [char_of (48 + n)] else digits_of (n div 10) @ [char_of (48 + n mod 10)])"

declare digits_of.simps [simp del]

definition str_int :: "int \<Rightarrow> string" where
  "str_int i = (if i < 0 then CHR ''-'' # digits_of (nat (- i)) else digits_of (nat i))"

subsection \<open>Assignments\<close>

text \<open>A group of the line that took part in the match.\<close>

definition has_group :: "string \<Rightarrow> (string, string) dict \<Rightarrow> bool" where
  "has_group name g \<longleftrightarrow> map_of g name \<noteq> None"

definition group_text :: "string \<Rightarrow> (string, string) dict \<Rightarrow> string" where
  "group_text name g = dict_get_or [] g name"

text \<open>\<open>getFunc\<close>, and its value in a format string with \<open>or ""\<close>.\<close>

definition getFunc :: "python \<Rightarrow> nat \<Rightarrow> (string, string) dict \<Rightarrow> string \<Rightarrow> dval option data" where
  "getFunc E n g key =
     seq (case map_of g ''flag'' of
            Some flag \<Rightarrow> getVarFlag E n key flag False True False False
          | None \<Rightarrow> getVarFlag E n key ''_content'' False True True False) (\<lambda>(v, p). ret v)"

definition shown :: "(dval \<Rightarrow> string) \<Rightarrow> dval option \<Rightarrow> string" where
  "shown sh v = (case v of Some (Text t) \<Rightarrow> t | Some w \<Rightarrow> if truthy w then sh w else [] | None \<Rightarrow> [])"

text \<open>\<open>e = data.createCopy(); e.expand(...)\<close>: what reading the copy notes is lost with it.\<close>

definition expand_in_copy :: "python \<Rightarrow> nat \<Rightarrow> string \<Rightarrow> string \<Rightarrow> dval data" where
  "expand_in_copy E n value varname s =
     map_option (\<lambda>(r, _). (map_sum id empty_or r, s))
       (expand_value E n (getVarFlag E n) (Some (Text value)) varname (createCopy s))"

definition assigned_value :: "python \<Rightarrow> nat \<Rightarrow> (dval \<Rightarrow> string) \<Rightarrow> (string, string) dict \<Rightarrow> dval data" where
  "assigned_value E n sh g =
     (let key = group_text ''var'' g; value = group_text ''value'' g in
      if has_group ''ques'' g then
        seq (getFunc E n g key) (\<lambda>v. ret (case v of None \<Rightarrow> Text value | Some w \<Rightarrow> w))
      else if has_group ''colon'' g then expand_in_copy E n value (key @ ''[:=]'')
      else if has_group ''append'' g then
        seq (getFunc E n g key) (\<lambda>v. ret (Text (shown sh v @ '' '' @ value)))
      else if has_group ''prepend'' g then
        seq (getFunc E n g key) (\<lambda>v. ret (Text (value @ '' '' @ shown sh v)))
      else if has_group ''postdot'' g then
        seq (getFunc E n g key) (\<lambda>v. ret (Text (shown sh v @ value)))
      else if has_group ''predot'' g then
        seq (getFunc E n g key) (\<lambda>v. ret (Text (value @ shown sh v)))
      else ret (Text value))"

definition assigned_flag :: "(string, string) dict \<Rightarrow> string option" where
  "assigned_flag g =
     (case map_of g ''flag'' of
        Some flag \<Rightarrow> Some flag
      | None \<Rightarrow> if has_group ''lazyques'' g then Some ''_defaultval'' else None)"

definition eval_data :: "python \<Rightarrow> nat \<Rightarrow> (dval \<Rightarrow> string) \<Rightarrow> (string, string) dict \<Rightarrow> unit data" where
  "eval_data E n sh g =
     (let key = group_text ''var'' g in
      seq (only_if (has_group ''exp'' g) (setVarFlag E n key ''export'' (Truth True))) (\<lambda>_.
      seq (assigned_value E n sh g) (\<lambda>val.
      case assigned_flag g of
        Some flag \<Rightarrow> setVarFlag E n key flag val
      | None \<Rightarrow> setVar E n key val True)))"

subsection \<open>Functions\<close>

definition append_name :: "python \<Rightarrow> nat \<Rightarrow> string \<Rightarrow> string list \<Rightarrow> unit data" where
  "append_name E n var names =
     seq (getVar E n var False) (\<lambda>v.
     seq (of_result (list_or_empty v)) (\<lambda>l. setVar E n var (Listing (l @ names)) False))"

definition anonymous_name :: "string \<Rightarrow> int \<Rightarrow> string" where
  "anonymous_name fn line =
     ''__anon_'' @ str_int line @ ''_'' @ map (\<lambda>c. if c \<in> set ''/.+-@%&~'' then CHR ''_'' else c) fn"

definition eval_method :: "python \<Rightarrow> nat \<Rightarrow> loader \<Rightarrow> string \<Rightarrow> int \<Rightarrow> string \<Rightarrow> string list \<Rightarrow> bool \<Rightarrow> bool \<Rightarrow> unit data" where
  "eval_method E n load fn line func_name body py fakeroot =
     (let anon = (func_name = ''__anonymous'');
          funcname = (if anon then anonymous_name fn line else func_name);
          text = (if anon then ''def '' @ funcname @ ''(d):'' @ [newline] @ join [newline] body
                  else join [newline] body);
          len = int (length body) in
      seq (only_if anon
             (seq (of_result (load funcname text fn (line - len - 1))) (\<lambda>_.
              append_name E n ''__BBANONFUNCS'' [funcname]))) (\<lambda>_.
      seq (getVar E n funcname False) (\<lambda>old.
      seq (only_if (is_true old) (change (\<lambda>s. delVarFlag funcname ''fakeroot'' (delVarFlag funcname ''python'' s)))) (\<lambda>_.
      seq (only_if (py \<or> anon) (setVarFlag E n funcname ''python'' (Text ''1''))) (\<lambda>_.
      seq (only_if fakeroot (setVarFlag E n funcname ''fakeroot'' (Text ''1''))) (\<lambda>_.
      seq (setVarFlag E n funcname ''func'' (Truth True)) (\<lambda>_.
      seq (setVar E n funcname (Text text) True) (\<lambda>_.
      seq (setVarFlag E n funcname ''filename'' (Text fn)) (\<lambda>_.
      setVarFlag E n funcname ''lineno'' (Text (str_int (line - len))))))))))))"

definition eval_python_method :: "python \<Rightarrow> nat \<Rightarrow> loader \<Rightarrow> string \<Rightarrow> int \<Rightarrow> string \<Rightarrow> string \<Rightarrow> string list \<Rightarrow> unit data" where
  "eval_python_method E n load fn line function modulename body =
     (let text = join [newline] body; at = line - int (length body) - 1 in
      seq (of_result (load modulename text fn at)) (\<lambda>_.
      seq (setVarFlag E n function ''func'' (Truth True)) (\<lambda>_.
      seq (setVarFlag E n function ''python'' (Truth True)) (\<lambda>_.
      seq (setVar E n function (Text text) True) (\<lambda>_.
      seq (setVarFlag E n function ''filename'' (Text fn)) (\<lambda>_.
      setVarFlag E n function ''lineno'' (Text (str_int at))))))))"

text \<open>
  \<open>EXPORT_FUNCTIONS\<close>: the class's function is called by its short name, unless a function of
  that name was defined outside an \<open>EXPORT_FUNCTIONS\<close>. A flag that is set to \<open>None\<close> reads like
  one that is not there; it is taken away here.
\<close>

definition copy_flag :: "python \<Rightarrow> nat \<Rightarrow> string \<Rightarrow> string \<Rightarrow> string \<Rightarrow> unit data" where
  "copy_flag E n from_var to_var flag =
     seq (get_flag (getVarFlag E n) from_var flag False) (\<lambda>v.
     case v of
       None \<Rightarrow> ret ()
     | Some w \<Rightarrow> only_if (truthy w) (setVarFlag E n to_var flag w))"

definition export_func :: "python \<Rightarrow> nat \<Rightarrow> string \<Rightarrow> string \<Rightarrow> unit data" where
  "export_func E n classname func =
     (let calledfunc = classname @ ''_'' @ func in
      seq (getVar E n func False) (\<lambda>old.
      seq (if is_true old then get_flag (getVarFlag E n) func ''export_func'' False else ret None) (\<lambda>exported.
      if is_true old \<and> \<not> is_true exported then ret ()
      else
        seq (only_if (is_true old) (change (\<lambda>s. delVarFlag func ''func'' (delVarFlag func ''python'' s)))) (\<lambda>_.
        seq (loop (\<lambda>flag _. copy_flag E n calledfunc func flag) [''func'', ''python''] ()) (\<lambda>_.
        seq (loop (\<lambda>flag _. copy_flag E n func calledfunc flag) [''dirs'', ''cleandirs'', ''fakeroot''] ()) (\<lambda>_.
        seq (setVarFlag E n func ''filename'' (Text ''autogenerated'')) (\<lambda>_.
        seq (setVarFlag E n func ''lineno'' (Truth True)) (\<lambda>_.
        seq (get_flag (getVarFlag E n) calledfunc ''python'' False) (\<lambda>py.
        seq (if is_true py then
               setVar E n func (Text (''    bb.build.exec_func('' @ [CHR 0x27] @ calledfunc @ [CHR 0x27] @ '', d)'' @ [newline])) True
             else if CHR ''-'' \<in> set classname then throw Fatal
             else setVar E n func (Text (''    '' @ calledfunc @ [newline])) True) (\<lambda>_.
        setVarFlag E n func ''export_func'' (Text ''1'')))))))))))"

definition eval_handlers :: "python \<Rightarrow> nat \<Rightarrow> string list \<Rightarrow> unit data" where
  "eval_handlers E n hs =
     seq (getVar E n ''__BBHANDLERS'' False) (\<lambda>v.
     seq (of_result (list_or_empty v)) (\<lambda>l.
     seq (loop (\<lambda>h _. setVarFlag E n h ''handler'' (Truth True)) hs ()) (\<lambda>_.
     setVar E n ''__BBHANDLERS'' (Listing (l @ hs)) False)))"

definition eval_deltask :: "python \<Rightarrow> nat \<Rightarrow> string \<Rightarrow> unit data" where
  "eval_deltask E n tasklist =
     seq (expand_name E n tasklist) (\<lambda>t. loop (\<lambda>task _. deltask E n task) (split_ws t) ())"

text \<open>The statements that read no other file.\<close>

definition eval_plain :: "python \<Rightarrow> nat \<Rightarrow> (dval \<Rightarrow> string) \<Rightarrow> loader \<Rightarrow> statement \<Rightarrow> unit data" where
  "eval_plain E n sh load st =
     (case node st of
        ExportNode var \<Rightarrow> setVarFlag E n var ''export'' (Truth True)
      | UnsetNode var \<Rightarrow> change (delVar var)
      | UnsetFlagNode var flag \<Rightarrow> change (delVarFlag var flag)
      | DataNode g \<Rightarrow> eval_data E n sh g
      | MethodNode func body py fakeroot \<Rightarrow> eval_method E n load (filename st) (lineno st) func body py fakeroot
      | PythonMethodNode func modulename body \<Rightarrow> eval_python_method E n load (filename st) (lineno st) func modulename body
      | ExportFuncsNode fns classname \<Rightarrow> loop (\<lambda>func _. export_func E n classname func) fns ()
      | AddTaskNode func before after \<Rightarrow> addtask E n func before after
      | DelTaskNode tasklist \<Rightarrow> eval_deltask E n tasklist
      | BBHandlerNode hs \<Rightarrow> eval_handlers E n hs
      | IncludeNode what force \<Rightarrow> ret ()
      | InheritNode classes \<Rightarrow> ret ())"

subsection \<open>What assignments mean\<close>

datatype assign_op = Assign | Weak | Default | Immediate | Append | Prepend | PostDot | PreDot

text \<open>The groups of a line \<open>var op "value"\<close>.\<close>

fun op_groups :: "assign_op \<Rightarrow> (string, string) dict" where
  "op_groups Assign = []"
| "op_groups Weak = [(''ques'', ''?='')]"
| "op_groups Default = [(''lazyques'', ''??='')]"
| "op_groups Immediate = [(''colon'', '':='')]"
| "op_groups Append = [(''append'', ''+='')]"
| "op_groups Prepend = [(''prepend'', ''=+'')]"
| "op_groups PostDot = [(''postdot'', ''.='')]"
| "op_groups PreDot = [(''predot'', ''=.'')]"

type_synonym assignment = "string \<times> assign_op \<times> string"

definition assignment_groups :: "assignment \<Rightarrow> (string, string) dict" where
  "assignment_groups = (\<lambda>(var, op, value).
     (''var'', var) # op_groups op @ [(''apo'', [CHR 0x22]), (''value'', value)])"

definition eval_assignments :: "python \<Rightarrow> nat \<Rightarrow> (dval \<Rightarrow> string) \<Rightarrow> assignment list \<Rightarrow> unit data" where
  "eval_assignments E n sh as = loop (\<lambda>a _. eval_data E n sh (assignment_groups a)) as ()"

text \<open>
  A variable has a value or not, and a default or not. An assignment changes one of the two.
\<close>

type_synonym var_values = "string \<Rightarrow> dval option \<times> dval option"

fun assigned :: "(dval \<Rightarrow> string) \<Rightarrow> assign_op \<Rightarrow> string \<Rightarrow> dval option \<times> dval option \<Rightarrow> dval option \<times> dval option" where
  "assigned sh Assign x (v, d) = (Some (Text x), d)"
| "assigned sh Immediate x (v, d) = (Some (Text x), d)"
| "assigned sh Weak x (v, d) = (case v of None \<Rightarrow> (Some (Text x), d) | Some w \<Rightarrow> (Some w, d))"
| "assigned sh Default x (v, d) = (v, Some (Text x))"
| "assigned sh Append x (v, d) = (Some (Text (shown sh v @ '' '' @ x)), d)"
| "assigned sh Prepend x (v, d) = (Some (Text (x @ '' '' @ shown sh v)), d)"
| "assigned sh PostDot x (v, d) = (Some (Text (shown sh v @ x)), d)"
| "assigned sh PreDot x (v, d) = (Some (Text (x @ shown sh v)), d)"

definition assign_in :: "(dval \<Rightarrow> string) \<Rightarrow> assignment \<Rightarrow> var_values \<Rightarrow> var_values" where
  "assign_in sh = (\<lambda>(var, op, x) V. V (var := assigned sh op x (V var)))"

definition values_in :: "data_store \<Rightarrow> var_values" where
  "values_in s v = (flag_of s v ''_content'', flag_of s v ''_defaultval'')"

definition value_read :: "dval option \<times> dval option \<Rightarrow> dval option" where
  "value_read = (\<lambda>(v, d). case v of Some w \<Rightarrow> Some w | None \<Rightarrow> d)"

text \<open>A name the theorem speaks of, and an assignment to one.\<close>

definition assignable :: "data_store \<Rightarrow> string \<Rightarrow> bool" where
  "assignable s v \<longleftrightarrow> plain_var s v \<and> \<not> old_syntax v \<and> setvar_match v = None"

definition simple_assignment :: "data_store \<Rightarrow> assignment \<Rightarrow> bool" where
  "simple_assignment s = (\<lambda>(var, op, x). assignable s var \<and> (op = Immediate \<longrightarrow> \<not> str_in ''${'' x))"

lemma plain_value_read: "plain_value s v = value_read (values_in s v)"
  by (simp add: plain_value_def value_read_def values_in_def)

lemma groups_found [simp]:
  "map_of (assignment_groups (var, op, x)) ''flag'' = None"
  "has_group ''exp'' (assignment_groups (var, op, x)) = False"
  "group_text ''var'' (assignment_groups (var, op, x)) = var"
  "group_text ''value'' (assignment_groups (var, op, x)) = x"
  "has_group ''ques'' (assignment_groups (var, op, x)) = (op = Weak)"
  "has_group ''lazyques'' (assignment_groups (var, op, x)) = (op = Default)"
  "has_group ''colon'' (assignment_groups (var, op, x)) = (op = Immediate)"
  "has_group ''append'' (assignment_groups (var, op, x)) = (op = Append)"
  "has_group ''prepend'' (assignment_groups (var, op, x)) = (op = Prepend)"
  "has_group ''postdot'' (assignment_groups (var, op, x)) = (op = PostDot)"
  "has_group ''predot'' (assignment_groups (var, op, x)) = (op = PreDot)"
  by (cases op; simp add: assignment_groups_def has_group_def group_text_def dict_get_or_def)+

lemma set_default_flag:
  assumes "plain_name s var"
  shows "setVarFlag E n var ''_defaultval'' v s = Some (Inr (), flag_written var ''_defaultval'' v s)"
proof -
  have r: "report_renamed mark var (s \<lparr> expand_cache := [] \<rparr>) = Some (Inr (), s \<lparr> expand_cache := [] \<rparr>)" for mark
    using report_plain [of "s \<lparr> expand_cache := [] \<rparr>" var mark] assms by simp
  have "plain_name (flag_written var ''_defaultval'' v s) var" using assms by simp
  from note_plain [OF this]
  have n: "note_overridevar E n var var v (flag_written var ''_defaultval'' v s) =
      Some (Inr (), flag_written var ''_defaultval'' v s)" by simp
  have "var \<noteq> ''BB_RENAMED_VARIABLES''" "CHR '':'' \<notin> set var"
    using assms by (simp_all add: plain_name_def)
  then show ?thesis
    using n by (simp add: setVarFlag_def setVarFlag_body_def r seq_def flag_written_def)
qed

lemma getFunc_plain:
  assumes "plain_var s var"
  shows "getFunc E (Suc m) (assignment_groups (var, op, x)) var s = Some (Inr (fst (values_in s var)), s)"
  using get_plain_content [OF assms, of E m True True] by (simp add: getFunc_def values_in_def)

lemma expand_in_copy_plain:
  "\<not> str_in ''${'' x \<Longrightarrow> expand_in_copy E (Suc m) x name s = Some (Inr (Text x), s)"
  by (simp add: expand_in_copy_def expand_value_def expandWithRefs_def new_vparse_def empty_or_def)

text \<open>One assignment.\<close>

definition assign_target :: "assign_op \<Rightarrow> string" where
  "assign_target op = (if op = Default then ''_defaultval'' else ''_content'')"

lemma eval_assignment:
  assumes "simple_assignment s a"
  shows "\<exists>s'. eval_data E (Suc m) sh (assignment_groups a) s = Some (Inr (), s')
     \<and> name_tables s' = name_tables s \<and> values_in s' = assign_in sh a (values_in s)
     \<and> (\<forall>v. \<forall>kw \<in> set setvar_keywords. flag_of s' v kw = flag_of s v kw)"
proof -
  obtain var op x where a: "a = (var, op, x)" by (cases a)
  with assms have p: "plain_var s var" "plain_name s var" "\<not> old_syntax var" "setvar_match var = None"
    and i: "op = Immediate \<Longrightarrow> \<not> str_in ''${'' x"
    by (auto simp: simple_assignment_def assignable_def plain_var_def)
  let ?val = "if op = Default then Text x else case fst (assigned sh op x (values_in s var)) of Some w \<Rightarrow> w | None \<Rightarrow> Text x"
  have v: "assigned_value E (Suc m) sh (assignment_groups a) s = Some (Inr ?val, s)"
    using i by (cases op; cases "values_in s var")
      (auto simp: a assigned_value_def getFunc_plain [OF p(1)] expand_in_copy_plain Let_def split: option.split)
  let ?s' = "if op = Default then flag_written var ''_defaultval'' ?val s else content_written var ?val True s"
  have "eval_data E (Suc m) sh (assignment_groups a) s = Some (Inr (), ?s')"
    using v p set_default_flag [OF p(2)] set_plain_var [OF p(2-4), of E "Suc m"]
    by (auto simp: a eval_data_def assigned_flag_def Let_def)
  moreover have "values_in ?s' = assign_in sh a (values_in s)"
    by (cases op; cases "values_in s var")
      (auto simp: a assign_in_def values_in_def flag_of_written flag_of_content_written fun_eq_iff split: option.split)
  ultimately show ?thesis
    by (auto simp: flag_of_written flag_of_content_written setvar_keywords_def)
qed

lemma plain_var_keep:
  "name_tables s' = name_tables s \<Longrightarrow> \<forall>v. \<forall>kw \<in> set setvar_keywords. flag_of s' v kw = flag_of s v kw \<Longrightarrow>
   plain_var s' v = plain_var s v"
  by (rule plain_var_cong) simp_all

lemma assignments_run:
  assumes "\<forall>a \<in> set as. simple_assignment s a"
  shows "\<exists>s'. eval_assignments E (Suc m) sh as s = Some (Inr (), s') \<and> name_tables s' = name_tables s
     \<and> values_in s' = fold (assign_in sh) as (values_in s) \<and> (\<forall>v. plain_var s' v = plain_var s v)"
  using assms
proof (induction as arbitrary: s)
  case Nil
  then show ?case by (simp add: eval_assignments_def)
next
  case (Cons a as)
  then have "simple_assignment s a" by simp
  from eval_assignment [OF this] obtain s1 where
    e: "eval_data E (Suc m) sh (assignment_groups a) s = Some (Inr (), s1)"
      "name_tables s1 = name_tables s" "values_in s1 = assign_in sh a (values_in s)"
    and k: "\<forall>v. \<forall>kw \<in> set setvar_keywords. flag_of s1 v kw = flag_of s v kw" by blast
  note p = plain_var_keep [OF e(2) k]
  have "\<forall>a \<in> set as. simple_assignment s1 a"
    using Cons.prems by (auto simp: simple_assignment_def assignable_def p)
  from Cons.IH [OF this] e p show ?case by (auto simp: eval_assignments_def)
qed

text \<open>
  Any sequence of assignments to plain variables, with any of the operators, ends
  without an exception, and reading a plain variable then gives what the meaning of the
  operators says: the value if it has one, else its default.
\<close>

theorem assignments_refine:
  assumes "\<forall>a \<in> set as. simple_assignment s a"
  shows "\<exists>s'. eval_assignments E (Suc m) sh as s = Some (Inr (), s')
     \<and> (\<forall>v. plain_var s v \<longrightarrow>
          getVar E (Suc k) v False s' = Some (Inr (value_read (fold (assign_in sh) as (values_in s) v)), s'))"
proof -
  from assignments_run [OF assms] obtain s' where
    "eval_assignments E (Suc m) sh as s = Some (Inr (), s')"
    "values_in s' = fold (assign_in sh) as (values_in s)" "\<forall>v. plain_var s' v = plain_var s v" by blast
  then show ?thesis by (auto simp: getVar_plain_var plain_value_read)
qed

text \<open>With \<open>?=\<close> and \<open>??=\<close> only: the first value that was there or set, or the last default.\<close>

definition texts_of :: "assign_op \<Rightarrow> string \<Rightarrow> assignment list \<Rightarrow> string list" where
  "texts_of op var as = map (\<lambda>(v, op', x). x) (filter (\<lambda>(v, op', x). v = var \<and> op' = op) as)"

definition first_or :: "'a option \<Rightarrow> 'a list \<Rightarrow> 'a option" where
  "first_or d l = (case l of [] \<Rightarrow> d | x # _ \<Rightarrow> Some x)"

lemma texts_of_simps [simp]:
  "texts_of op var [] = []"
  "texts_of op var ((v, op', x) # as) = (if v = var \<and> op' = op then x # texts_of op var as else texts_of op var as)"
  by (simp_all add: texts_of_def)

lemma assign_in_at [simp]: "assign_in sh (v, op, x) V u = (if u = v then assigned sh op x (V v) else V u)"
  by (simp add: assign_in_def)

lemma weak_fold:
  assumes "\<forall>(v, op, x) \<in> set as. v = var \<longrightarrow> op = Weak \<or> op = Default"
  shows "fold (assign_in sh) as V var =
    ((case fst (V var) of Some w \<Rightarrow> Some w | None \<Rightarrow> map_option Text (first_or None (texts_of Weak var as))),
     (case rev (texts_of Default var as) of [] \<Rightarrow> snd (V var) | x # _ \<Rightarrow> Some (Text x)))"
  using assms
proof (induction as arbitrary: V)
  case Nil
  then show ?case by (cases "V var") (simp add: first_or_def split: option.split)
next
  case (Cons a as)
  obtain v op x where a: "a = (v, op, x)" by (cases a)
  have IH: "fold (assign_in sh) as (assign_in sh a V) var =
    ((case fst (assign_in sh a V var) of Some w \<Rightarrow> Some w | None \<Rightarrow> map_option Text (first_or None (texts_of Weak var as))),
     (case rev (texts_of Default var as) of [] \<Rightarrow> snd (assign_in sh a V var) | x # _ \<Rightarrow> Some (Text x)))"
    using Cons.prems by (intro Cons.IH) auto
  show ?case
  proof (cases "v = var")
    case False
    then have "texts_of o' var (a # as) = texts_of o' var as" "assign_in sh a V var = V var" for o'
      by (simp_all add: a)
    with IH show ?thesis by (simp only: fold_Cons o_apply)
  next
    case True
    with Cons.prems have "op = Weak \<or> op = Default" by (simp add: a)
    then show ?thesis using IH [unfolded a] True
      by (cases "V var") (auto simp: a first_or_def split: option.splits list.splits)
  qed
qed

text \<open>
  When a plain variable that was not set is only assigned with \<open>?=\<close> and \<open>??=\<close>, reading it
  gives the first that a \<open>?=\<close> gave it, or else the last \<open>??=\<close>, wherever these stand.
\<close>

theorem weak_assignments_order:
  assumes "\<forall>a \<in> set as. simple_assignment s a"
    and "\<forall>(v, op, x) \<in> set as. v = var \<longrightarrow> op = Weak \<or> op = Default"
    and "plain_var s var" and "flag_of s var ''_content'' = None" and "flag_of s var ''_defaultval'' = None"
  shows "\<exists>s'. eval_assignments E (Suc m) sh as s = Some (Inr (), s')
     \<and> getVar E (Suc k) var False s' =
         Some (Inr (map_option Text (first_or (first_or None (rev (texts_of Default var as))) (texts_of Weak var as))), s')"
proof -
  from assignments_run [OF assms(1)] obtain s' where
    e: "eval_assignments E (Suc m) sh as s = Some (Inr (), s')"
    and v: "values_in s' = fold (assign_in sh) as (values_in s)" "plain_var s' var" using assms(3) by blast
  have "value_read (values_in s' var) =
      map_option Text (first_or (first_or None (rev (texts_of Default var as))) (texts_of Weak var as))"
    using assms(4,5) unfolding v(1) weak_fold [OF assms(2)]
    by (simp add: value_read_def first_or_def values_in_def split: list.split)
  with e v(2) show ?thesis by (auto simp: getVar_plain_var plain_value_read)
qed

definition some_assignments :: "assignment list" where
  "some_assignments = [(''A'', Default, ''x''), (''B'', Assign, ''b''), (''A'', Weak, ''y''), (''A'', Weak, ''z''),
     (''B'', Append, ''c''), (''B'', PreDot, ''a''), (''A'', Default, ''w'')]"

lemma some_assignments_simple: "\<forall>a \<in> set some_assignments. simple_assignment new_store a"
proof -
  have "list_all (simple_assignment new_store) some_assignments" by code_simp
  then show ?thesis by (simp add: list_all_iff)
qed

theorem assignments_refine_witness:
  "\<exists>s'. eval_assignments no_python 1 (\<lambda>v. []) some_assignments new_store = Some (Inr (), s')
    \<and> getVar no_python 1 ''B'' False s' = Some (Inr (Some (Text ''ab c'')), s')"
proof -
  have vb: "values_in new_store ''B'' = (None, None)" by code_simp
  have "plain_var new_store ''B''" by code_simp
  moreover have "value_read (fold (assign_in (\<lambda>v. [])) some_assignments (values_in new_store) ''B'') = Some (Text ''ab c'')"
    using vb by (simp add: some_assignments_def value_read_def shown_def)
  ultimately show ?thesis
    using assignments_refine [OF some_assignments_simple, of no_python 0 "\<lambda>v. []" 0] by auto
qed

theorem weak_assignments_order_witness:
  "\<exists>s'. eval_assignments no_python 1 (\<lambda>v. []) some_assignments new_store = Some (Inr (), s')
    \<and> getVar no_python 1 ''A'' False s' = Some (Inr (Some (Text ''y'')), s')"
proof -
  have p: "plain_var new_store ''A''" "flag_of new_store ''A'' ''_content'' = None" "flag_of new_store ''A'' ''_defaultval'' = None"
    by code_simp+
  have w: "\<forall>(v, op, x) \<in> set some_assignments. v = ''A'' \<longrightarrow> op = Weak \<or> op = Default"
    by (simp add: some_assignments_def)
  have "first_or (first_or None (rev (texts_of Default ''A'' some_assignments))) (texts_of Weak ''A'' some_assignments) = Some ''y''"
    by (simp add: some_assignments_def first_or_def)
  then show ?thesis
    using weak_assignments_order [OF some_assignments_simple w p, of no_python 0 "\<lambda>v. []" 0] by auto
qed

subsection \<open>Statements keep the store well formed\<close>

lemma form_operations [holds_intro]:
  "holds well_formed (setVar E n var v parsing)"
  "holds well_formed (setVarFlag E n var flag v)"
  "holds well_formed (getVarFlag E n var flag expand noweakdefault parsing retparser)"
  by (simp_all only: operations_keep_form)

lemma form_changes:
  "well_formed s \<Longrightarrow> well_formed (delVarFlag var flag s)"
  "well_formed s \<Longrightarrow> well_formed (createCopy s)"
proof -
  have "holds well_formed (change (delVarFlag var flag))" "holds well_formed (change createCopy)"
    by (simp_all only: operations_keep_form)
  then show "well_formed s \<Longrightarrow> well_formed (delVarFlag var flag s)" "well_formed s \<Longrightarrow> well_formed (createCopy s)"
    by (simp_all add: holds_def)
qed

lemma form_expand_value [holds_intro]: "holds well_formed (expand_value E k (getVarFlag E n) v name)"
  unfolding expand_value_def by (auto simp del: comp_simps intro!: holds_intro)

lemma form_expand_name [holds_intro]: "holds well_formed (expand_name E n name)"
  unfolding expand_name_def by (auto simp del: comp_simps intro!: holds_intro split: option.split dval.split)

lemma form_tasks [holds_intro]:
  "holds well_formed (get_tasks E n)" "holds well_formed (get_deps E n t)"
  unfolding get_tasks_def get_deps_def by (auto simp del: comp_simps intro!: holds_intro)

lemma form_addtask: "holds well_formed (addtask E n task before after)"
  unfolding addtask_def depend_before_def by (auto simp del: comp_simps intro!: holds_intro)

lemma form_deltask [holds_intro]: "holds well_formed (deltask E n task)"
  unfolding deltask_def undepend_def by (auto simp del: comp_simps intro!: holds_intro form_changes)

lemma form_expand_in_copy: "holds well_formed (expand_in_copy E n value name)"
  by (auto simp: holds_def expand_in_copy_def)

lemma form_eval_data: "holds well_formed (eval_data E n sh g)"
  unfolding eval_data_def assigned_value_def getFunc_def
  by (auto simp del: comp_simps intro!: holds_intro form_expand_in_copy split: option.split)

lemma form_methods:
  "holds well_formed (eval_method E n load fn line func body py fakeroot)"
  "holds well_formed (eval_python_method E n load fn line func modulename body)"
  unfolding eval_method_def eval_python_method_def append_name_def Let_def
  by (auto simp del: comp_simps intro!: holds_intro form_changes)

lemma form_export_func: "holds well_formed (export_func E n classname func)"
  unfolding export_func_def copy_flag_def Let_def
  by (auto simp del: comp_simps intro!: holds_intro form_changes)

text \<open>Evaluating a statement keeps the tables of the store well formed, also when it raises.\<close>

lemma statements_form: "holds well_formed (eval_plain E n sh load st)"
  unfolding eval_plain_def eval_handlers_def eval_deltask_def
  by (cases "node st")
    (auto simp del: comp_simps
      intro!: holds_intro form_changes delVar_ok form_eval_data form_methods form_export_func form_addtask)

end
