(* ===== verification/ConfLines.thy ===== *)
theory ConfLines
  imports PyRegex Statements
begin

text \<open>
  Reading configuration files: the expressions of \<open>bb/parse/parse_py/ConfHandler.py\<close>, its \<open>feeder\<close>,
  which turns one line into a statement, and the part of \<open>handle\<close> that puts continued lines
  together and feeds them. A file is the list of its lines as \<open>readline\<close> gives them, each with
  its newline.
\<close>

subsection \<open>The expressions\<close>

definition among :: "string \<Rightarrow> char \<Rightarrow> bool" where
  "among cs c \<longleftrightarrow> is_letter c \<or> is_digit c \<or> c \<in> set cs"

definition var_char :: "char \<Rightarrow> bool" where
  "var_char = among ''-_+.${}/~:''"

definition name_char :: "char \<Rightarrow> bool" where
  "name_char = among ''-_+.${}/~''"

definition flag_char :: "char \<Rightarrow> bool" where
  "flag_char = among ''-_+.''"

abbreviation squote :: char where "squote \<equiv> CHR 0x27"
abbreviation dquote :: char where "dquote \<equiv> CHR 0x22"

text \<open>A value that is quoted twice: \<open>'[^']*'[^']*'$\<close>.\<close>

definition quoted_twice :: "char \<Rightarrow> regex" where
  "quoted_twice q = cats [Lit [q], Star True (Chars (\<lambda>c. c \<noteq> q)), Lit [q], Star True (Chars (\<lambda>c. c \<noteq> q)), Lit [q], End]"

definition operators :: regex where
  "operators = alts [Group ''colon'' (Lit '':=''), Group ''lazyques'' (Lit ''??=''), Group ''ques'' (Lit ''?=''),
     Group ''append'' (Lit ''+=''), Group ''prepend'' (Lit ''=+''), Group ''predot'' (Lit ''=.''),
     Group ''postdot'' (Lit ''.=''), Lit ''='']"

definition config_value :: regex where
  "config_value = cats [Look False (quoted_twice squote), Look False (quoted_twice dquote),
     Group ''apo'' (Chars (\<lambda>c. c \<in> set [squote, dquote])),
     Group ''value'' (Star True (Chars not_newline)), Same ''apo'', End]"

definition config_regexp :: regex where
  "config_regexp = cats [maybe (Group ''exp'' (Cat (Lit ''export'') blank)),
     Group ''var'' (some_of False (Chars var_char)),
     maybe (cats [Lit ''['', Group ''flag'' (some_of True (Chars flag_char)), Lit '']'']),
     spaces, operators, spaces, config_value]"

definition word_and_rest :: "string \<Rightarrow> regex" where
  "word_and_rest w = cats [Lit w, blank, Group ''1'' (some_of True (Chars not_newline))]"

definition include_regexp :: regex where "include_regexp = word_and_rest ''include''"
definition require_regexp :: regex where "require_regexp = word_and_rest ''require''"

definition export_regexp :: regex where
  "export_regexp = cats [Lit ''export'', blank, Group ''1'' (some_of True (Chars name_char)), End]"

definition unset_regexp :: regex where
  "unset_regexp = cats [Lit ''unset'', blank, Group ''1'' (some_of True (Chars name_char)), End]"

definition unset_flag_regexp :: regex where
  "unset_flag_regexp = cats [Lit ''unset'', blank, Group ''1'' (some_of True (Chars name_char)),
     Lit ''['', Group ''2'' (some_of True (Chars flag_char)), Lit '']'', End]"

subsection \<open>A line\<close>

definition group_of :: "string \<Rightarrow> groups \<times> string \<Rightarrow> string" where
  "group_of name m = dict_get_or [] (fst m) name"

definition conf_node :: "string \<Rightarrow> node result" where
  "conf_node s =
     (case re_match config_regexp s of Some (g, _) \<Rightarrow> Inr (DataNode g) | None \<Rightarrow>
     (case re_match include_regexp s of Some m \<Rightarrow> Inr (IncludeNode (group_of ''1'' m) False) | None \<Rightarrow>
     (case re_match require_regexp s of Some m \<Rightarrow> Inr (IncludeNode (group_of ''1'' m) True) | None \<Rightarrow>
     (case re_match export_regexp s of Some m \<Rightarrow> Inr (ExportNode (group_of ''1'' m)) | None \<Rightarrow>
     (case re_match unset_regexp s of Some m \<Rightarrow> Inr (UnsetNode (group_of ''1'' m)) | None \<Rightarrow>
     (case re_match unset_flag_regexp s of Some m \<Rightarrow> Inr (UnsetFlagNode (group_of ''1'' m) (group_of ''2'' m)) | None \<Rightarrow>
     Inl ParseError))))))"

definition conf_feeder :: "int \<Rightarrow> string \<Rightarrow> string \<Rightarrow> statement list \<Rightarrow> statement list result" where
  "conf_feeder line s fn statements =
     bindE (conf_node s) (\<lambda>nd. Inr (statements @ [\<lparr> filename = fn, lineno = line, node = nd \<rparr>]))"

subsection \<open>Reading a configuration file\<close>

text \<open>
  The loop \<open>while s[-1] == '\\'\<close>: the line so far, the lines that are left and the number of the
  last line read. At the end of the file \<open>readline\<close> gives an empty line for ever.
\<close>

definition backslash :: char where "backslash = CHR 0x5C"

function join_lines :: "string \<Rightarrow> string list \<Rightarrow> int \<Rightarrow> (string \<times> string list \<times> int) result" where
  "join_lines s ls n =
     (if s = [] then Inl IndexError
      else if last s \<noteq> backslash then Inr (s, ls, n)
      else
        let s2 = (case ls of [] \<Rightarrow> [] | l # _ \<Rightarrow> rstrip_ws l) in
        if (s2 = [] \<or> hd s2 \<noteq> CHR ''#'') \<and> hd s = CHR ''#'' then Inl Fatal
        else join_lines (butlast s @ s2) (tl ls) (n + 1))"
  by auto
termination
  by (relation "measures [\<lambda>(s, ls, n). length ls, \<lambda>(s, ls, n). length s]") (auto split: list.splits)

declare join_lines.simps [simp del]

lemma join_lines_left: "join_lines s ls n = Inr (s', ls', n') \<Longrightarrow> length ls' \<le> length ls"
proof (induction s ls n rule: join_lines.induct)
  case (1 s ls n)
  note step = join_lines.simps [of s ls n]
  let ?s2 = "case ls of [] \<Rightarrow> [] | l # _ \<Rightarrow> rstrip_ws l"
  have "s \<noteq> []" using 1(2) step by auto
  show ?case
  proof (cases "last s = backslash")
    case True
    then have g: "\<not> ((?s2 = [] \<or> hd ?s2 \<noteq> CHR ''#'') \<and> hd s = CHR ''#'')"
      and "join_lines (butlast s @ ?s2) (tl ls) (n + 1) = Inr (s', ls', n')"
      using 1(2) step \<open>s \<noteq> []\<close> by (auto simp: Let_def split: if_splits)
    then have "length ls' \<le> length (tl ls)"
      using True \<open>s \<noteq> []\<close> by (intro 1(1) [OF _ _ refl]) simp_all
    then show ?thesis by simp
  qed (use 1(2) step \<open>s \<noteq> []\<close> in simp)
qed

function conf_lines :: "int \<Rightarrow> string list \<Rightarrow> string \<Rightarrow> statement list \<Rightarrow> statement list result" where
  "conf_lines n [] fn statements = Inr statements"
| "conf_lines n (l # ls) fn statements =
     (if strip_ws l = [] then conf_lines (n + 1) ls fn statements
      else case join_lines (rstrip_ws l) ls (n + 1) of
        Inl e \<Rightarrow> Inl e
      | Inr (s, ls', n') \<Rightarrow>
          if s \<noteq> [] \<and> hd s = CHR ''#'' then conf_lines n' ls' fn statements
          else case conf_feeder n' s fn statements of
            Inl e \<Rightarrow> Inl e
          | Inr statements' \<Rightarrow> conf_lines n' ls' fn statements')"
  by pat_completeness auto
termination
  by (relation "measure (\<lambda>(n, ls, fn, st). length ls)") (auto dest!: join_lines_left)

text \<open>The statements of a file; the number of its first line is 1.\<close>

definition conf_statements :: "string \<Rightarrow> string list \<Rightarrow> statement list result" where
  "conf_statements fn ls = conf_lines 0 ls fn []"

subsection \<open>Assignments are read back\<close>

fun op_text :: "assign_op \<Rightarrow> string" where
  "op_text Assign = ''=''"
| "op_text Weak = ''?=''"
| "op_text Default = ''??=''"
| "op_text Immediate = '':=''"
| "op_text Append = ''+=''"
| "op_text Prepend = ''=+''"
| "op_text PostDot = ''.=''"
| "op_text PreDot = ''=.''"

definition assignment_line :: "assignment \<Rightarrow> string" where
  "assignment_line = (\<lambda>(var, op, x). var @ '' '' @ op_text op @ '' '' @ dquote # x @ [dquote])"

definition printable :: "assignment \<Rightarrow> bool" where
  "printable = (\<lambda>(var, op, x). var \<noteq> [] \<and> list_all var_char var \<and> var \<noteq> ''export''
     \<and> newline \<notin> set x \<and> dquote \<notin> set x)"

lemma value_read_back:
  assumes "newline \<notin> set x" and "dquote \<notin> set x"
  shows "run_regex config_value Some (g, dquote # x @ [dquote]) =
    Some (dict_set ''value'' x (dict_set ''apo'' [dquote] g), [])"
proof -
  let ?k = "run_regex (cats [Lit [dquote], Star True (Chars (\<lambda>c. c \<noteq> dquote)), Lit [dquote], End]) Some"
  have "repeat True (one_char (\<lambda>c. c \<noteq> dquote)) ?k (g, x @ [dquote]) = None"
  proof (rule repeat_none)
    fix a b
    assume ab: "x @ [dquote] = a @ b"
    show "?k (g, b) = None"
    proof (cases "\<exists>t. b = dquote # t")
      case True
      then obtain t where "b = dquote # t" by blast
      with ab assms(2) have "b = [dquote]"
        by (metis append_Cons append_self_conv2 butlast_append butlast_snoc in_set_conv_decomp list.discI)
      then show ?thesis by (simp add: regex_simps repeat_chars)
    next
      case False
      then show ?thesis by (cases b) (auto simp: regex_simps)
    qed
  qed
  then have twice: "run_regex (quoted_twice dquote) Some (g, dquote # x @ [dquote]) = None"
    by (simp add: quoted_twice_def regex_simps)
  have once: "run_regex (quoted_twice squote) Some (g, dquote # x @ [dquote]) = None"
    by (simp add: quoted_twice_def regex_simps)
  let ?g = "dict_set ''apo'' [dquote] g"
  let ?closing = "captured ''value'' (x @ [dquote]) (run_regex (Same ''apo'') (run_regex End Some))"
  have "repeat True (one_char not_newline) ?closing (?g, x @ [dquote]) = Some (dict_set ''value'' x ?g, [])"
  proof (rule greedy_ends)
    show "list_all not_newline x" using assms(1) by (auto simp: list_all_iff not_newline_def)
    show "?closing (?g, [dquote]) = Some (dict_set ''value'' x ?g, [])"
      by (simp add: no_more_def)
    fix a b
    assume "[dquote] = a @ b" "a \<noteq> []"
    then have "b = []" by (cases a) auto
    then show "?closing (?g, b) = None" by simp
  qed
  with twice once show ?thesis
    by (simp add: config_value_def regex_simps)
qed

lemma var_char_facts:
  assumes "var_char c"
  shows "\<not> py_isspace c" "c \<noteq> CHR ''=''" "c \<noteq> CHR ''?''" "c \<noteq> CHR ''[''"
  using assms by (auto simp: var_char_def among_def is_letter_def is_digit_def py_isspace_def)

lemma blank_skipped:
  assumes "\<not> py_isspace c" and "k (g, c # s) = Some r"
  shows "repeat True (one_char py_isspace) k (g, CHR '' '' # c # s) = Some r"
  using greedy_word [of py_isspace "'' ''" "c # s" k g r] assms by (simp add: py_isspace_def)

lemma operator_read:
  assumes "k (dict_set ''var'' var g @ op_groups op, CHR '' '' # s) = Some r" and "g = [] "
  shows "run_regex operators k (dict_set ''var'' var g, op_text op @ CHR '' '' # s) = Some r"
  using assms by (cases op) (simp_all add: operators_def regex_simps captured_def)

lemma no_operator:
  assumes "b \<noteq> []" and "list_all var_char b"
  shows "run_regex operators k (g, b @ CHR '' '' # s) = None"
proof -
  obtain c t where b: "b = c # t" "list_all var_char t" and c: "var_char c"
    using assms by (cases b) auto
  have "\<not> startswith (t @ CHR '' '' # s) (CHR ''='' # w)" for w
    using b(2) by (cases t) (auto dest: var_char_facts)
  then have "\<not> startswith (t @ CHR '' '' # s) ''=''" by blast
  then show ?thesis
    using var_char_facts [OF c] by (simp add: operators_def regex_simps b(1))
qed

lemma no_flag: "c \<noteq> CHR ''['' \<Longrightarrow> run_regex (maybe (cats (Lit ''['' # rs))) k (g, c # s) = k (g, c # s)"
  by (simp add: regex_simps)

lemma not_exported:
  assumes "list_all var_char var" and "var \<noteq> ''export''"
  shows "run_regex (Group ''exp'' (Cat (Lit ''export'') blank)) k ([], var @ CHR '' '' # s) = None"
proof (cases "startswith (var @ CHR '' '' # s) ''export''")
  case True
  then obtain t where t: "var @ CHR '' '' # s = ''export'' @ t" by (auto simp: startswith_iff)
  from append_eq_append_conv2 [THEN iffD1, OF t] obtain u where
    "(var = ''export'' @ u \<and> u @ CHR '' '' # s = t) \<or> (var @ u = ''export'' \<and> CHR '' '' # s = u @ t)" by blast
  then show ?thesis
  proof (elim disjE conjE)
    assume v: "var = ''export'' @ u" and r: "u @ CHR '' '' # s = t"
    with assms obtain d w where u: "u = d # w" "var_char d" by (cases u) auto
    then have "t = d # w @ CHR '' '' # s" using r by simp
    then show ?thesis using v u var_char_facts(1) [OF u(2)] by (simp add: regex_simps)
  next
    assume v: "var @ u = ''export''" and r: "CHR '' '' # s = u @ t"
    with assms(2) obtain w where "u = CHR '' '' # w" by (cases u) auto
    with v have "CHR '' '' \<in> set ''export''" by (metis in_set_conv_decomp)
    then show ?thesis by simp
  qed
qed (simp add: regex_simps)

lemma assignment_read:
  assumes "printable a"
  shows "re_match config_regexp (assignment_line a) = Some (assignment_groups a, [])"
proof -
  obtain var op x where a: "a = (var, op, x)" by (cases a)
  with assms obtain c v where var: "var = c # v" "var_char c" "list_all var_char v" "var \<noteq> ''export''"
    and x: "newline \<notin> set x" "dquote \<notin> set x" by (cases var) (auto simp: printable_def)
  let ?q = "dquote # x @ [dquote]"
  let ?rest = "op_text op @ CHR '' '' # ?q"
  let ?flag = "maybe (cats [Lit ''['', Group ''flag'' (some_of True (Chars flag_char)), Lit '']''])"
  let ?g = "[(''var'', var)]"
  have groups: "assignment_groups a = dict_set ''value'' x (dict_set ''apo'' [dquote] (?g @ op_groups op))"
    by (cases op) (simp_all add: a assignment_groups_def)
  have vr: "repeat True (one_char py_isspace) (run_regex config_value Some) (?g @ op_groups op, CHR '' '' # ?q) =
      Some (assignment_groups a, [])"
    unfolding groups by (rule blank_skipped) (simp_all add: value_read_back x py_isspace_def)
  have oper: "run_regex operators (run_regex (cats [spaces, config_value]) Some) (?g, ?rest) = Some (assignment_groups a, [])"
    using operator_read [where g = "[]" and var = var] vr by (simp add: regex_simps)
  have gap: "run_regex (cats [spaces, operators, spaces, config_value]) Some (?g, CHR '' '' # ?rest) = Some (assignment_groups a, [])"
    using oper by (cases op) (auto simp: regex_simps intro!: blank_skipped simp: py_isspace_def)
  let ?k = "captured ''var'' (var @ CHR '' '' # ?rest) (run_regex (cats [?flag, spaces, operators, spaces, config_value]) Some)"
  have tail: "?k
      ([], CHR '' '' # ?rest) = Some (assignment_groups a, [])"
    using gap by (simp add: run_derived(2) [of ?flag] no_flag)
  have early: "?k
      ([], b @ CHR '' '' # ?rest) = None" if b: "b \<noteq> []" "list_all var_char b" for b
  proof -
    obtain d t where d: "b = d # t" "var_char d" using b by (cases b) auto
    note no_operator [OF b]
    then have "run_regex (cats [spaces, operators, spaces, config_value]) Some (g', b @ CHR '' '' # ?rest) = None" for g'
      using d var_char_facts(1) [OF d(2)] by (simp add: run_derived(2) repeat_chars)
    then show ?thesis
      using d var_char_facts(4) [OF d(2)] by (simp add: captured_def run_derived(2) [of ?flag] no_flag)
  qed
  have "repeat False (one_char var_char) ?k
      ([], v @ CHR '' '' # ?rest) = Some (assignment_groups a, [])"
    by (rule lazy_ends [where k = ?k, OF var(3) tail]) (use var(3) in \<open>auto intro!: early\<close>)
  then have "run_regex (Group ''var'' (some_of False (Chars var_char)))
      (run_regex (cats [?flag, spaces, operators, spaces, config_value]) Some) ([], var @ CHR '' '' # ?rest) =
      Some (assignment_groups a, [])"
    using var(1,2) by (simp add: run_derived(3))
  then show ?thesis
    using not_exported [of var] var
    by (simp add: re_match_def config_regexp_def run_derived(2) run_derived(4) assignment_line_def a)
qed

definition assignment_statement :: "string \<Rightarrow> int \<Rightarrow> assignment \<Rightarrow> statement" where
  "assignment_statement fn n a = \<lparr> filename = fn, lineno = n, node = DataNode (assignment_groups a) \<rparr>"

text \<open>A file with an assignment on each line.\<close>

definition conf_file :: "assignment list \<Rightarrow> string list" where
  "conf_file as = map (\<lambda>a. assignment_line a @ [newline]) as"

fun numbered :: "string \<Rightarrow> int \<Rightarrow> assignment list \<Rightarrow> statement list" where
  "numbered fn n [] = []"
| "numbered fn n (a # as) = assignment_statement fn (n + 1) a # numbered fn (n + 1) as"

lemma assignment_line_shape:
  assumes "printable a"
  shows "rstrip_ws (assignment_line a @ [newline]) = assignment_line a"
    and "strip_ws (assignment_line a @ [newline]) \<noteq> []"
    and "join_lines (assignment_line a) ls n = Inr (assignment_line a, ls, n)"
    and "assignment_line a \<noteq> []" and "hd (assignment_line a) \<noteq> CHR ''#''"
proof -
  obtain var op x where a: "a = (var, op, x)" by (cases a)
  with assms obtain c v where var: "var = c # v" "var_char c" by (cases var) (auto simp: printable_def)
  have e: "assignment_line a = (c # v @ '' '' @ op_text op @ '' '' @ dquote # x) @ [dquote]"
    by (simp add: a var assignment_line_def)
  show l: "assignment_line a \<noteq> []" by (simp add: e)
  show "hd (assignment_line a) \<noteq> CHR ''#''"
    using var(2) by (auto simp: e var_char_def among_def is_letter_def is_digit_def)
  show "rstrip_ws (assignment_line a @ [newline]) = assignment_line a"
    unfolding e by (simp add: rstrip_ws_def py_isspace_def)
  have "last (assignment_line a) \<noteq> backslash"
    unfolding e by (simp add: backslash_def)
  with l show "join_lines (assignment_line a) ls n = Inr (assignment_line a, ls, n)"
    by (simp add: join_lines.simps)
  have "c \<in> set (strip_ws (assignment_line a @ [newline]))"
    using var_char_facts(1) [OF var(2)] unfolding e
    by (simp add: strip_ws_def py_isspace_def)
  then show "strip_ws (assignment_line a @ [newline]) \<noteq> []" by force
qed

lemma conf_file_read:
  assumes "\<forall>a \<in> set as. printable a"
  shows "conf_lines n (conf_file as) fn sts = Inr (sts @ numbered fn n as)"
  using assms
proof (induction as arbitrary: n sts)
  case Nil
  then show ?case by (simp add: conf_file_def)
next
  case (Cons a as)
  then have p: "printable a" by simp
  have "conf_feeder (n + 1) (assignment_line a) fn sts = Inr (sts @ [assignment_statement fn (n + 1) a])"
    by (simp add: conf_feeder_def conf_node_def assignment_read [OF p] assignment_statement_def)
  then show ?case
    using Cons.IH [of "n + 1" "sts @ [assignment_statement fn (n + 1) a]"] Cons.prems assignment_line_shape [OF p]
    by (simp add: conf_file_def)
qed

definition eval_statements :: "python \<Rightarrow> nat \<Rightarrow> (dval \<Rightarrow> string) \<Rightarrow> loader \<Rightarrow> statement list \<Rightarrow> unit data" where
  "eval_statements E n sh load sts = loop (\<lambda>st _. eval_plain E n sh load st) sts ()"

lemma eval_numbered: "eval_statements E n sh load (numbered fn k as) = eval_assignments E n sh as"
proof (induction as arbitrary: k)
  case Nil
  then show ?case by (simp add: eval_statements_def eval_assignments_def)
next
  case (Cons a as)
  have e: "eval_plain E n sh load (assignment_statement fn (k + 1) a) = eval_data E n sh (assignment_groups a)"
    by (simp add: eval_plain_def assignment_statement_def)
  have "loop (\<lambda>st _. eval_plain E n sh load st) (numbered fn (k + 1) as) =
      loop (\<lambda>a _. eval_data E n sh (assignment_groups a)) as"
    using Cons.IH [of "k + 1"] by (intro ext) (simp add: eval_statements_def eval_assignments_def)
  with e show ?case by (simp add: eval_statements_def eval_assignments_def)
qed

text \<open>
  Property C8. A configuration file of assignments to plain variables parses, evaluates without
  an exception, and leaves every plain variable with what the meaning of the operators says,
  line by line.
\<close>

theorem conf_file_meaning:
  assumes "\<forall>a \<in> set as. printable a" and "\<forall>a \<in> set as. simple_assignment s a"
  shows "\<exists>sts s'. conf_statements fn (conf_file as) = Inr sts
     \<and> eval_statements E (Suc m) sh load sts s = Some (Inr (), s')
     \<and> (\<forall>v. plain_var s v \<longrightarrow>
          getVar E (Suc k) v False s' = Some (Inr (value_read (fold (assign_in sh) as (values_in s) v)), s'))"
proof -
  from assignments_run [OF assms(2)] obtain s' where
    "eval_assignments E (Suc m) sh as s = Some (Inr (), s')"
    "values_in s' = fold (assign_in sh) as (values_in s)" "\<forall>v. plain_var s' v = plain_var s v" by blast
  then show ?thesis
    using conf_file_read [OF assms(1), of 0 fn "[]"]
    by (auto simp: conf_statements_def eval_numbered getVar_plain_var plain_value_read)
qed

theorem conf_file_meaning_witness:
  "\<exists>sts s'. conf_statements ''local.conf'' (conf_file some_assignments) = Inr sts
    \<and> eval_statements no_python 1 (\<lambda>v. []) (\<lambda>m t f l. Inr ()) sts new_store = Some (Inr (), s')
    \<and> getVar no_python 1 ''B'' False s' = Some (Inr (Some (Text ''ab c'')), s')"
proof -
  have "list_all printable some_assignments" by code_simp
  then have p: "\<forall>a \<in> set some_assignments. printable a" by (simp add: list_all_iff)
  have vb: "values_in new_store ''B'' = (None, None)" by code_simp
  have "plain_var new_store ''B''" by code_simp
  moreover have "value_read (fold (assign_in (\<lambda>v. [])) some_assignments (values_in new_store) ''B'') = Some (Text ''ab c'')"
    using vb by (simp add: some_assignments_def value_read_def shown_def)
  ultimately show ?thesis
    using conf_file_meaning [OF p some_assignments_simple, of "''local.conf''" no_python 0 "\<lambda>v. []" "\<lambda>m t f l. Inr ()" 0]
    by auto
qed

text \<open>
  A line that is only a backslash before an empty line leaves an empty string, whose last
  character the loop then asks for.
\<close>

lemma lone_backslash_raises: "conf_statements fn [[backslash, newline], [newline]] = Inl IndexError"
  by (simp add: conf_statements_def strip_ws_def rstrip_ws_def py_isspace_def backslash_def join_lines.simps)

text \<open>A variable of the name \<open>export\<close>: the line is read as the export of another one.\<close>

lemma export_is_no_variable:
  "re_match config_regexp (assignment_line (''export'', PostDot, ''x'')) =
     Some ([(''exp'', ''export ''), (''var'', ''.''), (''apo'', [dquote]), (''value'', ''x'')], [])"
  by code_simp

end
