(* ===== verification/RecipeLines.thy ===== *)
theory RecipeLines
  imports ConfLines
begin

text \<open>
  Reading recipes, classes and include files: the expressions and the \<open>feeder\<close> of
  \<open>bb/parse/parse_py/BBHandler.py\<close>, a machine that is fed one line after the other. Its state
  is the module's global variables: the function whose body is being read, the Python function
  whose definition is, the lines of that body, and the lines that end in a backslash.
  The warnings about tabs and about words that \<open>addtask\<close> ignores are left out.
\<close>

subsection \<open>The expressions\<close>

abbreviation anything :: regex where
  "anything \<equiv> Star True (Chars not_newline)"

definition func_char :: "char \<Rightarrow> bool" where
  "func_char c \<longleftrightarrow> word_char c \<or> c \<in> set ''.-+{}$:''"

definition func_keywords :: regex where
  "func_keywords = Star True (Cat
     (Alt (Group ''py'' (Cat (Lit ''python'') (Look True (Alt (Chars py_isspace) (Lit ''('')))))
          (Group ''fr'' (Cat (Lit ''fakeroot'') (Look True (Chars py_isspace))))) spaces)"

definition func_start_regexp :: regex where
  "func_start_regexp = cats [func_keywords, maybe (Group ''func'' (some_of True (Chars func_char))),
     spaces, Lit ''('', spaces, Lit '')'', spaces, Lit ''{'', End]"

definition inherit_regexp :: regex where "inherit_regexp = word_and_rest ''inherit''"
definition export_func_regexp :: regex where "export_func_regexp = word_and_rest ''EXPORT_FUNCTIONS''"
definition deltask_regexp :: regex where "deltask_regexp = word_and_rest ''deltask''"
definition addhandler_regexp :: regex where "addhandler_regexp = word_and_rest ''addhandler''"

text \<open>\<open>before\<close> up to an \<open>after\<close>, if there is one, else up to the end of the line.\<close>

definition task_clause :: "string \<Rightarrow> string \<Rightarrow> regex" where
  "task_clause word other = cats [Lit word, spaces,
     Group word (Alt (Cat anything (Look True (Lit other))) anything)]"

definition addtask_regexp :: regex where
  "addtask_regexp = cats [Lit ''addtask'', blank, Group ''func'' (some_of True (Chars word_char)), spaces,
     Star True (Alt (task_clause ''before'' ''after'') (task_clause ''after'' ''before''))]"

definition def_regexp :: regex where
  "def_regexp = cats [Lit ''def'', blank, Group ''1'' (some_of True (Chars word_char)), anything, Lit '':'']"

definition python_func_regexp :: regex where
  "python_func_regexp = alts [Cat blank anything, End, Lit ''#'']"

subsection \<open>One line\<close>

record bb_state =
  infunc :: "(string \<times> string \<times> int \<times> bool \<times> bool) option"
  inpython :: "string option"
  body_lines :: "string list"
  residue :: "string list"
  classname :: string
  statements :: "statement list"

definition add_statement :: "string \<Rightarrow> int \<Rightarrow> node \<Rightarrow> bb_state \<Rightarrow> bb_state" where
  "add_statement fn line nd st =
     st \<lparr> statements := statements st @ [\<lparr> filename = fn, lineno = line, node = nd \<rparr>] \<rparr>"

text \<open>A task name must not hold \<open>:append_\<close> and its like.\<close>

definition bad_task_word :: "string \<Rightarrow> bool" where
  "bad_task_word te \<longleftrightarrow> list_ex (\<lambda>keyword. str_in (keyword @ ''_'') te) setvar_keywords"

text \<open>A complete line that is no comment.\<close>

definition feed_statement :: "int \<Rightarrow> string \<Rightarrow> string \<Rightarrow> bb_state \<Rightarrow> bb_state result" where
  "feed_statement line s fn st =
     (case re_match func_start_regexp s of
        Some (g, _) \<Rightarrow>
          Inr (st \<lparr> infunc := Some (dict_get_or ''__anonymous'' g ''func'', fn, line,
                                has_group ''py'' g, has_group ''fr'' g) \<rparr>)
      | None \<Rightarrow>
     (case re_match def_regexp s of
        Some m \<Rightarrow> Inr (st \<lparr> body_lines := body_lines st @ [s], inpython := Some (group_of ''1'' m) \<rparr>)
      | None \<Rightarrow>
     (case re_match export_func_regexp s of
        Some m \<Rightarrow> Inr (add_statement fn line (ExportFuncsNode (split_ws (group_of ''1'' m)) (classname st)) st)
      | None \<Rightarrow>
     (case re_match addtask_regexp s of
        Some (g, _) \<Rightarrow>
          if list_ex bad_task_word (split_ws s) then Inl ParseError
          else Inr (add_statement fn line (AddTaskNode (group_text ''func'' g) (map_of g ''before'') (map_of g ''after'')) st)
      | None \<Rightarrow>
     (case re_match deltask_regexp s of
        Some m \<Rightarrow> Inr (add_statement fn line (DelTaskNode (group_of ''1'' m)) st)
      | None \<Rightarrow>
     (case re_match addhandler_regexp s of
        Some m \<Rightarrow> Inr (add_statement fn line (BBHandlerNode (split_ws (group_of ''1'' m))) st)
      | None \<Rightarrow>
     (case re_match inherit_regexp s of
        Some m \<Rightarrow> Inr (add_statement fn line (InheritNode (group_of ''1'' m)) st)
      | None \<Rightarrow> bindE (conf_feeder line s fn (statements st)) (\<lambda>sts. Inr (st \<lparr> statements := sts \<rparr>)))))))))"

text \<open>The first character of the first line that was put off; Python raises when it is empty.\<close>

definition residue_comment :: "bb_state \<Rightarrow> bool result" where
  "residue_comment st =
     (case hd (residue st) of [] \<Rightarrow> Inl IndexError | c # _ \<Rightarrow> Inr (c = CHR ''#''))"

definition check_residue :: "string \<Rightarrow> bb_state \<Rightarrow> unit result" where
  "check_residue s st =
     (if residue st = [] then Inr ()
      else bindE (residue_comment st) (\<lambda>comment.
        if s \<noteq> [] \<and> hd s = CHR ''#'' then (if comment then Inr () else Inl Fatal)
        else if comment then Inl Fatal else Inr ()))"

definition feed_line :: "int \<Rightarrow> string \<Rightarrow> string \<Rightarrow> bb_state \<Rightarrow> bb_state result" where
  "feed_line line s fn st =
     bindE (check_residue s st) (\<lambda>_.
     if s \<noteq> [] \<and> last s = backslash then Inr (st \<lparr> residue := residue st @ [butlast s] \<rparr>)
     else
       let s' = concat (residue st) @ s; st' = st \<lparr> residue := [] \<rparr> in
       if s' = [] then Inr st'
       else if hd s' = CHR ''#'' then Inr st'
       else feed_statement line s' fn st')"

definition close_python :: "int \<Rightarrow> string \<Rightarrow> string \<Rightarrow> string \<Rightarrow> bb_state \<Rightarrow> bb_state" where
  "close_python line fn root func st =
     (add_statement fn line (PythonMethodNode func root (body_lines st)) st) \<lparr> body_lines := [], inpython := None \<rparr>"

definition bb_feeder :: "int \<Rightarrow> string \<Rightarrow> string \<Rightarrow> string \<Rightarrow> bool \<Rightarrow> bb_state \<Rightarrow> bb_state result" where
  "bb_feeder line s fn root eof st =
     (case infunc st of
        Some (func, _, _, py, fr) \<Rightarrow>
          if s = ''}'' then
            Inr ((add_statement fn line (MethodNode func (body_lines st @ [[]]) py fr) st) \<lparr> infunc := None, body_lines := [] \<rparr>)
          else Inr (st \<lparr> body_lines := body_lines st @ [s] \<rparr>)
      | None \<Rightarrow>
          (case inpython st of
             None \<Rightarrow> feed_line line s fn st
           | Some func \<Rightarrow>
               if re_match python_func_regexp s \<noteq> None \<and> \<not> eof then Inr (st \<lparr> body_lines := body_lines st @ [s] \<rparr>)
               else let st1 = close_python line fn root func st in
                 if eof then Inr st1 else feed_line line s fn st1))"

subsection \<open>A file\<close>

fun bb_lines :: "int \<Rightarrow> string list \<Rightarrow> string \<Rightarrow> string \<Rightarrow> bb_state \<Rightarrow> bb_state result" where
  "bb_lines n [] fn root st = (if inpython st \<noteq> None then bb_feeder (n + 1) [] fn root True st else Inr st)"
| "bb_lines n (l # ls) fn root st =
     bindE (bb_feeder (n + 1) (rstrip_ws l) fn root False st) (bb_lines (n + 1) ls fn root)"

text \<open>The state \<open>handle\<close> starts with; it does not touch \<open>__inpython__\<close>.\<close>

definition start_state :: "string option \<Rightarrow> string \<Rightarrow> bb_state" where
  "start_state py cls = \<lparr> infunc = None, inpython = py, body_lines = [], residue = [], classname = cls, statements = [] \<rparr>"

subsection \<open>Lines that are no function\<close>

lemma starts_in_name:
  assumes "startswith (name @ c # s) w" and "c \<notin> set w"
  obtains t where "name = w @ t"
proof -
  from assms(1) obtain t where "name @ c # s = w @ t" by (auto simp: startswith_iff)
  then obtain u where "(name = w @ u \<and> u @ c # s = t) \<or> (name @ u = w \<and> c # s = u @ t)"
    unfolding append_eq_append_conv2 by blast
  then show ?thesis
  proof (elim disjE conjE)
    assume "name @ u = w" "c # s = u @ t"
    with assms(2) have "u = []" by (cases u) auto
    with \<open>name @ u = w\<close> show ?thesis by (intro that [of "[]"]) simp
  qed (rule that)
qed

lemma func_char_facts:
  assumes "func_char c"
  shows "\<not> py_isspace c" "c \<noteq> CHR ''(''"
proof -
  have "list_all (\<lambda>c. \<not> func_char c) [CHR 0x09, CHR 0x0A, CHR 0x0B, CHR 0x0C, CHR 0x0D, CHR 0x1C, CHR 0x1D,
      CHR 0x1E, CHR 0x1F, CHR '' '', CHR 0x85, CHR 0xA0, CHR ''('']"
    by code_simp
  with assms show "\<not> py_isspace c" "c \<noteq> CHR ''(''"
    unfolding py_isspace_def list_all_iff by auto
qed

text \<open>A word that is not followed by white space.\<close>

lemma word_not_alone:
  assumes "list_all var_char var" and "var \<noteq> w" and "CHR '' '' \<notin> set w"
    and "startswith (var @ CHR '' '' # s) w"
  obtains d t where "drop (length w) (var @ CHR '' '' # s) = d # t" and "var_char d"
proof -
  obtain u where u: "var = w @ u" using starts_in_name [OF assms(4,3)] by blast
  with assms(2) obtain d v where "u = d # v" by (cases u) auto
  with u assms(1) show ?thesis by (intro that [of d "v @ CHR '' '' # s"]) simp_all
qed

lemma no_blank_after:
  assumes "list_all var_char var" and "var \<noteq> w" and "CHR '' '' \<notin> set w"
  shows "run_regex (Lit w) (run_regex blank k) ([], var @ CHR '' '' # s) = None"
proof (cases "startswith (var @ CHR '' '' # s) w")
  case True
  from word_not_alone [OF assms True] obtain d t where
    "drop (length w) (var @ CHR '' '' # s) = d # t" "\<not> py_isspace d"
    using var_char_facts(1) by blast
  with True show ?thesis by (simp add: run_derived(3))
qed simp

lemma repeat_fails: "(\<And>k'. m k' st = None) \<Longrightarrow> repeat True m k st = k st"
  by (subst repeat.simps) (simp add: Let_def)

text \<open>
  Only names, keywords and white space stand before the parenthesis of a function: when another
  character comes first, the line starts no function.
\<close>

definition head_char :: "char \<Rightarrow> bool" where
  "head_char c \<longleftrightarrow> func_char c \<or> py_isspace c"

definition calls :: "string \<Rightarrow> bool" where
  "calls s \<longleftrightarrow> (case dropWhile head_char s of [] \<Rightarrow> False | c # _ \<Rightarrow> c = CHR ''('')"

lemma calls_append: "list_all head_char a \<Longrightarrow> calls (a @ b) = calls b"
  by (induction a) (simp_all add: calls_def)

lemma not_calls_paren: "\<not> calls s \<Longrightarrow> run_regex (Lit ''('') k (g, s) = None"
proof (cases s)
  case (Cons c t)
  moreover have "\<not> head_char CHR ''(''"
    using func_char_facts(2) [of "CHR ''(''"] by (auto simp: head_char_def py_isspace_def)
  moreover assume "\<not> calls s"
  ultimately show ?thesis by (auto simp: calls_def split: if_splits)
qed simp

lemma not_calls_spaces:
  assumes "\<not> calls s"
  shows "run_regex (cats (spaces # Lit ''('' # rs)) k (g, s) = None"
proof -
  have "repeat True (one_char py_isspace) (run_regex (cats (Lit ''('' # rs)) k) (g, s) = None"
  proof (rule repeat_none)
    fix a b
    assume "s = a @ b" "list_all py_isspace a"
    then have "\<not> calls b"
      using assms calls_append [of a b] by (simp add: head_char_def list_all_iff)
    then show "run_regex (cats (Lit ''('' # rs)) k (g, b) = None"
      by (subst run_derived(2)) (rule not_calls_paren)
  qed
  then show ?thesis by (simp add: run_derived(2))
qed

lemma not_calls_head:
  assumes "\<not> calls s"
  shows "run_regex (cats (maybe (Group ''func'' (some_of True (Chars func_char))) # spaces # Lit ''('' # rs)) k (g, s) = None"
proof -
  let ?k = "captured ''func'' s (run_regex (cats (spaces # Lit ''('' # rs)) k)"
  have "run_regex (some_of True (Chars func_char)) ?k (g, s) = None"
  proof (cases s)
    case (Cons c t)
    have "repeat True (one_char func_char) ?k (g, t) = None" if "func_char c"
    proof (rule repeat_none)
      fix a b
      assume "t = a @ b" "list_all func_char a"
      then have "\<not> calls b"
        using assms that Cons calls_append [of "c # a" b] by (simp add: head_char_def list_all_iff)
      then show "?k (g, b) = None"
        unfolding captured_def fst_conv snd_conv by (rule not_calls_spaces)
    qed
    with Cons show ?thesis by (simp add: run_derived(3))
  qed (simp add: run_derived(3))
  then show ?thesis
    using not_calls_spaces [OF assms, of rs k g] by (simp add: run_derived(2) [of "maybe r" for r] run_derived(4))
qed

lemma assignment_no_function:
  assumes "list_all var_char var" and "var \<noteq> ''python''" and "var \<noteq> ''fakeroot''" and "\<not> calls (var @ CHR '' '' # s)"
  shows "re_match func_start_regexp (var @ CHR '' '' # s) = None"
proof -
  let ?s = "var @ CHR '' '' # s"
  have look: "run_regex (Lit w) (run_regex (Look True r) k') ([], ?s) = None"
    if "var \<noteq> w" "CHR '' '' \<notin> set w" "\<And>d t. var_char d \<Longrightarrow> run_regex r Some ([], d # t) = None" for w r k'
  proof (cases "startswith ?s w")
    case True
    from word_not_alone [OF assms(1) that(1,2) True] obtain d t where
      "drop (length w) ?s = d # t" "var_char d" by blast
    with True that(3) show ?thesis by simp
  qed simp
  have 1: "run_regex (Lit ''python'') (run_regex (Look True (Alt (Chars py_isspace) (Lit ''(''))) k') ([], ?s) = None" for k'
  proof (rule look)
    fix d t
    assume "var_char d"
    moreover have "\<not> var_char CHR ''(''" by code_simp
    ultimately have "\<not> py_isspace d" "d \<noteq> CHR ''(''" using var_char_facts(1) by auto
    then show "run_regex (Alt (Chars py_isspace) (Lit ''('')) Some ([], d # t) = None" by simp
  qed (simp_all add: assms)
  have 2: "run_regex (Lit ''fakeroot'') (run_regex (Look True (Chars py_isspace)) k') ([], ?s) = None" for k'
    by (rule look) (simp_all add: assms var_char_facts(1))
  have "run_regex func_keywords k ([], ?s) = k ([], ?s)" for k
    unfolding func_keywords_def run_regex.simps(6)
    by (rule repeat_fails) (simp add: 1 2 del: run_regex.simps(2,9))
  then show ?thesis
    unfolding re_match_def func_start_regexp_def
    by (subst run_derived(2)) (simp only: not_calls_head [OF assms(4)])
qed

lemma no_word:
  assumes "list_all var_char var" and "var \<noteq> w" and "CHR '' '' \<notin> set w"
  shows "re_match (cats (Lit w # blank # rs)) (var @ CHR '' '' # s) = None"
  unfolding re_match_def run_derived(2) by (rule no_blank_after [OF assms])

definition reserved :: "string list" where
  "reserved = [''python'', ''fakeroot'', ''def'', ''EXPORT_FUNCTIONS'', ''addtask'', ''deltask'', ''addhandler'', ''inherit'']"

lemma head_chars:
  "\<not> head_char CHR ''=''" "\<not> head_char CHR ''?''" "head_char CHR '':''" "head_char CHR ''+''"
  "head_char CHR ''.''" "head_char CHR '' ''"
  by code_simp+

lemma assignment_not_calls: "list_all var_char var \<Longrightarrow> \<not> calls (var @ CHR '' '' # op_text op @ CHR '' '' # s)"
proof (induction var)
  case Nil
  then show ?case by (cases op) (simp_all add: calls_def head_chars)
next
  case (Cons c v)
  have "\<not> var_char CHR ''(''" by code_simp
  with Cons show ?case by (auto simp: calls_def)
qed

definition recipe_assignment :: "assignment \<Rightarrow> bool" where
  "recipe_assignment a \<longleftrightarrow> printable a \<and> fst a \<notin> set reserved"

lemma feed_assignment:
  assumes "recipe_assignment a"
  shows "feed_statement line (assignment_line a) fn st = Inr (add_statement fn line (DataNode (assignment_groups a)) st)"
proof -
  obtain var op x where a: "a = (var, op, x)" by (cases a)
  have p: "printable a" and var: "list_all var_char var" "var \<notin> set reserved"
    using assms by (auto simp: recipe_assignment_def a printable_def)
  let ?s = "var @ CHR '' '' # op_text op @ CHR '' '' # dquote # x @ [dquote]"
  have l: "assignment_line a = ?s" by (simp add: a assignment_line_def)
  have r: "var \<noteq> ''python''" "var \<noteq> ''fakeroot''" "var \<noteq> ''def''" "var \<noteq> ''EXPORT_FUNCTIONS''"
    "var \<noteq> ''addtask''" "var \<noteq> ''deltask''" "var \<noteq> ''addhandler''" "var \<noteq> ''inherit''"
    using var(2) by (auto simp: reserved_def)
  have "re_match func_start_regexp ?s = None"
    by (rule assignment_no_function [OF var(1) r(1,2) assignment_not_calls [OF var(1)]])
  moreover have "re_match def_regexp ?s = None" "re_match export_func_regexp ?s = None"
      "re_match addtask_regexp ?s = None" "re_match deltask_regexp ?s = None"
      "re_match addhandler_regexp ?s = None" "re_match inherit_regexp ?s = None"
    unfolding def_regexp_def export_func_regexp_def addtask_regexp_def deltask_regexp_def addhandler_regexp_def
      inherit_regexp_def word_and_rest_def
    by (rule no_word [OF var(1)]; use r in simp)+
  moreover have "conf_feeder line ?s fn sts = Inr (sts @ [\<lparr> filename = fn, lineno = line, node = DataNode (assignment_groups a) \<rparr>])" for sts
    using assignment_read [OF p] by (simp add: conf_feeder_def conf_node_def l)
  ultimately show ?thesis
    by (simp add: feed_statement_def l add_statement_def)
qed

subsection \<open>Functions\<close>

text \<open>The first line of a function: its keywords, its name and \<open>() {\<close>.\<close>

definition function_head :: "string \<Rightarrow> bool \<Rightarrow> bool \<Rightarrow> string" where
  "function_head name py fr =
     (if fr then ''fakeroot '' else []) @ (if py then ''python '' else []) @ name @ ''() {''"

definition function_name :: "string \<Rightarrow> bool" where
  "function_name name \<longleftrightarrow> name \<noteq> [] \<and> list_all func_char name \<and> name \<noteq> ''python''"

definition head_rest :: regex where
  "head_rest = cats [maybe (Group ''func'' (some_of True (Chars func_char))),
     spaces, Lit ''('', spaces, Lit '')'', spaces, Lit ''{'', End]"

definition keyword_turn :: regex where
  "keyword_turn = Cat
     (Alt (Group ''py'' (Cat (Lit ''python'') (Look True (Alt (Chars py_isspace) (Lit ''('')))))
          (Group ''fr'' (Cat (Lit ''fakeroot'') (Look True (Chars py_isspace))))) spaces"

lemma head_name:
  assumes "function_name name"
  shows "run_regex head_rest Some (g, name @ ''() {'') = Some (dict_set ''func'' name g, [])"
proof -
  obtain c v where n: "name = c # v" "func_char c" "list_all func_char v"
    using assms by (cases name) (auto simp: function_name_def)
  let ?k = "run_regex (cats [spaces, Lit ''('', spaces, Lit '')'', spaces, Lit ''{'', End]) Some"
  have f: "\<not> func_char CHR ''(''" by code_simp
  have k: "captured ''func'' (name @ ''() {'') ?k (g, ''() {'') = Some (dict_set ''func'' name g, [])"
    by (simp only: captured_simps)
      (simp add: regex_simps repeat_chars py_isspace_def no_more_def)
  have "repeat True (one_char func_char) (captured ''func'' (name @ ''() {'') ?k) (g, v @ ''() {'') = Some (dict_set ''func'' name g, [])"
    by (rule greedy_word [where k = "captured ''func'' (name @ ''() {'') ?k", OF n(3) _ k]) (simp add: f)
  then have "run_regex (Group ''func'' (some_of True (Chars func_char))) ?k (g, name @ ''() {'') = Some (dict_set ''func'' name g, [])"
    using n by (simp add: run_derived(3))
  then show ?thesis
    by (simp only: head_rest_def run_derived(2) [of "maybe r" for r] run_derived(4) or_else_simps)
qed

lemma no_turn_at_name:
  assumes "function_name name"
  shows "run_regex keyword_turn k (g, name @ ''() {'') = None"
proof -
  have after: "\<exists>d t. drop (length w) (name @ ''() {'') = d # t \<and> \<not> py_isspace d \<and> (name \<noteq> w \<longrightarrow> d \<noteq> CHR ''('')"
    if sw: "startswith (name @ ''() {'') w" "CHR ''('' \<notin> set w" for w
  proof -
    obtain u where u: "name = w @ u" using starts_in_name [of name "CHR ''(''" "'') {''" w] sw by blast
    show ?thesis
    proof (cases u)
      case Nil
      then show ?thesis using u by (simp add: py_isspace_def)
    next
      case (Cons d v)
      then have "func_char d" using u assms by (simp add: function_name_def)
      with Cons u func_char_facts show ?thesis by simp
    qed
  qed
  have "name \<noteq> ''python''" using assms by (simp add: function_name_def)
  then have 1: "run_regex (Lit ''python'') (run_regex (Look True (Alt (Chars py_isspace) (Lit ''(''))) k') (g, name @ ''() {'') = None" for k'
    using after [of "''python''"] by (cases "startswith (name @ ''() {'') ''python''") (auto simp: regex_simps)
  have 2: "run_regex (Lit ''fakeroot'') (run_regex (Look True (Chars py_isspace)) k') (g, name @ ''() {'') = None" for k'
    using after [of "''fakeroot''"] by (cases "startswith (name @ ''() {'') ''fakeroot''") auto
  show ?thesis
    by (simp add: keyword_turn_def 1 2 del: run_regex.simps(2,9))
qed

lemma keywords_at_name:
  "function_name name \<Longrightarrow> repeat True (run_regex keyword_turn) k (g, name @ ''() {'') = k (g, name @ ''() {'')"
  by (rule repeat_fails) (rule no_turn_at_name)

text \<open>A keyword, its blank and the rest of the line.\<close>

lemma keyword_read:
  assumes "w = ''python'' \<and> grp = ''py'' \<or> w = ''fakeroot'' \<and> grp = ''fr''"
    and "s = c # t" and "\<not> py_isspace c"
    and "repeat True (run_regex keyword_turn) k (dict_set grp w g, s) = Some r"
  shows "repeat True (run_regex keyword_turn) k (g, w @ CHR '' '' # s) = Some r"
proof -
  let ?k = "\<lambda>st'. if length (snd st') < length (snd (g, w @ CHR '' '' # s)) then repeat True (run_regex keyword_turn) k st' else None"
  have "?k (dict_set grp w g, c # t) = Some r" using assms(2,4) by auto
  from blank_skipped [where k = ?k, OF assms(3) this]
  have "repeat True (one_char py_isspace) ?k (dict_set grp w g, CHR '' '' # s) = Some r"
    by (simp only: assms(2))
  then have "run_regex keyword_turn ?k (g, w @ CHR '' '' # s) = Some r"
    using assms(1) by (auto simp: keyword_turn_def captured_def py_isspace_def)
  then show ?thesis by (subst repeat.simps) (simp only: Let_def if_True or_else_simps)
qed

lemma func_keywords_run: "run_regex func_keywords k st = repeat True (run_regex keyword_turn) k st"
  by (simp only: func_keywords_def keyword_turn_def run_regex.simps(6))

definition head_groups :: "string \<Rightarrow> bool \<Rightarrow> bool \<Rightarrow> groups" where
  "head_groups name py fr =
     (if fr then [(''fr'', ''fakeroot'')] else []) @ (if py then [(''py'', ''python'')] else []) @ [(''func'', name)]"

lemma function_head_read:
  assumes "function_name name"
  shows "re_match func_start_regexp (function_head name py fr) = Some (head_groups name py fr, [])"
proof -
  let ?k = "run_regex head_rest Some"
  obtain c v where n: "name = c # v" "\<not> py_isspace c"
    using assms func_char_facts(1) by (cases name) (auto simp: function_name_def)
  let ?r = "Some (head_groups name py fr, [])"
  let ?gf = "if fr then [(''fr'', ''fakeroot'')] else []"
  let ?gp = "?gf @ (if py then [(''py'', ''python'')] else [])"
  have 1: "repeat True (run_regex keyword_turn) ?k (?gp, name @ ''() {'') = ?r"
    unfolding keywords_at_name [OF assms] head_name [OF assms] by (simp add: head_groups_def)
  have 2: "repeat True (run_regex keyword_turn) ?k (?gf, (if py then ''python '' else []) @ name @ ''() {'') = ?r"
  proof (cases py)
    case True
    have "repeat True (run_regex keyword_turn) ?k (?gf, ''python'' @ CHR '' '' # name @ ''() {'') = ?r"
      by (rule keyword_read [where grp = "''py''" and c = c and t = "v @ ''() {''"])
        (use 1 True n in \<open>auto split: if_splits\<close>)
    with True show ?thesis by simp
  qed (use 1 in simp)
  have 3: "repeat True (run_regex keyword_turn) ?k ([], function_head name py fr) = ?r"
  proof (cases fr)
    case True
    have "repeat True (run_regex keyword_turn) ?k ([], ''fakeroot'' @ CHR '' '' # (if py then ''python '' else []) @ name @ ''() {'') = ?r"
      using 2 True n
      by (intro keyword_read [where grp = "''fr''" and c = "if py then CHR ''p'' else c"
            and t = "if py then ''ython '' @ name @ ''() {'' else v @ ''() {''"])
        (auto simp: py_isspace_def)
    with True show ?thesis by (simp add: function_head_def)
  qed (use 2 in \<open>simp add: function_head_def\<close>)
  have "re_match func_start_regexp s = run_regex func_keywords (run_regex head_rest Some) ([], s)" for s
    by (simp only: re_match_def func_start_regexp_def head_rest_def run_derived(2))
  with 3 show ?thesis by (simp only: func_keywords_run)
qed

lemma feed_function_head:
  assumes "function_name name"
  shows "feed_statement line (function_head name py fr) fn st = Inr (st \<lparr> infunc := Some (name, fn, line, py, fr) \<rparr>)"
  unfolding feed_statement_def function_head_read [OF assms]
  by (simp add: head_groups_def has_group_def dict_get_or_def)

lemma feed_body:
  assumes "infunc st = Some (name, fn0, n0, py, fr)" and "\<forall>l \<in> set ls. rstrip_ws l \<noteq> ''}''"
  shows "bb_lines n (ls @ rest) fn root st =
    bb_lines (n + int (length ls)) rest fn root (st \<lparr> body_lines := body_lines st @ map rstrip_ws ls \<rparr>)"
  using assms
proof (induction ls arbitrary: n st)
  case Nil
  then show ?case by simp
next
  case (Cons l ls)
  have "bb_feeder (n + 1) (rstrip_ws l) fn root False st = Inr (st \<lparr> body_lines := body_lines st @ [rstrip_ws l] \<rparr>)"
    using Cons.prems by (simp add: bb_feeder_def)
  then show ?case
    using Cons.IH [of "st \<lparr> body_lines := body_lines st @ [rstrip_ws l] \<rparr>" "n + 1"] Cons.prems by (simp add: algebra_simps)
qed

subsection \<open>Recipes are read back\<close>

datatype item =
    Assignment assignment
  | Function string "string list" bool bool
  | Inherit string

fun item_lines :: "item \<Rightarrow> string list" where
  "item_lines (Assignment a) = [assignment_line a @ [newline]]"
| "item_lines (Function name body py fr) =
     (function_head name py fr @ [newline]) # map (\<lambda>l. l @ [newline]) body @ [''}'' @ [newline]]"
| "item_lines (Inherit classes) = [''inherit '' @ classes @ [newline]]"

fun item_node :: "item \<Rightarrow> node" where
  "item_node (Assignment a) = DataNode (assignment_groups a)"
| "item_node (Function name body py fr) = MethodNode name (body @ [[]]) py fr"
| "item_node (Inherit classes) = InheritNode classes"

fun item_ok :: "item \<Rightarrow> bool" where
  "item_ok (Assignment a) = recipe_assignment a"
| "item_ok (Function name body py fr) =
     (function_name name \<and> list_all (\<lambda>l. rstrip_ws (l @ [newline]) = l \<and> l \<noteq> ''}'') body)"
| "item_ok (Inherit classes) =
     (classes \<noteq> [] \<and> newline \<notin> set classes \<and> CHR ''('' \<notin> set classes \<and> \<not> py_isspace (hd classes)
      \<and> \<not> py_isspace (last classes) \<and> last classes \<noteq> backslash)"

definition recipe_file :: "item list \<Rightarrow> string list" where
  "recipe_file items = concat (map item_lines items)"

text \<open>A statement has the number of its last line.\<close>

fun numbered_items :: "string \<Rightarrow> int \<Rightarrow> item list \<Rightarrow> statement list" where
  "numbered_items fn n [] = []"
| "numbered_items fn n (it # items) =
     (let n' = n + int (length (item_lines it)) in
      \<lparr> filename = fn, lineno = n', node = item_node it \<rparr> # numbered_items fn n' items)"

definition idle :: "bb_state \<Rightarrow> bool" where
  "idle st \<longleftrightarrow> infunc st = None \<and> inpython st = None \<and> residue st = [] \<and> body_lines st = []"

lemma idle_feeds:
  assumes "idle st" and "s \<noteq> []" and "last s \<noteq> backslash" and "hd s \<noteq> CHR ''#''"
  shows "bb_feeder n s fn root False st = feed_statement n s fn st"
proof -
  have e: "st \<lparr> residue := [] \<rparr> = st" using assms(1) by (simp add: idle_def)
  show ?thesis
    using assms by (simp add: bb_feeder_def feed_line_def check_residue_def idle_def Let_def) (simp only: e)
qed

lemma rstrip_content: "s \<noteq> [] \<Longrightarrow> \<not> py_isspace (last s) \<Longrightarrow> rstrip_ws (s @ [newline]) = s"
  by (cases s rule: rev_cases) (simp_all add: rstrip_ws_def py_isspace_def)

lemma feed_inherit:
  assumes "item_ok (Inherit classes)"
  shows "feed_statement n (''inherit '' @ classes) fn st = Inr (add_statement fn n (InheritNode classes) st)"
proof -
  obtain c t where c: "classes = c # t" "\<not> py_isspace c" using assms by (cases classes) auto
  let ?s = "''inherit'' @ CHR '' '' # classes"
  have v: "list_all var_char ''inherit''" by code_simp
  have "list_all head_char ''inherit ''" by code_simp
  then have "calls (''inherit '' @ classes) = calls classes" by (rule calls_append)
  moreover have "\<not> calls classes"
    using assms by (auto simp: calls_def split: list.split dest: set_dropWhileD)
      (metis list.set_intros(1) set_dropWhileD)
  ultimately have "\<not> calls ?s" by simp
  then have f: "re_match func_start_regexp ?s = None"
    by (intro assignment_no_function [OF v]) simp_all
  have o: "re_match def_regexp ?s = None" "re_match export_func_regexp ?s = None" "re_match addtask_regexp ?s = None"
      "re_match deltask_regexp ?s = None" "re_match addhandler_regexp ?s = None"
    unfolding def_regexp_def export_func_regexp_def addtask_regexp_def deltask_regexp_def addhandler_regexp_def
      word_and_rest_def
    by (rule no_word [OF v]; simp)+
  have all: "list_all not_newline classes" using assms by (auto simp: list_all_iff not_newline_def)
  have "repeat True (one_char not_newline) (captured ''1'' classes Some) ([], t @ []) = Some ([(''1'', classes)], [])"
    by (rule greedy_word [where k = "captured ''1'' classes Some"]) (use all c in simp_all)
  then have "repeat True (one_char py_isspace) (run_regex (Group ''1'' (some_of True (Chars not_newline))) Some) ([], classes) =
      Some ([(''1'', classes)], [])"
    using all c unfolding c(1) by (simp add: repeat_chars run_derived(3))
  then have i: "re_match inherit_regexp ?s = Some ([(''1'', classes)], [])"
    by (simp add: re_match_def inherit_regexp_def word_and_rest_def run_derived(1-3) py_isspace_def)
  show ?thesis
    using f o i by (simp add: feed_statement_def group_of_def dict_get_or_def)
qed

lemma feed_item:
  assumes "item_ok it" and "idle st"
  shows "bb_lines n (item_lines it @ rest) fn root st =
    bb_lines (n + int (length (item_lines it))) rest fn root
      (add_statement fn (n + int (length (item_lines it))) (item_node it) st)"
proof (cases it)
  case (Assignment a)
  then have r: "recipe_assignment a" and p: "printable a" using assms(1) by (simp_all add: recipe_assignment_def)
  note sh = assignment_line_shape [OF p]
  have "last (assignment_line a) = dquote" by (cases a) (simp add: assignment_line_def)
  then have "bb_feeder (n + 1) (assignment_line a) fn root False st = feed_statement (n + 1) (assignment_line a) fn st"
    using sh(4,5) by (intro idle_feeds [OF assms(2)]) (simp_all add: backslash_def)
  then show ?thesis by (simp add: Assignment sh(1) feed_assignment [OF r])
next
  case (Inherit classes)
  then have ok: "item_ok (Inherit classes)" using assms(1) by simp
  have "bb_feeder (n + 1) (''inherit '' @ classes) fn root False st = feed_statement (n + 1) (''inherit '' @ classes) fn st"
    using ok by (intro idle_feeds [OF assms(2)]) (simp_all add: backslash_def)
  moreover have "rstrip_ws ((''inherit '' @ classes) @ [newline]) = ''inherit '' @ classes"
    by (rule rstrip_content) (use ok in simp_all)
  ultimately show ?thesis using feed_inherit [OF ok, of "n + 1" fn st] by (simp add: Inherit)
next
  case (Function name body py fr)
  then have f: "function_name name" and b: "list_all (\<lambda>l. rstrip_ws (l @ [newline]) = l \<and> l \<noteq> ''}'') body"
    using assms(1) by simp_all
  let ?h = "function_head name py fr"
  let ?st1 = "st \<lparr> infunc := Some (name, fn, n + 1, py, fr) \<rparr>"
  let ?body = "map (\<lambda>l. l @ [newline]) body"
  have h: "rstrip_ws (?h @ [newline]) = ?h"
    by (rule rstrip_content) (simp_all add: function_head_def py_isspace_def)
  have "\<not> func_char CHR ''#''" by code_simp
  then have hd: "hd ?h \<noteq> CHR ''#''"
    using f by (cases name) (auto simp: function_head_def function_name_def)
  have "bb_feeder (n + 1) ?h fn root False st = feed_statement (n + 1) ?h fn st"
    using hd by (intro idle_feeds [OF assms(2)]) (simp_all add: function_head_def backslash_def)
  then have 1: "bb_feeder (n + 1) ?h fn root False st = Inr ?st1"
    by (simp only: feed_function_head [OF f])
  have m: "map (rstrip_ws \<circ> (\<lambda>l. l @ [newline])) body = body" using b by (induction body) simp_all
  have 2: "bb_lines (n + 1) (?body @ (''}'' @ [newline]) # rest) fn root ?st1 =
      bb_lines (n + 1 + int (length body)) ((''}'' @ [newline]) # rest) fn root (?st1 \<lparr> body_lines := body \<rparr>)"
    using feed_body [of ?st1 name fn "n + 1" py fr ?body "n + 1" "(''}'' @ [newline]) # rest" fn root] b assms(2)
    by (simp add: m idle_def list_all_iff)
  have "rstrip_ws (''}'' @ [newline]) = ''}''"
    by (rule rstrip_content) (simp_all add: py_isspace_def)
  then show ?thesis
    using 1 2 assms(2) by (cases st) (simp add: Function h bb_feeder_def add_statement_def idle_def algebra_simps)
qed

lemma idle_added: "idle (add_statement fn n nd st) = idle st"
  by (simp add: idle_def add_statement_def)

lemma feed_items:
  assumes "\<forall>it \<in> set items. item_ok it" and "idle st"
  shows "bb_lines n (recipe_file items) fn root st = Inr (st \<lparr> statements := statements st @ numbered_items fn n items \<rparr>)"
  using assms
proof (induction items arbitrary: n st)
  case Nil
  then show ?case by (simp add: recipe_file_def idle_def)
next
  case (Cons it items)
  let ?n = "n + int (length (item_lines it))"
  let ?st = "add_statement fn ?n (item_node it) st"
  have "bb_lines n (recipe_file (it # items)) fn root st = bb_lines ?n (recipe_file items) fn root ?st"
    using feed_item [of it st n "recipe_file items" fn root] Cons.prems by (simp add: recipe_file_def)
  also have "\<dots> = Inr (?st \<lparr> statements := statements ?st @ numbered_items fn ?n items \<rparr>)"
    using Cons.prems by (intro Cons.IH) (simp_all add: idle_added)
  finally show ?case by (simp add: add_statement_def Let_def)
qed

text \<open>
  Property C19. A recipe of assignments, functions and \<open>inherit\<close> lines is read back as it was
  written: its statements are these, in this order, each with the number of its last line, a
  function with exactly the lines of its body, and no line is left over.
\<close>

theorem recipe_read_back:
  assumes "\<forall>it \<in> set items. item_ok it"
  shows "bb_lines 0 (recipe_file items) fn root (start_state None cls) =
    Inr ((start_state None cls) \<lparr> statements := numbered_items fn 0 items \<rparr>)"
  using feed_items [OF assms, of "start_state None cls" 0 fn root]
  by (simp add: idle_def start_state_def)

definition some_recipe :: "item list" where
  "some_recipe = [Assignment (''PV'', Assign, ''1.0''), Inherit ''base'',
     Function ''do_install'' [''    echo {'', '''', ''    }''] False True,
     Function ''do_unpack'' [''    x = {}''] True False, Assignment (''RDEPENDS:${PN}'', Append, ''bash'')]"

theorem recipe_read_back_witness:
  "bb_lines 0 (recipe_file some_recipe) ''a.bb'' ''a.bb'' (start_state None '''') =
    Inr ((start_state None '''') \<lparr> statements := numbered_items ''a.bb'' 0 some_recipe \<rparr>)"
proof -
  have "list_all item_ok some_recipe" by code_simp
  then show ?thesis by (intro recipe_read_back) (simp add: list_all_iff)
qed

subsection \<open>Lines that surprise\<close>

text \<open>A task whose name holds \<open>after\<close> is torn in two.\<close>

lemma task_name_torn:
  "re_match addtask_regexp ''addtask a before do_after_b'' =
     Some ([(''func'', ''a''), (''before'', ''do_''), (''after'', ''_b'')], [])"
  by code_simp

text \<open>A line that is only a backslash makes the next one raise.\<close>

lemma lone_backslash_raises_too:
  "bb_lines 0 [[backslash, newline], [newline]] fn root (start_state None cls) = Inl IndexError"
  by (simp add: bb_feeder_def start_state_def feed_line_def check_residue_def residue_comment_def
      rstrip_ws_def py_isspace_def backslash_def Let_def)

end
