(* ===== verification/RecipeFiles.thy ===== *)
theory RecipeFiles
  imports RecipeLines
begin

text \<open>
  Parsing a file with all it includes and inherits: \<open>handle\<close>, \<open>include\<close> and \<open>inherit\<close> of
  \<open>ConfHandler.py\<close> and \<open>BBHandler.py\<close>, with \<open>resolve_file\<close>, \<open>mark_dependency\<close> and \<open>handle\<close> of
  \<open>bb/parse/__init__.py\<close> and \<open>which\<close> of \<open>bb/utils.py\<close>, up to the call of \<open>multi_finalize\<close>.

  The files, their time stamps (only compared) and the working directory are the parameter
  \<open>disk\<close>. An \<^const>\<open>OSError\<close> stands for a missing file. The number \<open>k\<close> bounds the nesting of
  files: a file that includes itself by way of another goes on for ever.
\<close>

subsection \<open>Paths\<close>

definition isabs :: "string \<Rightarrow> bool" where
  "isabs p \<longleftrightarrow> p \<noteq> [] \<and> hd p = slash"

definition path_join :: "string \<Rightarrow> string \<Rightarrow> string" where
  "path_join a b = (if isabs b then b else if a = [] \<or> last a = slash then a @ b else a @ slash # b)"

text \<open>\<open>os.path.dirname\<close>: what is before the last slash.\<close>

definition dirname :: "string \<Rightarrow> string" where
  "dirname p =
     (let head = rev (dropWhile (\<lambda>c. c \<noteq> slash) (rev p)) in
      if list_all (\<lambda>c. c = slash) head then head else rev (dropWhile (\<lambda>c. c = slash) (rev head)))"

text \<open>The extension of \<open>os.path.splitext\<close>: dots at the beginning of the name do not count.\<close>

definition extension :: "string \<Rightarrow> string" where
  "extension p =
     (let base = dropWhile (\<lambda>c. c = CHR ''.'') (basename p) in
      if CHR ''.'' \<in> set base then CHR ''.'' # rev (takeWhile (\<lambda>c. c \<noteq> CHR ''.'') (rev base)) else [])"

definition root_name :: "string \<Rightarrow> string" where
  "root_name base = take (length base - length (extension base)) base"

record disk =
  file_lines :: "string \<Rightarrow> string list option"
  path_exists :: "string \<Rightarrow> bool"
  stamp_of :: "string \<Rightarrow> string"
  cwd :: string
  abspath :: "string \<Rightarrow> string"

text \<open>\<open>bb.utils.which(path, item, history=True)\<close>.\<close>

fun which_in :: "disk \<Rightarrow> string list \<Rightarrow> string \<Rightarrow> string \<times> string list" where
  "which_in W [] item = ([], [])"
| "which_in W (p # ps) item =
     (let cand = path_join p item in
      if path_exists W cand then (if isabs cand then cand else abspath W cand, [cand])
      else let (r, hist) = which_in W ps item in (r, cand # hist))"

definition which :: "disk \<Rightarrow> string \<Rightarrow> string \<Rightarrow> string \<times> string list" where
  "which W path item = which_in W (split_on CHR '':'' path) item"

subsection \<open>The state of the parser\<close>

text \<open>The store, the global variables of \<open>BBHandler\<close> and its cache of statements.\<close>

record parse_state =
  store :: data_store
  handler :: bb_state
  cached_statements :: "(string, statement list) dict"

type_synonym 'a parsing = "(parse_state, 'a) comp"

definition on_store :: "'a data \<Rightarrow> 'a parsing" where
  "on_store m ps = (case m (store ps) of None \<Rightarrow> None | Some (r, s) \<Rightarrow> Some (r, ps \<lparr> store := s \<rparr>))"

text \<open>What does not change while parsing.\<close>

record setting =
  python_of :: python
  fuel :: nat
  show_value :: "dval \<Rightarrow> string"
  load_code :: loader
  disk_of :: disk

definition get_var :: "setting \<Rightarrow> string \<Rightarrow> bool \<Rightarrow> dval option parsing" where
  "get_var X var expand = on_store (getVar (python_of X) (fuel X) var expand)"

definition set_var :: "setting \<Rightarrow> string \<Rightarrow> dval \<Rightarrow> unit parsing" where
  "set_var X var v = on_store (setVar (python_of X) (fuel X) var v False)"

definition expand_text :: "setting \<Rightarrow> string \<Rightarrow> string parsing" where
  "expand_text X t = on_store (expand_name (python_of X) (fuel X) t)"

subsection \<open>Dependencies on files\<close>

text \<open>\<open>__depends\<close> lists pairs of a file and its time stamp.\<close>

definition pair_list :: "dval option \<Rightarrow> (dval \<times> string option) list result" where
  "pair_list v =
     (case v of
        Some (Ops l) \<Rightarrow> Inr l
      | Some w \<Rightarrow> if truthy w then Inl AttributeError else Inr []
      | None \<Rightarrow> Inr [])"

definition mark_dependency :: "setting \<Rightarrow> string \<Rightarrow> unit parsing" where
  "mark_dependency X f0 =
     (let W = disk_of X; f = (if startswith f0 ''./'' then cwd W @ slash # drop 2 f0 else f0) in
      seq (get_var X ''__depends'' False) (\<lambda>v.
      seq (of_result (pair_list v)) (\<lambda>deps.
      let s = (Text f, Some (stamp_of W f)) in
      if s \<in> set deps then ret () else set_var X ''__depends'' (Ops (deps @ [s])))))"

text \<open>\<open>(path or "")\<close> as the string that is split, and \<open>"%s" % path\<close>.\<close>

definition path_text :: "dval option \<Rightarrow> string result" where
  "path_text v =
     (case v of
        Some (Text t) \<Rightarrow> Inr t
      | Some w \<Rightarrow> if truthy w then Inl AttributeError else Inr []
      | None \<Rightarrow> Inr [])"

definition format_value :: "setting \<Rightarrow> dval option \<Rightarrow> string" where
  "format_value X v = (case v of None \<Rightarrow> ''None'' | Some (Text t) \<Rightarrow> t | Some w \<Rightarrow> show_value X w)"

definition is_file :: "disk \<Rightarrow> string \<Rightarrow> bool" where
  "is_file W f \<longleftrightarrow> file_lines W f \<noteq> None"

definition resolve_file :: "setting \<Rightarrow> string \<Rightarrow> string parsing" where
  "resolve_file X fn =
     seq (if isabs fn then seq (mark_dependency X fn) (\<lambda>_. ret fn)
          else
            seq (get_var X ''BBPATH'' True) (\<lambda>v.
            seq (of_result (path_text v)) (\<lambda>bbpath.
            let (newfn, attempts) = which (disk_of X) bbpath fn in
            seq (loop (\<lambda>af _. mark_dependency X af) attempts ()) (\<lambda>_.
            if newfn = [] then throw OSError else ret newfn)))) (\<lambda>fn'.
     if is_file (disk_of X) fn' then ret fn' else throw OSError)"

subsection \<open>Including and inheriting\<close>

text \<open>\<open>bb.parse.handle(fn, data, True)\<close>, one level deeper, is the parameter \<open>ph\<close>.\<close>

type_synonym nested = "string \<Rightarrow> unit parsing"

definition include_single_file :: "setting \<Rightarrow> nested \<Rightarrow> string \<Rightarrow> string \<Rightarrow> bool \<Rightarrow> unit parsing" where
  "include_single_file X ph parentfn fn required =
     (if parentfn = fn then ret ()
      else
        seq (if isabs fn then ret fn
             else
               seq (get_var X ''BBPATH'' True) (\<lambda>v.
               let (abs_fn, attempts) = which (disk_of X) (dirname parentfn @ '':'' @ format_value X v) fn in
               seq (loop (\<lambda>af _. mark_dependency X af) attempts ()) (\<lambda>_.
               ret (if abs_fn = [] then fn else abs_fn)))) (\<lambda>fn'.
        catch (ph fn') (\<lambda>e.
          if e = OSError then (if required then throw ParseError else ret ()) else throw e)))"

definition include_files :: "setting \<Rightarrow> nested \<Rightarrow> string \<Rightarrow> string \<Rightarrow> bool \<Rightarrow> unit parsing" where
  "include_files X ph parentfn fns required =
     seq (expand_text X fns) (\<lambda>t.
     seq (expand_text X parentfn) (\<lambda>parent.
     loop (\<lambda>fn _. include_single_file X ph parent fn required) (split_ws t) ()))"

text \<open>The directories \<open>classes-<type>\<close> and \<open>classes\<close> are tried in this order.\<close>

fun find_class :: "setting \<Rightarrow> string \<Rightarrow> string list \<Rightarrow> string \<Rightarrow> string parsing" where
  "find_class X origfile [] file = ret file"
| "find_class X origfile (t # ts) _ =
     (let W = disk_of X;
          file = (if \<not> isabs origfile \<and> \<not> endswith origfile ''.bbclass'' then path_join t (origfile @ ''.bbclass'')
                  else origfile) in
      seq (if isabs file then ret file
           else
             seq (get_var X ''BBPATH'' True) (\<lambda>v.
             seq (of_result (path_text v)) (\<lambda>bbpath.
             let (abs_fn, attempts) = which W bbpath file in
             seq (loop (\<lambda>af _. if af = abs_fn then ret () else mark_dependency X af) attempts ()) (\<lambda>_.
             ret (if abs_fn = [] then file else abs_fn))))) (\<lambda>file'.
      if path_exists W file' then ret file' else find_class X origfile ts file'))"

definition inherit_cache :: "setting \<Rightarrow> string list parsing" where
  "inherit_cache X = seq (get_var X ''__inherit_cache'' False) (\<lambda>v. of_result (list_or_empty v))"

definition inherit_class :: "setting \<Rightarrow> nested \<Rightarrow> string \<Rightarrow> string list \<Rightarrow> string list parsing" where
  "inherit_class X ph origfile cache =
     seq (get_var X ''__bbclasstype'' False) (\<lambda>classtype.
     seq (case classtype of Some (Text t) \<Rightarrow> ret t | _ \<Rightarrow> throw TypeError) (\<lambda>t.
     seq (find_class X origfile [''classes-'' @ t, ''classes''] origfile) (\<lambda>file.
     if \<not> path_exists (disk_of X) file then throw ParseError
     else if file \<in> set cache then ret cache
     else
       seq (set_var X ''__inherit_cache'' (Listing (cache @ [file]))) (\<lambda>_.
       seq (catch (ph file) (\<lambda>e. if e = OSError then throw ParseError else throw e)) (\<lambda>_.
       inherit_cache X)))))"

definition inherit_files :: "setting \<Rightarrow> nested \<Rightarrow> string \<Rightarrow> unit parsing" where
  "inherit_files X ph files =
     seq (inherit_cache X) (\<lambda>cache.
     seq (expand_text X files) (\<lambda>t.
     seq (loop (\<lambda>file cache. inherit_class X ph file cache) (split_ws t) cache) (\<lambda>_. ret ())))"

text \<open>A statement: the file names of \<open>include\<close> are expanded there once more.\<close>

definition eval_statement :: "setting \<Rightarrow> nested \<Rightarrow> statement \<Rightarrow> unit parsing" where
  "eval_statement X ph st =
     (case node st of
        IncludeNode what force \<Rightarrow> seq (expand_text X what) (\<lambda>s. include_files X ph (filename st) s force)
      | InheritNode classes \<Rightarrow> inherit_files X ph classes
      | _ \<Rightarrow> on_store (eval_plain (python_of X) (fuel X) (show_value X) (load_code X) st))"

definition eval_all :: "setting \<Rightarrow> nested \<Rightarrow> statement list \<Rightarrow> unit parsing" where
  "eval_all X ph sts = loop (\<lambda>st _. eval_statement X ph st) sts ()"

subsection \<open>Handling a file\<close>

definition lines_of :: "setting \<Rightarrow> string \<Rightarrow> string list" where
  "lines_of X fn = (case file_lines (disk_of X) fn of None \<Rightarrow> [] | Some ls \<Rightarrow> ls)"

definition restore_file :: "setting \<Rightarrow> dval option \<Rightarrow> unit parsing" where
  "restore_file X oldfile = (case oldfile of None \<Rightarrow> ret () | Some v \<Rightarrow> only_if (truthy v) (set_var X ''FILE'' v))"

definition conf_handle :: "setting \<Rightarrow> nested \<Rightarrow> string \<Rightarrow> bool \<Rightarrow> unit parsing" where
  "conf_handle X ph fn incl =
     seq (if incl then get_var X ''FILE'' False else ret None) (\<lambda>oldfile.
     seq (resolve_file X fn) (\<lambda>abs_fn.
     seq (of_result (conf_statements abs_fn (lines_of X abs_fn))) (\<lambda>sts.
     seq (set_var X ''FILE'' (Text abs_fn)) (\<lambda>_.
     seq (eval_all X ph sts) (\<lambda>_. restore_file X oldfile)))))"

text \<open>
  \<open>get_statements\<close>. When a line is refused no Python function is being read any more; the other
  variables are set again for the next file.
\<close>

definition get_statements :: "setting \<Rightarrow> string \<Rightarrow> string \<Rightarrow> statement list parsing" where
  "get_statements X fn abs_fn = reading (\<lambda>ps.
     case map_of (cached_statements ps) abs_fn of
       Some sts \<Rightarrow> ret sts
     | None \<Rightarrow>
         (case bb_lines 0 (lines_of X abs_fn) fn (basename fn) (handler ps) of
            Inl e \<Rightarrow> seq (change (\<lambda>ps. ps \<lparr> handler := start_state None (classname (handler ps)) \<rparr>)) (\<lambda>_. throw e)
          | Inr st \<Rightarrow>
              seq (change (\<lambda>ps. ps \<lparr> handler := st \<lparr> statements := [] \<rparr>,
                     cached_statements := (if endswith fn ''.bbclass'' \<or> endswith fn ''.inc''
                        then dict_set abs_fn (statements st) (cached_statements ps) else cached_statements ps) \<rparr>)) (\<lambda>_.
              ret (statements st))))"

text \<open>The checks at the end of \<open>handle\<close>; the format string of the second has one value too few.\<close>

definition check_finished :: "unit parsing" where
  "check_finished = reading (\<lambda>ps.
     if infunc (handler ps) \<noteq> None then throw ParseError
     else if residue (handler ps) \<noteq> [] then throw TypeError
     else ret ())"

text \<open>The result says whether \<open>multi_finalize\<close> is called next.\<close>

definition bb_handle :: "setting \<Rightarrow> nested \<Rightarrow> string \<Rightarrow> bool \<Rightarrow> bool parsing" where
  "bb_handle X ph fn incl =
     (let base = basename fn; ext = extension base; is_class = (ext = ''.bbclass'') in
      seq (change (\<lambda>ps. ps \<lparr> handler := start_state (inpython (handler ps)) (if is_class then root_name base else []) \<rparr>)) (\<lambda>_.
      seq (if is_class then
             seq (inherit_cache X) (\<lambda>cache.
             only_if (fn \<notin> set cache) (set_var X ''__inherit_cache'' (Listing (cache @ [fn]))))
           else ret ()) (\<lambda>_.
      seq (if incl then get_var X ''FILE'' False else ret None) (\<lambda>oldfile.
      seq (resolve_file X fn) (\<lambda>abs_fn.
      seq (get_statements X fn abs_fn) (\<lambda>sts.
      seq (only_if (\<not> is_class \<and> oldfile \<noteq> Some (Text abs_fn)) (set_var X ''FILE'' (Text abs_fn))) (\<lambda>_.
      seq (catch (seq (eval_all X ph sts) (\<lambda>_. ret False)) (\<lambda>e.
             if e = SkipRecipe then seq (set_var X ''__SKIPPED'' (Truth True)) (\<lambda>_. ret True) else throw e)) (\<lambda>skipped.
      if skipped \<and> \<not> incl then ret False
      else
        seq check_finished (\<lambda>_.
        if \<not> is_class \<and> \<not> incl then ret True
        else seq (only_if (\<not> is_class \<and> oldfile \<noteq> Some (Text abs_fn)) (restore_file X oldfile)) (\<lambda>_. ret False))))))))))"

text \<open>\<open>bb.parse.handle\<close>: the handlers are asked in the order they were registered.\<close>

primrec parse_handle :: "setting \<Rightarrow> nat \<Rightarrow> string \<Rightarrow> bool \<Rightarrow> bool parsing" where
  "parse_handle X 0 fn incl = no_fuel"
| "parse_handle X (Suc k) fn incl =
     (let ph = \<lambda>f. seq (parse_handle X k f True) (\<lambda>_. ret ()) in
      if drop (length fn - 5) fn = ''.conf'' then seq (conf_handle X ph fn incl) (\<lambda>_. ret False)
      else if extension fn \<in> set [''.bb'', ''.bbclass'', ''.inc''] then bb_handle X ph fn incl
      else throw ParseError)"

subsection \<open>Parsing keeps the store well formed\<close>

definition form :: "parse_state \<Rightarrow> bool" where
  "form ps \<longleftrightarrow> well_formed (store ps)"

lemma form_on_store: "holds well_formed m \<Longrightarrow> holds form (on_store m)"
  by (auto simp: holds_def on_store_def form_def split: option.splits prod.splits)

lemma form_handler [holds_intro]:
  "holds form (change (\<lambda>ps. ps \<lparr> handler := h ps \<rparr>))"
  "holds form (change (\<lambda>ps. ps \<lparr> handler := h ps, cached_statements := c ps \<rparr>))"
  by (simp_all add: holds_def form_def)

lemma form_variables [holds_intro]:
  "holds form (get_var X var expand)"
  "holds form (set_var X var v)"
  "holds form (expand_text X t)"
  unfolding get_var_def set_var_def expand_text_def by (intro form_on_store holds_intro)+

lemma form_mark [holds_intro]: "holds form (mark_dependency X f)"
  unfolding mark_dependency_def by (auto simp del: comp_simps intro!: holds_intro)

lemma form_resolve [holds_intro]: "holds form (resolve_file X fn)"
  unfolding resolve_file_def by (auto simp del: comp_simps intro!: holds_intro)

lemma form_include_single:
  "(\<And>f. holds form (ph f)) \<Longrightarrow> holds form (include_single_file X ph parentfn fn required)"
  unfolding include_single_file_def by (auto simp del: comp_simps intro!: holds_intro)

lemma form_find_class [holds_intro]: "holds form (find_class X origfile ts f)"
  by (induction ts arbitrary: f) (auto simp: Let_def simp del: comp_simps intro!: holds_intro)

lemma form_inherit_cache [holds_intro]: "holds form (inherit_cache X)"
  unfolding inherit_cache_def by (auto simp del: comp_simps intro!: holds_intro)

lemma form_inherit_class:
  "(\<And>f. holds form (ph f)) \<Longrightarrow> holds form (inherit_class X ph origfile cache)"
  unfolding inherit_class_def by (auto simp del: comp_simps intro!: holds_intro split: dval.split)

lemma form_eval_all:
  assumes "\<And>f. holds form (ph f)"
  shows "holds form (eval_all X ph sts)"
proof -
  have "holds form (eval_statement X ph st)" for st
    using form_include_single [OF assms] form_inherit_class [OF assms]
    unfolding eval_statement_def include_files_def inherit_files_def
    by (cases "node st")
      (auto simp del: comp_simps intro!: holds_intro form_on_store statements_form)
  then show ?thesis unfolding eval_all_def by (auto simp del: comp_simps intro!: holds_intro)
qed

lemma form_restore [holds_intro]: "holds form (restore_file X v)"
  unfolding restore_file_def by (auto simp del: comp_simps intro!: holds_intro)

lemma form_get_statements [holds_intro]: "holds form (get_statements X fn abs_fn)"
  unfolding get_statements_def by (auto simp del: comp_simps intro!: holds_intro)

lemma form_check [holds_intro]: "holds form check_finished"
  unfolding check_finished_def by (auto simp del: comp_simps intro!: holds_intro)

text \<open>
  Property C20. Parsing a file, with everything it includes and inherits, keeps the tables of the
  store well formed, whether it ends normally or with an exception: every override entry names
  the variable it stands for, no entry is there twice, and the set of active overrides agrees
  with their list.
\<close>

theorem parsing_keeps_form: "holds form (parse_handle X k fn incl)"
proof (induction k arbitrary: fn incl)
  case (Suc k)
  let ?ph = "\<lambda>f. seq (parse_handle X k f True) (\<lambda>_. ret ())"
  have "holds form (?ph f)" for f
    using Suc by (auto simp del: comp_simps intro!: holds_intro)
  then have "holds form (eval_all X ?ph sts)" for sts by (rule form_eval_all)
  then show ?case
    by (auto simp: Let_def conf_handle_def bb_handle_def simp del: comp_simps intro!: holds_intro)
qed (simp add: holds_simple del: comp_simps)

subsection \<open>A function that is never closed\<close>

definition reads_no_file :: "statement \<Rightarrow> bool" where
  "reads_no_file st \<longleftrightarrow> (case node st of IncludeNode _ _ \<Rightarrow> False | InheritNode _ \<Rightarrow> False | _ \<Rightarrow> True)"

definition parser_view :: "parse_state \<Rightarrow> bb_state \<times> (string, statement list) dict" where
  "parser_view ps = (handler ps, cached_statements ps)"

lemma view_on_store [frames_intro]: "frames parser_view (on_store m)"
  by (auto simp: frames_def on_store_def parser_view_def split: option.splits)

lemma view_variables [frames_intro]:
  "frames parser_view (get_var X var expand)"
  "frames parser_view (set_var X var v)"
  unfolding get_var_def set_var_def by (rule view_on_store)+

lemma view_mark [frames_intro]: "frames parser_view (mark_dependency X f)"
  unfolding mark_dependency_def by (auto simp del: comp_simps intro!: frames_intro)

lemma view_resolve [frames_intro]: "frames parser_view (resolve_file X fn)"
  unfolding resolve_file_def by (auto simp del: comp_simps intro!: frames_intro)

lemma view_inherit_cache [frames_intro]: "frames parser_view (inherit_cache X)"
  unfolding inherit_cache_def by (auto simp del: comp_simps intro!: frames_intro)

lemma view_restore [frames_intro]: "frames parser_view (restore_file X v)"
  unfolding restore_file_def by (auto simp del: comp_simps intro!: frames_intro)

lemma keeps_view: "frames parser_view m \<Longrightarrow> gives (\<lambda>ps. parser_view ps = v) m (\<lambda>x ps. parser_view ps = v)"
  by (erule gives_frames) (erule trans)

lemma gives_fact: "(A \<Longrightarrow> gives P m Q) \<Longrightarrow> gives (\<lambda>s. A \<and> P s) m Q"
  by (auto simp: gives_def)

lemma view_handler: "parser_view ps = (h, c) \<Longrightarrow> handler ps = h" "parser_view ps = (h, c) \<Longrightarrow> cached_statements ps = c"
  by (simp_all add: parser_view_def)

lemma resolve_absolute:
  assumes "isabs fn"
  shows "gives (\<lambda>ps. parser_view ps = v) (resolve_file X fn) (\<lambda>x ps. x = fn \<and> parser_view ps = v)"
  unfolding resolve_file_def if_P [OF assms]
  by (rule gives_seq [where R = "\<lambda>x ps. x = fn \<and> parser_view ps = v"],
      rule gives_seq [OF keeps_view [OF view_mark]])
    (auto simp: gives_def split: if_splits)

lemma view_eval_all:
  assumes "\<forall>st \<in> set sts. reads_no_file st"
  shows "frames parser_view (eval_all X ph sts)"
proof -
  have "frames parser_view (eval_statement X ph st)" if "reads_no_file st" for st
    using that unfolding eval_statement_def reads_no_file_def
    by (cases "node st") (auto intro: view_on_store)
  then have "frames parser_view (loop (\<lambda>st _. eval_statement X ph st) sts u)" for u
    using assms
  proof (induction sts arbitrary: u)
    case (Cons st sts)
    then show ?case by (simp del: comp_simps) (rule frames_seq, simp_all del: comp_simps)
  qed simp
  then show ?thesis by (simp add: eval_all_def)
qed


text \<open>
  But a file that is included or inherited starts with the same variables: after it was handled
  nothing is left of a function that the file around it did not close.
\<close>

lemma nested_file_forgets_function:
  assumes "bb_handle X ph fn True ps = Some (Inr b, ps')"
  shows "infunc (handler ps') = None \<and> residue (handler ps') = []"
proof -
  let ?Q = "\<lambda>ps'. infunc (handler ps') = None \<and> residue (handler ps') = []"
  have check: "gives (\<lambda>_. True) check_finished (\<lambda>_. ?Q)"
    by (simp add: gives_def check_finished_def del: not_None_eq)
  have keep: "gives ?Q m (\<lambda>_. ?Q)" if "frames parser_view m" for m :: "unit parsing"
    by (rule gives_frames [OF that]) (simp add: parser_view_def)
  have any: "gives (\<lambda>_. True) m (\<lambda>_ _. True)" for m :: "'z parsing"
    by (simp add: gives_def)
  have "gives (\<lambda>_. True) (bb_handle X ph fn True) (\<lambda>_. ?Q)"
    unfolding bb_handle_def Let_def
    by (rule gives_seq [OF any], rule gives_seq [OF any], rule gives_seq [OF any], rule gives_seq [OF any],
        rule gives_seq [OF any], rule gives_seq [OF any], rule gives_seq [OF any],
        simp only: not_True_eq_False simp_thms if_False, rule gives_seq [OF check], rule gives_seq [OF keep],
        (auto simp del: comp_simps intro!: frames_intro)[1], simp add: gives_def)
  with assms show ?thesis by (auto dest: gives_D)
qed

definition one_file :: "string list \<Rightarrow> disk" where
  "one_file ls = \<lparr> file_lines = (\<lambda>f. if f = ''/a.inc'' then Some ls else None), path_exists = (\<lambda>f. f = ''/a.inc''),
     stamp_of = (\<lambda>f. []), cwd = ''/'', abspath = (\<lambda>f. f) \<rparr>"

definition simple_setting :: "disk \<Rightarrow> setting" where
  "simple_setting W = \<lparr> python_of = no_python, fuel = 6, show_value = (\<lambda>v. []), load_code = (\<lambda>m t f l. Inr ()),
     disk_of = W \<rparr>"

definition fresh_parser :: parse_state where
  "fresh_parser = \<lparr> store = new_store, handler = start_state None [], cached_statements = [] \<rparr>"


subsection \<open>The variable \<open>FILE\<close>\<close>

definition file_var :: "setting \<Rightarrow> dval \<Rightarrow> parse_state \<Rightarrow> bool" where
  "file_var X v ps \<longleftrightarrow> plainly ''FILE'' v (store ps)"

lemma set_file: "gives (\<lambda>_. True) (set_var X ''FILE'' v) (\<lambda>_. file_var X v)"
proof -
  have "setvar_match ''FILE'' = None" by code_simp
  note t = setVar_plainly [OF this, of "python_of X" "fuel X" v]
  show ?thesis
    by (rule gives_I) (auto simp: set_var_def on_store_def file_var_def split: option.splits dest: triple_D [OF t TrueI])
qed

lemma restore_gives:
  "old \<noteq> [] \<Longrightarrow> gives (\<lambda>_. True) (restore_file X (Some (Text old))) (\<lambda>_. file_var X (Text old))"
  using set_file [of X "Text old"] by (simp add: restore_file_def)

lemma gives_any: "gives (\<lambda>_. True) m (\<lambda>_ _. True)"
  by (simp add: gives_def)

text \<open>
  Property C40. After a configuration file, an include file or a recipe was included by another
  file, \<open>FILE\<close> names that other file again, whatever the included files set it to.
\<close>

theorem include_restores_file:
  assumes "isabs fn" and "fn \<noteq> old" and "old \<noteq> []" and "extension (basename fn) \<noteq> ''.bbclass''"
    and "getVar (python_of X) (fuel X) ''FILE'' False (store ps) = Some (Inr (Some (Text old)), s1)"
    and "parse_handle X (Suc k) fn True ps = Some (Inr b, ps')"
  shows "getVar E (Suc m) ''FILE'' False (store ps') = Some (Inr (Some (Text old)), store ps')"
proof -
  let ?ph = "\<lambda>f. seq (parse_handle X k f True) (\<lambda>_. ret ())"
  let ?P = "\<lambda>q. store q = store ps"
  let ?Q = "\<lambda>_. file_var X (Text old)"
  have old: "gives ?P (get_var X ''FILE'' False) (\<lambda>x _. x = Some (Text old) \<and> True)"
    using assms(5) by (auto simp: gives_def get_var_def on_store_def)
  note restore = restore_gives [OF assms(3), of X]
  have conf: "gives ?P (conf_handle X ?ph fn True) ?Q"
    unfolding conf_handle_def if_True
    by (rule gives_seq [OF old], rule gives_fact, simp only:,
        rule gives_seq [OF gives_any], rule gives_seq [OF gives_any], rule gives_seq [OF gives_any],
        rule gives_seq [OF gives_any], rule restore)
  have same: "Some (Text old) \<noteq> Some (Text fn)" using assms(2) by simp
  have resolve: "gives (\<lambda>_. True) (resolve_file X fn) (\<lambda>x _. x = fn \<and> True)"
    unfolding resolve_file_def if_P [OF assms(1)]
    by (auto simp: gives_def seq_Inr_iff split: if_splits)
  have last: "gives (\<lambda>_. True) (seq (restore_file X (Some (Text old))) (\<lambda>_. ret False)) ?Q"
    by (rule gives_seq [OF restore]) (rule gives_intro)
  have bb: "gives ?P (bb_handle X ?ph fn True) ?Q"
    unfolding bb_handle_def Let_def if_not_P [OF assms(4)]
    by (rule gives_seq [where R = "\<lambda>_. ?P"], rule gives_change, simp,
        rule gives_seq [where R = "\<lambda>_. ?P"], rule gives_intro, assumption,
        simp only: if_True, rule gives_seq [OF old], rule gives_fact, simp only:,
        rule gives_seq [OF resolve], rule gives_fact, simp only:,
        rule gives_seq [OF gives_any], rule gives_seq [OF gives_any], rule gives_seq [OF gives_any],
        simp only: not_True_eq_False simp_thms if_False,
        rule gives_seq [OF gives_any], simp only: assms(4) same not_False_eq_True simp_thms comp_simps, rule last)
  have "gives ?P (parse_handle X (Suc k) fn True) ?Q"
    using conf bb by (auto simp: Let_def simp del: comp_simps intro!: gives_seq [OF conf] gives_intro)
  from gives_D [OF this refl assms(6)] have "plainly ''FILE'' (Text old) (store ps')"
    by (simp add: file_var_def)
  then show ?thesis by (rule getVar_plain)
qed

subsection \<open>Files that require each other\<close>

definition circle :: "string \<Rightarrow> string list option" where
  "circle f = (if f = ''/a.conf'' then Some [''require /b.conf'' @ [newline]]
     else if f = ''/b.conf'' then Some [''require /a.conf'' @ [newline]] else None)"

lemma circle_statements:
  "conf_statements ''/a.conf'' [''require /b.conf'' @ [newline]] =
     Inr [\<lparr> filename = ''/a.conf'', lineno = 1, node = IncludeNode ''/b.conf'' True \<rparr>]"
  "conf_statements ''/b.conf'' [''require /a.conf'' @ [newline]] =
     Inr [\<lparr> filename = ''/b.conf'', lineno = 1, node = IncludeNode ''/a.conf'' True \<rparr>]"
  by code_simp+

definition never :: "'a parsing \<Rightarrow> bool" where
  "never m \<longleftrightarrow> (\<forall>ps x ps'. m ps \<noteq> Some (Inr x, ps'))"

lemma never_seq: "never m \<Longrightarrow> never (seq m f)" "(\<And>x. never (f x)) \<Longrightarrow> never (seq m f)"
  by (auto simp: never_def seq_Inr_iff)

lemma never_catch: "never m \<Longrightarrow> (\<And>e. never (h e)) \<Longrightarrow> never (catch m h)"
  by (auto simp: never_def catch_def split: option.splits sum.splits prod.splits)

lemma never_gives: "gives (\<lambda>_. True) m (\<lambda>x _. R x) \<Longrightarrow> (\<And>x. R x \<Longrightarrow> never (f x)) \<Longrightarrow> never (seq m f)"
  unfolding never_def gives_def by (auto simp: seq_Inr_iff) blast

lemma expand_text_plain:
  assumes "\<not> str_in ''${'' t"
  shows "gives (\<lambda>_. True) (expand_text X t) (\<lambda>x _. x = t)"
proof (cases "fuel X")
  case 0
  then show ?thesis
    using assms by (auto simp: gives_def expand_text_def on_store_def expand_name_def expand_value_def
        expandWithRefs_def seq_def split: option.splits)
next
  case (Suc n)
  then show ?thesis
    using expand_name_plain [OF assms] by (auto simp: gives_def expand_text_def on_store_def)
qed

lemma never_require:
  assumes "isabs fn" and "fn \<noteq> parent" and "split_ws fn = [fn]" and "\<not> str_in ''${'' fn" and "\<not> str_in ''${'' parent"
    and "never (ph fn)"
  shows "never (eval_all X ph [\<lparr> filename = parent, lineno = n, node = IncludeNode fn True \<rparr>])"
proof -
  have "never (include_single_file X ph parent fn True)"
    using assms by (simp add: include_single_file_def del: comp_simps)
      (rule never_catch, auto simp: never_def)
  then have "never (include_files X ph parent fn True)"
    unfolding include_files_def
    by (intro never_gives [OF expand_text_plain [OF assms(4)]] never_gives [OF expand_text_plain [OF assms(5)]])
      (simp add: assms(3) never_seq(1) del: comp_simps)
  then have "never (eval_statement X ph \<lparr> filename = parent, lineno = n, node = IncludeNode fn True \<rparr>)"
    unfolding eval_statement_def by simp (intro never_gives [OF expand_text_plain [OF assms(4)]], simp)
  then show ?thesis by (simp add: eval_all_def never_seq(1) del: comp_simps)
qed

text \<open>
  A file is only kept from including itself directly: two files that require each other are
  never done, at any depth.
\<close>

lemma mutual_require_never_ends:
  assumes "file_lines (disk_of X) = circle" and "fn = ''/a.conf'' \<or> fn = ''/b.conf''"
  shows "never (parse_handle X k fn incl)"
  using assms(2)
proof (induction k arbitrary: fn incl)
  case 0
  then show ?case by (simp add: never_def)
next
  case (Suc k)
  let ?ph = "\<lambda>f. seq (parse_handle X k f True) (\<lambda>_. ret ())"
  have ph: "never (?ph ''/a.conf'')" "never (?ph ''/b.conf'')"
    by (rule never_seq(1), rule Suc.IH, simp)+
  have fn: "isabs fn" using Suc.prems by (auto simp: isabs_def slash_def)
  have resolve: "gives (\<lambda>_. True) (resolve_file X fn) (\<lambda>x _. x = fn)"
    unfolding resolve_file_def if_P [OF fn] by (auto simp: gives_def seq_Inr_iff split: if_splits)
  have words: "split_ws ''/a.conf'' = [''/a.conf'']" "split_ws ''/b.conf'' = [''/b.conf'']"
    by code_simp+
  obtain sts where sts: "conf_statements fn (lines_of X fn) = Inr sts" "never (eval_all X ?ph sts)"
  proof (cases "fn = ''/a.conf''")
    case True
    then have "conf_statements fn (lines_of X fn) = Inr [\<lparr> filename = ''/a.conf'', lineno = 1, node = IncludeNode ''/b.conf'' True \<rparr>]"
      by (simp only: lines_of_def assms(1)) (simp add: circle_def circle_statements del: append.simps)
    then show ?thesis
      by (rule that) (rule never_require, simp_all add: isabs_def slash_def words ph)
  next
    case False
    with Suc.prems have "conf_statements fn (lines_of X fn) = Inr [\<lparr> filename = ''/b.conf'', lineno = 1, node = IncludeNode ''/a.conf'' True \<rparr>]"
      by (simp only: lines_of_def assms(1)) (simp add: circle_def circle_statements del: append.simps)
    then show ?thesis
      by (rule that) (rule never_require, simp_all add: isabs_def slash_def words ph)
  qed
  have "never (conf_handle X ?ph fn incl)"
    unfolding conf_handle_def
    by (rule never_seq(2), rule never_gives [OF resolve], simp only:, simp only: sts(1),
        rule never_gives [where R = "\<lambda>x. x = sts"], simp add: gives_def, simp only:,
        rule never_seq(2), rule never_seq(1), rule sts(2))
  then show ?case
    using Suc.prems by (auto simp: Let_def never_seq(1) simp del: comp_simps)
qed

subsection \<open>Parsers that fit\<close>

definition returned :: "((py_error + 'a) \<times> 's) option \<Rightarrow> bool" where
  "returned r = (case r of Some (Inr _, _) \<Rightarrow> True | _ \<Rightarrow> False)"

lemma returned_D: "returned r \<Longrightarrow> \<exists>x s. r = Some (Inr x, s)"
  by (auto simp: returned_def split: option.splits prod.splits sum.splits)

definition including_parser :: parse_state where
  "including_parser = fresh_parser \<lparr> store := new_store \<lparr> local_vars := [(''FILE'', [(''_content'', Text ''/b.conf'')])] \<rparr> \<rparr>"

lemma including_runs:
  "returned (parse_handle (simple_setting (one_file [assignment_line (''FILE'', Assign, ''x'') @ [newline]])) 1 ''/a.inc'' True
     including_parser)"
  by code_simp

theorem include_restores_file_witness:
  "\<exists>b ps'. parse_handle (simple_setting (one_file [assignment_line (''FILE'', Assign, ''x'') @ [newline]])) 1 ''/a.inc'' True
       including_parser = Some (Inr b, ps')
     \<and> getVar no_python 1 ''FILE'' False (store ps') = Some (Inr (Some (Text ''/b.conf'')), store ps')"
proof -
  let ?X = "simple_setting (one_file [assignment_line (''FILE'', Assign, ''x'') @ [newline]])"
  obtain b ps' where r: "parse_handle ?X (Suc 0) ''/a.inc'' True including_parser = Some (Inr b, ps')"
    using returned_D [OF including_runs] by auto
  have g: "gives_value (getVar (python_of ?X) (fuel ?X) ''FILE'' False (store including_parser))"
    by code_simp
  have v: "map_option fst (getVar (python_of ?X) (fuel ?X) ''FILE'' False (store including_parser)) =
      Some (Inr (Some (Text ''/b.conf'')))"
    by code_simp
  obtain s1 where s1: "getVar (python_of ?X) (fuel ?X) ''FILE'' False (store including_parser) =
      Some (Inr (Some (Text ''/b.conf'')), s1)"
    using v by auto
  have e: "isabs ''/a.inc''" "''/a.inc'' \<noteq> ''/b.conf''" "''/b.conf'' \<noteq> []" "extension (basename ''/a.inc'') \<noteq> ''.bbclass''"
    by code_simp+
  from include_restores_file [OF e s1 r, of no_python 0] r show ?thesis by auto
qed

text \<open>A recipe that inherits a class and does not close its function is handled to its end.\<close>

definition class_disk :: disk where
  "class_disk = \<lparr> file_lines = (\<lambda>f. if f = ''/a.bb'' then Some [''inherit c'' @ [newline], ''do_x() {'' @ [newline]]
       else if f = ''/classes/c.bbclass'' then Some [] else None),
     path_exists = (\<lambda>f. f = ''/classes/c.bbclass''), stamp_of = (\<lambda>f. []), cwd = ''/'', abspath = (\<lambda>f. f) \<rparr>"

definition class_parser :: parse_state where
  "class_parser = fresh_parser \<lparr> store := new_store \<lparr> local_vars :=
     [(''BBPATH'', [(''_content'', Text ''/'')]), (''__bbclasstype'', [(''_content'', Text ''recipe'')])] \<rparr> \<rparr>"

lemma open_function_lost:
  "map_option fst (parse_handle (simple_setting class_disk) 2 ''/a.bb'' False class_parser) = Some (Inr True)"
  by code_simp

end
