(* ===== verification/Spec2Isabelle.thy ===== *)
theory Spec2Isabelle
  imports Versions Deps PRTable RunQueueTid RunQueueWeights RunQueueChains Scheduler RecipeCache Providers TaskData RunQueueDeps RunQueuePrepare SceneQueue RunQueueExec RunQueueSteps DataLaws VarDeps SigGen SigDump AsyncRpc HashServ HashEquiv RecipeFiles
begin

text \<open>
  The repository is a tree of OpenBMC layers built by BitBake, and the logic of the build is
  Python under \<open>src/poky/bitbake/lib\<close>. This development models the part that decides what is
  built, in which version and in which order: the comparison of versions and the parsing of
  dependency strings, the variable store, the parser of recipes and configuration files, the recipe cache, the choice of providers, the task
  database, the signatures of tasks, the run queue from the dependency graph to the running build, the service that
  hands out package revisions, and the server that declares the outputs of tasks equivalent.

  \<^bold>\<open>How the parts interact.\<close> The parser reads a recipe and the files it names and
  evaluates their statements on the variable store, which then holds what the recipe says, with
  the list of its tasks. A parsed recipe becomes a record of facts in the recipe cache. \<open>TaskData\<close> starts from the targets, asks the providers
  module for a recipe of each name and adds what these depend on, until nothing is left to
  resolve or the failures are settled. \<open>RunQueueData.prepare\<close> turns tasks and their declared
  dependencies into a graph, keeps what the targets need, refuses cycles, weighs the tasks for
  the schedulers, and has every task hashed after what it depends on. \<open>RunQueueExecute\<close> first
  decides which tasks a scene queue task covers, then sends tasks to workers as their
  dependencies complete, and reacts to reports of completion, failure and new hashes.

  \<^bold>\<open>Theories, and the files they model.\<close>

  \<^item> \<open>Prelude\<close>, \<open>PyStr\<close>: exceptions, dictionaries in insertion order, sets as lists without
    duplicates, and methods of strings, with the lemmas all components share.
  \<^item> \<open>Runs\<close>, \<open>StateRuns\<close>: code that changes a state and may raise, without and with a value. An
    exception keeps the changes made before it. Both have rules of partial correctness; in
    \<open>Runs\<close>, \<open>ends\<close> also says that the fuel was enough.
  \<^item> \<open>Versions\<close>, \<open>Deps\<close>: \<open>explode_version\<close>, \<open>vercmp\<close> and their relatives, and \<open>explode_deps\<close>,
    \<open>explode_dep_versions2\<close> and \<open>join_deps\<close> of \<open>bb/utils.py\<close>. The comparison is related to a linear
    order on exploded versions; parsing inverts printing.
  \<^item> \<open>Stores\<close>: locales for the contract of a server that keeps values (a value never falls, or never
    changes), with what they say about sessions of requests. \<open>PRTable\<close>: the table and the request
    handlers of \<open>prserv/db.py\<close> and \<open>serv.py\<close>, an interpretation of either contract depending on its
    mode.
  \<^item> \<open>DataStore\<close>, \<open>DataRead\<close>, \<open>DataWrite\<close>, \<open>DataLaws\<close>: \<open>bb/data_smart.py\<close> with \<open>expandKeys\<close> and
    \<open>inheritFromOS\<close> of \<open>bb/data.py\<close>. The first has the layers, the patterns and the override
    tables, the next two the readers and the writers. The locale \<open>reader\<close> says that a getter keeps
    a property of the store, and proves that all readers and the next level of calls then keep
    it; it is interpreted on \<open>getVarFlag\<close> for the variables themselves, for the tables and for
    their form. The laws: a value set reads back, the last override wins, removed words are gone,
    the tables keep their form; and corner cases where the code does something odd.
  \<^item> \<open>DataPlain\<close>: what reading and writing amount to for variables that overrides and the
    operators in names do not concern. \<open>RecipeTasks\<close>: the tasks of a recipe, \<open>addtask\<close>, \<open>deltask\<close>,
    \<open>add_tasks\<close> and \<open>preceedtask\<close> of \<open>bb/build.py\<close>. The statements refine operations on a table of
    tasks, and \<open>add_tasks\<close> passes that table on.
  \<^item> \<open>Statements\<close>: the statement classes of \<open>bb/parse/ast.py\<close> and their evaluation, with the meaning
    of the assignment operators. \<open>PyRegex\<close>: a backtracking matcher for the part of \<open>re\<close> that the
    parser uses. \<open>ConfLines\<close>, \<open>RecipeLines\<close>: the expressions and feeders of
    \<open>bb/parse/parse_py/ConfHandler.py\<close> and \<open>BBHandler.py\<close>; a configuration file of assignments means
    what its operators say, and a recipe is read back as its statements.
  \<^item> \<open>RecipeFiles\<close>: \<open>handle\<close>, \<open>include\<close> and \<open>inherit\<close> of both, with \<open>bb/parse/__init__.py\<close>. Parsing
    keeps the store well formed, reports an open function and restores the name of the file; how a
    nested file resets the state of the reader is there too.
  \<^item> \<open>VarDeps\<close>: the dependencies of variables and the base hashes of tasks in \<open>bb/data.py\<close>. What is
    recorded for a task is exactly what it reaches, ignored variables do not count, and the tables
    of dependencies are complete.
  \<^item> \<open>SigGen\<close>: the signature generators of \<open>bb/siggen.py\<close>. The locale \<open>unihash_source\<close> is the method
    that the classes override; both versions are interpreted, and a run queue can always be hashed.
  \<^item> \<open>SigDump\<close>: signature files. The hashes that are worked out again from a file agree with the
    first ones, which other code computed.
  \<^item> \<open>AsyncRpc\<close>: the message layer \<open>bb/asyncrpc\<close> of both servers. A connection refines a sequence of
    requests to the dispatcher, however the messages are cut into chunks.
  \<^item> \<open>HashServ\<close>, \<open>HashEquiv\<close>: the hash equivalence server \<open>hashserv/server.py\<close>, whose unihashes never
    change, and builders of \<open>SigGen\<close> connected to it, which come to agree.
  \<^item> \<open>RecipeCache\<close>, \<open>Providers\<close>: virtual file names and the indices of \<open>bb/cache.py\<close>, and the choice
    of versions and providers of \<open>bb/providers.py\<close>.
  \<^item> \<open>TaskData\<close>: \<open>bb/taskdata.py\<close>. The failure of a target is propagated to all that depends on it;
    an invariant says so for every reachable database in continue mode.
  \<^item> \<open>RunQueueTid\<close>, \<open>RunQueueState\<close>: task identifiers, entries and statistics, and the fields of a
    build, all of \<open>bb/runqueue.py\<close>, as the theories below.
  \<^item> \<open>RunQueueDeps\<close>, \<open>RunQueuePrepare\<close>: \<open>RunQueueData.prepare\<close>, step A (which task depends on which,
    with recursive dependencies) and steps B to D (what is kept, reverse dependencies, hashing).
  \<^item> \<open>RunQueueWeights\<close>, \<open>RunQueueChains\<close>, \<open>Scheduler\<close>: the weights that also detect cycles, the report
    of cycles, and the three schedulers.
  \<^item> \<open>SceneQueue\<close>, \<open>RunQueueExec\<close>: stamps, the scene queue and its operations, and the operations of
    \<open>RunQueueExecute\<close> up to \<open>execute\<close>, with the running part of \<open>_execute_runqueue\<close>.
  \<^item> \<open>RunQueueSteps\<close>: builds as an inductive relation, each step a call of \<open>_execute_runqueue\<close> with any
    world outside. The invariant of reachable builds gives: no task before its dependencies, no
    more tasks than threads, none twice, and a complete build has completed every task.
\<close>

text \<open>
  \<^bold>\<open>Conventions.\<close> A class is a record with the fields it has in the code, a method a function of
  the record under its own name where the name is free. A Python set is a list without
  duplicates: the order of iteration, arbitrary in Python, is the order of the list, and
  theorems hold for any list. Characters are code points below 256. What the sources call but
  do not define is a parameter: the file system (\<open>disk\<close> for the parser), the loading of Python code (\<open>load_code\<close>), the
  text of values that are no strings (\<open>show_value\<close>), stamp names, regular expressions of the user,
  the functions of the metadata, inline Python, the hash equivalence server, the reports of workers.
  The run queue takes any signature generator; \<open>SigGen\<close> puts in the one of the code. Messages, logs, events and progress are left out.

  \<^bold>\<open>Fuel.\<close> Recursion that does not go down a list takes fuel, and running out is the value
  \<^const>\<open>None\<close>. The bounds: \<open>mark_fuel\<close>, \<open>done_fuel\<close> and \<open>depdata_fuel\<close> are the number of tasks and a
  small constant, since each level or turn marks a task that was not marked; \<open>endpoint_fuel\<close> and
  \<open>stamp_fuel\<close> are so too, since a round or call goes one step down the dependencies of an acyclic
  graph; \<open>sq_fuel\<close> is the number of scene queue tasks and two; \<open>recr_fuel\<close> is the number of tasks
  times that of recursive tasks, since each turn adds a task to one of these; \<open>fail_fuel\<close> is the
  number of files and two, since each call fails another file. That the fuel is enough is a
  theorem for \<open>prepare\<close> and all its parts, the weights, the recursive dependencies and
  \<open>remove_buildtarget\<close>; the theorems on running builds speak of the steps that return.
  In the variable store the number bounds the levels of calls of \<open>getVarFlag\<close> and the
  turns of the loops; variables that refer to each other in a cycle use up any number, where
  Python stops at its recursion limit. The first number of \<open>parse_handle\<close> bounds the nesting of
  files; two files that require each other exceed any, as a lemma shows.

  \<^bold>\<open>Not modelled.\<close> \<open>fetch2\<close>, \<open>cooker\<close>, \<open>server\<close>, \<open>process\<close>, \<open>command\<close>, \<open>tinfoil\<close>, \<open>ui\<close>, the rest of \<open>build\<close> and
  \<open>event\<close> are processes, network and files around this core; the parsers of code (\<open>codeparser\<close>,
  \<open>pysh\<close>, \<open>ply\<close>) are not modelled; \<open>COW\<close> is a representation
  of dictionaries by class attributes whose effect is that of the value semantics used here. In
  the modelled files: the end of parsing (\<open>finalize\<close>, anonymous functions, variants and appended
  files), worker processes and pipes, \<open>dump_data\<close> and the other printing code, the
  history of variables (off unless asked for), \<open>expandVarref\<close> and \<open>get_hash\<close>, column metadata and lock
  retries of the revision table, pickled caches, the comparison of signature files, sockets and event
  loops of the servers and their statistics. The libraries under \<open>meta/lib\<close> and
  \<open>scripts/lib\<close>, tests, and vendored packages are outside the core.
\<close>

end
